(* ===== verification/Prelude.thy ===== *)
theory Prelude
  imports Main "HOL-Library.Word"
begin

text \<open>
  Shared vocabulary of the development: the machine types of include/types.h, the status codes of
  include/macro.h, and generic facts on lists and 32-bit words that several components use.  The
  collections declared here gather the unfolding rules each layer hands to the next one.
\<close>

unbundle bit_operations_syntax

section \<open>Machine types and status codes\<close>

text \<open>The fixed-width integers of include/types.h; an address is a 32-bit word.\<close>

type_synonym u8 = "8 word"
type_synonym u16 = "16 word"
type_synonym u32 = "32 word"
type_synonym addr = "32 word"

text \<open>The null pointer and the status codes of include/macro.h.  \<open>STATUS\<close> is the C \<open>int\<close>.\<close>

abbreviation (input) NULL :: addr where
  "NULL \<equiv> 0"

abbreviation (input) OK :: int where
  "OK \<equiv> 0"

abbreviation (input) ERR :: int where
  "ERR \<equiv> - 1"

abbreviation (input) ERR_HARDWARE :: int where
  "ERR_HARDWARE \<equiv> - 2"

abbreviation (input) ERR_SOFTWARE :: int where
  "ERR_SOFTWARE \<equiv> - 3"

abbreviation (input) ERR_BAD_PARAM :: int where
  "ERR_BAD_PARAM \<equiv> - 4"

abbreviation (input) ERR_TIMEOUT :: int where
  "ERR_TIMEOUT \<equiv> - 5"

abbreviation (input) ERR_DEVICE_BUSY :: int where
  "ERR_DEVICE_BUSY \<equiv> - 6"

abbreviation (input) ERR_NO_MEMERY :: int where
  "ERR_NO_MEMERY \<equiv> - 7"

abbreviation (input) ERR_BAD_ID :: int where
  "ERR_BAD_ID \<equiv> - 8"

section \<open>Collections\<close>

named_theorems ring_simps \<open>primitive operations of the intrusive lists\<close>
named_theorems os_defs \<open>small-step definitions of the kernel model\<close>

section \<open>Generic lemmas\<close>

lemma neq_Nil_hd_tl: "xs \<noteq> [] \<Longrightarrow> xs = hd xs # tl xs"
  by simp

lemma distinct_remove1_not_in: "distinct xs \<Longrightarrow> x \<notin> set (remove1 x xs)"
  by (induction xs) auto

lemma remove1_append_mid: "x \<notin> set us \<Longrightarrow> remove1 x (us @ x # vs) = us @ vs"
  by (simp add: remove1_append)

lemma distinct_split_unique:
  assumes "x \<in> set xs"
  obtains us vs where "xs = us @ x # vs" and "x \<notin> set us"
  using assms by (meson split_list_first)

lemma word_add_left_cancel_iff: "(c::'a::len word) + a = c + b \<longleftrightarrow> a = b"
  by simp

lemma unat_of_nat_small: "n < 2 ^ 32 \<Longrightarrow> unat (of_nat n :: u32) = n"
  by (simp add: unsigned_of_nat take_bit_nat_eq_self)

lemma unat_less_2p32: "unat (x::u32) < 4294967296"
  using unsigned_less [of x] by simp

lemma of_nat_inj32: "i < 2 ^ 32 \<Longrightarrow> j < 2 ^ 32 \<Longrightarrow> (of_nat i :: u32) = of_nat j \<longleftrightarrow> i = j"
  by (metis unat_of_nat_small)

lemma sint_unat_small:
  assumes "unat (x :: u32) < 2 ^ 31"
  shows "sint x = int (unat x)"
proof -
  have "int (unat x) < int (2 ^ 31)" using assms by (simp only: of_nat_less_iff)
  then have "int (unat x) < 2 ^ 31" by (simp only: of_nat_power of_nat_numeral)
  then have "signed_take_bit 31 (int (unat x)) = int (unat x)" by (intro signed_take_bit_int_eq_self) (simp_all add: order_trans [OF _ unsigned_greater_eq])
  then show ?thesis unfolding sint_uint uint_nat by simp
qed

lemma mod_back:
  assumes "0 < (L::nat)"
  shows "((u + j) mod L + L - u mod L) mod L = j mod L"
proof -
  have "u mod L < L" using assms by simp
  then have "(u + j) mod L + L - u mod L = (u + j) mod L + (L - u mod L)" by simp
  also have "\<dots> mod L = (u + j + (L - u mod L)) mod L" by (simp add: mod_add_left_eq)
  also have "u + j + (L - u mod L) = j + L + L * (u div L)"
    using \<open>u mod L < L\<close> mult_div_mod_eq [of L u] by linarith
  also have "\<dots> mod L = j mod L" by simp
  finally show ?thesis .
qed

lemma upt_split_add: "[0..<c + n] = [0..<c] @ map (\<lambda>j. c + j) [0..<n]"
  by (induction n) simp_all

lemma word_mult_of_nat: "(x :: u32) * y = of_nat (unat x * unat y)"
  by simp

end
