(* ===== verification/ListLib.thy ===== *)
theory ListLib
  imports Prelude
begin

text \<open>
  library/link/list.h: the intrusive circular lists on which every queue of the kernel is built.
  The memory of the \<open>struct list_head\<close> cells is a pair of field maps from cell addresses.  A
  list is described by the predicate \<open>dlist s h xs\<close>: starting at the head cell \<open>h\<close> the
  \<open>next\<close> links visit \<open>xs\<close> and return to \<open>h\<close>, the \<open>prev\<close> links run backwards.  For each
  operation there is the list operation it implements and the frame rule that says which
  cells it leaves alone.
\<close>

section \<open>Cells and operations\<close>

text \<open>The fields \<open>next\<close> and \<open>prev\<close> of every \<open>struct list_head\<close>.\<close>

record list_head =
  nxt :: "addr \<Rightarrow> addr"
  prv :: "addr \<Rightarrow> addr"

definition set_next :: "addr \<Rightarrow> addr \<Rightarrow> 'a list_head_scheme \<Rightarrow> 'a list_head_scheme" where
  "set_next a v s = s\<lparr>nxt := (nxt s)(a := v)\<rparr>"

definition set_prev :: "addr \<Rightarrow> addr \<Rightarrow> 'a list_head_scheme \<Rightarrow> 'a list_head_scheme" where
  "set_prev a v s = s\<lparr>prv := (prv s)(a := v)\<rparr>"

definition INIT_LIST_HEAD :: "addr \<Rightarrow> 'a list_head_scheme \<Rightarrow> 'a list_head_scheme" where
  "INIT_LIST_HEAD list s = (let s = set_next list list s in set_prev list list s)"

text \<open>\<open>__list_add\<close> and \<open>__list_del\<close>.\<close>

definition list_add_between :: "addr \<Rightarrow> addr \<Rightarrow> addr \<Rightarrow> 'a list_head_scheme \<Rightarrow> 'a list_head_scheme" where
  "list_add_between new prev next s =
     (let s = set_prev next new s;
          s = set_next new next s;
          s = set_prev new prev s
      in set_next prev new s)"

definition list_add :: "addr \<Rightarrow> addr \<Rightarrow> 'a list_head_scheme \<Rightarrow> 'a list_head_scheme" where
  "list_add new head s = list_add_between new head (nxt s head) s"

definition list_add_tail :: "addr \<Rightarrow> addr \<Rightarrow> 'a list_head_scheme \<Rightarrow> 'a list_head_scheme" where
  "list_add_tail new head s = list_add_between new (prv s head) head s"

definition list_del_between :: "addr \<Rightarrow> addr \<Rightarrow> 'a list_head_scheme \<Rightarrow> 'a list_head_scheme" where
  "list_del_between prev next s = (let s = set_prev next prev s in set_next prev next s)"

definition list_del_entry :: "addr \<Rightarrow> 'a list_head_scheme \<Rightarrow> 'a list_head_scheme" where
  "list_del_entry entry s = list_del_between (prv s entry) (nxt s entry) s"

definition list_del :: "addr \<Rightarrow> 'a list_head_scheme \<Rightarrow> 'a list_head_scheme" where
  "list_del entry s = list_del_between (prv s entry) (nxt s entry) s"

definition list_replace :: "addr \<Rightarrow> addr \<Rightarrow> 'a list_head_scheme \<Rightarrow> 'a list_head_scheme" where
  "list_replace old new s =
     (let s = set_next new (nxt s old) s;
          s = set_prev (nxt s new) new s;
          s = set_prev new (prv s old) s
      in set_next (prv s new) new s)"

definition list_replace_init :: "addr \<Rightarrow> addr \<Rightarrow> 'a list_head_scheme \<Rightarrow> 'a list_head_scheme" where
  "list_replace_init old new s = (let s = list_replace old new s in INIT_LIST_HEAD old s)"

definition list_del_init :: "addr \<Rightarrow> 'a list_head_scheme \<Rightarrow> 'a list_head_scheme" where
  "list_del_init entry s = (let s = list_del_entry entry s in INIT_LIST_HEAD entry s)"

definition list_move :: "addr \<Rightarrow> addr \<Rightarrow> 'a list_head_scheme \<Rightarrow> 'a list_head_scheme" where
  "list_move list head s = (let s = list_del_entry list s in list_add list head s)"

definition list_move_tail :: "addr \<Rightarrow> addr \<Rightarrow> 'a list_head_scheme \<Rightarrow> 'a list_head_scheme" where
  "list_move_tail list head s = (let s = list_del_entry list s in list_add_tail list head s)"

definition list_is_last :: "addr \<Rightarrow> addr \<Rightarrow> 'a list_head_scheme \<Rightarrow> bool" where
  "list_is_last list head s \<longleftrightarrow> nxt s list = head"

definition list_empty :: "addr \<Rightarrow> 'a list_head_scheme \<Rightarrow> bool" where
  "list_empty head s \<longleftrightarrow> nxt s head = head"

definition list_empty_careful :: "addr \<Rightarrow> 'a list_head_scheme \<Rightarrow> bool" where
  "list_empty_careful head s = (let next = nxt s head in next = head \<and> next = prv s head)"

definition list_rotate_left :: "addr \<Rightarrow> 'a list_head_scheme \<Rightarrow> 'a list_head_scheme" where
  "list_rotate_left head s =
     (if \<not> list_empty head s then (let first = nxt s head in list_move_tail first head s) else s)"

definition list_is_singular :: "addr \<Rightarrow> 'a list_head_scheme \<Rightarrow> bool" where
  "list_is_singular head s \<longleftrightarrow> \<not> list_empty head s \<and> nxt s head = prv s head"

definition list_cut_between :: "addr \<Rightarrow> addr \<Rightarrow> addr \<Rightarrow> 'a list_head_scheme \<Rightarrow> 'a list_head_scheme" where
  "list_cut_between list head entry s =
     (let new_first = nxt s entry;
          s = set_next list (nxt s head) s;
          s = set_prev (nxt s list) list s;
          s = set_prev list entry s;
          s = set_next entry list s;
          s = set_next head new_first s
      in set_prev new_first head s)"

definition list_cut_position :: "addr \<Rightarrow> addr \<Rightarrow> addr \<Rightarrow> 'a list_head_scheme \<Rightarrow> 'a list_head_scheme" where
  "list_cut_position list head entry s =
     (if list_empty head s then s
      else if list_is_singular head s \<and> (nxt s head \<noteq> entry \<and> head \<noteq> entry) then s
      else if entry = head then INIT_LIST_HEAD list s
      else list_cut_between list head entry s)"

definition list_splice_between :: "addr \<Rightarrow> addr \<Rightarrow> addr \<Rightarrow> 'a list_head_scheme \<Rightarrow> 'a list_head_scheme" where
  "list_splice_between list prev next s =
     (let first = nxt s list;
          last = prv s list;
          s = set_prev first prev s;
          s = set_next prev first s;
          s = set_next last next s
      in set_prev next last s)"

definition list_splice :: "addr \<Rightarrow> addr \<Rightarrow> 'a list_head_scheme \<Rightarrow> 'a list_head_scheme" where
  "list_splice list head s =
     (if \<not> list_empty list s then list_splice_between list head (nxt s head) s else s)"

definition list_splice_tail :: "addr \<Rightarrow> addr \<Rightarrow> 'a list_head_scheme \<Rightarrow> 'a list_head_scheme" where
  "list_splice_tail list head s =
     (if \<not> list_empty list s then list_splice_between list (prv s head) head s else s)"

definition list_splice_init :: "addr \<Rightarrow> addr \<Rightarrow> 'a list_head_scheme \<Rightarrow> 'a list_head_scheme" where
  "list_splice_init list head s =
     (if \<not> list_empty list s then
        (let s = list_splice_between list head (nxt s head) s in INIT_LIST_HEAD list s)
      else s)"

definition list_splice_tail_init :: "addr \<Rightarrow> addr \<Rightarrow> 'a list_head_scheme \<Rightarrow> 'a list_head_scheme" where
  "list_splice_tail_init list head s =
     (if \<not> list_empty list s then
        (let s = list_splice_between list (prv s head) head s in INIT_LIST_HEAD list s)
      else s)"

text \<open>
  \<open>list_for_each\<close> as the sequence of cursor values; the walk of a list that does not
  return to its head does not end, so it takes fuel.
\<close>

fun list_for_each :: "nat \<Rightarrow> addr \<Rightarrow> addr \<Rightarrow> 'a list_head_scheme \<Rightarrow> addr list option" where
  "list_for_each 0 pos head s = (if pos \<noteq> head then None else Some [])"
| "list_for_each (Suc n) pos head s =
     (if pos \<noteq> head then map_option ((#) pos) (list_for_each n (nxt s pos) head s) else Some [])"

lemmas [ring_simps] =
  set_next_def set_prev_def INIT_LIST_HEAD_def list_add_between_def list_add_def list_add_tail_def
  list_del_between_def list_del_entry_def list_del_def Let_def

section \<open>The abstraction\<close>

text \<open>\<open>seg\<close>: from cell \<open>a\<close> through \<open>xs\<close> to cell \<open>b\<close>, both directions.\<close>

fun seg :: "(addr \<Rightarrow> addr) \<Rightarrow> (addr \<Rightarrow> addr) \<Rightarrow> addr \<Rightarrow> addr list \<Rightarrow> addr \<Rightarrow> bool" where
  "seg n p a [] b \<longleftrightarrow> n a = b \<and> p b = a"
| "seg n p a (x # xs) b \<longleftrightarrow> n a = x \<and> p x = a \<and> seg n p x xs b"

definition dlist :: "'a list_head_scheme \<Rightarrow> addr \<Rightarrow> addr list \<Rightarrow> bool" where
  "dlist s h xs \<longleftrightarrow> distinct (h # xs) \<and> seg (nxt s) (prv s) h xs h"

lemma nxt_set_next [simp]: "nxt (set_next a v s) = (nxt s)(a := v)"
  by (simp add: set_next_def)

lemma prv_set_next [simp]: "prv (set_next a v s) = prv s"
  by (simp add: set_next_def)

lemma nxt_set_prev [simp]: "nxt (set_prev a v s) = nxt s"
  by (simp add: set_prev_def)

lemma prv_set_prev [simp]: "prv (set_prev a v s) = (prv s)(a := v)"
  by (simp add: set_prev_def)

lemma more_set [simp]:
  "list_head.more (set_next a v s) = list_head.more s"
  "list_head.more (set_prev a v s) = list_head.more s"
  by (simp_all add: set_next_def set_prev_def)

lemma seg_append: "seg n p a (xs @ y # ys) b \<longleftrightarrow> seg n p a xs y \<and> seg n p y ys b"
  by (induction xs arbitrary: a) auto

lemma seg_cong:
  "(\<And>x. x \<in> set (a # xs) \<Longrightarrow> n' x = n x) \<Longrightarrow> (\<And>x. x \<in> set (b # xs) \<Longrightarrow> p' x = p x) \<Longrightarrow>
   seg n' p' a xs b \<longleftrightarrow> seg n p a xs b"
  by (induction xs arbitrary: a) auto

lemma seg_upd_next [simp]: "z \<notin> set (a # xs) \<Longrightarrow> seg (n(z := v)) p a xs b \<longleftrightarrow> seg n p a xs b"
  by (rule seg_cong) auto

lemma seg_upd_prev [simp]: "z \<notin> set (b # xs) \<Longrightarrow> seg n (p(z := v)) a xs b \<longleftrightarrow> seg n p a xs b"
  by (rule seg_cong) auto

text \<open>The only list that a head represents.\<close>

lemma seg_unique:
  "seg n p a xs b \<Longrightarrow> b \<notin> set xs \<Longrightarrow> seg n p a ys b \<Longrightarrow> b \<notin> set ys \<Longrightarrow> xs = ys"
proof (induction xs arbitrary: a ys)
  case Nil
  then show ?case by (cases ys) auto
next
  case (Cons x xs)
  then show ?case by (cases ys) auto
qed

lemma dlist_unique: "dlist s h xs \<Longrightarrow> dlist s h ys \<Longrightarrow> xs = ys"
  by (auto simp: dlist_def intro: seg_unique)

section \<open>The operations on the abstraction\<close>

lemma seg_next: "seg n p a xs b \<Longrightarrow> n a = hd (xs @ [b])"
  by (cases xs) auto

lemma seg_prev: "seg n p a xs b \<Longrightarrow> p b = last (a # xs)"
  by (induction xs arbitrary: a) auto

lemma dlist_next: "dlist s h xs \<Longrightarrow> nxt s h = hd (xs @ [h])"
  by (auto simp: dlist_def dest: seg_next)

lemma dlist_prev: "dlist s h xs \<Longrightarrow> prv s h = last (h # xs)"
  unfolding dlist_def by (rule seg_prev) (rule conjunct2)

lemma dlist_distinct: "dlist s h xs \<Longrightarrow> distinct xs" "dlist s h xs \<Longrightarrow> h \<notin> set xs"
  by (auto simp: dlist_def)

lemma dlist_cong:
  "(\<And>x. x \<in> set (h # xs) \<Longrightarrow> nxt s' x = nxt s x \<and> prv s' x = prv s x) \<Longrightarrow> dlist s' h xs \<longleftrightarrow> dlist s h xs"
  unfolding dlist_def by (intro conj_cong refl seg_cong) auto

lemma dlist_list_add:
  assumes "dlist s h xs" "new \<notin> set (h # xs)"
  shows "dlist (list_add new h s) h (new # xs)"
  using assms by (cases xs) (auto simp: dlist_def list_add_def list_add_between_def Let_def)

lemma dlist_list_add_tail:
  assumes "dlist s h xs" "new \<notin> set (h # xs)"
  shows "dlist (list_add_tail new h s) h (xs @ [new])"
proof (cases xs rule: rev_cases)
  case Nil
  then show ?thesis using assms by (auto simp: dlist_def list_add_tail_def list_add_between_def Let_def)
next
  case (snoc ys y)
  then show ?thesis
    using assms by (cases ys) (auto simp: dlist_def list_add_tail_def list_add_between_def Let_def seg_append)
qed

lemma dlist_list_del_mid:
  assumes "dlist s h (us @ x # vs)"
  shows "dlist (list_del x s) h (us @ vs)"
proof -
  have "prv s x = last (h # us)" "nxt s x = hd (vs @ [h])"
    using assms by (auto simp: dlist_def seg_append dest: seg_next seg_prev)
  then show ?thesis
    using assms
    by (cases us rule: rev_cases; cases vs)
       (auto simp: dlist_def list_del_def list_del_between_def Let_def seg_append)
qed

lemma dlist_list_del: "dlist s h xs \<Longrightarrow> x \<in> set xs \<Longrightarrow> dlist (list_del x s) h (remove1 x xs)"
  by (metis split_list_first remove1_append_mid dlist_list_del_mid)


text \<open>What the operations leave alone.\<close>

lemma dlist_next_in: "dlist s h xs \<Longrightarrow> x \<in> set (h # xs) \<Longrightarrow> nxt s x \<in> set (h # xs)"
proof -
  assume d: "dlist s h xs" and x: "x \<in> set (h # xs)"
  show ?thesis
  proof (cases "x = h")
    case True
    then show ?thesis using dlist_next [OF d] by (cases xs) auto
  next
    case False
    with x obtain us vs where "xs = us @ x # vs" by (auto dest: split_list)
    then have "nxt s x = hd (vs @ [h])" "set vs \<subseteq> set xs" using d by (auto simp: dlist_def seg_append dest: seg_next)
    then show ?thesis by (cases vs) auto
  qed
qed

lemma dlist_prev_in: "dlist s h xs \<Longrightarrow> x \<in> set (h # xs) \<Longrightarrow> prv s x \<in> set (h # xs)"
proof -
  assume d: "dlist s h xs" and x: "x \<in> set (h # xs)"
  show ?thesis
  proof (cases "x = h")
    case True
    then show ?thesis using dlist_prev [OF d] by auto
  next
    case False
    with x obtain us vs where *: "xs = us @ x # vs" by (auto dest: split_list)
    then have "prv s x = last (h # us)" using d by (auto simp: dlist_def seg_append dest: seg_prev)
    then show ?thesis using * by auto
  qed
qed

lemma list_add_other:
  assumes "dlist s h xs" "set (h # xs) \<inter> set (h' # ys) = {}" "new \<notin> set (h' # ys)"
  shows "dlist (list_add new h s) h' ys \<longleftrightarrow> dlist s h' ys"
  using assms dlist_next_in [OF assms(1), of h]
  by (intro dlist_cong) (auto simp: list_add_def list_add_between_def Let_def)

lemma list_add_tail_other:
  assumes "dlist s h xs" "set (h # xs) \<inter> set (h' # ys) = {}" "new \<notin> set (h' # ys)"
  shows "dlist (list_add_tail new h s) h' ys \<longleftrightarrow> dlist s h' ys"
  using assms dlist_prev_in [OF assms(1), of h]
  by (intro dlist_cong) (auto simp: list_add_tail_def list_add_between_def Let_def)

lemma list_del_other:
  assumes "dlist s h xs" "x \<in> set xs" "set (h # xs) \<inter> set (h' # ys) = {}"
  shows "dlist (list_del x s) h' ys \<longleftrightarrow> dlist s h' ys"
  using assms dlist_prev_in [OF assms(1), of x] dlist_next_in [OF assms(1), of x]
  by (intro dlist_cong) (auto simp: list_del_def list_del_between_def Let_def)

lemma dlist_init: "dlist (INIT_LIST_HEAD h s) h []"
  by (simp add: dlist_def INIT_LIST_HEAD_def Let_def)

lemma init_other: "h \<notin> set (h' # ys) \<Longrightarrow> dlist (INIT_LIST_HEAD h s) h' ys \<longleftrightarrow> dlist s h' ys"
  by (rule dlist_cong) (auto simp: INIT_LIST_HEAD_def Let_def)

lemma dlist_empty: "dlist s h xs \<Longrightarrow> list_empty h s \<longleftrightarrow> xs = []"
  using dlist_next [of s h xs] by (cases xs) (auto simp: list_empty_def dlist_def)

lemma dlist_empty_careful: "dlist s h xs \<Longrightarrow> list_empty_careful h s \<longleftrightarrow> xs = []"
  using dlist_empty [of s h xs] dlist_prev [of s h "[]"]
  by (auto simp: list_empty_careful_def list_empty_def Let_def)

lemma dlist_singular: "dlist s h xs \<Longrightarrow> list_is_singular h s \<longleftrightarrow> length xs = 1"
proof (cases xs)
  case (Cons x ys)
  assume d: "dlist s h xs"
  moreover have "nxt s h = x" "prv s h = last xs" using d Cons dlist_next [OF d] dlist_prev [OF d] by auto
  moreover have "x = last xs \<longleftrightarrow> ys = []" using d Cons by (cases ys rule: rev_cases) (auto simp: dlist_def)
  ultimately show ?thesis using Cons by (auto simp: list_is_singular_def dlist_empty [OF d])
qed (auto simp: list_is_singular_def dlist_empty)

lemma dlist_is_last: "dlist s h (us @ x # vs) \<Longrightarrow> list_is_last x h s \<longleftrightarrow> vs = []"
  by (cases vs) (auto simp: list_is_last_def dlist_def seg_append)

lemma dlist_del_init:
  assumes "dlist s h xs" "x \<in> set xs"
  shows "dlist (list_del_init x s) h (remove1 x xs)" "dlist (list_del_init x s) x []"
proof -
  have e: "list_del_init x s = INIT_LIST_HEAD x (list_del x s)"
    by (simp add: list_del_init_def list_del_entry_def list_del_def)
  show "dlist (list_del_init x s) x []" by (simp add: e dlist_init)
  have "x \<notin> set (h # remove1 x xs)" using assms by (auto simp: dlist_def distinct_remove1_not_in)
  then show "dlist (list_del_init x s) h (remove1 x xs)"
    unfolding e using dlist_list_del [OF assms] by (simp add: init_other)
qed

lemma dlist_move:
  assumes "dlist s h xs" "x \<in> set xs"
  shows "dlist (list_move x h s) h (x # remove1 x xs)"
    and "dlist (list_move_tail x h s) h (remove1 x xs @ [x])"
proof -
  have d: "dlist (list_del_entry x s) h (remove1 x xs)"
    using dlist_list_del [OF assms] by (simp add: list_del_def list_del_entry_def)
  have n: "x \<notin> set (h # remove1 x xs)" using assms by (auto simp: dlist_def distinct_remove1_not_in)
  show "dlist (list_move x h s) h (x # remove1 x xs)"
    unfolding list_move_def Let_def by (rule dlist_list_add [OF d n])
  show "dlist (list_move_tail x h s) h (remove1 x xs @ [x])"
    unfolding list_move_tail_def Let_def by (rule dlist_list_add_tail [OF d n])
qed

lemma dlist_rotate_left: "dlist s h xs \<Longrightarrow> dlist (list_rotate_left h s) h (rotate1 xs)"
proof (cases xs)
  case (Cons x ys)
  assume d: "dlist s h xs"
  have "nxt s h = x" using dlist_next [OF d] Cons by simp
  then show ?thesis
    using dlist_move(2) [OF d, of x] d Cons by (simp add: list_rotate_left_def dlist_empty [OF d])
qed (simp add: list_rotate_left_def dlist_empty)

lemma list_replace_fields:
  assumes "nxt s old \<noteq> old" "old \<noteq> new"
  shows "nxt (list_replace old new s) = (nxt s)(new := nxt s old, prv s old := new)"
    and "prv (list_replace old new s) = (prv s)(nxt s old := new, new := prv s old)"
  using assms by (simp_all add: list_replace_def Let_def)

lemma dlist_replace:
  assumes "dlist s h (us @ x # vs)" "new \<notin> set (h # us @ x # vs)"
  shows "dlist (list_replace x new s) h (us @ new # vs)"
proof -
  have f: "prv s x = last (h # us)" "nxt s x = hd (vs @ [h])"
    using assms by (auto simp: dlist_def seg_append dest: seg_next seg_prev)
  have "nxt s x \<noteq> x" "x \<noteq> new" using assms f by (cases vs; auto simp: dlist_def)+
  note r = list_replace_fields [OF this]
  show ?thesis
    using assms unfolding dlist_def r f
    by (cases us rule: rev_cases; cases vs) (simp_all add: seg_append, auto)
qed

lemma dlist_cut_position:
  assumes d: "dlist s h (us @ e # vs)" and l: "l \<notin> set (h # us @ e # vs)"
  shows "dlist (list_cut_position l h e s) l (us @ [e])" and "dlist (list_cut_position l h e s) h vs"
proof -
  have n: "nxt s h = hd (us @ [e])" "nxt s e = hd (vs @ [h])"
    using d by (auto simp: dlist_def seg_append dest: seg_next)
  have ne: "\<not> list_empty h s" using dlist_empty [OF d] by simp
  have nh: "e \<noteq> h" using d by (auto simp: dlist_def)
  have "\<not> (list_is_singular h s \<and> (nxt s h \<noteq> e \<and> h \<noteq> e))"
    using dlist_singular [OF d] n by auto
  then have "list_cut_position l h e s = list_cut_between l h e s"
    using ne nh by (auto simp: list_cut_position_def)
  moreover have "dlist (list_cut_between l h e s) l (us @ [e])"
    using d l n by (cases us; cases vs) (auto simp: dlist_def list_cut_between_def Let_def seg_append)
  moreover have "dlist (list_cut_between l h e s) h vs"
    using d l n by (cases us; cases vs) (auto simp: dlist_def list_cut_between_def Let_def seg_append)
  ultimately show "dlist (list_cut_position l h e s) l (us @ [e])" "dlist (list_cut_position l h e s) h vs"
    by simp_all
qed

lemma dlist_splice:
  assumes d: "dlist s l ys" "dlist s h xs" and disj: "set (l # ys) \<inter> set (h # xs) = {}"
  shows "dlist (list_splice l h s) h (ys @ xs)"
  using assms dlist_next [OF d(1)] dlist_prev [OF d(1)] dlist_next [OF d(2)]
  by (cases ys rule: rev_cases; cases "butlast ys"; cases xs)
     (auto simp: list_splice_def dlist_empty [OF d(1)] list_splice_between_def Let_def dlist_def seg_append)

lemma dlist_splice_tail:
  assumes d: "dlist s l ys" "dlist s h xs" and disj: "set (l # ys) \<inter> set (h # xs) = {}"
  shows "dlist (list_splice_tail l h s) h (xs @ ys)"
  using assms dlist_next [OF d(1)] dlist_prev [OF d(1)] dlist_prev [OF d(2)]
  by (cases ys rule: rev_cases; cases "butlast ys"; cases xs rule: rev_cases)
     (auto simp: list_splice_tail_def dlist_empty [OF d(1)] list_splice_between_def Let_def dlist_def seg_append)

lemma list_for_each_seg:
  assumes "seg (nxt s) (prv s) a xs h" "h \<notin> set xs" "length xs \<le> n"
  shows "list_for_each n (nxt s a) h s = Some xs"
  using assms
proof (induction xs arbitrary: a n)
  case Nil
  then show ?case by (cases n) auto
next
  case (Cons x xs)
  then show ?case by (cases n) auto
qed

lemma list_for_each_dlist: "dlist s h xs \<Longrightarrow> length xs \<le> n \<Longrightarrow> list_for_each n (nxt s h) h s = Some xs"
  by (auto simp: dlist_def intro: list_for_each_seg)

section \<open>Families of lists\<close>

text \<open>
  A set \<open>H\<close> of heads whose lists \<open>Q h\<close> do not share a cell: the form in which the
  kernel holds its queues.
\<close>

definition family :: "('s \<Rightarrow> addr \<Rightarrow> addr list \<Rightarrow> bool) \<Rightarrow> 's \<Rightarrow> addr set \<Rightarrow> (addr \<Rightarrow> addr list) \<Rightarrow> bool" where
  "family repr s H Q \<longleftrightarrow>
     (\<forall>h\<in>H. repr s h (Q h)) \<and>
     (\<forall>h\<in>H. \<forall>h'\<in>H. h \<noteq> h' \<longrightarrow> set (h # Q h) \<inter> set (h' # Q h') = {})"

definition on_family :: "addr set \<Rightarrow> (addr \<Rightarrow> addr list) \<Rightarrow> addr \<Rightarrow> bool" where
  "on_family H Q x \<longleftrightarrow> (\<exists>h\<in>H. x \<in> set (h # Q h))"

lemma familyD: "family repr s H Q \<Longrightarrow> h \<in> H \<Longrightarrow> repr s h (Q h)"
  by (simp add: family_def)

lemma family_disjoint:
  "family repr s H Q \<Longrightarrow> h \<in> H \<Longrightarrow> h' \<in> H \<Longrightarrow> h \<noteq> h' \<Longrightarrow> set (h # Q h) \<inter> set (h' # Q h') = {}"
  unfolding family_def by blast

lemma family_owner:
  "family repr s H Q \<Longrightarrow> h \<in> H \<Longrightarrow> h' \<in> H \<Longrightarrow> x \<in> set (Q h) \<Longrightarrow> x \<in> set (Q h') \<Longrightarrow> h = h'"
  using family_disjoint [of repr s H Q h h'] by auto

lemma family_dlist_cong:
  "nxt s' = nxt s \<Longrightarrow> prv s' = prv s \<Longrightarrow> family dlist s' H Q \<longleftrightarrow> family dlist s H Q"
  by (simp add: family_def dlist_def)

section \<open>The contract of the list library\<close>

text \<open>
  What the kernel relies on when it keeps threads on lists: adding at either end, unlinking, the
  first cell and emptiness act on the represented sequence, and each operation on one list leaves
  every disjoint list as it was.
\<close>

locale node_list =
  fixes repr :: "'s \<Rightarrow> addr \<Rightarrow> addr list \<Rightarrow> bool"
    and add :: "addr \<Rightarrow> addr \<Rightarrow> 's \<Rightarrow> 's"
    and add_tail :: "addr \<Rightarrow> addr \<Rightarrow> 's \<Rightarrow> 's"
    and del :: "addr \<Rightarrow> 's \<Rightarrow> 's"
    and first :: "addr \<Rightarrow> 's \<Rightarrow> addr"
    and empty :: "addr \<Rightarrow> 's \<Rightarrow> bool"
  assumes repr_distinct: "repr s h xs \<Longrightarrow> distinct (h # xs)"
    and repr_add: "repr s h xs \<Longrightarrow> x \<notin> set (h # xs) \<Longrightarrow> repr (add x h s) h (x # xs)"
    and repr_add_tail: "repr s h xs \<Longrightarrow> x \<notin> set (h # xs) \<Longrightarrow> repr (add_tail x h s) h (xs @ [x])"
    and repr_del: "repr s h xs \<Longrightarrow> x \<in> set xs \<Longrightarrow> repr (del x s) h (remove1 x xs)"
    and repr_first: "repr s h xs \<Longrightarrow> xs \<noteq> [] \<Longrightarrow> first h s = hd xs"
    and repr_empty: "repr s h xs \<Longrightarrow> empty h s \<longleftrightarrow> xs = []"
    and add_other: "repr s h xs \<Longrightarrow> set (h # xs) \<inter> set (h' # ys) = {} \<Longrightarrow> x \<notin> set (h' # ys) \<Longrightarrow>
      repr (add x h s) h' ys \<longleftrightarrow> repr s h' ys"
    and add_tail_other: "repr s h xs \<Longrightarrow> set (h # xs) \<inter> set (h' # ys) = {} \<Longrightarrow> x \<notin> set (h' # ys) \<Longrightarrow>
      repr (add_tail x h s) h' ys \<longleftrightarrow> repr s h' ys"
    and del_other: "repr s h xs \<Longrightarrow> x \<in> set xs \<Longrightarrow> set (h # xs) \<inter> set (h' # ys) = {} \<Longrightarrow>
      repr (del x s) h' ys \<longleftrightarrow> repr s h' ys"
begin

text \<open>Adding a batch at the tail keeps its order; adding it at the front reverses it.\<close>

lemma fold_add_tail:
  "repr s h xs \<Longrightarrow> distinct ys \<Longrightarrow> set ys \<inter> set (h # xs) = {} \<Longrightarrow>
   repr (fold (\<lambda>y. add_tail y h) ys s) h (xs @ ys)"
proof (induction ys arbitrary: s xs)
  case (Cons y ys)
  have "repr (add_tail y h s) h (xs @ [y])" using Cons.prems by (intro repr_add_tail) auto
  then show ?case using Cons.IH [of "add_tail y h s" "xs @ [y]"] Cons.prems by auto
qed simp

lemma fold_add:
  "repr s h xs \<Longrightarrow> distinct ys \<Longrightarrow> set ys \<inter> set (h # xs) = {} \<Longrightarrow>
   repr (fold (\<lambda>y. add y h) ys s) h (rev ys @ xs)"
proof (induction ys arbitrary: s xs)
  case (Cons y ys)
  have "repr (add y h s) h (y # xs)" using Cons.prems by (intro repr_add) auto
  then show ?case using Cons.IH [of "add y h s" "y # xs"] Cons.prems by auto
qed simp

text \<open>Taking the first cell off a list.\<close>

lemma take_first:
  assumes "repr s h (x # xs)"
  shows "first h s = x" and "repr (del (first h s) s) h xs"
proof -
  show f: "first h s = x" using repr_first [OF assms] by simp
  show "repr (del (first h s) s) h xs" using repr_del [OF assms, of x] by (simp add: f)
qed

text \<open>Moving a cell from one list to the front of another.\<close>

lemma transfer:
  assumes "repr s h xs" "repr s h' ys" "x \<in> set xs" "set (h # xs) \<inter> set (h' # ys) = {}"
  shows "repr (add x h' (del x s)) h (remove1 x xs)" and "repr (add x h' (del x s)) h' (x # ys)"
proof -
  have d: "repr (del x s) h (remove1 x xs)" by (rule repr_del [OF assms(1,3)])
  have d': "repr (del x s) h' ys" using del_other [OF assms(1,3,4)] assms(2) by simp
  have x: "x \<notin> set (h' # ys)" "x \<notin> set (h # remove1 x xs)"
    using assms repr_distinct [OF assms(1)] by (auto simp: distinct_remove1_not_in)
  have "set (h' # ys) \<inter> set (h # remove1 x xs) = {}"
    using assms(4) set_remove1_subset [of x xs] by auto
  from add_other [OF d' this x(2)] d
  show "repr (add x h' (del x s)) h (remove1 x xs)" by simp
  show "repr (add x h' (del x s)) h' (x # ys)" by (rule repr_add [OF d' x(1)])
qed

text \<open>The same for a family: the operations touch the one list they are applied to.\<close>

lemma family_add:
  assumes f: "family repr s H Q" and h: "h \<in> H" and x: "\<not> on_family H Q x"
  shows "family repr (add x h s) H (Q(h := x # Q h))"
proof -
  have *: "repr s h (Q h)" and n: "\<And>h'. h' \<in> H \<Longrightarrow> x \<notin> set (h' # Q h')"
    using familyD [OF f h] x by (auto simp: on_family_def)
  have "repr (add x h s) h' ((Q(h := x # Q h)) h')" if "h' \<in> H" for h'
    using that repr_add [OF * n [OF h]] add_other [OF * family_disjoint [OF f h that] n [OF that]]
      familyD [OF f that] by (cases "h' = h") auto
  moreover have "set (h1 # (Q(h := x # Q h)) h1) \<inter> set (h2 # (Q(h := x # Q h)) h2) = {}"
    if "h1 \<in> H" "h2 \<in> H" "h1 \<noteq> h2" for h1 h2
    using family_disjoint [OF f that] n [OF that(1)] n [OF that(2)] by auto
  ultimately show ?thesis by (simp add: family_def del: fun_upd_apply)
qed

lemma family_del:
  assumes f: "family repr s H Q" and h: "h \<in> H" and x: "x \<in> set (Q h)"
  shows "family repr (del x s) H (Q(h := remove1 x (Q h)))"
    and "\<not> on_family H (Q(h := remove1 x (Q h))) x"
proof -
  have *: "repr s h (Q h)" by (rule familyD [OF f h])
  have d: "repr s h (Q h)" "distinct (h # Q h)" using * repr_distinct by auto
  have "repr (del x s) h' ((Q(h := remove1 x (Q h))) h')" if "h' \<in> H" for h'
    using that repr_del [OF * x] del_other [OF * x family_disjoint [OF f h that]] familyD [OF f that]
    by (cases "h' = h") auto
  moreover have "set (h1 # (Q(h := remove1 x (Q h))) h1) \<inter> set (h2 # (Q(h := remove1 x (Q h))) h2) = {}"
    if "h1 \<in> H" "h2 \<in> H" "h1 \<noteq> h2" for h1 h2
    using family_disjoint [OF f that] set_remove1_subset [of x "Q h"] by auto
  ultimately show "family repr (del x s) H (Q(h := remove1 x (Q h)))"
    by (simp add: family_def del: fun_upd_apply)
  show "\<not> on_family H (Q(h := remove1 x (Q h))) x"
    unfolding on_family_def
  proof (intro notI, elim bexE)
    fix h' assume h': "h' \<in> H" "x \<in> set (h' # (Q(h := remove1 x (Q h))) h')"
    show False
    proof (cases "h' = h")
      case True
      then show False using h'(2) d(2) x distinct_remove1_not_in [of "Q h" x] by auto
    next
      case False
      then show False using h' x family_disjoint [OF f h h'(1)] by auto
    qed
  qed
qed

lemma family_transfer:
  assumes "family repr s H Q" "h \<in> H" "h' \<in> H" "x \<in> set (Q h)"
  shows "family repr (add x h' (del x s)) H
    (let Q' = Q(h := remove1 x (Q h)) in Q'(h' := x # Q' h'))"
  unfolding Let_def by (rule family_add [OF family_del(1) [OF assms(1,2,4)] assms(3) family_del(2) [OF assms(1,2,4)]])

end

interpretation dl: node_list dlist list_add list_add_tail list_del "\<lambda>h s. nxt s h" list_empty
proof unfold_locales
  fix s :: "'b list_head_scheme" and h x h' :: addr and xs ys :: "addr list"
  show "dlist s h xs \<Longrightarrow> distinct (h # xs)" by (simp add: dlist_def)
  show "dlist s h xs \<Longrightarrow> x \<notin> set (h # xs) \<Longrightarrow> dlist (list_add x h s) h (x # xs)" by (rule dlist_list_add)
  show "dlist s h xs \<Longrightarrow> x \<notin> set (h # xs) \<Longrightarrow> dlist (list_add_tail x h s) h (xs @ [x])"
    by (rule dlist_list_add_tail)
  show "dlist s h xs \<Longrightarrow> x \<in> set xs \<Longrightarrow> dlist (list_del x s) h (remove1 x xs)" by (rule dlist_list_del)
  show "dlist s h xs \<Longrightarrow> xs \<noteq> [] \<Longrightarrow> nxt s h = hd xs" by (simp add: dlist_next)
  show "dlist s h xs \<Longrightarrow> list_empty h s \<longleftrightarrow> xs = []" by (rule dlist_empty)
qed (rule list_add_other list_add_tail_other list_del_other; assumption)+

section \<open>Properties\<close>

text \<open>Cells added one by one at the tail of a fresh list are visited by \<open>list_for_each\<close> in the
  order in which they were added, cells added at the front in the opposite order, and the walk ends.\<close>

theorem list_order:
  assumes "distinct ys" "h \<notin> set ys" "length ys \<le> n"
  shows "(let t = fold (\<lambda>y. list_add_tail y h) ys (INIT_LIST_HEAD h s) in
      list_for_each n (nxt t h) h t = Some ys) \<and>
    (let t = fold (\<lambda>y. list_add y h) ys (INIT_LIST_HEAD h s) in
      list_for_each n (nxt t h) h t = Some (rev ys))"
  using dl.fold_add_tail [OF dlist_init, of ys h s] dl.fold_add [OF dlist_init, of ys h s] assms
  by (simp add: Let_def list_for_each_dlist)

theorem list_order_witness:
  "(let t = fold (\<lambda>y. list_add_tail y 16) [24, 40, 32] (INIT_LIST_HEAD 16 \<lparr>nxt = \<lambda>_. 0, prv = \<lambda>_. 0\<rparr>) in
     list_for_each 3 (nxt t 16) 16 t = Some [24, 40, 32])"
  using list_order [of "[24, 40, 32]" 16 3 "\<lparr>nxt = \<lambda>_. 0, prv = \<lambda>_. 0\<rparr>"] by simp

text \<open>\<open>list_cut_position\<close> gives its new head the cells up to and with the given one and leaves
  the rest, and \<open>list_splice\<close> of the two lists gives the list back.\<close>

theorem cut_splice_roundtrip:
  assumes "dlist s h (us @ e # vs)" "l \<notin> set (h # us @ e # vs)"
  shows "(let t = list_cut_position l h e s in
    dlist t l (us @ [e]) \<and> dlist t h vs \<and> dlist (list_splice l h t) h (us @ e # vs))"
proof -
  note c = dlist_cut_position [OF assms]
  have "set (l # us @ [e]) \<inter> set (h # vs) = {}"
    using assms by (auto simp: dlist_def)
  from dlist_splice [OF c this] c show ?thesis by (simp add: Let_def)
qed

theorem cut_splice_roundtrip_witness:
  "(let s = fold (\<lambda>y. list_add_tail y 16) [24, 40, 32] (INIT_LIST_HEAD 16 \<lparr>nxt = \<lambda>_. 0, prv = \<lambda>_. 0\<rparr>);
        t = list_cut_position 48 16 40 s in
    dlist t 48 [24, 40] \<and> dlist t 16 [32] \<and> dlist (list_splice 48 16 t) 16 [24, 40, 32])"
  using cut_splice_roundtrip [of "fold (\<lambda>y. list_add_tail y 16) [24, 40, 32] (INIT_LIST_HEAD 16 \<lparr>nxt = \<lambda>_. 0, prv = \<lambda>_. 0\<rparr>)"
      16 "[24]" 40 "[32]" 48] dl.fold_add_tail [OF dlist_init, of "[24, 40, 32]" 16 "\<lparr>nxt = \<lambda>_. 0, prv = \<lambda>_. 0\<rparr>"]
  by (simp add: Let_def)

text \<open>On two lists without a common cell, unlinking a cell of the one and adding it to the other
  takes it out of the first, puts it in front of the second and keeps the order of all others;
  \<open>list_move\<close> and \<open>list_move_tail\<close> do the same within a list, and \<open>list_rotate_left\<close> sends the
  first cell to the end.\<close>

theorem list_transfer:
  assumes "dlist s h xs" "dlist s h' ys" "x \<in> set xs" "set (h # xs) \<inter> set (h' # ys) = {}"
  shows "dlist (list_add x h' (list_del x s)) h (remove1 x xs) \<and>
    dlist (list_add x h' (list_del x s)) h' (x # ys) \<and>
    dlist (list_move x h s) h (x # remove1 x xs) \<and>
    dlist (list_move_tail x h s) h (remove1 x xs @ [x]) \<and>
    dlist (list_rotate_left h s) h (rotate1 xs)"
  using dl.transfer [OF assms] dlist_move [OF assms(1,3)] dlist_rotate_left [OF assms(1)] by simp

theorem list_transfer_witness:
  "(let s0 = INIT_LIST_HEAD 8 (INIT_LIST_HEAD 16 \<lparr>nxt = \<lambda>_. 0, prv = \<lambda>_. 0\<rparr>);
        s = list_add_tail 40 16 (list_add_tail 24 16 s0) in
    dlist (list_add 40 8 (list_del 40 s)) 8 [40] \<and> dlist (list_add 40 8 (list_del 40 s)) 16 [24])"
  using list_transfer [of "list_add_tail 40 16 (list_add_tail 24 16 (INIT_LIST_HEAD 8 (INIT_LIST_HEAD 16 \<lparr>nxt = \<lambda>_. 0, prv = \<lambda>_. 0\<rparr>)))"
      16 "[24, 40]" 8 "[]" 40]
  by (simp add: Let_def dlist_def list_add_tail_def list_add_between_def INIT_LIST_HEAD_def)

end
