(* ===== verification/Bits.thy ===== *)
theory Bits
  imports Prelude
begin

text \<open>
  library/bit/bit.c and bit.h, library/misc/misc.h and misc.c: the bit tricks on which the ready
  bitmap of the scheduler and the bin maps of the allocator rest, the alignment helpers, and the
  byte mutex.
\<close>

section \<open>Definitions\<close>

text \<open>\<open>test_bit\<close> returns the masked word itself, as the C does, not a boolean.\<close>

definition test_bit :: "u32 \<Rightarrow> u32 \<Rightarrow> u32" where
  "test_bit Mark Index = Mark AND push_bit (unat Index) 1"

definition bit_algorithm_1 :: "u32 \<Rightarrow> u32" where
  "bit_algorithm_1 x = x XOR (x - 1)"

definition bit_algorithm_2 :: "u32 \<Rightarrow> u32" where
  "bit_algorithm_2 x = (let x = x AND (- x) in x - 1)"

definition bit_count :: "u32 \<Rightarrow> u32" where
  "bit_count R0 = (
     let R1 = 0x49249249;
         R2 = R0 AND push_bit 1 R1;
         R0 = R0 - drop_bit 1 R2;
         R2 = R0 AND drop_bit 1 R1;
         R0 = R0 + R2;
         R1 = 0xc71c71c7;
         R0 = R0 + drop_bit 3 R0;
         R0 = R0 AND R1;
         R0 = R0 + drop_bit 6 R0;
         R0 = R0 + drop_bit 12 R0;
         R0 = R0 + drop_bit 24 R0
     in R0 AND 0x3F)"

text \<open>The compiled variant (\<open>#if 1\<close>): isolate the lowest set bit, turn it into a mask, count it.\<close>

definition bit_scan_forward :: "u32 \<Rightarrow> u32" where
  "bit_scan_forward R0 = (
     let R0 = R0 AND (- R0);
         R0 = R0 - 1;
         R1 = 0x49249249;
         R2 = R0 AND push_bit 1 R1;
         R0 = R0 - drop_bit 1 R2;
         R2 = R0 AND drop_bit 1 R1;
         R0 = R0 + R2;
         R1 = 0xc71c71c7;
         R0 = R0 + drop_bit 3 R0;
         R0 = R0 AND R1;
         R0 = R0 + drop_bit 6 R0;
         R0 = R0 + drop_bit 12 R0;
         R0 = R0 + drop_bit 24 R0
     in R0 AND 0x3F)"

text \<open>The assembly of \<open>bit_scan_reverse\<close> is compiled out, so it returns its argument.\<close>

definition bit_scan_reverse :: "u32 \<Rightarrow> u32" where
  "bit_scan_reverse R0 = R0"

definition bit32_order_reverse :: "u32 \<Rightarrow> u32" where
  "bit32_order_reverse x = (
     let x = drop_bit 16 x OR push_bit 16 x;
         x = (drop_bit 8 x AND 0x00ff00ff) OR (push_bit 8 x AND 0xff00ff00);
         x = (drop_bit 4 x AND 0x0f0f0f0f) OR (push_bit 4 x AND 0xf0f0f0f0);
         x = (drop_bit 2 x AND 0x33333333) OR (push_bit 2 x AND 0xcccccccc);
         x = (drop_bit 1 x AND 0x55555555) OR (push_bit 1 x AND 0xaaaaaaaa)
     in x)"

definition bit8_order_reverse :: "u8 \<Rightarrow> u8" where
  "bit8_order_reverse x = (
     let x = drop_bit 4 x OR push_bit 4 x;
         x = (drop_bit 2 x AND 0x33) OR (push_bit 2 x AND 0xcc);
         x = (drop_bit 1 x AND 0x55) OR (push_bit 1 x AND 0xaa)
     in x)"

text \<open>library/misc/misc.h.\<close>

definition align_upside :: "u32 \<Rightarrow> u32 \<Rightarrow> u32" where
  "align_upside x align = (x + align - 1) AND NOT (align - 1)"

definition align_downside :: "u32 \<Rightarrow> u32 \<Rightarrow> u32" where
  "align_downside x align = x AND NOT (align - 1)"

text \<open>
  library/misc/misc.c: the flag byte is behind a pointer, \<open>None\<close> being the null pointer; the
  result is the status and the flag's new value.
\<close>

definition MutexLock :: "u8 option \<Rightarrow> int \<times> u8 option" where
  "MutexLock pSourceFlag =
     (case pSourceFlag of
        None \<Rightarrow> (ERR_BAD_PARAM, None)
      | Some flag \<Rightarrow>
          if flag = 0 then
            (let flag = flag + 1 in
             if flag = 1 then (OK, Some flag) else (ERR_DEVICE_BUSY, Some (flag - 1)))
          else (ERR_DEVICE_BUSY, Some flag))"

definition MutexUnlock :: "u8 option \<Rightarrow> int \<times> u8 option" where
  "MutexUnlock pSourceFlag =
     (case pSourceFlag of None \<Rightarrow> (ERR_BAD_PARAM, None) | Some _ \<Rightarrow> (OK, Some 0))"

section \<open>The lowest set bit\<close>

lemma odd_and_minus_int: "odd (y::int) \<Longrightarrow> y AND - y = 1"
proof -
  assume "odd y"
  then obtain z where y: "y = 2 * z + 1" by (rule oddE)
  have "- y div 2 = NOT z" by (simp add: y not_int_def)
  moreover have "y div 2 = z" by (simp add: y)
  ultimately show ?thesis
    by (subst and_rec) (simp add: y)
qed

lemma and_minus_lowest_bit:
  fixes x :: u32
  assumes "bit x k" "\<And>j. j < k \<Longrightarrow> \<not> bit x j"
  shows "x AND - x = 2 ^ k"
proof -
  have k: "k < 32" using bit_imp_le_length [OF assms(1)] by simp
  let ?y = "drop_bit k (uint x)"
  have t: "take_bit k (uint x) = 0"
    by (rule bit_eqI) (use assms(2) in \<open>auto simp: bit_take_bit_iff bit_uint_iff\<close>)
  have x: "uint x = push_bit k ?y"
    using bits_ident [of k "uint x"] t by simp
  have "odd ?y" using assms(1) by (simp add: even_drop_bit_iff_not_bit bit_uint_iff k)
  then have "?y AND - ?y = 1" by (rule odd_and_minus_int)
  then have *: "uint x AND - uint x = 2 ^ k"
    by (subst x, subst (2) x) (metis push_bit_and push_bit_minus push_bit_of_1)
  have "x AND - x = of_int (uint x AND - uint x)"
    by (simp only: of_int_and_eq of_int_minus word_of_int_uint)
  then show ?thesis by (simp only: * of_int_power of_int_numeral)
qed

section \<open>The population count\<close>

text \<open>
  The word is read as eleven octal digits (\<open>digits_sum 3 11\<close>): the first two steps
  replace each digit by a sum of three bits, the octal mask folds them into six base-64 digits, and
  the last three steps add those up in the lowest one.
\<close>

fun digits_sum :: "nat \<Rightarrow> nat \<Rightarrow> (nat \<Rightarrow> nat) \<Rightarrow> nat" where
  "digits_sum w 0 f = 0"
| "digits_sum w (Suc n) f = f 0 + 2 ^ w * digits_sum w n (\<lambda>k. f (Suc k))"

lemma and_field:
  fixes a y m M :: nat
  assumes "a < 2 ^ n" "m < 2 ^ n"
  shows "(a + 2 ^ n * y) AND (m + 2 ^ n * M) = (a AND m) + 2 ^ n * (y AND M)" (is "?X AND ?Y = _")
proof -
  have "?X AND ?Y = push_bit n (drop_bit n ?X AND drop_bit n ?Y) + (take_bit n ?X AND take_bit n ?Y)"
    using bits_ident [of n "?X AND ?Y"] by simp
  moreover have "drop_bit n ?X = y" "drop_bit n ?Y = M" "take_bit n ?X = a" "take_bit n ?Y = m"
    using assms by (simp_all add: drop_bit_eq_div take_bit_eq_mod)
  ultimately show ?thesis by (simp add: push_bit_eq_mult)
qed

lemma digits_sum_and:
  "(\<And>k. k < n \<Longrightarrow> f k < 2 ^ w) \<Longrightarrow> (\<And>k. k < n \<Longrightarrow> g k < 2 ^ w) \<Longrightarrow>
   digits_sum w n f AND digits_sum w n g = digits_sum w n (\<lambda>k. f k AND g k)"
  by (induction n arbitrary: f g) (simp_all add: and_field)

lemma digits_sum_add: "digits_sum w n f + digits_sum w n g = digits_sum w n (\<lambda>k. f k + g k)"
  by (induction n arbitrary: f g) (simp_all add: algebra_simps flip: distrib_left)

lemma digits_sum_mult: "digits_sum w n (\<lambda>k. c * f k) = c * digits_sum w n f"
  by (induction n arbitrary: f) (simp_all add: algebra_simps)

lemma digits_sum_less:
  "(\<And>k. k < n \<Longrightarrow> f k < 2 ^ w) \<Longrightarrow> digits_sum w n f < 2 ^ (w * n)"
proof (induction n arbitrary: f)
  case (Suc n)
  have "f 0 + 2 ^ w * digits_sum w n (\<lambda>k. f (Suc k)) < 2 ^ w * (digits_sum w n (\<lambda>k. f (Suc k)) + 1)"
    using Suc.prems by simp
  also have "\<dots> \<le> 2 ^ w * 2 ^ (w * n)"
    by (rule mult_le_mono2) (use Suc in \<open>simp add: Suc_leI\<close>)
  finally show ?case by (simp add: power_add)
qed simp

lemma digits_sum_cong: "(\<And>k. k < n \<Longrightarrow> f k = g k) \<Longrightarrow> digits_sum w n f = digits_sum w n g"
proof (induction n arbitrary: f g)
  case (Suc n)
  have "f 0 = g 0" by (rule Suc.prems) simp
  moreover have "digits_sum w n (\<lambda>k. f (Suc k)) = digits_sum w n (\<lambda>k. g (Suc k))"
    by (rule Suc.IH) (simp add: Suc.prems)
  ultimately show ?case by (simp only: digits_sum.simps)
qed simp

lemma digits_sum_top: "f n = 0 \<Longrightarrow> digits_sum w (Suc n) f = digits_sum w n f"
  by (induction n arbitrary: f) simp_all

lemma digits_sum_div:
  "f 0 < 2 ^ w \<Longrightarrow> f n = 0 \<Longrightarrow> digits_sum w n f div 2 ^ w = digits_sum w n (\<lambda>k. f (Suc k))"
proof (cases n)
  case (Suc m)
  assume a: "f 0 < 2 ^ w" "f n = 0"
  then have "digits_sum w n f div 2 ^ w = digits_sum w m (\<lambda>k. f (Suc k))" by (simp add: Suc)
  also have "\<dots> = digits_sum w n (\<lambda>k. f (Suc k))"
    using a Suc digits_sum_top [of "\<lambda>k. f (Suc k)" m w] by (simp del: digits_sum.simps)
  finally show ?thesis .
qed simp

lemma digits_sum_diff:
  "(\<And>k. k < n \<Longrightarrow> g k \<le> f k) \<Longrightarrow>
   digits_sum w n f - digits_sum w n g = digits_sum w n (\<lambda>k. f k - g k) \<and> digits_sum w n g \<le> digits_sum w n f"
proof -
  assume "\<And>k. k < n \<Longrightarrow> g k \<le> f k"
  then have "digits_sum w n f = digits_sum w n (\<lambda>k. (f k - g k) + g k)"
    by (intro digits_sum_cong) simp
  then have "digits_sum w n f = digits_sum w n (\<lambda>k. f k - g k) + digits_sum w n g"
    by (simp add: digits_sum_add)
  then show ?thesis by simp
qed

lemma take_bit_3_nat:
  "(m::nat) mod 8 = of_bool (bit m 0) + 2 * of_bool (bit m (Suc 0)) + 4 * of_bool (bit m (Suc (Suc 0)))"
proof -
  have b: "bit m 0 = odd m" "bit m (Suc 0) = odd (m div 2)" "bit m (Suc (Suc 0)) = odd (m div 4)"
    by (simp_all add: bit_iff_odd)
  have "m mod 8 = m mod 2 + 2 * (m div 2 mod 2) + 4 * (m div 4 mod 2)"
    using mod_mult2_eq [of m 2 4] mod_mult2_eq [of "m div 2" 2 2] by (simp add: div_mult2_eq [of m 2 2, simplified])
  then show ?thesis by (simp only: b of_bool_odd_eq_mod_2)
qed

lemma take_bit_digits:
  "take_bit (3 * n) (m::nat) =
   digits_sum 3 n (\<lambda>k. of_bool (bit m (3 * k)) + 2 * of_bool (bit m (3 * k + 1)) + 4 * of_bool (bit m (3 * k + 2)))"
proof (induction n arbitrary: m)
  case (Suc n)
  have sh: "bit (m div 8) k = bit m (k + 3)" for k
    using bit_drop_bit_eq [of 3 m] by (simp add: drop_bit_eq_div add.commute)
  have "take_bit (3 * Suc n) m = m mod 8 + 8 * take_bit (3 * n) (m div 8)"
    using mod_mult2_eq [of m 8 "2 ^ (3 * n)"] by (simp add: take_bit_eq_mod power_add)
  also have "\<dots> = digits_sum 3 (Suc n) (\<lambda>k. of_bool (bit m (3 * k)) + 2 * of_bool (bit m (3 * k + 1)) + 4 * of_bool (bit m (3 * k + 2)))"
    by (simp add: Suc.IH sh take_bit_3_nat add.commute)
  finally show ?case .
qed simp

lemma digits_sum_word:
  "unat (x::u32) = digits_sum 3 11 (\<lambda>k. of_bool (bit x (3*k)) + 2 * of_bool (bit x (3*k+1)) + 4 * of_bool (bit x (3*k+2)))"
  using take_bit_digits [of 11 "unat x"] unat_less_2p32 [of x]
  by (simp add: take_bit_nat_eq_self bit_unsigned_iff)

text \<open>Moving a carry of the third bit of each octal group into the next group.\<close>

lemma digits_sum_carry:
  "c n = 0 \<Longrightarrow> digits_sum w (Suc n) (\<lambda>k. s k + 2 ^ w * c k) =
   digits_sum w (Suc n) (\<lambda>k. s k + (if k = 0 then 0 else c (k - 1)))"
proof (induction n arbitrary: s c)
  case (Suc n)
  have "digits_sum w (Suc (Suc n)) (\<lambda>k. s k + 2 ^ w * c k) =
      s 0 + 2 ^ w * (c 0 + digits_sum w (Suc n) (\<lambda>k. s (Suc k) + 2 ^ w * c (Suc k)))"
    by (simp add: algebra_simps)
  also have "\<dots> = s 0 + 2 ^ w * (c 0 + digits_sum w (Suc n) (\<lambda>k. s (Suc k) + (if k = 0 then 0 else c (Suc (k - 1)))))"
    by (subst Suc.IH [of "\<lambda>k. c (Suc k)"]) (simp_all add: Suc.prems)
  also have "c 0 + digits_sum w (Suc n) (\<lambda>k. s (Suc k) + (if k = 0 then 0 else c (Suc (k - 1)))) =
      digits_sum w (Suc n) (\<lambda>k. s (Suc k) + c k)"
    by (simp add: algebra_simps)
  finally show ?case by simp
qed simp

lemma middle_digit: "(of_bool P + 2 * of_bool Q + 4 * of_bool R) AND 2 = 2 * (of_bool Q :: nat)"
proof -
  have "(0 AND 2 = (0::nat)) \<and> (1 AND 2 = (0::nat)) \<and> (2 AND 2 = (2::nat)) \<and> (3 AND 2 = (2::nat)) \<and>
     (4 AND 2 = (0::nat)) \<and> (5 AND 2 = (0::nat)) \<and> (6 AND 2 = (2::nat)) \<and> (7 AND 2 = (2::nat))" by code_simp
  then show ?thesis by (cases P; cases Q; cases R) (simp_all del: One_nat_def add: numeral_eq_Suc)
qed

lemma top_digit: "(of_bool P + of_bool Q + 4 * of_bool R) AND 4 = 4 * (of_bool R :: nat)"
proof -
  have "(0 AND 4 = (0::nat)) \<and> (1 AND 4 = (0::nat)) \<and> (2 AND 4 = (0::nat)) \<and>
     (4 AND 4 = (4::nat)) \<and> (5 AND 4 = (4::nat)) \<and> (6 AND 4 = (4::nat))" by code_simp
  then show ?thesis by (cases P; cases Q; cases R) (simp_all del: One_nat_def add: numeral_eq_Suc)
qed
lemma and_7_nat: "x < 8 \<Longrightarrow> x AND 7 = (x::nat)"
  using take_bit_nat_eq_self [of x 3] by (simp add: take_bit_eq_mask mask_eq_exp_minus_1)

lemma and_3_nat: "x < 4 \<Longrightarrow> x AND 3 = (x::nat)"
  using take_bit_nat_eq_self [of x 2] by (simp add: take_bit_eq_mask mask_eq_exp_minus_1)

lemma digits_sum_numeral:
  "digits_sum w (numeral v) f = f 0 + 2 ^ w * digits_sum w (pred_numeral v) (\<lambda>k. f (Suc k))"
  by (simp add: numeral_eq_Suc)

lemma unat_drop: "unat (drop_bit n (x::u32)) = unat x div 2 ^ n"
  by (subst unat_drop_bit_eq) (rule drop_bit_eq_div)

lemma digits_sum_mono: "(\<And>k. k < n \<Longrightarrow> f k \<le> g k) \<Longrightarrow> digits_sum w n f \<le> digits_sum w n g"
  using digits_sum_diff [of n f g w] by simp

lemma digits_sum_div_exp:
  assumes "\<And>k. f k < 2 ^ w" "\<And>k. n \<le> k \<Longrightarrow> f k = 0"
  shows "digits_sum w n f div 2 ^ (w * j) = digits_sum w n (\<lambda>k. f (k + j))"
proof (induction j)
  case (Suc j)
  have "digits_sum w n f div 2 ^ (w * Suc j) = digits_sum w n (\<lambda>k. f (k + j)) div 2 ^ w"
    by (simp add: Suc.IH div_mult2_eq power_add mult.commute [of "2 ^ w"])
  also have "\<dots> = digits_sum w n (\<lambda>k. f (Suc k + j))"
    by (rule digits_sum_div) (simp_all add: assms)
  finally show ?case by simp
qed simp

lemma shift_add:
  fixes x :: u32
  assumes x: "unat x = digits_sum w n f"
    and f: "\<And>k. f k < 2 ^ w" "\<And>k. n \<le> k \<Longrightarrow> f k = 0"
    and b: "\<And>k. k < n \<Longrightarrow> f k + f (k + j) \<le> g k" "digits_sum w n g < 2 ^ 32"
    and i: "i = w * j"
  shows "unat (x + drop_bit i x) = digits_sum w n (\<lambda>k. f k + f (k + j))"
proof -
  have "unat x + unat (drop_bit i x) = digits_sum w n (\<lambda>k. f k + f (k + j))"
    by (simp only: unat_drop x i digits_sum_div_exp [OF f] digits_sum_add)
  moreover have "\<dots> < 2 ^ 32" using digits_sum_mono [of n "\<lambda>k. f k + f (k + j)" g w] b by simp
  ultimately show ?thesis by (simp add: unat_plus_simple [THEN iffD1] no_olen_add_nat)
qed

definition nbit :: "u32 \<Rightarrow> nat \<Rightarrow> nat" where
  "nbit x n = of_bool (bit x n)"

definition oct_sum :: "u32 \<Rightarrow> nat \<Rightarrow> nat" where
  "oct_sum x k = nbit x (3 * k) + nbit x (3 * k + 1) + (if k = 0 then 0 else nbit x (3 * (k - 1) + 2))"

lemma nbit_le: "nbit x n \<le> 1"
  by (simp add: nbit_def)

lemma nbit_high: "32 \<le> n \<Longrightarrow> nbit x n = 0"
  by (auto simp: nbit_def dest: bit_imp_le_length)

lemma oct_sum_le: "oct_sum x k \<le> 3"
  by (auto simp: oct_sum_def nbit_def)

lemma oct_sum_high: "11 \<le> k \<Longrightarrow> oct_sum x k = 0"
  by (simp add: oct_sum_def nbit_high)

lemma oct_sum_less: "oct_sum x k < 8"
  using oct_sum_le [of x k] by simp

lemma bit_count_step1:
  "unat (x - drop_bit 1 (x AND push_bit 1 0x49249249)) =
     digits_sum 3 11 (\<lambda>k. nbit x (3 * k) + nbit x (3 * k + 1) + 4 * nbit x (3 * k + 2))" (is "_ = digits_sum _ _ ?s")
proof -
  let ?q = "\<lambda>k. nbit x (3 * k + 1)" and ?x = "\<lambda>k. nbit x (3 * k) + 2 * nbit x (3 * k + 1) + 4 * nbit x (3 * k + 2)"
  have x: "unat x = digits_sum 3 11 ?x"
    unfolding nbit_def by (rule digits_sum_word)
  have m: "digits_sum 3 11 (\<lambda>_. 2) = unat (push_bit 1 0x49249249 :: u32)" by (simp add: digits_sum_numeral)
  have "unat (x AND push_bit 1 0x49249249) = digits_sum 3 11 ?x AND digits_sum 3 11 (\<lambda>_. 2)"
    by (simp only: unsigned_and_eq x m)
  also have "\<dots> = digits_sum 3 11 (\<lambda>k. 2 * ?q k)"
    by (subst digits_sum_and) (simp_all only: nbit_def middle_digit, auto)
  finally have "unat (drop_bit 1 (x AND push_bit 1 0x49249249)) = digits_sum 3 11 ?q"
    by (simp only: unat_drop digits_sum_mult) simp
  moreover have "digits_sum 3 11 ?x - digits_sum 3 11 ?q = digits_sum 3 11 ?s \<and> digits_sum 3 11 ?q \<le> digits_sum 3 11 ?x"
    using digits_sum_diff [of 11 ?q ?x 3] by (simp add: algebra_simps)
  ultimately show ?thesis by (subst unat_sub) (simp_all only: word_le_nat_alt x)
qed

lemma bit_count_step2:
  fixes a :: u32
  assumes a: "unat a = digits_sum 3 11 (\<lambda>k. nbit x (3 * k) + nbit x (3 * k + 1) + 4 * nbit x (3 * k + 2))"
  shows "unat (a + (a AND drop_bit 1 0x49249249)) = digits_sum 3 11 (oct_sum x)"
proof -
  let ?a = "\<lambda>k. nbit x (3 * k) + nbit x (3 * k + 1) + 4 * nbit x (3 * k + 2)"
  let ?m = "\<lambda>k::nat. if k < 10 then 4 else (0::nat)"
  have m: "digits_sum 3 11 ?m = unat (drop_bit 1 0x49249249 :: u32)" by (simp add: digits_sum_numeral)
  have "unat (a AND drop_bit 1 0x49249249) = digits_sum 3 11 ?a AND digits_sum 3 11 ?m"
    by (simp only: unsigned_and_eq a m)
  also have "\<dots> = digits_sum 3 11 (\<lambda>k. 4 * nbit x (3 * k + 2))"
    by (subst digits_sum_and, simp add: nbit_def, simp, rule digits_sum_cong, case_tac "k < 10")
       (simp_all only: nbit_def top_digit if_True if_False, auto dest: bit_imp_le_length)
  finally have "unat a + unat (a AND drop_bit 1 0x49249249) =
      digits_sum 3 (Suc 10) (\<lambda>k. nbit x (3 * k) + nbit x (3 * k + 1) + 2 ^ 3 * nbit x (3 * k + 2))"
    unfolding a by (simp only: digits_sum_add) (simp add: algebra_simps del: digits_sum.simps)
  also have "\<dots> = digits_sum 3 (Suc 10) (\<lambda>k. nbit x (3 * k) + nbit x (3 * k + 1) + (if k = 0 then 0 else nbit x (3 * (k - 1) + 2)))"
    by (rule digits_sum_carry) (simp add: nbit_high)
  also have "\<dots> = digits_sum 3 11 (oct_sum x)"
    by (rule arg_cong3 [of _ _ _ _ _ _ digits_sum]) (auto simp: oct_sum_def)
  finally have s: "unat a + unat (a AND drop_bit 1 0x49249249) = digits_sum 3 11 (oct_sum x)" .
  have "digits_sum 3 11 (oct_sum x) \<le> digits_sum 3 11 (\<lambda>_. 3)"
    by (rule digits_sum_mono) (rule oct_sum_le)
  also have "\<dots> < 2 ^ 32" by (simp add: digits_sum_numeral)
  finally show ?thesis using s by (simp add: unat_plus_simple [THEN iffD1] no_olen_add_nat)
qed

lemma bit_count_step3:
  fixes b :: u32
  assumes "unat b = digits_sum 3 11 (oct_sum x)"
  shows "unat ((b + drop_bit 3 b) AND 0xc71c71c7) = digits_sum 6 6 (\<lambda>k. oct_sum x (2 * k) + oct_sum x (2 * k + 1))"
proof -
  let ?t = "\<lambda>k. oct_sum x k + oct_sum x (k + 1)"
  let ?g = "\<lambda>k::nat. if k < 10 then 6 else (3::nat)"
  have le: "?t k \<le> ?g k" if "k < 11" for k
    using that oct_sum_le [of x k] oct_sum_le [of x "k + 1"] oct_sum_high [of "k + 1" x] by (cases "k < 10") auto
  have "unat (b + drop_bit 3 b) = digits_sum 3 11 ?t"
    by (rule shift_add [OF assms, where g = ?g]) (use le in \<open>auto simp: digits_sum_numeral oct_sum_less oct_sum_high\<close>)
  moreover have m: "digits_sum 3 11 (\<lambda>k. if k = 10 then 3 else if even k then 7 else 0) = unat (0xc71c71c7 :: u32)"
    by (simp add: digits_sum_numeral)
  ultimately have "unat ((b + drop_bit 3 b) AND 0xc71c71c7) = digits_sum 3 11 ?t AND digits_sum 3 11 (\<lambda>k. if k = 10 then 3 else if even k then 7 else 0)"
    by (simp only: unsigned_and_eq m)
  also have "\<dots> = digits_sum 3 11 (\<lambda>k. ?t k AND (if k = 10 then 3 else if even k then 7 else 0))"
  proof (rule digits_sum_and)
    show "?t k < 2 ^ 3" if "k < 11" for k
      using le [OF that] by (auto split: if_splits)
  qed auto
  also have "\<dots> = digits_sum 3 11 (\<lambda>k. if even k then ?t k else 0)"
  proof (rule digits_sum_cong)
    fix k :: nat assume "k < 11"
    with le [OF this] show "?t k AND (if k = 10 then 3 else if even k then 7 else 0) = (if even k then ?t k else 0)"
      using less_Suc_eq [of k 10] by (auto simp: and_3_nat and_7_nat)
  qed
  also have "\<dots> = digits_sum 6 6 (\<lambda>k. oct_sum x (2 * k) + oct_sum x (2 * k + 1))"
    by (simp add: digits_sum_numeral)
  finally show ?thesis .
qed

lemma digit_0: "f 0 < 2 ^ w \<Longrightarrow> digits_sum w (Suc n) f mod 2 ^ w = f 0"
  by simp

lemma bit_count_step4:
  fixes c :: u32
  assumes c: "unat c = digits_sum 6 6 u" and u: "\<And>k. u k \<le> 6" "u 5 \<le> 3" "\<And>k. 6 \<le> k \<Longrightarrow> u k = 0"
  shows "let d = c + drop_bit 6 c; e = d + drop_bit 12 d; f = e + drop_bit 24 e
    in unat (f AND 0x3F) = (\<Sum>k<6. u k)"
proof -
  let ?d = "c + drop_bit 6 c"
  let ?e = "?d + drop_bit 12 ?d"
  let ?f = "?e + drop_bit 24 ?e"
  let ?g = "\<lambda>k::nat. if k = 5 then 3 else 60"
  define v where "v = (\<lambda>k. u k + u (k + 1))"
  define w where "w = (\<lambda>k. v k + v (k + 2))"
  define z where "z = (\<lambda>k. w k + w (k + 4))"
  have g: "digits_sum 6 6 ?g < 2 ^ 32" by (simp add: digits_sum_numeral)
  have v: "v k \<le> 12" "v 5 \<le> 3" "6 \<le> k \<Longrightarrow> v k = 0" for k
    using u(1) [of k] u(1) [of "k + 1"] u(2) u(3) [of k] u(3) [of "k + 1"] u(3) [of 6] by (simp_all add: v_def)
  have w: "w k \<le> 24" "w 5 \<le> 3" "6 \<le> k \<Longrightarrow> w k = 0" for k
    using v(1) [of k] v(1) [of "k + 2"] v(2) v(3) [of k] v(3) [of "k + 2"] v(3) [of 7] by (simp_all add: w_def)
  have z: "z k \<le> 48" "z 5 \<le> 3" "6 \<le> k \<Longrightarrow> z k = 0" for k
    using w(1) [of k] w(1) [of "k + 4"] w(2) w(3) [of k] w(3) [of "k + 4"] w(3) [of 9] by (simp_all add: z_def)
  have lt: "u k < 2 ^ 6" "v k < 2 ^ 6" "w k < 2 ^ 6" "z k < 2 ^ 6" for k
    using u(1) [of k] v(1) [of k] w(1) [of k] z(1) [of k] by simp_all
  have le: "u k + u (k + 1) \<le> ?g k" "v k + v (k + 2) \<le> ?g k" "w k + w (k + 4) \<le> ?g k" for k
    using v(1) [of k] v(2) w(1) [of k] w(2) z(1) [of k] z(2) by (auto simp flip: v_def w_def z_def) (auto simp: v_def w_def z_def)
  have d: "unat ?d = digits_sum 6 6 v"
    unfolding v_def by (rule shift_add [where g = ?g]) (use c u(3) lt le g in auto)
  have e: "unat ?e = digits_sum 6 6 w"
    unfolding w_def by (rule shift_add [where g = ?g]) (use d v(3) lt le g in auto)
  have f: "unat ?f = digits_sum 6 6 z"
    unfolding z_def by (rule shift_add [where g = ?g]) (use e w(3) lt le g in auto)
  have "unat (?f AND 0x3F) = unat (take_bit 6 ?f)"
    by (simp add: take_bit_eq_mask mask_eq_exp_minus_1)
  also have "\<dots> = digits_sum 6 (Suc 5) z mod 2 ^ 6"
    by (subst unsigned_take_bit_eq) (simp only: f take_bit_eq_mod, simp)
  also have "\<dots> = z 0" by (rule digit_0) (rule lt)
  also have "\<dots> = (\<Sum>k<6. u k)" using u(3) [of 6] u(3) [of 7]
    by (simp add: z_def w_def v_def numeral_eq_Suc)
  finally show ?thesis by (simp add: Let_def)
qed

lemma sum_nbit_groups: "(\<Sum>k<6. oct_sum x (2 * k) + oct_sum x (2 * k + 1)) = (\<Sum>n<32. nbit x n)"
  by (simp add: oct_sum_def numeral_eq_Suc nbit_high)

lemma bit_count_spec: "unat (bit_count x) = (\<Sum>n<32. of_bool (bit x n))"
proof -
  let ?a = "x - drop_bit 1 (x AND push_bit 1 0x49249249)"
  let ?b = "?a + (?a AND drop_bit 1 0x49249249)"
  let ?c = "(?b + drop_bit 3 ?b) AND 0xc71c71c7"
  let ?u = "\<lambda>k. oct_sum x (2 * k) + oct_sum x (2 * k + 1)"
  have c: "unat ?c = digits_sum 6 6 ?u"
    by (intro bit_count_step3 bit_count_step2 bit_count_step1)
  have u: "?u k \<le> 6" for k using oct_sum_le [of x "2 * k"] oct_sum_le [of x "2 * k + 1"] by simp
  have u5: "?u 5 \<le> 3" using oct_sum_le [of x 10] by (simp add: oct_sum_high)
  have u6: "6 \<le> k \<Longrightarrow> ?u k = 0" for k by (simp add: oct_sum_high)
  show ?thesis
    using bit_count_step4 [OF c u u5 u6] unfolding sum_nbit_groups bit_count_def Let_def nbit_def .
qed

lemma bit_count_mask:
  assumes "k \<le> 32"
  shows "bit_count (2 ^ k - 1) = of_nat k"
proof -
  have b: "bit (2 ^ k - 1 :: u32) n \<longleftrightarrow> n < k" if "n < 32" for n
    using that by (simp add: bit_mask_iff flip: mask_eq_exp_minus_1)
  have "(\<Sum>n<32. of_bool (bit (2 ^ k - 1 :: u32) n)) = (\<Sum>n<32. of_bool (n < k) :: nat)"
    by (rule sum.cong) (simp_all add: b)
  also have "\<dots> = card ({..<32} \<inter> {n. n < k})" by (simp add: sum_of_bool_eq)
  also have "{..<32} \<inter> {n. n < k} = {..<k}" using assms by auto
  finally have "unat (bit_count (2 ^ k - 1)) = k" by (simp only: bit_count_spec card_lessThan)
  then have "of_nat (unat (bit_count (2 ^ k - 1))) = (of_nat k :: u32)" by simp
  then show ?thesis by simp
qed


section \<open>The bit scan\<close>

lemma bit_count_minus_1: "bit_count (- 1) = 32"
  by code_simp

text \<open>The scan is the mask step followed by the population count.\<close>

lemma bit_scan_forward_count: "bit_scan_forward x = bit_count ((x AND - x) - 1)"
  by (simp add: bit_scan_forward_def bit_count_def Let_def)

lemma bit_scan_forward_0 [simp]: "bit_scan_forward 0 = 32"
  by (simp add: bit_scan_forward_count bit_count_minus_1)

lemma bit_scan_forward_eq:
  assumes "bit x k" "\<forall>j<k. \<not> bit x j"
  shows "bit_scan_forward x = of_nat k"
proof -
  have "k \<le> 32" using bit_imp_le_length [OF assms(1)] by simp
  then show ?thesis
    using and_minus_lowest_bit [of x k] assms by (simp add: bit_scan_forward_count bit_count_mask)
qed

lemma lowest_bit_ex:
  fixes x :: u32
  assumes "x \<noteq> 0"
  obtains k where "k < 32" "bit x k" "\<forall>j<k. \<not> bit x j"
proof -
  from assms obtain n where n: "bit x n" using bit_eq_iff [of x 0] by auto
  define k where "k = (LEAST n. bit x n)"
  have "bit x k" unfolding k_def using n by (rule LeastI)
  moreover have "\<forall>j<k. \<not> bit x j"
    unfolding k_def by (intro allI impI) (rule not_less_Least)
  moreover have "k < 32" using bit_imp_le_length [OF \<open>bit x k\<close>] by simp
  ultimately show ?thesis using that by blast
qed

lemma bit_scan_forward_le: "bit_scan_forward x \<le> 32"
proof (cases "x = 0")
  case False
  then obtain k where "k < 32" "bit x k" "\<forall>j<k. \<not> bit x j" by (rule lowest_bit_ex)
  then show ?thesis
    by (simp add: bit_scan_forward_eq word_le_nat_alt unat_of_nat_small)
qed simp

lemma bit_scan_forward_lowest:
  assumes "x \<noteq> 0"
  shows "bit_scan_forward x < 32" "bit x (unat (bit_scan_forward x))"
    "\<And>j. j < unat (bit_scan_forward x) \<Longrightarrow> \<not> bit x j"
proof -
  from assms obtain k where k: "k < 32" "bit x k" "\<forall>j<k. \<not> bit x j"
    by (rule lowest_bit_ex)
  then have *: "bit_scan_forward x = of_nat k" "unat (bit_scan_forward x) = k"
    by (simp_all add: bit_scan_forward_eq unat_of_nat_small)
  show "bit_scan_forward x < 32" using k(1) * by (simp add: word_less_nat_alt)
  show "bit x (unat (bit_scan_forward x))" using k(2) * by simp
  show "\<not> bit x j" if "j < unat (bit_scan_forward x)" for j using k(3) * that by simp
qed

section \<open>Single bits\<close>

lemma bit_test_bit_iff: "test_bit m i \<noteq> 0 \<longleftrightarrow> bit m (unat i)"
proof -
  have "bit (test_bit m i) n \<longleftrightarrow> n = unat i \<and> bit m n" for n
    by (auto simp: test_bit_def bit_simps dest: bit_imp_le_length)
  then show ?thesis by (metis bit_0_eq bit_eqI bot_apply bot_bool_def)
qed

lemma bit_or_flag:
  "i < 32 \<Longrightarrow> bit ((m::u32) OR push_bit i 1) n \<longleftrightarrow> bit m n \<or> n = i"
  by (auto simp: bit_simps)

lemma bit_and_not_flag:
  "bit ((m::u32) AND NOT (2 ^ i)) n \<longleftrightarrow> bit m n \<and> n \<noteq> i"
  by (auto simp: bit_simps dest: bit_imp_le_length)

section \<open>Order reversal\<close>

text \<open>Each step of the reversals exchanges neighbouring groups of \<open>k\<close> bits: bit \<open>n\<close> comes from bit \<open>swap_index k n\<close>.\<close>

lemma list_all_upt: "list_all P [0..<n] \<longleftrightarrow> (\<forall>k<n. P k)"
  by (auto simp: list_all_iff)

definition swap_index :: "nat \<Rightarrow> nat \<Rightarrow> nat" where
  "swap_index k n = (if even (n div k) then n + k else n - k)"

lemma bit_swap:
  fixes x m M :: "'a::len word"
  assumes m: "list_all (\<lambda>n. bit m n \<longleftrightarrow> even (n div k)) [0..<LENGTH('a)]"
    and M: "list_all (\<lambda>n. bit M n \<longleftrightarrow> odd (n div k)) [0..<LENGTH('a)]"
    and n: "n < LENGTH('a)"
  shows "bit ((drop_bit k x AND m) OR (push_bit k x AND M)) n \<longleftrightarrow> bit x (swap_index k n)"
proof -
  have "k \<le> n" if "odd (n div k)" using that by (cases "n < k") auto
  then show ?thesis
    using m M n by (auto simp: swap_index_def list_all_iff bit_simps add.commute)
qed

lemma bit_swap_half:
  fixes x :: "'a::len word"
  assumes "LENGTH('a) = 2 * k" "n < LENGTH('a)"
  shows "bit (drop_bit k x OR push_bit k x) n \<longleftrightarrow> bit x (swap_index k n)"
proof (cases "n < k")
  case True
  then show ?thesis using assms by (auto simp: swap_index_def bit_simps add.commute)
next
  case False
  then have "n div k = 1" using assms by (intro div_nat_eqI) auto
  moreover have "\<not> bit x (n + k)"
    using False assms by (auto dest: bit_imp_le_length)
  ultimately show ?thesis using False assms by (auto simp: swap_index_def bit_simps add.commute)
qed

lemma map_upt_eqD: "map f [0..<m] = map g [0..<m] \<Longrightarrow> n < m \<Longrightarrow> f n = g n"
  by (metis atLeast0LessThan lessThan_iff map_eq_conv set_upt)

lemma bit32_order_reverse_bit:
  assumes n: "n < 32"
  shows "bit (bit32_order_reverse x) n \<longleftrightarrow> bit x (31 - n)"
proof -
  have m: "list_all (\<lambda>n. bit (0x00ff00ff::u32) n \<longleftrightarrow> even (n div 8)) [0..<LENGTH(32)]"
    "list_all (\<lambda>n. bit (0xff00ff00::u32) n \<longleftrightarrow> odd (n div 8)) [0..<LENGTH(32)]"
    "list_all (\<lambda>n. bit (0x0f0f0f0f::u32) n \<longleftrightarrow> even (n div 4)) [0..<LENGTH(32)]"
    "list_all (\<lambda>n. bit (0xf0f0f0f0::u32) n \<longleftrightarrow> odd (n div 4)) [0..<LENGTH(32)]"
    "list_all (\<lambda>n. bit (0x33333333::u32) n \<longleftrightarrow> even (n div 2)) [0..<LENGTH(32)]"
    "list_all (\<lambda>n. bit (0xcccccccc::u32) n \<longleftrightarrow> odd (n div 2)) [0..<LENGTH(32)]"
    "list_all (\<lambda>n. bit (0x55555555::u32) n \<longleftrightarrow> even (n div 1)) [0..<LENGTH(32)]"
    "list_all (\<lambda>n. bit (0xaaaaaaaa::u32) n \<longleftrightarrow> odd (n div 1)) [0..<LENGTH(32)]"
    by code_simp+
  have "list_all (\<lambda>n. swap_index 1 n < 32 \<and> swap_index 2 n < 32 \<and> swap_index 4 n < 32 \<and> swap_index 8 n < 32) [0..<32]"
    by code_simp
  then have lt: "swap_index 1 n < LENGTH(32)" "swap_index 2 n < LENGTH(32)" "swap_index 4 n < LENGTH(32)"
    "swap_index 8 n < LENGTH(32)" if "n < LENGTH(32)" for n
    using that unfolding list_all_upt by auto
  have "map (swap_index 16) (map (swap_index 8) (map (swap_index 4) (map (swap_index 2) (map (swap_index 1) [0..<32])))) =
      map (\<lambda>n. 31 - n) [0..<32]"
    by code_simp
  then have s: "swap_index 16 (swap_index 8 (swap_index 4 (swap_index 2 (swap_index 1 n)))) = 31 - n"
    using n unfolding map_map comp_def by (rule map_upt_eqD)
  have n: "n < LENGTH(32)" using n by simp
  have lt1: "swap_index 1 n < LENGTH(32)" and lt2: "swap_index 2 (swap_index 1 n) < LENGTH(32)"
    and lt4: "swap_index 4 (swap_index 2 (swap_index 1 n)) < LENGTH(32)"
    and lt8: "swap_index 8 (swap_index 4 (swap_index 2 (swap_index 1 n))) < LENGTH(32)"
    using lt n by blast+
  have half: "LENGTH(32) = 2 * 16" by simp
  show ?thesis
    unfolding bit32_order_reverse_def Let_def s [symmetric]
    by (simp only: bit_swap [OF m(7,8) n] bit_swap [OF m(5,6) lt1] bit_swap [OF m(3,4) lt2]
      bit_swap [OF m(1,2) lt4] bit_swap_half [OF half lt8])
qed

lemma bit8_order_reverse_bit:
  assumes n: "n < 8"
  shows "bit (bit8_order_reverse x) n \<longleftrightarrow> bit x (7 - n)"
proof -
  have m: "list_all (\<lambda>n. bit (0x33::u8) n \<longleftrightarrow> even (n div 2)) [0..<LENGTH(8)]"
    "list_all (\<lambda>n. bit (0xcc::u8) n \<longleftrightarrow> odd (n div 2)) [0..<LENGTH(8)]"
    "list_all (\<lambda>n. bit (0x55::u8) n \<longleftrightarrow> even (n div 1)) [0..<LENGTH(8)]"
    "list_all (\<lambda>n. bit (0xaa::u8) n \<longleftrightarrow> odd (n div 1)) [0..<LENGTH(8)]"
    by code_simp+
  have "list_all (\<lambda>n. swap_index 1 n < 8 \<and> swap_index 2 n < 8) [0..<8]"
    by code_simp
  then have lt: "swap_index 1 n < LENGTH(8)" "swap_index 2 n < LENGTH(8)" if "n < LENGTH(8)" for n
    using that unfolding list_all_upt by auto
  have "map (swap_index 4) (map (swap_index 2) (map (swap_index 1) [0..<8])) = map (\<lambda>n. 7 - n) [0..<8]"
    by code_simp
  then have s: "swap_index 4 (swap_index 2 (swap_index 1 n)) = 7 - n"
    using n unfolding map_map comp_def by (rule map_upt_eqD)
  have n: "n < LENGTH(8)" using n by simp
  have lt1: "swap_index 1 n < LENGTH(8)" and lt2: "swap_index 2 (swap_index 1 n) < LENGTH(8)"
    using lt n by blast+
  have half: "LENGTH(8) = 2 * 4" by simp
  show ?thesis
    unfolding bit8_order_reverse_def Let_def s [symmetric]
    by (simp only: bit_swap [OF m(3,4) n] bit_swap [OF m(1,2) lt1] bit_swap_half [OF half lt2])
qed

lemma bit32_order_reverse_twice: "bit32_order_reverse (bit32_order_reverse x) = x"
  by (rule bit_word_eqI) (simp add: bit32_order_reverse_bit)

lemma bit8_order_reverse_twice: "bit8_order_reverse (bit8_order_reverse x) = x"
  by (rule bit_word_eqI) (simp add: bit8_order_reverse_bit)

section \<open>Alignment to a power of two\<close>

lemma align_downside_unat: "unat (align_downside x (2 ^ n)) = 2 ^ n * (unat x div 2 ^ n)"
proof -
  have "align_downside x (2 ^ n) = push_bit n (drop_bit n x)"
    unfolding align_downside_def mask_eq_exp_minus_1 [symmetric]
    by (rule bit_word_eqI) (auto simp: bit_simps)
  moreover have "unat (push_bit n (drop_bit n x)) = take_bit 32 (push_bit n (drop_bit n (unat x)))"
    by (simp add: unsigned_push_bit_eq unat_drop_bit_eq)
  moreover have "push_bit n (drop_bit n (unat x)) < 2 ^ 32"
    using unat_less_2p32 [of x] by (simp add: push_bit_eq_mult drop_bit_eq_div le_less_trans [OF div_times_less_eq_dividend])
  ultimately show ?thesis
    by (simp add: take_bit_nat_eq_self push_bit_eq_mult drop_bit_eq_div)
qed

lemma unat_pow2: "n < 32 \<Longrightarrow> unat (2 ^ n :: u32) = 2 ^ n"
  using unat_of_nat_small [of "2 ^ n"] power_strict_increasing [of n 32 "2::nat"] by simp

lemma align_upside_unat:
  assumes "n < 32" "unat x + 2 ^ n \<le> 2 ^ 32"
  shows "unat (align_upside x (2 ^ n)) = 2 ^ n * ((unat x + 2 ^ n - 1) div 2 ^ n)"
proof -
  have p: "unat (2 ^ n :: u32) = 2 ^ n"
    using assms(1) by (rule unat_pow2)
  have "unat (x + (2 ^ n - 1)) = unat x + (2 ^ n - 1)"
  proof (subst unat_plus_simple [THEN iffD1])
    have "unat (2 ^ n - 1 :: u32) = 2 ^ n - 1" using p by (subst unat_sub) (auto simp: word_le_nat_alt)
    then show "x \<le> x + (2 ^ n - 1)" "unat x + unat (2 ^ n - 1 :: u32) = unat x + (2 ^ n - 1)"
      using assms(2) by (simp_all add: no_olen_add_nat)
  qed
  moreover have "align_upside x (2 ^ n) = align_downside (x + (2 ^ n - 1)) (2 ^ n)"
    by (simp add: align_upside_def align_downside_def algebra_simps)
  ultimately show ?thesis by (simp add: align_downside_unat)
qed

section \<open>Properties\<close>

lemma takeWhile_upt_less: "P n \<Longrightarrow> (\<And>j. j < n \<Longrightarrow> \<not> P j) \<Longrightarrow> n < m \<Longrightarrow> takeWhile (\<lambda>k. \<not> P k) [0..<m] = [0..<n]"
  using takeWhile_append2 [of "[0..<n]" "\<lambda>k. \<not> P k" "[n..<m]"] upt_add_eq_append [of 0 n "m - n"]
  by (simp add: upt_conv_Cons)

text \<open>\<open>bit_scan_forward\<close> counts the zero bits below the lowest set bit of its argument: it
  returns that bit's index, and 32 when no bit is set.\<close>

theorem bit_scan_forward_counts:
  "unat (bit_scan_forward x) = length (takeWhile (\<lambda>n. \<not> bit x n) [0..<32])"
proof (cases "x = 0")
  case False
  then obtain k where k: "k < 32" "bit x k" "\<forall>j<k. \<not> bit x j" by (rule lowest_bit_ex)
  then have "takeWhile (\<lambda>n. \<not> bit x n) [0..<32] = [0..<k]" by (intro takeWhile_upt_less) auto
  moreover have "unat (bit_scan_forward x) = k"
    using bit_scan_forward_eq [OF k(2,3)] k(1) by (simp add: unat_of_nat_small)
  ultimately show ?thesis by simp
next
  case True
  have "length (takeWhile (\<lambda>n. \<not> bit x n) [0..<32]) = length [0..<32::nat]"
    using True by (subst takeWhile_eq_all_conv [THEN iffD2]) simp_all
  then show ?thesis using True by simp
qed

text \<open>\<open>bit_count\<close>, which adds octal digits and folds them without a loop, is the number of
  bits set in its argument.\<close>

theorem bit_count_counts: "unat (bit_count x) = card {n. n < 32 \<and> bit x n}"
proof -
  have "unat (bit_count x) = (\<Sum>n\<in>{..<32}. of_bool (bit x n))" by (simp add: bit_count_spec)
  also have "\<dots> = card {n. n < 32 \<and> bit x n}"
    using sum.inter_filter [of "{..<32::nat}" "\<lambda>_. 1::nat" "bit x"]
    by (simp add: of_bool_def Collect_conj_eq lessThan_def)
  finally show ?thesis .
qed

text \<open>\<open>bit32_order_reverse\<close> and \<open>bit8_order_reverse\<close> put bit 31 - n (7 - n) in place of bit n,
  so that each is its own inverse.\<close>

theorem order_reverse_mirrors:
  "(bit (bit32_order_reverse x) n \<longleftrightarrow> n < 32 \<and> bit x (31 - n)) \<and>
   (bit (bit8_order_reverse y) n \<longleftrightarrow> n < 8 \<and> bit y (7 - n)) \<and>
   bit32_order_reverse (bit32_order_reverse x) = x \<and> bit8_order_reverse (bit8_order_reverse y) = y"
  using bit32_order_reverse_bit [of n x] bit8_order_reverse_bit [of n y]
    bit_imp_le_length [of "bit32_order_reverse x" n] bit_imp_le_length [of "bit8_order_reverse y" n]
  by (auto simp: bit32_order_reverse_twice bit8_order_reverse_twice)

text \<open>For an alignment that is a power of two, \<open>align_upside\<close> is the least multiple at or above
  its argument as long as that one fits in 32 bits, and \<open>align_downside\<close> the greatest one at or
  below it.\<close>

theorem align_bounds:
  assumes "n < 32" "unat x + 2 ^ n \<le> 2 ^ 32"
  shows "2 ^ n dvd unat (align_upside x (2 ^ n)) \<and> x \<le> align_upside x (2 ^ n) \<and>
    unat (align_upside x (2 ^ n)) < unat x + 2 ^ n \<and>
    2 ^ n dvd unat (align_downside x (2 ^ n)) \<and> align_downside x (2 ^ n) \<le> x \<and>
    unat x < unat (align_downside x (2 ^ n)) + 2 ^ n"
proof -
  have "a \<le> 2 ^ n * ((a + 2 ^ n - 1) div 2 ^ n)" "2 ^ n * ((a + 2 ^ n - 1) div 2 ^ n) < a + 2 ^ n"
    "a < 2 ^ n * (a div 2 ^ n) + 2 ^ n" for a :: nat
  proof -
    have p: "0 < (2::nat) ^ n" by simp
    have m: "2 ^ n * (b div 2 ^ n) + b mod 2 ^ n = b" "b mod 2 ^ n < 2 ^ n" for b :: nat
      using p by (simp_all only: mult_div_mod_eq mod_less_divisor)
    show "a \<le> 2 ^ n * ((a + 2 ^ n - 1) div 2 ^ n)" "2 ^ n * ((a + 2 ^ n - 1) div 2 ^ n) < a + 2 ^ n"
      "a < 2 ^ n * (a div 2 ^ n) + 2 ^ n"
      using m [of "a + 2 ^ n - 1"] m [of a] p by linarith+
  qed
  then show ?thesis
    by (simp add: align_upside_unat [OF assms] align_downside_unat word_le_nat_alt)
qed

theorem align_bounds_witness: "unat (align_upside 1001 (2 ^ 3)) < 1009 \<and> (1001::u32) \<le> align_upside 1001 (2 ^ 3)"
  using align_bounds [of 3 1001] by simp

end
