(* ===== verification/Ioport.thy ===== *)
theory Ioport
  imports ListLib Bits
begin

text \<open>
  library/ioport.h: the accessors of memory-mapped registers, over a little-endian byte store.
  Which bits of a register byte exist is a property of the chip: \<open>io_impl\<close> masks what a write
  can set (the priority bytes of the NVIC implement their top bits only).  Every write is also
  recorded, newest first, because the set/clear registers of the peripherals act on the write
  itself and not on a stored value.
\<close>

section \<open>State and accessors\<close>

record bus = list_head +
  io :: "addr \<Rightarrow> u8"
  io_impl :: "addr \<Rightarrow> u8"
  io_log :: "(addr \<times> u32) list"

definition read_byte :: "addr \<Rightarrow> 'a bus_scheme \<Rightarrow> u8" where
  "read_byte Address s = io s Address"

definition io_store :: "addr \<Rightarrow> u8 \<Rightarrow> (addr \<Rightarrow> u8) \<Rightarrow> (addr \<Rightarrow> u8) \<Rightarrow> addr \<Rightarrow> u8" where
  "io_store Address Data impl m = m(Address := Data AND impl Address)"

definition write_byte :: "addr \<Rightarrow> u8 \<Rightarrow> 'a bus_scheme \<Rightarrow> 'a bus_scheme" where
  "write_byte Address Data s =
     s\<lparr>io := io_store Address Data (io_impl s) (io s), io_log := (Address, ucast Data) # io_log s\<rparr>"

definition read_word :: "addr \<Rightarrow> 'a bus_scheme \<Rightarrow> u16" where
  "read_word Address s = ucast (io s Address) OR push_bit 8 (ucast (io s (Address + 1)))"

definition write_word :: "addr \<Rightarrow> u16 \<Rightarrow> 'a bus_scheme \<Rightarrow> 'a bus_scheme" where
  "write_word Address Data s =
     s\<lparr>io := io_store (Address + 1) (ucast (drop_bit 8 Data)) (io_impl s)
              (io_store Address (ucast Data) (io_impl s) (io s)),
       io_log := (Address, ucast Data) # io_log s\<rparr>"

text \<open>A double word from its four bytes, lowest address first.\<close>

definition dword_of :: "u8 \<Rightarrow> u8 \<Rightarrow> u8 \<Rightarrow> u8 \<Rightarrow> u32" where
  "dword_of b0 b1 b2 b3 =
     (ucast b0 :: u32) OR push_bit 8 (ucast b1 :: u32) OR push_bit 16 (ucast b2 :: u32) OR
     push_bit 24 (ucast b3 :: u32)"

definition read_dword :: "addr \<Rightarrow> 'a bus_scheme \<Rightarrow> u32" where
  "read_dword Address s =
     dword_of (io s Address) (io s (Address + 1)) (io s (Address + 2)) (io s (Address + 3))"

definition write_dword :: "addr \<Rightarrow> u32 \<Rightarrow> 'a bus_scheme \<Rightarrow> 'a bus_scheme" where
  "write_dword Address Data s =
     s\<lparr>io := io_store (Address + 3) (ucast (drop_bit 24 Data)) (io_impl s)
              (io_store (Address + 2) (ucast (drop_bit 16 Data)) (io_impl s)
              (io_store (Address + 1) (ucast (drop_bit 8 Data)) (io_impl s)
              (io_store Address (ucast Data) (io_impl s) (io s)))),
       io_log := (Address, Data) # io_log s\<rparr>"

definition dword_clear_bits :: "addr \<Rightarrow> u32 \<Rightarrow> 'a bus_scheme \<Rightarrow> 'a bus_scheme" where
  "dword_clear_bits Address BitMap s = write_dword Address (read_dword Address s AND NOT BitMap) s"

definition dword_set_bits :: "addr \<Rightarrow> u32 \<Rightarrow> 'a bus_scheme \<Rightarrow> 'a bus_scheme" where
  "dword_set_bits Address BitMap s = write_dword Address (read_dword Address s OR BitMap) s"

definition dword_modify :: "addr \<Rightarrow> u32 \<Rightarrow> u32 \<Rightarrow> 'a bus_scheme \<Rightarrow> 'a bus_scheme" where
  "dword_modify Address ClrBitMap SetBitMap s =
     write_dword Address ((read_dword Address s AND NOT ClrBitMap) OR SetBitMap) s"

definition dword_change_bits :: "addr \<Rightarrow> u32 \<Rightarrow> 'a bus_scheme \<Rightarrow> 'a bus_scheme" where
  "dword_change_bits Address BitMap s = write_dword Address (read_dword Address s XOR BitMap) s"

section \<open>What the accessors change\<close>

lemma write_frame [simp]:
  "nxt (write_byte a v s) = nxt s" "prv (write_byte a v s) = prv s"
  "nxt (write_word a w s) = nxt s" "prv (write_word a w s) = prv s"
  "nxt (write_dword a d s) = nxt s" "prv (write_dword a d s) = prv s"
  "bus.more (write_byte a v s) = bus.more s" "bus.more (write_word a w s) = bus.more s"
  "bus.more (write_dword a d s) = bus.more s"
  "io_impl (write_byte a v s) = io_impl s" "io_impl (write_word a w s) = io_impl s"
  "io_impl (write_dword a d s) = io_impl s"
  by (simp_all add: write_byte_def write_word_def write_dword_def)

lemma io_log_write [simp]:
  "io_log (write_byte a v s) = (a, ucast v) # io_log s"
  "io_log (write_dword a d s) = (a, d) # io_log s"
  by (simp_all add: write_byte_def write_dword_def)

text \<open>The bits that all four bytes of a register implement.\<close>

definition dword_impl :: "addr \<Rightarrow> 'a bus_scheme \<Rightarrow> u32" where
  "dword_impl Address s =
     dword_of (io_impl s Address) (io_impl s (Address + 1)) (io_impl s (Address + 2)) (io_impl s (Address + 3))"

lemma bit_dword_of:
  "bit (dword_of b0 b1 b2 b3) n \<longleftrightarrow>
     (if n < 8 then bit b0 n else if n < 16 then bit b1 (n - 8) else if n < 24 then bit b2 (n - 16)
      else n < 32 \<and> bit b3 (n - 24))"
  by (auto simp: dword_of_def bit_simps dest: bit_imp_le_length)

lemma dword_of_split:
  "dword_of (ucast d) (ucast (drop_bit 8 d)) (ucast (drop_bit 16 d)) (ucast (drop_bit 24 d)) = d"
  by (rule bit_word_eqI) (auto simp: bit_dword_of bit_simps)

lemma dword_of_and:
  "dword_of (a0 AND b0) (a1 AND b1) (a2 AND b2) (a3 AND b3) = dword_of a0 a1 a2 a3 AND dword_of b0 b1 b2 b3"
  by (rule bit_word_eqI) (simp add: bit_dword_of bit_and_iff)

lemma read_write_dword: "read_dword a (write_dword a d s) = d AND dword_impl a s"
proof -
  have "read_dword a (write_dword a d s) =
      dword_of (ucast d AND io_impl s a) (ucast (drop_bit 8 d) AND io_impl s (a + 1))
        (ucast (drop_bit 16 d) AND io_impl s (a + 2)) (ucast (drop_bit 24 d) AND io_impl s (a + 3))"
    by (simp add: read_dword_def write_dword_def io_store_def)
  then show ?thesis by (simp only: dword_of_and dword_of_split dword_impl_def)
qed

text \<open>Registers of which every bit is implemented.\<close>

definition full_dword :: "addr \<Rightarrow> 'a bus_scheme \<Rightarrow> bool" where
  "full_dword Address s \<longleftrightarrow> dword_impl Address s = - 1"

lemma read_write_full: "full_dword a s \<Longrightarrow> read_dword a (write_dword a d s) = d"
  by (simp add: read_write_dword full_dword_def)

text \<open>A write leaves the registers that do not overlap it.\<close>

definition apart :: "addr \<Rightarrow> addr \<Rightarrow> bool" where
  "apart a b \<longleftrightarrow> list_all (\<lambda>i. list_all (\<lambda>j. a + i \<noteq> b + j) [0, 1, 2, 3]) [0, 1, 2, 3]"

lemma read_write_apart: "apart a b \<Longrightarrow> read_dword a (write_dword b d s) = read_dword a s"
  by (simp add: apart_def read_dword_def write_dword_def io_store_def)

lemma dword_impl_write [simp]: "dword_impl a (write_dword b d s) = dword_impl a s"
  by (simp add: dword_impl_def)

lemma dword_bits_full:
  assumes "full_dword a s"
  shows "read_dword a (dword_set_bits a m s) = read_dword a s OR m"
    and "read_dword a (dword_clear_bits a m s) = read_dword a s AND NOT m"
    and "read_dword a (dword_change_bits a m s) = read_dword a s XOR m"
    and "read_dword a (dword_modify a c m s) = (read_dword a s AND NOT c) OR m"
  using assms
  by (simp_all add: dword_set_bits_def dword_clear_bits_def dword_change_bits_def dword_modify_def read_write_full)

end
