(* ===== verification/Nvic.thy ===== *)
theory Nvic
  imports Ioport
begin

text \<open>
  nvic/interrupt.c: the interrupt controller of the Cortex-M3.  The number of implemented priority
  bits is probed at start-up and every priority is shifted into them.
\<close>

section \<open>State and operations\<close>

record nvic = bus +
  LowBitIndex :: u8

definition read_priority_bits :: "'a bus_scheme \<Rightarrow> u32 \<times> 'a bus_scheme" where
  "read_priority_bits s =
     (let s = write_byte 0xE000E400 0xFF s;
          Bitmap = ucast (read_byte 0xE000E400 s)
      in (bit_scan_forward Bitmap, s))"

definition vic_setup :: "'a nvic_scheme \<Rightarrow> int \<times> 'a nvic_scheme" where
  "vic_setup s =
     (let pSysPriority = 0xE000ED18;
          (r, s) = read_priority_bits s;
          s = s\<lparr>LowBitIndex := ucast r\<rparr>;
          low = unat (LowBitIndex s);
          s = write_dword 0xE000ED0C 0x05FA0200 s;
          s = write_byte (pSysPriority + 0) (ucast (push_bit low (0x00 :: u32))) s;
          s = write_byte (pSysPriority + 1) (ucast (push_bit low (0x00 :: u32))) s;
          s = write_byte (pSysPriority + 2) (ucast (push_bit low (0x00 :: u32))) s;
          s = write_byte (pSysPriority + 7) (ucast (push_bit low (0x00 :: u32))) s;
          s = write_byte (pSysPriority + 8) (ucast (push_bit low (0x00 :: u32))) s;
          s = write_byte (pSysPriority + 10) (ucast (push_bit low (0xFF :: u32))) s;
          s = write_byte (pSysPriority + 11) (ucast (push_bit low (0x02 :: u32))) s
      in (OK, s))"

text \<open>The handler itself is in the vector table of the boot file; only its null test matters here.\<close>

definition irq_register :: "u32 \<Rightarrow> u32 \<Rightarrow> addr \<Rightarrow> 'a nvic_scheme \<Rightarrow> int \<times> 'a nvic_scheme" where
  "irq_register Device prio pException s =
     (let pPriority = 0xE000E400;
          pEnable = 0xE000E100
      in if NULL = pException then (ERR, s)
         else
           let s = write_byte (pPriority + Device) (ucast (push_bit (unat (LowBitIndex s)) prio)) s;
               Offset = drop_bit 5 Device;
               Index = Device AND 31;
               s = write_dword (pEnable + 4 * Offset) (push_bit (unat Index) 1) s
           in (OK, s))"

definition irq_unregister :: "u32 \<Rightarrow> 'a nvic_scheme \<Rightarrow> int \<times> 'a nvic_scheme" where
  "irq_unregister Device s =
     (let pDisable = 0xE000E180;
          Offset = drop_bit 5 Device;
          Index = Device AND 31;
          s = write_dword (pDisable + 4 * Offset) (push_bit (unat Index) 1) s
      in (OK, s))"

section \<open>Lemmas\<close>

lemma nvic_frame [simp]:
  "LowBitIndex (write_byte a v s) = LowBitIndex s" "LowBitIndex (write_dword a d s) = LowBitIndex s"
  "nvic.more (write_byte a v s) = nvic.more s" "nvic.more (write_dword a d s) = nvic.more s"
  by (simp_all add: write_byte_def write_dword_def)

lemma read_priority_bits_eq:
  "fst (read_priority_bits s) = bit_scan_forward (ucast (io_impl s 0xE000E400))"
proof -
  have e: "(0xFF :: u8) = - 1" by code_simp
  have "(0xFF :: u8) AND m = m" for m unfolding e by simp
  then show ?thesis
    by (simp add: read_priority_bits_def Let_def read_byte_def write_byte_def io_store_def)
qed

text \<open>The device bit that the enable and disable registers receive.\<close>

definition device_mask :: "u32 \<Rightarrow> u32" where
  "device_mask Device = push_bit (unat (Device AND 31)) 1"

lemma bit_device_mask: "bit (device_mask Device) n \<longleftrightarrow> n = unat (Device AND 31)"
proof -
  have "Device AND 31 = take_bit 5 Device" by (simp add: take_bit_eq_mask mask_eq_exp_minus_1)
  then have "unat (Device AND 31) < 32"
    using take_bit_nat_less_exp [of 5 "unat Device"] by (simp add: unsigned_take_bit_eq)
  then show ?thesis by (auto simp: device_mask_def bit_simps)
qed

text \<open>The priority bytes of the devices do not overlap the enable registers.\<close>

lemma priority_byte_apart:
  assumes "Device < 112" "k < 4"
  shows "(0xE000E400 :: addr) + Device \<noteq> 0xE000E100 + 4 * drop_bit 5 Device + k"
proof
  have d: "unat Device < 112" "unat k < 4" using assms by (simp_all add: word_less_nat_alt)
  have q: "unat (drop_bit 5 Device) \<le> 3" using d by (simp add: unat_drop)
  then have "unat (4 * drop_bit 5 Device) = 4 * unat (drop_bit 5 Device)"
    using unat_mult_lem [of 4 "drop_bit 5 Device"] by simp
  then have "unat (4 * drop_bit 5 Device + k) \<le> 15"
    using unat_add_lem [of "4 * drop_bit 5 Device" k] q d by simp
  moreover have "unat (0x300 + Device) = 0x300 + unat Device" using unat_add_lem [of "0x300" Device] d by simp
  moreover assume "(0xE000E400 :: addr) + Device = 0xE000E100 + 4 * drop_bit 5 Device + k"
  then have "0x300 + Device = 4 * drop_bit 5 Device + k" by (simp add: algebra_simps)
  ultimately show False by simp
qed

lemma irq_register_ok:
  assumes "pException \<noteq> NULL" "Device < 112"
  shows "fst (irq_register Device prio pException s) = OK"
    and "io (snd (irq_register Device prio pException s)) (0xE000E400 + Device) =
      ucast (push_bit (unat (LowBitIndex s)) prio) AND io_impl s (0xE000E400 + Device)"
    and "io_log (snd (irq_register Device prio pException s)) =
      (0xE000E100 + 4 * drop_bit 5 Device, device_mask Device) #
      (0xE000E400 + Device, ucast (ucast (push_bit (unat (LowBitIndex s)) prio) :: u8)) # io_log s"
  using assms priority_byte_apart [of Device 0] priority_byte_apart [of Device 1]
    priority_byte_apart [of Device 2] priority_byte_apart [of Device 3]
  by (simp_all add: irq_register_def Let_def device_mask_def write_dword_def write_byte_def io_store_def add.assoc)

section \<open>Properties\<close>

lemma byte_ones: "(0xFF :: u8) = - 1"
  by code_simp

text \<open>The priority that the device asked for reaches the byte of the controller.\<close>

lemma push_bit_unat_u8:
  assumes "k < 8" "unat (prio::u32) < 2 ^ (8 - k)"
  shows "(ucast (push_bit k prio) :: u8) AND push_bit k 0xFF = push_bit k (ucast prio)"
    and "unat (push_bit k (ucast prio) :: u8) = unat prio * 2 ^ k"
proof -
  have "\<not> bit prio n" if "8 - k \<le> n" for n
  proof -
    have "unat prio < 2 ^ n" using assms(2) power_increasing [OF that, of "2::nat"] by linarith
    then have "\<not> bit (unat prio) n" by (simp add: bit_iff_odd)
    then show ?thesis using bit_imp_le_length [of prio n] by (auto simp: bit_unsigned_iff)
  qed
  then show "(ucast (push_bit k prio) :: u8) AND push_bit k 0xFF = push_bit k (ucast prio)"
    unfolding byte_ones by (intro bit_word_eqI) (auto simp: bit_simps)
  have "unat prio * 2 ^ k < 2 ^ 8"
  proof -
    have "unat prio * 2 ^ k < 2 ^ (8 - k) * 2 ^ k" using assms(2) by simp
    also have "\<dots> = 2 ^ 8" using assms(1) by (simp flip: power_add)
    finally show ?thesis .
  qed
  then show "unat (push_bit k (ucast prio) :: u8) = unat prio * 2 ^ k"
    using assms le_less_trans [of "unat prio" "unat prio * 2 ^ k" 256]
    by (simp add: unsigned_push_bit_eq unsigned_ucast_eq take_bit_nat_eq_self) (simp add: push_bit_eq_mult take_bit_nat_eq_self)
qed

lemma vic_setup_LowBitIndex:
  "LowBitIndex (snd (vic_setup s)) = ucast (bit_scan_forward (ucast (io_impl s 0xE000E400)))"
  "io_impl (snd (vic_setup s)) = io_impl s"
  by (simp_all add: vic_setup_def Let_def read_priority_bits_eq split_beta)
    (simp add: read_priority_bits_def Let_def)

text \<open>on a controller that implements the upper 8 - k bits of its priority bytes,
  \<open>vic_setup\<close> finds k, and then \<open>irq_register\<close> stores a priority below 2 ^ (8 - k) unharmed in
  those bits, enables exactly the one device in the set-enable register of its group of 32, and
  reports success; without a handler it refuses and touches nothing; \<open>irq_unregister\<close> writes the
  same bit to the clear-enable register.\<close>

theorem irq_register_priority:
  assumes "k < 8" "io_impl s 0xE000E400 = push_bit k 0xFF" "io_impl s (0xE000E400 + Device) = push_bit k 0xFF"
    "Device < 112" "unat prio < 2 ^ (8 - k)" "pException \<noteq> NULL"
  shows "(let s1 = snd (vic_setup s); (r, s2) = irq_register Device prio pException s1;
      m = device_mask Device in
    unat (LowBitIndex s1) = k \<and> r = OK \<and> unat (io s2 (0xE000E400 + Device)) = unat prio * 2 ^ k \<and>
    hd (io_log s2) = (0xE000E100 + 4 * drop_bit 5 Device, m) \<and>
    irq_register Device prio NULL s1 = (ERR, s1) \<and>
    io_log (snd (irq_unregister Device s2)) = (0xE000E180 + 4 * drop_bit 5 Device, m) # io_log s2 \<and>
    {n. bit m n} = {unat (Device AND 31)})"
proof -
  let ?s = "snd (vic_setup s)"
  have "bit_scan_forward (ucast (push_bit k (0xFF :: u8))) = of_nat k"
    unfolding byte_ones by (rule bit_scan_forward_eq) (use assms(1) in \<open>auto simp: bit_simps\<close>)
  then have low: "LowBitIndex ?s = of_nat k"
    using assms(1,2) by (simp add: vic_setup_LowBitIndex unsigned_of_nat take_bit_nat_eq_self)
  then have k: "unat (LowBitIndex ?s) = k" using assms(1) by (simp add: unat_of_nat)
  have "unat (io (snd (irq_register Device prio pException ?s)) (0xE000E400 + Device)) = unat prio * 2 ^ k"
    using irq_register_ok(2) [OF assms(6,4), of prio ?s] assms(3) push_bit_unat_u8 [OF assms(1,5)] k
    by (simp add: vic_setup_LowBitIndex(2))
  moreover have "{n. bit (device_mask Device) n} = {unat (Device AND 31)}"
    by (rule set_eqI) (simp add: bit_device_mask)
  ultimately show ?thesis
    using irq_register_ok [OF assms(6,4), of prio ?s] k
    by (simp add: Let_def split_beta irq_unregister_def irq_register_def [of _ _ NULL] device_mask_def)
qed

theorem irq_register_priority_witness:
  "(let s = \<lparr>nxt = \<lambda>_. 0, prv = \<lambda>_. 0, io = \<lambda>_. 0, io_impl = \<lambda>_. push_bit 3 0xFF, io_log = [], LowBitIndex = 0\<rparr>;
        s1 = snd (vic_setup s) in
    unat (LowBitIndex s1) = 3 \<and> unat (io (snd (irq_register 5 7 0x401 s1)) 0xE000E405) = 56)"
  using irq_register_priority [where k = 3 and s = "\<lparr>nxt = \<lambda>_. 0, prv = \<lambda>_. 0, io = \<lambda>_. 0, io_impl = \<lambda>_. push_bit 3 0xFF, io_log = [], LowBitIndex = 0\<rparr>" and Device = 5 and prio = 7 and pException = "0x401"]
  by (simp add: Let_def split_beta del: push_bit_numeral)

end
