(* ===== verification/KState.thy ===== *)
theory KState
  imports Nvic
begin

text \<open>
  The data of the kernel (kernel/kernel.h, ticker/ticker.h) and the blocks every blocking and
  waking operation shares: taking a thread off its ready queue (\<open>vivify_thread\<close> of
  kernel/kernel.c, repeated in line in sleep, semaphore\_wait, mail\_wait, pipe\_read, exit and
  kill) and putting it on one.  The fields of \<open>THREAD\<close> and \<open>TIMER\<close> are maps from the address of
  the structure; the embedded \<open>Timer\<close> and \<open>Node\<close> are found at their offsets (20 and 32).
  The ready queues are described by \<open>ready_inv\<close>: each of the 33 heads represents a list of
  nodes, the bitmap marks exactly the nonempty queues of the 32 thread priorities, and a queued
  thread has the priority of its queue.
\<close>

section \<open>State\<close>

record os = nvic +
  pStackTop :: "addr \<Rightarrow> addr"
  pStackBottom :: "addr \<Rightarrow> addr"
  Priority :: "addr \<Rightarrow> u32"
  pName :: "addr \<Rightarrow> addr"
  pLive :: "addr \<Rightarrow> addr"
  pAttachment :: "addr \<Rightarrow> addr"
  pExit :: "addr \<Rightarrow> addr"
  pKill :: "addr \<Rightarrow> addr"
  Prev :: "addr \<Rightarrow> addr"
  Next :: "addr \<Rightarrow> addr"
  Time :: "addr \<Rightarrow> u32"
  OS_ActivePrio :: u32
  OS_This :: addr
  OS_LiveList :: addr
  OS_pTimer :: addr
  PRIMASK :: u32
  stack_mem :: "addr \<Rightarrow> u32"

text \<open>Where the linker put the kernel's globals (project/hello/hello.map).\<close>

definition OS_ActiveProc :: "u32 \<Rightarrow> addr" where
  "OS_ActiveProc prio = 0x2007eabc + 8 * prio"

definition OS_DeadList :: addr where
  "OS_DeadList = 0x2007ea90"

definition OS_Idle :: addr where
  "OS_Idle = 0x2007ebc4"

text \<open>\<open>&pThread->Node\<close>, \<open>&pThread->Timer\<close> and the \<open>container_of\<close> that undo them.\<close>

definition Node :: "addr \<Rightarrow> addr" where
  "Node pThread = pThread + 32"

definition Timer :: "addr \<Rightarrow> addr" where
  "Timer pThread = pThread + 20"

definition thread_of_node :: "addr \<Rightarrow> addr" where
  "thread_of_node n = n - 32"

definition thread_of_timer :: "addr \<Rightarrow> addr" where
  "thread_of_timer t = t - 20"

lemma thread_of_node_Node [simp]: "thread_of_node (Node t) = t"
  by (simp add: thread_of_node_def Node_def)

lemma Node_thread_of_node [simp]: "Node (thread_of_node n) = n"
  by (simp add: thread_of_node_def Node_def)

lemma thread_of_timer_Timer [simp]: "thread_of_timer (Timer t) = t"
  by (simp add: thread_of_timer_def Timer_def)

lemma Timer_thread_of_timer [simp]: "Timer (thread_of_timer t) = t"
  by (simp add: thread_of_timer_def Timer_def)

section \<open>The system calls of syscall.s\<close>

text \<open>
  \<open>OS_thread_switch\<close> writes the PENDSVSET bit of ICSR; the switch itself happens when the
  exception is taken, which a masked processor postpones.  \<open>switch_pending\<close> looks for that write.
\<close>

definition ICSR :: addr where
  "ICSR = 0xE000ED04"

definition OS_thread_switch :: "'a os_scheme \<Rightarrow> 'a os_scheme" where
  "OS_thread_switch s = write_dword ICSR 0x10000000 s"

definition switch_pending :: "'a os_scheme \<Rightarrow> bool" where
  "switch_pending s \<longleftrightarrow> bit (read_dword ICSR s) 28"

definition atom_operate_lock :: "'a os_scheme \<Rightarrow> u32 \<times> 'a os_scheme" where
  "atom_operate_lock s = (PRIMASK s, s\<lparr>PRIMASK := 1\<rparr>)"

definition atom_operate_unlock :: "u32 \<Rightarrow> 'a os_scheme \<Rightarrow> 'a os_scheme" where
  "atom_operate_unlock Key s = s\<lparr>PRIMASK := Key\<rparr>"

section \<open>Leaving and entering the ready queues\<close>

definition vivify_thread :: "addr \<Rightarrow> u32 \<Rightarrow> 'a os_scheme \<Rightarrow> 'a os_scheme" where
  "vivify_thread pControl prio s =
     (let s = list_del (Node pControl) s
      in if list_empty (OS_ActiveProc prio) s
         then s\<lparr>OS_ActivePrio := OS_ActivePrio s AND NOT (push_bit (unat prio) 1)\<rparr>
         else s)"

definition activate_thread :: "addr \<Rightarrow> u32 \<Rightarrow> 'a os_scheme \<Rightarrow> 'a os_scheme" where
  "activate_thread pThread prio s =
     (let s = list_add (Node pThread) (OS_ActiveProc prio) s
      in s\<lparr>OS_ActivePrio := OS_ActivePrio s OR push_bit (unat prio) 1\<rparr>)"

section \<open>The ready queues\<close>

definition ready_heads :: "addr set" where
  "ready_heads = OS_ActiveProc ` {p. p \<le> 32}"

definition ready_inv :: "'a os_scheme \<Rightarrow> addr set \<Rightarrow> (addr \<Rightarrow> addr list) \<Rightarrow> bool" where
  "ready_inv s W Q \<longleftrightarrow>
     family dlist s (ready_heads \<union> W) Q \<and>
     W \<inter> ready_heads = {} \<and>
     (\<forall>p<32. bit (OS_ActivePrio s) (unat p) \<longleftrightarrow> Q (OS_ActiveProc p) \<noteq> []) \<and>
     (\<forall>p\<le>32. \<forall>n\<in>set (Q (OS_ActiveProc p)). Priority s (thread_of_node n) = p)"

section \<open>Lemmas on the ready queues\<close>

lemma unat_le_32: "p \<le> 32 \<longleftrightarrow> unat (p::u32) \<le> 32"
  by (simp add: word_le_nat_alt)

lemma OS_ActiveProc_eq_iff: "p \<le> 32 \<Longrightarrow> q \<le> 32 \<Longrightarrow> OS_ActiveProc p = OS_ActiveProc q \<longleftrightarrow> p = q"
proof -
  assume "p \<le> 32" "q \<le> 32"
  then have "unat p \<le> 32" "unat q \<le> 32" by (simp_all add: word_le_nat_alt)
  then have "unat (8 * p) = 8 * unat p" "unat (8 * q) = 8 * unat q"
    using unat_mult_lem [of 8 p] unat_mult_lem [of 8 q] by simp_all
  moreover have "OS_ActiveProc p = OS_ActiveProc q \<longleftrightarrow> 8 * p = 8 * q" by (simp only: OS_ActiveProc_def add_left_cancel)
  ultimately show ?thesis by (metis mult_left_cancel word_unat_eq_iff zero_neq_numeral)
qed

lemma ready_heads_memb [simp]: "p \<le> 32 \<Longrightarrow> OS_ActiveProc p \<in> ready_heads"
  by (auto simp: ready_heads_def)

text \<open>What the ready-queue blocks leave alone.\<close>

lemma vivify_frame [simp]:
  "Priority (vivify_thread t p s) = Priority s" "OS_This (vivify_thread t p s) = OS_This s"
  "pStackTop (vivify_thread t p s) = pStackTop s" "OS_pTimer (vivify_thread t p s) = OS_pTimer s"
  "Prev (vivify_thread t p s) = Prev s" "Next (vivify_thread t p s) = Next s"
  "Time (vivify_thread t p s) = Time s" "io (vivify_thread t p s) = io s"
  "io_impl (vivify_thread t p s) = io_impl s" "io_log (vivify_thread t p s) = io_log s"
  "PRIMASK (vivify_thread t p s) = PRIMASK s" "OS_LiveList (vivify_thread t p s) = OS_LiveList s"
  "pLive (vivify_thread t p s) = pLive s" "os.more (vivify_thread t p s) = os.more s"
  by (simp_all add: vivify_thread_def ring_simps)

lemma activate_frame [simp]:
  "Priority (activate_thread t p s) = Priority s" "OS_This (activate_thread t p s) = OS_This s"
  "pStackTop (activate_thread t p s) = pStackTop s" "OS_pTimer (activate_thread t p s) = OS_pTimer s"
  "Prev (activate_thread t p s) = Prev s" "Next (activate_thread t p s) = Next s"
  "Time (activate_thread t p s) = Time s" "io (activate_thread t p s) = io s"
  "io_impl (activate_thread t p s) = io_impl s" "io_log (activate_thread t p s) = io_log s"
  "PRIMASK (activate_thread t p s) = PRIMASK s" "OS_LiveList (activate_thread t p s) = OS_LiveList s"
  "pLive (activate_thread t p s) = pLive s" "os.more (activate_thread t p s) = os.more s"
  by (simp_all add: activate_thread_def ring_simps)

lemma list_frame [simp]:
  "OS_ActivePrio (list_del x s) = OS_ActivePrio s" "OS_ActivePrio (list_add x h s) = OS_ActivePrio s"
  "Priority (list_del x s) = Priority s" "Priority (list_add x h s) = Priority s"
  "OS_This (list_del x s) = OS_This s" "OS_This (list_add x h s) = OS_This s"
  by (simp_all add: ring_simps)

lemma vivify_links:
  "nxt (vivify_thread t p s) = nxt (list_del (Node t) s)" "prv (vivify_thread t p s) = prv (list_del (Node t) s)"
  by (simp_all add: vivify_thread_def Let_def)

lemma activate_links:
  "nxt (activate_thread t p s) = nxt (list_add (Node t) (OS_ActiveProc p) s)"
  "prv (activate_thread t p s) = prv (list_add (Node t) (OS_ActiveProc p) s)"
  by (simp_all add: activate_thread_def Let_def)

lemma ready_invD:
  assumes "ready_inv s W Q" "p \<le> 32"
  shows "dlist s (OS_ActiveProc p) (Q (OS_ActiveProc p))"
  using assms by (auto simp: ready_inv_def intro: familyD)

lemma ready_vivify:
  assumes r: "ready_inv s W Q" and p: "p \<le> 32" and t: "Node t \<in> set (Q (OS_ActiveProc p))"
  shows "ready_inv (vivify_thread t p s) W (Q(OS_ActiveProc p := remove1 (Node t) (Q (OS_ActiveProc p))))"
    and "\<not> on_family (ready_heads \<union> W) (Q(OS_ActiveProc p := remove1 (Node t) (Q (OS_ActiveProc p)))) (Node t)"
proof -
  let ?h = "OS_ActiveProc p" and ?s = "list_del (Node t) s"
  let ?Q = "Q(?h := remove1 (Node t) (Q ?h))"
  have f: "family dlist s (ready_heads \<union> W) Q" and h: "?h \<in> ready_heads \<union> W"
    using r p by (auto simp: ready_inv_def)
  note fd = dl.family_del [OF f h t]
  show "\<not> on_family (ready_heads \<union> W) ?Q (Node t)" by (rule fd(2))
  have e: "list_empty ?h ?s \<longleftrightarrow> remove1 (Node t) (Q ?h) = []"
    using familyD [OF fd(1) h] dlist_empty by fastforce
  have "bit (OS_ActivePrio (vivify_thread t p s)) (unat q) \<longleftrightarrow> ?Q (OS_ActiveProc q) \<noteq> []" if "q < 32" for q
  proof -
    have q: "unat q < 32" "q \<le> 32" using that by (simp_all add: word_less_nat_alt word_le_nat_alt)
    have b: "bit (OS_ActivePrio s) (unat q) \<longleftrightarrow> Q (OS_ActiveProc q) \<noteq> []"
      using r that by (simp add: ready_inv_def)
    have pq: "unat q = unat p \<longleftrightarrow> q = p" by (simp add: word_unat_eq_iff)
    show ?thesis
      using b t q p e by (auto simp: vivify_thread_def Let_def bit_and_not_flag pq OS_ActiveProc_eq_iff)
  qed
  moreover have "family dlist (vivify_thread t p s) (ready_heads \<union> W) ?Q"
    using fd(1) by (subst family_dlist_cong [of _ ?s]) (simp_all add: vivify_links)
  moreover have "\<forall>q\<le>32. \<forall>n\<in>set (?Q (OS_ActiveProc q)). Priority (vivify_thread t p s) (thread_of_node n) = q"
    using r p set_remove1_subset [of "Node t" "Q ?h"]
    by (auto simp: ready_inv_def OS_ActiveProc_eq_iff dest: subsetD)
  ultimately show "ready_inv (vivify_thread t p s) W ?Q"
    using r by (simp add: ready_inv_def)
qed

lemma ready_activate:
  assumes r: "ready_inv s W Q" and p: "p \<le> 32" "Priority s t = p"
    and t: "\<not> on_family (ready_heads \<union> W) Q (Node t)"
  shows "ready_inv (activate_thread t p s) W (Q(OS_ActiveProc p := Node t # Q (OS_ActiveProc p)))"
proof -
  let ?h = "OS_ActiveProc p" and ?s = "list_add (Node t) (OS_ActiveProc p) s"
  let ?Q = "Q(?h := Node t # Q ?h)"
  have f: "family dlist s (ready_heads \<union> W) Q" and h: "?h \<in> ready_heads \<union> W"
    using r p by (auto simp: ready_inv_def)
  have "bit (OS_ActivePrio (activate_thread t p s)) (unat q) \<longleftrightarrow> ?Q (OS_ActiveProc q) \<noteq> []" if "q < 32" for q
  proof -
    have q: "unat q < 32" "q \<le> 32" using that by (simp_all add: word_less_nat_alt word_le_nat_alt)
    have b: "bit (OS_ActivePrio s) (unat q) \<longleftrightarrow> Q (OS_ActiveProc q) \<noteq> []"
      using r that by (simp add: ready_inv_def)
    have pq: "unat q = unat p \<longleftrightarrow> q = p" by (simp add: word_unat_eq_iff)
    show ?thesis
      using b q p by (auto simp: activate_thread_def Let_def bit_simps pq OS_ActiveProc_eq_iff)
  qed
  moreover have "family dlist (activate_thread t p s) (ready_heads \<union> W) ?Q"
    using dl.family_add [OF f h t] by (subst family_dlist_cong [of _ ?s]) (simp_all add: activate_links)
  moreover have "\<forall>q\<le>32. \<forall>n\<in>set (?Q (OS_ActiveProc q)). Priority (activate_thread t p s) (thread_of_node n) = q"
    using r p by (auto simp: ready_inv_def OS_ActiveProc_eq_iff)
  ultimately show ?thesis
    using r by (simp add: ready_inv_def)
qed

text \<open>Steps that leave the links, the bitmap and the priorities alone.\<close>

lemma ready_inv_cong:
  assumes "nxt s' = nxt s" "prv s' = prv s" "OS_ActivePrio s' = OS_ActivePrio s" "Priority s' = Priority s"
  shows "ready_inv s' W Q \<longleftrightarrow> ready_inv s W Q"
  using assms by (simp add: ready_inv_def family_dlist_cong [of s' s])

text \<open>The scan of the bitmap finds the highest-priority nonempty queue.\<close>

lemma ready_scan:
  assumes r: "ready_inv s W Q" and p: "p = bit_scan_forward (OS_ActivePrio s)"
  shows "p \<le> 32" and "p < 32 \<Longrightarrow> Q (OS_ActiveProc p) \<noteq> []" and "q < p \<Longrightarrow> Q (OS_ActiveProc q) = []"
proof -
  have bits: "\<And>q. q < 32 \<Longrightarrow> bit (OS_ActivePrio s) (unat q) \<longleftrightarrow> Q (OS_ActiveProc q) \<noteq> []"
    using r by (simp add: ready_inv_def)
  show p32: "p \<le> 32" by (simp add: p bit_scan_forward_le)
  show "Q (OS_ActiveProc p) \<noteq> []" if "p < 32"
  proof -
    have "OS_ActivePrio s \<noteq> 0" using that p by auto
    then show ?thesis using bits [OF that] bit_scan_forward_lowest(2) p by blast
  qed
  show "Q (OS_ActiveProc q) = []" if "q < p"
  proof -
    have q: "q < 32" "unat q < unat p" using that p32 by (auto simp: word_less_nat_alt word_le_nat_alt)
    have "\<not> bit (OS_ActivePrio s) (unat q)"
      using bit_scan_forward_lowest(3) [of "OS_ActivePrio s"] q p by (cases "OS_ActivePrio s = 0") auto
    then show ?thesis using bits [OF q(1)] by blast
  qed
qed

section \<open>A sample system\<close>

text \<open>
  A system with the running thread at 0x1000, priority 3, and the idle thread at 0x2000, priority
  32, in the queues; the concrete input of the witnesses.
\<close>

definition sample :: "'a \<Rightarrow> 'a os_scheme" where
  "sample m = \<lparr>nxt = \<lambda>a. a, prv = \<lambda>a. a, io = \<lambda>_. 0, io_impl = \<lambda>_. - 1, io_log = [], LowBitIndex = 3,
     pStackTop = \<lambda>_. 0, pStackBottom = \<lambda>_. 0, Priority = \<lambda>t. if t = 0x2000 then 32 else 3,
     pName = \<lambda>_. 0, pLive = \<lambda>_. 0, pAttachment = \<lambda>_. 0, pExit = \<lambda>_. 0, pKill = \<lambda>_. 0,
     Prev = \<lambda>_. 0x1014, Next = \<lambda>_. 0x1014, Time = \<lambda>_. 10, OS_ActivePrio = 0, OS_This = 0x1000, OS_LiveList = 0x1000,
     OS_pTimer = 0, PRIMASK = 0, stack_mem = \<lambda>_. 0, \<dots> = m\<rparr>"

definition two_threads :: "'a \<Rightarrow> 'a os_scheme" where
  "two_threads m = activate_thread 0x1000 3 (activate_thread 0x2000 32 (sample m))"

lemma sample_fields [simp]:
  "Priority (sample m) = (\<lambda>t. if t = 0x2000 then 32 else 3)" "Time (sample m) = (\<lambda>_. 10)"
  "Next (sample m) = (\<lambda>_. 0x1014)" "Prev (sample m) = (\<lambda>_. 0x1014)" "OS_pTimer (sample m) = 0"
  "OS_This (two_threads m) = 0x1000" "OS_pTimer (two_threads m) = 0" "pExit (two_threads m) = (\<lambda>_. 0)"
  "Priority (two_threads m) = (\<lambda>t. if t = 0x2000 then 32 else 3)" "os.more (two_threads m) = m"
  "pLive (two_threads m) = (\<lambda>_. 0)" "OS_LiveList (two_threads m) = 0x1000"
  "PRIMASK (two_threads m) = 0" "Time (two_threads m) = (\<lambda>_. 10)"
  "Next (two_threads m) = (\<lambda>_. 0x1014)" "Prev (two_threads m) = (\<lambda>_. 0x1014)" "io (two_threads m) = (\<lambda>_. 0)"
  by (simp_all add: two_threads_def sample_def) (simp_all add: activate_thread_def list_add_def list_add_between_def
      set_next_def set_prev_def)

lemma ready_heads_range: "h \<in> ready_heads \<Longrightarrow> 0x2007eabc \<le> h \<and> h \<le> 0x2007ebbc"
proof -
  assume "h \<in> ready_heads"
  then obtain p where p: "p \<le> 32" "h = 0x2007eabc + 8 * p" by (auto simp: ready_heads_def OS_ActiveProc_def)
  have "unat (8 * p) = 8 * unat p"
    using unat_mult_lem [of 8 p] p(1) by (simp add: word_le_nat_alt)
  then have "unat h = 0x2007eabc + 8 * unat p"
    using unat_add_lem [of "0x2007eabc" "8 * p"] p by (simp add: word_le_nat_alt)
  then show ?thesis using p(1) by (simp add: word_le_nat_alt)
qed

lemma sample_ready:
  assumes W: "W \<inter> ready_heads = {}" "Node 0x1000 \<notin> W" "Node 0x2000 \<notin> W"
  shows "ready_inv (two_threads m) W ((\<lambda>_. [])(OS_ActiveProc 32 := [Node 0x2000], OS_ActiveProc 3 := [Node 0x1000]))"
proof -
  have n: "Node 0x1000 \<notin> ready_heads \<union> W" "Node 0x2000 \<notin> ready_heads \<union> W"
    using W(2,3) ready_heads_range [of "Node 0x1000"] ready_heads_range [of "Node 0x2000"]
    by (auto simp: Node_def word_le_nat_alt)
  have "ready_inv (sample m) W (\<lambda>_. [])"
    using W(1) by (simp add: ready_inv_def family_def sample_def dlist_def disjoint_iff)
  from ready_activate [OF this, of 32 "0x2000"] n
  have "ready_inv (activate_thread 0x2000 32 (sample m)) W ((\<lambda>_. [])(OS_ActiveProc 32 := [Node 0x2000]))"
    by (simp add: sample_def on_family_def)
  from ready_activate [OF this, of 3 "0x1000"] n show ?thesis
    unfolding two_threads_def
    by (auto simp: sample_def on_family_def OS_ActiveProc_eq_iff Node_def)
qed

end
