(* ===== verification/Ticker.thy ===== *)
theory Ticker
  imports KState
begin

text \<open>
  lpc1766/ticker/ticker.c: the software timers of the threads, kept in a ring ordered by expiry on
  one hardware match timer.  The loops over the ring do not end when the ring is broken, so
  they are partial functions and not returning is the value \<open>None\<close>.
\<close>

section \<open>Registers\<close>

definition T0IR :: addr where "T0IR = 0x40004000"
definition T0TCR :: addr where "T0TCR = 0x40004004"
definition T0PR :: addr where "T0PR = 0x4000400C"
definition T0MCR :: addr where "T0MCR = 0x40004014"
definition T0MR0 :: addr where "T0MR0 = 0x40004018"
definition T0CTCR :: addr where "T0CTCR = 0x40004070"
definition PCONP :: addr where "PCONP = 0x400FC0C4"

text \<open>The address that the source gives the counter (the chip has it at 0x40004008).\<close>

definition TimeCounter :: addr where "TimeCounter = 0xE0004008"

section \<open>Operations\<close>

definition get_left_time :: "'a os_scheme \<Rightarrow> u32" where
  "get_left_time s = read_dword T0MR0 s - read_dword TimeCounter s"

definition set_time :: "u32 \<Rightarrow> 'a os_scheme \<Rightarrow> 'a os_scheme" where
  "set_time time s =
     (let s = write_dword T0TCR (push_bit 1 1) s;
          s = write_dword T0MR0 time s
      in write_dword T0TCR 1 s)"

text \<open>The search for the predecessor, the \<open>while\<close> loop of \<open>OS_timer_add\<close>.\<close>

partial_function (option) timer_locate :: "u32 \<Rightarrow> addr \<Rightarrow> 'a os_scheme \<Rightarrow> addr option" where
  "timer_locate time pTmp s =
     (if OS_pTimer s \<noteq> Next s pTmp then
        let TimeFormer = Time s pTmp;
            TimeLatter = Time s (Next s pTmp)
        in if time - TimeFormer \<le> TimeLatter - TimeFormer then Some pTmp
           else timer_locate time (Next s pTmp) s
      else Some pTmp)"

text \<open>The four link updates that insert \<open>pTimer\<close> behind \<open>pTmp\<close>.\<close>

definition timer_link :: "addr \<Rightarrow> addr \<Rightarrow> 'a os_scheme \<Rightarrow> 'a os_scheme" where
  "timer_link pTimer pTmp s =
     (let s = s\<lparr>Next := (Next s)(pTimer := Next s pTmp)\<rparr>;
          s = s\<lparr>Prev := (Prev s)(pTimer := pTmp)\<rparr>;
          s = s\<lparr>Prev := (Prev s)(Next s pTmp := pTimer)\<rparr>
      in s\<lparr>Next := (Next s)(pTmp := pTimer)\<rparr>)"

definition OS_timer_add :: "addr \<Rightarrow> u32 \<Rightarrow> 'a os_scheme \<Rightarrow> (int \<times> 'a os_scheme) option" where
  "OS_timer_add pTimer Millisecond s =
     (let pTmp = OS_pTimer s in
      if NULL = pTmp then
        let s = s\<lparr>Time := (Time s)(pTimer := Millisecond)\<rparr>;
            s = s\<lparr>Next := (Next s)(pTimer := pTimer)\<rparr>;
            s = s\<lparr>Prev := (Prev s)(pTimer := pTimer)\<rparr>;
            s = s\<lparr>OS_pTimer := pTimer\<rparr>;
            s = set_time Millisecond s
        in Some (OK, s)
      else
        let LeftTime = get_left_time s;
            time = Time s pTmp + Millisecond - LeftTime;
            s = s\<lparr>Time := (Time s)(pTimer := time)\<rparr>
        in case timer_locate time pTmp s of
             None \<Rightarrow> None
           | Some pTmp \<Rightarrow>
               let s = timer_link pTimer pTmp s in
               if LeftTime \<le> Millisecond then Some (OK, s)
               else
                 let s = s\<lparr>OS_pTimer := pTimer\<rparr>;
                     s = set_time Millisecond s
                 in Some (OK, s))"

definition OS_timer_del :: "addr \<Rightarrow> 'a os_scheme \<Rightarrow> int \<times> 'a os_scheme" where
  "OS_timer_del pTimer s =
     (if NULL = Prev s pTimer \<or> NULL = Next s pTimer then (ERR, s)
      else
        let s = (if pTimer = OS_pTimer s then
                   if pTimer = Next s pTimer then
                     let s = write_dword T0TCR 0 s;
                         s = write_dword T0TCR (push_bit 1 1) s
                     in s\<lparr>OS_pTimer := NULL\<rparr>
                   else
                     let LeftTime = get_left_time s;
                         s = s\<lparr>OS_pTimer := Next s pTimer\<rparr>
                     in set_time (Time s (OS_pTimer s) - Time s pTimer + LeftTime) s
                 else s);
            s = s\<lparr>Next := (Next s)(Prev s pTimer := Next s pTimer)\<rparr>;
            s = s\<lparr>Prev := (Prev s)(Next s pTimer := Prev s pTimer)\<rparr>;
            s = s\<lparr>Prev := (Prev s)(pTimer := 0), Next := (Next s)(pTimer := 0), Time := (Time s)(pTimer := 0)\<rparr>
        in (OK, s))"

text \<open>The \<open>do\<close> loop of \<open>systimer_exception\<close>.\<close>

partial_function (option) systimer_ready :: "u32 \<Rightarrow> addr \<Rightarrow> 'a os_scheme \<Rightarrow> 'a os_scheme option" where
  "systimer_ready time pTimer s =
     (let pThread = thread_of_timer pTimer;
          prio = Priority s pThread;
          s = activate_thread pThread prio s;
          pTimer = Next s pTimer
      in if time \<noteq> Time s pTimer then
           let s = set_time (Time s pTimer - Time s (Prev s pTimer)) s
           in Some (s\<lparr>OS_pTimer := pTimer\<rparr>)
         else if pTimer \<noteq> OS_pTimer s then systimer_ready time pTimer s
         else let s = s\<lparr>OS_pTimer := NULL\<rparr> in Some (write_dword T0TCR 0 s))"

definition systimer_exception :: "'a os_scheme \<Rightarrow> 'a os_scheme option" where
  "systimer_exception s =
     (let s = write_dword T0IR 0xFF s;
          s = OS_thread_switch s;
          pTimer = OS_pTimer s
      in if NULL = pTimer then Some (write_dword T0TCR 0 s)
         else systimer_ready (Time s pTimer) pTimer s)"

text \<open>\<open>systicker_setup\<close>: the address of \<open>systimer_exception\<close> is the argument.\<close>

definition systicker_setup :: "addr \<Rightarrow> 'a os_scheme \<Rightarrow> int \<times> 'a os_scheme" where
  "systicker_setup isr s =
     (let s = dword_set_bits PCONP (push_bit 1 1) s;
          s = write_dword T0TCR 0x00 s;
          s = write_dword T0IR 0xFF s;
          s = write_dword T0PR 12499 s;
          s = write_dword T0CTCR 0x00 s;
          s = write_dword T0TCR (push_bit 1 1) s;
          s = write_dword T0MCR 0x07 s;
          s = s\<lparr>OS_pTimer := NULL\<rparr>;
          (_, s) = irq_register 1 15 isr s
      in (OK, s))"

section \<open>The ring\<close>

text \<open>
  \<open>timer_ring s base xs\<close>: the timers \<open>xs\<close>, first the one in \<open>OS_pTimer\<close>, form the ring, and
  their expiries are in order as distances from the instant \<open>base\<close>, modulo 2 ^ 32.
\<close>

definition timer_ring :: "'a os_scheme \<Rightarrow> u32 \<Rightarrow> addr list \<Rightarrow> bool" where
  "timer_ring s base xs \<longleftrightarrow>
     (case xs of
        [] \<Rightarrow> OS_pTimer s = NULL
      | t # ts \<Rightarrow> OS_pTimer s = t \<and> distinct xs \<and> NULL \<notin> set xs \<and> seg (Next s) (Prev s) t ts t \<and>
          sorted (map (\<lambda>x. Time s x - base) xs))"

lemma word_between:
  fixes f l m :: u32
  assumes "f \<le> l"
  shows "m - f \<le> l - f \<longleftrightarrow> f \<le> m \<and> m \<le> l"
proof (cases "f \<le> m")
  case True
  then show ?thesis using assms by (simp add: word_le_nat_alt unat_sub) linarith
next
  case False
  then have "unat (m - f) = 2 ^ 32 + unat m - unat f" by (simp add: word_le_nat_alt unat_sub_if_size word_size)
  moreover have "unat (l - f) = unat l - unat f" using assms by (simp add: unat_sub)
  ultimately show ?thesis
    using False assms unat_less_2p32 [of l] by (simp add: word_le_nat_alt)
qed

text \<open>The timers that the search passes.\<close>

fun passed :: "(addr \<Rightarrow> u32) \<Rightarrow> u32 \<Rightarrow> addr \<Rightarrow> addr list \<Rightarrow> addr list" where
  "passed T m a [] = []"
| "passed T m a (y # ys) = (if m - T a \<le> T y - T a then [] else y # passed T m y ys)"

lemma timer_locate_passed:
  assumes "seg (Next s) (Prev s) a ys (OS_pTimer s)" "OS_pTimer s \<notin> set ys"
  shows "timer_locate m a s = Some (last (a # passed (Time s) m a ys))"
  using assms
proof (induction ys arbitrary: a)
  case Nil
  then show ?case by (subst timer_locate.simps) simp
next
  case (Cons y ys)
  then show ?case by (subst timer_locate.simps) (auto simp: Let_def)
qed

lemma passed_early:
  "sorted (map (\<lambda>x. T x - b) (a # ys)) \<Longrightarrow> m - b < T a - b \<Longrightarrow> passed T m a ys = ys"
proof (induction ys arbitrary: a)
  case (Cons y ys)
  have "\<not> (m - T a \<le> T y - T a)"
    using word_between [of "T a - b" "T y - b" "m - b"] Cons.prems by auto
  moreover have "m - b < T y - b" using Cons.prems by auto
  ultimately show ?case using Cons by simp
qed simp

lemma passed_late:
  "sorted (map (\<lambda>x. T x - b) (a # ys)) \<Longrightarrow> T a - b \<le> m - b \<Longrightarrow>
   passed T m a ys = takeWhile (\<lambda>x. T x - b < m - b) ys"
proof (induction ys arbitrary: a)
  case (Cons y ys)
  have "m - T a \<le> T y - T a \<longleftrightarrow> m - b \<le> T y - b"
    using word_between [of "T a - b" "T y - b" "m - b"] Cons.prems by simp
  then show ?case using Cons by auto
qed simp

lemma seg_insert_after:
  assumes "seg N P x ys z" "x # ys = us @ a # vs" "distinct (x # ys)" "z \<notin> set ys" "p \<notin> set (x # ys)" "p \<noteq> z"
  shows "seg (N(p := N a, a := p)) (P(p := a, N a := p)) x (tl (us @ a # p # vs)) z"
proof (cases us)
  case Nil
  then show ?thesis using assms by (cases vs) auto
next
  case (Cons u us')
  then have "N a = hd (vs @ [z])" using assms by (auto simp: seg_append dest: seg_next)
  with Cons show ?thesis using assms by (cases vs) (auto simp: seg_append)
qed

lemma timer_link_fields:
  "Next (timer_link p a s) = (Next s)(p := Next s a, a := p)"
  "p \<noteq> a \<Longrightarrow> Prev (timer_link p a s) = (Prev s)(p := a, Next s a := p)"
  "Time (timer_link p a s) = Time s" "OS_pTimer (timer_link p a s) = OS_pTimer s"
  by (auto simp: timer_link_def Let_def)

lemma seg_rotate: "seg N P t (ts @ [p]) t \<longleftrightarrow> seg N P p (t # ts) p"
  by (auto simp: seg_append)

text \<open>Inserting behind the timers passed keeps the ring and its order.\<close>

lemma passed_cong: "(\<And>x. x \<in> set (a # ys) \<Longrightarrow> T' x = T x) \<Longrightarrow> passed T' m a ys = passed T m a ys"
  by (induction ys arbitrary: a) simp_all

lemma sorted_drop_ge:
  assumes "sorted (map f xs)" "x \<in> set (dropWhile (\<lambda>x. f x < m) xs)"
  shows "(m::'b::linorder) \<le> f x"
  using assms
proof (induction xs)
  case (Cons y ys)
  then show ?case by (cases "f y < m") auto
qed simp

lemma sorted_insert_mid:
  fixes f :: "'b \<Rightarrow> 'c::linorder"
  assumes s: "sorted (map f (t # ts))" and g: "\<And>x. x \<in> set (t # ts) \<Longrightarrow> g x = f x" and le: "f t \<le> g p"
  shows "sorted (map g (t # takeWhile (\<lambda>x. f x < g p) ts @ p # dropWhile (\<lambda>x. f x < g p) ts))"
proof -
  let ?us = "takeWhile (\<lambda>x. f x < g p) ts" and ?vs = "dropWhile (\<lambda>x. f x < g p) ts"
  have sub: "set ?us \<subseteq> set ts" "set ?vs \<subseteq> set ts" by (auto dest: set_takeWhileD set_dropWhileD)
  have "sorted (map f (?us @ ?vs))" using s by simp
  then have sf: "sorted (map f ?us)" "sorted (map f ?vs)" by (simp_all only: map_append sorted_append)
  have gts: "g x = f x" if "x \<in> set ts" for x using that by (intro g) simp
  have "map g ?us = map f ?us" by (rule map_cong [OF refl]) (rule gts [OF subsetD [OF sub(1)]])
  moreover have "map g ?vs = map f ?vs" by (rule map_cong [OF refl]) (rule gts [OF subsetD [OF sub(2)]])
  ultimately have "sorted (map g ?us)" "sorted (map g ?vs)" using sf by metis+
  moreover have us: "\<forall>x\<in>set ?us. g t \<le> g x \<and> g x \<le> g p"
  proof
    fix x assume "x \<in> set ?us"
    then have "x \<in> set ts" "f x < g p" by (auto dest: set_takeWhileD)
    then show "g t \<le> g x \<and> g x \<le> g p" using g s by auto
  qed
  moreover have vs: "\<forall>x\<in>set ?vs. g p \<le> g x"
  proof
    fix x assume x: "x \<in> set ?vs"
    have "sorted (map f ts)" using s by simp
    then have "x \<in> set ts" "g p \<le> f x" using x set_dropWhileD sorted_drop_ge by fastforce+
    then show "g p \<le> g x" using g by auto
  qed
  moreover have "g t \<le> g p" using g le by simp
  moreover have "\<forall>x\<in>set ?us. \<forall>y\<in>set ?vs. g x \<le> g y" using us vs order_trans by blast
  moreover have "\<forall>y\<in>set ?vs. g t \<le> g y" using vs \<open>g t \<le> g p\<close> order_trans by blast
  ultimately show ?thesis unfolding list.map map_append sorted_append sorted_simps by (simp add: ball_Un)
qed

lemma distinct_insert_mid: "distinct (us @ vs) \<Longrightarrow> p \<notin> set (us @ vs) \<Longrightarrow> distinct (us @ p # vs)"
  by auto

lemma timer_link_seg:
  assumes r: "seg (Next s) (Prev s) t (us @ vs) t" "distinct (t # us @ vs)" and p: "p \<notin> set (t # us @ vs)"
  shows "seg (Next (timer_link p (last (t # us)) s)) (Prev (timer_link p (last (t # us)) s)) t (us @ p # vs) t"
proof -
  let ?a = "last (t # us)"
  have e: "t # us = butlast (t # us) @ [?a]" by (simp only: append_butlast_last_id list.distinct not_False_eq_True)
  have "p \<noteq> ?a" using p last_in_set [of "t # us"] by auto
  then have f: "Next (timer_link p ?a s) = (Next s)(p := Next s ?a, ?a := p)"
    "Prev (timer_link p ?a s) = (Prev s)(p := ?a, Next s ?a := p)" by (simp_all add: timer_link_fields)
  have "t # us @ vs = butlast (t # us) @ ?a # vs" using e by (metis append.assoc append_Cons append_Nil)
  moreover have "tl (butlast (t # us) @ ?a # p # vs) = us @ p # vs"
    using e by (metis append.assoc append_Cons append_Nil list.sel(3))
  ultimately show ?thesis
    using seg_insert_after [OF r(1), of "butlast (t # us)" ?a vs p] r(2) p unfolding f by simp
qed

lemma timer_link_ring:
  assumes r: "timer_ring s b (t # ts)" and p: "p \<notin> set (t # ts)" "p \<noteq> NULL"
    and s': "s' = timer_link p (last (t # passed ((Time s)(p := T)) T t ts)) (s\<lparr>Time := (Time s)(p := T)\<rparr>)"
  shows "Time s t - b \<le> T - b \<Longrightarrow> \<exists>us vs. ts = us @ vs \<and> timer_ring s' b (t # us @ p # vs)"
    and "T - b < Time s t - b \<Longrightarrow> timer_ring (s'\<lparr>OS_pTimer := p\<rparr>) b (p # t # ts)"
proof -
  let ?s = "s\<lparr>Time := (Time s)(p := T)\<rparr>"
  let ?f = "\<lambda>x. Time s x - b"
  have c: "passed ((Time s)(p := T)) T t ts = passed (Time s) T t ts" by (rule passed_cong) (use p in auto)
  have T': "Time s' = (Time s)(p := T)" "OS_pTimer s' = t"
    using r by (auto simp: s' timer_link_fields timer_ring_def)
  have srt: "sorted (map ?f (t # ts))" and sg: "seg (Next ?s) (Prev ?s) t ts t" and d: "distinct (t # ts)" "NULL \<notin> set (t # ts)"
    using r by (simp_all add: timer_ring_def)
  have m: "map (\<lambda>x. Time s' x - b) xs = map ?f xs" if "p \<notin> set xs" for xs
    using that by (auto simp: T')
  have gs: "Time s' x - b = ?f x" if "x \<in> set (t # ts)" for x using that p by (auto simp: T')
  have gp: "Time s' p - b = T - b" by (simp add: T')
  show "\<exists>us vs. ts = us @ vs \<and> timer_ring s' b (t # us @ p # vs)" if le: "?f t \<le> T - b"
  proof (intro exI conjI)
    let ?us = "takeWhile (\<lambda>x. ?f x < T - b) ts" and ?vs = "dropWhile (\<lambda>x. ?f x < T - b) ts"
    show ts: "ts = ?us @ ?vs" by simp
    have s'': "s' = timer_link p (last (t # ?us)) ?s"
      by (simp add: s' c passed_late [OF srt le])
    have "seg (Next s') (Prev s') t (?us @ p # ?vs) t"
      unfolding s'' by (rule timer_link_seg) (use sg d p in auto)
    moreover have "sorted (map (\<lambda>x. Time s' x - b) (t # ?us @ p # ?vs))"
      using sorted_insert_mid [where g = "\<lambda>x. Time s' x - b" and p = p, OF srt gs] le unfolding gp by blast
    moreover have "distinct (t # ?us @ p # ?vs)" "NULL \<notin> set (t # ?us @ p # ?vs)"
    proof -
      have e: "(t # ?us) @ ?vs = t # ts" by simp
      have f: "distinct ((t # ?us) @ ?vs)" "p \<notin> set ((t # ?us) @ ?vs)" "NULL \<notin> set ((t # ?us) @ ?vs)"
        unfolding e using d p by blast+
      show "distinct (t # ?us @ p # ?vs)" using distinct_insert_mid [OF f(1,2)] by (simp only: append_Cons)
      show "NULL \<notin> set (t # ?us @ p # ?vs)"
        using f(3) p(2) unfolding append_Cons set_append list.set(2) by blast
    qed
    ultimately show "timer_ring s' b (t # ?us @ p # ?vs)"
      using T'(2) by (simp add: timer_ring_def)
  qed
  show "timer_ring (s'\<lparr>OS_pTimer := p\<rparr>) b (p # t # ts)" if lt: "T - b < ?f t"
  proof -
    have "s' = timer_link p (last (t # ts)) ?s"
      by (simp add: s' c passed_early [OF srt lt])
    then have "seg (Next s') (Prev s') t (ts @ [p]) t"
      using timer_link_seg [of ?s t ts "[]" p] sg d p by simp
    then have "seg (Next s') (Prev s') p (t # ts) p" by (simp add: seg_rotate)
    moreover have "sorted (map (\<lambda>x. Time s' x - b) (p # t # ts))"
    proof -
      have "\<forall>y\<in>set (map ?f (t # ts)). T - b \<le> y" using srt lt by auto
      then show ?thesis using srt gp unfolding list.map(2) [of _ p] sorted_simps(2) m [OF p(1)] by simp
    qed
    ultimately show ?thesis using d p by (simp add: timer_ring_def)
  qed
qed

lemma timer_locate_ring:
  assumes r: "timer_ring s b (t # ts)" and p: "p \<notin> set (t # ts)"
  shows "timer_locate T t (s\<lparr>Time := (Time s)(p := T)\<rparr>) = Some (last (t # passed ((Time s)(p := T)) T t ts))"
  using timer_locate_passed [of "s\<lparr>Time := (Time s)(p := T)\<rparr>" t ts T] r by (auto simp: timer_ring_def)

lemma set_time_frame [simp]:
  "nxt (set_time T s) = nxt s" "prv (set_time T s) = prv s"
  "Next (set_time T s) = Next s" "Prev (set_time T s) = Prev s" "Time (set_time T s) = Time s"
  "OS_pTimer (set_time T s) = OS_pTimer s" "OS_ActivePrio (set_time T s) = OS_ActivePrio s"
  "Priority (set_time T s) = Priority s" "OS_This (set_time T s) = OS_This s"
  "io_log (set_time T s) = [(T0TCR, 1), (T0MR0, T), (T0TCR, 2)] @ io_log s"
  by (simp_all add: set_time_def Let_def write_dword_def)

lemma timer_ring_set_time [simp]: "timer_ring (set_time T s) b xs \<longleftrightarrow> timer_ring s b xs"
  by (cases xs) (simp_all add: timer_ring_def)

text \<open>
  Adding a timer that expires in \<open>ms\<close>: the ring with the new timer is in order, the other
  expiries are unchanged, and the hardware is reprogrammed exactly when the new timer is the first.
\<close>

lemma OS_timer_add_ring:
  assumes r: "timer_ring s b xs" and p: "p \<notin> set xs" "p \<noteq> NULL"
    and b: "b = (if xs = [] then 0 else Time s (hd xs) - get_left_time s)"
  shows "\<exists>s' us vs. OS_timer_add p ms s = Some (OK, s') \<and> xs = us @ vs \<and> timer_ring s' b (us @ p # vs) \<and>
    Time s' p - b = ms \<and> (\<forall>x. x \<noteq> p \<longrightarrow> Time s' x = Time s x) \<and>
    io_log s' = (if us = [] then [(T0TCR, 1), (T0MR0, ms), (T0TCR, 2)] else []) @ io_log s"
proof (cases xs)
  case Nil
  then have "OS_pTimer s = NULL" using r by (simp add: timer_ring_def)
  then show ?thesis using Nil p b
    by (intro exI [of _ "snd (the (OS_timer_add p ms s))"] exI [of _ "[]"])
       (simp add: OS_timer_add_def Let_def timer_ring_def)
next
  case (Cons t ts)
  let ?T = "Time s t + ms - get_left_time s"
  let ?s1 = "s\<lparr>Time := (Time s)(p := ?T)\<rparr>"
  let ?a = "last (t # passed ((Time s)(p := ?T)) ?T t ts)"
  let ?s2 = "timer_link p ?a ?s1"
  have t: "OS_pTimer s = t" "t \<noteq> NULL" using r Cons by (auto simp: timer_ring_def)
  have bt: "b = Time s t - get_left_time s" using b Cons by simp
  have rel: "?T - b = ms" "Time s t - b = get_left_time s" by (simp_all add: bt algebra_simps)
  have loc: "timer_locate ?T t ?s1 = Some ?a" using timer_locate_ring r p Cons by blast
  have T2: "Time ?s2 = (Time s)(p := ?T)" "io_log ?s2 = io_log s"
    by (simp_all add: timer_link_def Let_def)
  show ?thesis
  proof (cases "get_left_time s \<le> ms")
    case True
    then obtain us vs where "ts = us @ vs" "timer_ring ?s2 b (t # us @ p # vs)"
      using timer_link_ring(1) [OF r [unfolded Cons] p(1) [unfolded Cons] p(2) refl, of ?T] rel by auto
    moreover have "OS_timer_add p ms s = Some (OK, ?s2)"
      using True t loc by (simp add: OS_timer_add_def Let_def)
    ultimately show ?thesis using rel T2 Cons
      by (intro exI [of _ ?s2] exI [of _ "t # us"] exI [of _ vs]) simp
  next
    case False
    then have "timer_ring (?s2\<lparr>OS_pTimer := p\<rparr>) b (p # t # ts)"
      using timer_link_ring(2) [OF r [unfolded Cons] p(1) [unfolded Cons] p(2) refl, of ?T] rel by auto
    moreover have "OS_timer_add p ms s = Some (OK, set_time ms (?s2\<lparr>OS_pTimer := p\<rparr>))"
      using False t loc by (simp add: OS_timer_add_def Let_def)
    ultimately show ?thesis using rel T2 Cons
      by (intro exI [of _ "set_time ms (?s2\<lparr>OS_pTimer := p\<rparr>)"] exI [of _ "[]"] exI [of _ xs]) simp
  qed
qed

lemma seg_unlink:
  assumes "seg N P a (us @ x # vs) b" "distinct (a # us @ x # vs)" "b \<notin> set (us @ x # vs)"
  shows "seg (N(P x := N x)) (P(N x := P x)) a (us @ vs) b"
proof -
  have "P x = last (a # us)" "N x = hd (vs @ [b])"
    using assms by (auto simp: seg_append dest: seg_next seg_prev)
  then show ?thesis
    using assms by (cases us rule: rev_cases; cases vs) (auto simp: seg_append)
qed

lemma seg_nonzero:
  assumes "seg N P a xs b" "x \<in> set xs" "NULL \<notin> set (a # xs)" "b \<noteq> NULL"
  shows "N x \<noteq> NULL" "P x \<noteq> NULL"
proof -
  obtain us vs where "xs = us @ x # vs" using assms(2) by (auto dest: split_list)
  then have "P x = last (a # us)" "N x = hd (vs @ [b])" "set us \<subseteq> set xs" "set vs \<subseteq> set xs"
    using assms by (auto simp: seg_append dest: seg_next seg_prev)
  then show "N x \<noteq> NULL" "P x \<noteq> NULL" using assms last_in_set [of "a # us"] by (cases vs; auto)+
qed

lemma timer_ring_nonzero:
  assumes "timer_ring s b (t # ts)" "x \<in> set (t # ts)"
  shows "Next s x \<noteq> NULL" "Prev s x \<noteq> NULL"
proof -
  have *: "seg (Next s) (Prev s) t ts t" "NULL \<notin> set (t # ts)" using assms by (auto simp: timer_ring_def)
  have "Next s x \<noteq> NULL \<and> Prev s x \<noteq> NULL"
  proof (cases "x = t")
    case True
    then show ?thesis using seg_next [OF *(1)] seg_prev [OF *(1)] *(2) last_in_set [of "t # ts"] by (cases ts; auto)
  next
    case False
    then show ?thesis using seg_nonzero [OF *(1), of x] *(2) assms(2) by auto
  qed
  then show "Next s x \<noteq> NULL" "Prev s x \<noteq> NULL" by auto
qed

lemma sorted_map_sub: "sorted (map f (us @ x # vs)) \<Longrightarrow> sorted (map f (us @ vs))"
  by (auto simp: sorted_append)

text \<open>Deleting a timer of the ring, wherever it is.\<close>

lemma OS_timer_del_ring:
  assumes r: "timer_ring s b (us @ p # vs)"
  shows "\<exists>s'. OS_timer_del p s = (OK, s') \<and> timer_ring s' b (us @ vs) \<and>
    Prev s' p = NULL \<and> Next s' p = NULL \<and> (\<forall>x. x \<noteq> p \<longrightarrow> Time s' x = Time s x) \<and>
    io_log s' = (if us \<noteq> [] then []
      else if vs = [] then [(T0TCR, 2), (T0TCR, 0)]
      else [(T0TCR, 1), (T0MR0, Time s (hd vs) - Time s p + get_left_time s), (T0TCR, 2)]) @ io_log s"
proof (cases us)
  case (Cons t us')
  have t: "OS_pTimer s = t" "distinct (t # us' @ p # vs)" "NULL \<notin> set (t # us' @ p # vs)"
    "seg (Next s) (Prev s) t (us' @ p # vs) t"
    using r by (auto simp: timer_ring_def Cons)
  have n: "Next s p \<noteq> NULL" "Prev s p \<noteq> NULL" using timer_ring_nonzero [of s b t "us' @ p # vs" p] r by (auto simp: Cons)
  have pt: "p \<noteq> t" using t by auto
  have u: "seg ((Next s)(Prev s p := Next s p)) ((Prev s)(Next s p := Prev s p)) t (us' @ vs) t"
    by (rule seg_unlink) (use t in auto)
  have pp: "Prev s p \<noteq> p" 
    using t seg_prev [of "Next s" "Prev s" t us' p] last_in_set [of "t # us'"] by (auto simp: seg_append)
  define s' where "s' = snd (OS_timer_del p s)"
  have d: "OS_timer_del p s = (OK, s')" "Next s' = (Next s)(Prev s p := Next s p, p := 0)"
    "Prev s' = (Prev s)(Next s p := Prev s p, p := 0)" "Time s' = (Time s)(p := 0)" "OS_pTimer s' = t" "io_log s' = io_log s"
    using n pt t(1) pp by (simp_all add: s'_def OS_timer_del_def Let_def)
  have "map (\<lambda>x. Time s' x - b) (us @ vs) = map (\<lambda>x. Time s x - b) (us @ vs)"
    using t Cons by (intro map_cong refl) (auto simp: d)
  moreover have "sorted (map (\<lambda>x. Time s x - b) (us @ vs))"
  proof (rule sorted_map_sub)
    show "sorted (map (\<lambda>x. Time s x - b) (us @ p # vs))" using r unfolding timer_ring_def Cons by simp
  qed
  ultimately have "sorted (map (\<lambda>x. Time s' x - b) (us @ vs))" by metis
  moreover have "seg (Next s') (Prev s') t (us' @ vs) t"
    unfolding d using u t by (subst seg_upd_next, force, subst seg_upd_prev) auto
  ultimately have "timer_ring s' b (us @ vs)"
    using t d by (auto simp: timer_ring_def Cons)
  then show ?thesis using d Cons by (intro exI [of _ s']) simp
next
  case Nil
  have t: "OS_pTimer s = p" "distinct (p # vs)" "NULL \<notin> set (p # vs)"
    "seg (Next s) (Prev s) p vs p" "sorted (map (\<lambda>x. Time s x - b) (p # vs))"
    using r by (auto simp: timer_ring_def Nil)
  have n: "Next s p \<noteq> NULL" "Prev s p \<noteq> NULL" using timer_ring_nonzero [of s b p vs p] r by (auto simp: Nil)
  show ?thesis
  proof (cases vs)
    case Nil2: Nil
    then have "Next s p = p" "Prev s p = p" using t by auto
    then show ?thesis using t n Nil Nil2
      by (intro exI [of _ "snd (OS_timer_del p s)"]) (simp add: OS_timer_del_def Let_def timer_ring_def write_dword_def)
  next
    case (Cons v vs')
    have np: "Next s p = v" using t Cons by simp
    have pp: "Prev s p = last vs" using seg_prev [OF t(4)] Cons by simp
    have ne: "v \<noteq> p" "last vs \<noteq> p" using t Cons last_in_set [of vs] by auto
    have "seg (Next s) (Prev s) v (vs' @ [p]) v" using t(4) by (simp add: Cons seg_rotate)
    then have u: "seg ((Next s)(Prev s p := Next s p)) ((Prev s)(Next s p := Prev s p)) v vs' v"
      using seg_unlink [of "Next s" "Prev s" v vs' p "[]" v] t Cons by auto
    define s' where "s' = snd (OS_timer_del p s)"
    have d: "OS_timer_del p s = (OK, s')" "Next s' = (Next s)(Prev s p := Next s p, p := 0)"
      "Prev s' = (Prev s)(Next s p := Prev s p, p := 0)" "Time s' = (Time s)(p := 0)" "OS_pTimer s' = v"
      "io_log s' = [(T0TCR, 1), (T0MR0, Time s v - Time s p + get_left_time s), (T0TCR, 2)] @ io_log s"
      using n t(1) np pp ne by (simp_all add: s'_def OS_timer_del_def Let_def)
    have "map (\<lambda>x. Time s' x - b) vs = map (\<lambda>x. Time s x - b) vs"
      using t by (intro map_cong refl) (auto simp: d)
    moreover have "sorted (map (\<lambda>x. Time s x - b) vs)" using t(5) by simp
    ultimately have "sorted (map (\<lambda>x. Time s' x - b) vs)" by metis
    moreover have "seg (Next s') (Prev s') v vs' v"
      unfolding d using u t Cons by (subst seg_upd_next, force, subst seg_upd_prev) auto
    ultimately have "timer_ring s' b vs"
      using t d Cons by (auto simp: timer_ring_def)
    then show ?thesis using d Nil Cons by (intro exI [of _ s']) simp
  qed
qed

section \<open>The timer exception\<close>

text \<open>The expired timers: the first and those behind it with the same expiry.\<close>

fun wake_all :: "addr list \<Rightarrow> 'a os_scheme \<Rightarrow> 'a os_scheme" where
  "wake_all [] s = s"
| "wake_all (x # xs) s =
     wake_all xs (activate_thread (thread_of_timer x) (Priority s (thread_of_timer x)) s)"

lemma wake_all_frame [simp]:
  "Priority (wake_all xs s) = Priority s" "OS_This (wake_all xs s) = OS_This s"
  "Next (wake_all xs s) = Next s" "Prev (wake_all xs s) = Prev s" "Time (wake_all xs s) = Time s"
  "OS_pTimer (wake_all xs s) = OS_pTimer s" "io_log (wake_all xs s) = io_log s"
  by (induction xs arbitrary: s) simp_all

lemma systimer_ready_some:
  assumes "seg (Next s) (Prev s) a (xs @ y # ys) h" "h = OS_pTimer s" "OS_pTimer s \<notin> set (xs @ y # ys)"
    "\<forall>x\<in>set xs. Time s x = T" "Time s y \<noteq> T"
  shows "systimer_ready T a s =
    Some ((set_time (Time s y - Time s (last (a # xs))) (wake_all (a # xs) s))\<lparr>OS_pTimer := y\<rparr>)"
  using assms
proof (induction xs arbitrary: a s)
  case Nil
  then show ?case by (subst systimer_ready.simps) (auto simp: Let_def)
next
  case (Cons x xs)
  let ?s = "activate_thread (thread_of_timer a) (Priority s (thread_of_timer a)) s"
  have "systimer_ready T a s = systimer_ready T x ?s"
  proof -
    have "Next s a = x" "x \<noteq> OS_pTimer s" "Time s x = T" using Cons.prems by (simp_all, blast?)
    then show ?thesis by (subst systimer_ready.simps) (simp add: Let_def)
  qed
  also have "\<dots> = Some ((set_time (Time ?s y - Time ?s (last (x # xs))) (wake_all (x # xs) ?s))\<lparr>OS_pTimer := y\<rparr>)"
    using Cons.prems by (intro Cons.IH) simp_all
  finally show ?case by simp
qed

lemma systimer_ready_all:
  assumes "seg (Next s) (Prev s) a xs h" "h = OS_pTimer s" "OS_pTimer s \<notin> set xs"
    "\<forall>x\<in>set xs. Time s x = T" "Time s (OS_pTimer s) = T"
  shows "systimer_ready T a s =
    Some (write_dword T0TCR 0 ((wake_all (a # xs) s)\<lparr>OS_pTimer := NULL\<rparr>))"
  using assms
proof (induction xs arbitrary: a s)
  case Nil
  then show ?case by (subst systimer_ready.simps) (auto simp: Let_def)
next
  case (Cons x xs)
  let ?s = "activate_thread (thread_of_timer a) (Priority s (thread_of_timer a)) s"
  have "systimer_ready T a s = systimer_ready T x ?s"
  proof -
    have "Next s a = x" "x \<noteq> OS_pTimer s" "Time s x = T" using Cons.prems by (simp_all, blast?)
    then show ?thesis by (subst systimer_ready.simps) (simp add: Let_def)
  qed
  also have "\<dots> = Some (write_dword T0TCR 0 ((wake_all (x # xs) ?s)\<lparr>OS_pTimer := NULL\<rparr>))"
    using Cons.prems by (intro Cons.IH) simp_all
  finally show ?case by simp
qed

definition expired :: "'a os_scheme \<Rightarrow> addr list \<Rightarrow> addr list" where
  "expired s xs = takeWhile (\<lambda>x. Time s x = Time s (OS_pTimer s)) xs"

definition unexpired :: "'a os_scheme \<Rightarrow> addr list \<Rightarrow> addr list" where
  "unexpired s xs = dropWhile (\<lambda>x. Time s x = Time s (OS_pTimer s)) xs"

lemma systimer_exception_ring:
  assumes r: "timer_ring s b xs"
  shows "systimer_exception s =
    (let s0 = OS_thread_switch (write_dword T0IR 0xFF s);
         s1 = wake_all (expired s xs) s0
     in Some (case unexpired s xs of
          [] \<Rightarrow> write_dword T0TCR 0 (s1\<lparr>OS_pTimer := NULL\<rparr>)
        | y # _ \<Rightarrow> (set_time (Time s y - Time s (hd xs)) s1)\<lparr>OS_pTimer := y\<rparr>))"
proof (cases xs)
  case Nil
  have "OS_pTimer s = NULL" using r by (simp add: timer_ring_def Nil)
  then show ?thesis
    by (simp add: systimer_exception_def Nil expired_def unexpired_def Let_def OS_thread_switch_def write_dword_def)
next
  case (Cons t ts)
  let ?s0 = "OS_thread_switch (write_dword T0IR 0xFF s)"
  let ?P = "\<lambda>x. Time s x = Time s t"
  have f: "Next ?s0 = Next s" "Prev ?s0 = Prev s" "Time ?s0 = Time s" "OS_pTimer ?s0 = OS_pTimer s"
    by (simp_all add: OS_thread_switch_def write_dword_def)
  have t: "OS_pTimer s = t" "t \<noteq> NULL" "seg (Next s) (Prev s) t ts t" "t \<notin> set ts"
    using r by (auto simp: timer_ring_def Cons)
  have ex: "systimer_exception s = systimer_ready (Time s t) t ?s0"
    using t by (simp add: systimer_exception_def Let_def f)
  have e: "expired s xs = t # takeWhile ?P ts" "unexpired s xs = dropWhile ?P ts"
    by (simp_all add: expired_def unexpired_def Cons t)
  show ?thesis
  proof (cases "dropWhile ?P ts")
    case Nil2: Nil
    then have all: "\<forall>x\<in>set ts. ?P x" "takeWhile ?P ts = ts"
      by (simp_all only: dropWhile_eq_Nil_conv takeWhile_eq_all_conv)
    have "systimer_ready (Time s t) t ?s0 =
        Some (write_dword T0TCR 0 ((wake_all (t # ts) ?s0)\<lparr>OS_pTimer := NULL\<rparr>))"
      by (rule systimer_ready_all [where h = t]) (use t all(1) f in simp_all)
    then show ?thesis unfolding ex e Nil2 all(2) by (simp add: Let_def del: wake_all.simps)
  next
    case (Cons y ys)
    have y: "\<not> ?P y" using hd_dropWhile [of ?P ts] unfolding Cons by simp
    have ts: "ts = takeWhile ?P ts @ y # ys"
      using takeWhile_dropWhile_id [of ?P ts, symmetric] unfolding Cons .
    have "systimer_ready (Time s t) t ?s0 = Some ((set_time (Time ?s0 y - Time ?s0 (last (t # takeWhile ?P ts)))
        (wake_all (t # takeWhile ?P ts) ?s0))\<lparr>OS_pTimer := y\<rparr>)"
    proof (rule systimer_ready_some [where h = t and ys = ys])
      show "seg (Next ?s0) (Prev ?s0) t (takeWhile ?P ts @ y # ys) t" using t(3) ts unfolding f by metis
      show "OS_pTimer ?s0 \<notin> set (takeWhile ?P ts @ y # ys)" using t(1,4) ts unfolding f by metis
    qed (use t y f in \<open>auto dest: set_takeWhileD\<close>)
    moreover have "Time s (last (t # takeWhile ?P ts)) = Time s t"
      using set_takeWhileD [of "last (takeWhile ?P ts)" ?P ts] by (cases "takeWhile ?P ts = []") auto
    ultimately show ?thesis using \<open>xs = t # ts\<close> unfolding ex e Cons f by (simp add: Let_def del: wake_all.simps)
  qed
qed

definition woken :: "'a os_scheme \<Rightarrow> addr list \<Rightarrow> addr \<Rightarrow> addr list" where
  "woken s xs h =
     map (\<lambda>x. Node (thread_of_timer x))
       (rev (filter (\<lambda>x. OS_ActiveProc (Priority s (thread_of_timer x)) = h) xs))"

text \<open>Waking a batch of threads that sit on no list puts each on the queue of its priority.\<close>

lemma wake_all_ready:
  assumes "ready_inv s W Q" "distinct xs"
    "\<forall>x\<in>set xs. Priority s (thread_of_timer x) \<le> 32 \<and> \<not> on_family (ready_heads \<union> W) Q (Node (thread_of_timer x))"
  shows "ready_inv (wake_all xs s) W (\<lambda>h. woken s xs h @ Q h)"
  using assms
proof (induction xs arbitrary: s Q)
  case Nil
  then show ?case by (simp add: woken_def)
next
  case (Cons x xs)
  let ?t = "thread_of_timer x"
  let ?p = "Priority s ?t"
  let ?s = "activate_thread ?t ?p s"
  let ?Q = "Q(OS_ActiveProc ?p := Node ?t # Q (OS_ActiveProc ?p))"
  have r: "ready_inv ?s W ?Q" by (rule ready_activate) (use Cons.prems in auto)
  have inj: "Node (thread_of_timer y) = Node ?t \<longleftrightarrow> y = x" for y
    by (simp add: Node_def thread_of_timer_def)
  have "ready_inv (wake_all xs ?s) W (\<lambda>h. woken ?s xs h @ ?Q h)"
    by (rule Cons.IH [OF r]) (use Cons.prems inj in \<open>auto simp: on_family_def\<close>)
  moreover have "woken ?s xs h @ ?Q h = woken s (x # xs) h @ Q h" for h
    by (simp add: woken_def)
  ultimately show ?case by simp
qed

section \<open>Properties\<close>

text \<open>C6: \<open>OS_timer_add\<close> always returns, links the new timer in the ring so that the expiries stay
  in order as distances from the instant at which the running count began, the new timer's at
  Millisecond from now, leaves every other timer's expiry alone, and reprograms the hardware
  exactly when the new timer is the first.\<close>

theorem OS_timer_add_sorted:
  assumes "timer_ring s b xs" "p \<notin> set xs" "p \<noteq> NULL"
    "b = (if xs = [] then 0 else Time s (hd xs) - get_left_time s)"
  shows "\<exists>s' us vs. OS_timer_add p ms s = Some (OK, s') \<and> xs = us @ vs \<and> timer_ring s' b (us @ p # vs) \<and>
    Time s' p - b = ms \<and> (\<forall>x. x \<noteq> p \<longrightarrow> Time s' x = Time s x) \<and>
    io_log s' = (if us = [] then [(T0TCR, 1), (T0MR0, ms), (T0TCR, 2)] else []) @ io_log s"
  by (rule OS_timer_add_ring [OF assms])

lemma one_timer: "timer_ring ((two_threads m)\<lparr>OS_pTimer := 0x1014\<rparr>) b [0x1014]"
  by (simp add: timer_ring_def)

lemma left_time_0: "io s = (\<lambda>_. 0) \<Longrightarrow> get_left_time s = 0"
  by (simp add: get_left_time_def read_dword_def dword_of_def)

theorem OS_timer_add_sorted_witness:
  "\<exists>s' us vs. OS_timer_add 0x2014 5 ((two_threads ())\<lparr>OS_pTimer := 0x1014\<rparr>) = Some (OK, s') \<and>
     [0x1014] = us @ vs \<and> timer_ring s' 10 (us @ 0x2014 # vs) \<and> Time s' 0x2014 = 15"
  using OS_timer_add_sorted [OF one_timer [of "()" 10], where p = "0x2014" and ms = 5]
  by (fastforce simp: left_time_0 diff_eq_eq)

text \<open>\<open>OS_timer_del\<close> unlinks a timer of the ring, leaves the others in their order with their
  expiries, clears the timer's own links (so that a second deletion is refused), and when it was
  the first programs the hardware for the next one or stops it.\<close>

theorem OS_timer_del_unlinks:
  assumes "timer_ring s b (us @ p # vs)"
  shows "\<exists>s'. OS_timer_del p s = (OK, s') \<and> timer_ring s' b (us @ vs) \<and>
    OS_timer_del p s' = (ERR, s') \<and> (\<forall>x. x \<noteq> p \<longrightarrow> Time s' x = Time s x) \<and>
    io_log s' = (if us \<noteq> [] then []
      else if vs = [] then [(T0TCR, 2), (T0TCR, 0)]
      else [(T0TCR, 1), (T0MR0, Time s (hd vs) - Time s p + get_left_time s), (T0TCR, 2)]) @ io_log s"
proof -
  from OS_timer_del_ring [OF assms] obtain s' where "OS_timer_del p s = (OK, s')" "timer_ring s' b (us @ vs)"
    "Prev s' p = NULL" "\<forall>x. x \<noteq> p \<longrightarrow> Time s' x = Time s x"
    "io_log s' = (if us \<noteq> [] then []
      else if vs = [] then [(T0TCR, 2), (T0TCR, 0)]
      else [(T0TCR, 1), (T0MR0, Time s (hd vs) - Time s p + get_left_time s), (T0TCR, 2)]) @ io_log s"
    by blast
  then show ?thesis by (intro exI [of _ s']) (simp add: OS_timer_del_def [of p s'])
qed

theorem OS_timer_del_unlinks_witness:
  "\<exists>s'. OS_timer_del 0x1014 ((two_threads ())\<lparr>OS_pTimer := 0x1014\<rparr>) = (OK, s') \<and> OS_pTimer s' = NULL"
  using OS_timer_del_unlinks [of "(two_threads ())\<lparr>OS_pTimer := 0x1014\<rparr>" 0 "[]" "0x1014" "[]"] one_timer [of "()" 0]
  by (auto simp: timer_ring_def)

text \<open>C5: the timer exception ends, and puts exactly the threads whose timers share the first
  expiry on the ready queues of their priorities; the next timer, if there is one, becomes the
  first and the hardware is set for the difference of the two expiries, otherwise the hardware is
  stopped; and a thread switch is requested.\<close>

theorem systimer_exception_wakes:
  assumes "ready_inv s W Q" "timer_ring s b xs"
    "\<forall>x\<in>set (expired s xs). Priority s (thread_of_timer x) \<le> 32 \<and>
      \<not> on_family (ready_heads \<union> W) Q (Node (thread_of_timer x))"
  shows "\<exists>s'. systimer_exception s = Some s' \<and> ready_inv s' W (\<lambda>h. woken s (expired s xs) h @ Q h) \<and>
    OS_pTimer s' = (case unexpired s xs of [] \<Rightarrow> NULL | y # _ \<Rightarrow> y) \<and>
    io_log s' = (case unexpired s xs of [] \<Rightarrow> [(T0TCR, 0)]
      | y # _ \<Rightarrow> [(T0TCR, 1), (T0MR0, Time s y - Time s (hd xs)), (T0TCR, 2)]) @
      [(ICSR, 0x10000000), (T0IR, 0xFF)] @ io_log s"
proof -
  let ?s0 = "OS_thread_switch (write_dword T0IR 0xFF s)"
  let ?s1 = "wake_all (expired s xs) ?s0"
  have f: "nxt ?s0 = nxt s" "prv ?s0 = prv s" "OS_ActivePrio ?s0 = OS_ActivePrio s" "Priority ?s0 = Priority s"
    by (simp_all add: OS_thread_switch_def write_dword_def)
  have "distinct (expired s xs)"
    using assms(2) unfolding expired_def by (intro distinct_takeWhile) (auto simp: timer_ring_def split: list.splits)
  then have "ready_inv ?s1 W (\<lambda>h. woken ?s0 (expired s xs) h @ Q h)"
    using assms(1,3) f by (intro wake_all_ready) (simp_all add: ready_inv_cong [OF f])
  then have r: "ready_inv ?s1 W (\<lambda>h. woken s (expired s xs) h @ Q h)" by (simp add: woken_def f)
  have l: "io_log ?s1 = [(ICSR, 0x10000000), (T0IR, 0xFF)] @ io_log s" by (simp add: OS_thread_switch_def)
  show ?thesis
  proof (cases "unexpired s xs")
    case Nil
    have "ready_inv (write_dword T0TCR 0 (?s1\<lparr>OS_pTimer := NULL\<rparr>)) W (\<lambda>h. woken s (expired s xs) h @ Q h)"
      by (subst ready_inv_cong [of _ ?s1]) (use r in \<open>simp_all add: write_dword_def\<close>)
    then show ?thesis
      using l by (simp add: systimer_exception_ring [OF assms(2)] Let_def Nil) (simp add: write_dword_def)
  next
    case (Cons y ys)
    have "ready_inv ((set_time (Time s y - Time s (hd xs)) ?s1)\<lparr>OS_pTimer := y\<rparr>) W (\<lambda>h. woken s (expired s xs) h @ Q h)"
      by (subst ready_inv_cong [of _ ?s1]) (use r in simp_all)
    then show ?thesis using l by (simp add: systimer_exception_ring [OF assms(2)] Let_def Cons)
  qed
qed

lemma sample_sleeping: "ready_inv ((sample m)\<lparr>OS_pTimer := 0x1014\<rparr>) {} (\<lambda>_. [])"
  by (simp add: ready_inv_def family_def sample_def dlist_def OS_ActiveProc_eq_iff ready_heads_def OS_ActiveProc_def)

theorem systimer_exception_wakes_witness:
  "\<exists>s'. systimer_exception ((sample ())\<lparr>OS_pTimer := 0x1014\<rparr>) = Some s' \<and>
     ready_inv s' {} ((\<lambda>_. [])(OS_ActiveProc 3 := [Node 0x1000])) \<and> OS_pTimer s' = NULL"
proof -
  let ?s = "(sample ())\<lparr>OS_pTimer := 0x1014\<rparr>"
  have r: "timer_ring ?s 0 [0x1014]" by (simp add: timer_ring_def)
  have e: "expired ?s [0x1014] = [0x1014]" "unexpired ?s [0x1014] = []"
    by (simp_all add: expired_def unexpired_def)
  have w: "(\<lambda>h. woken ?s [0x1014] h @ []) = (\<lambda>_. [])(OS_ActiveProc 3 := [Node 0x1000])"
    by (rule ext) (simp add: woken_def thread_of_timer_def)
  have "\<forall>x\<in>set (expired ?s [0x1014]). Priority ?s (thread_of_timer x) \<le> 32 \<and>
      \<not> on_family (ready_heads \<union> {}) (\<lambda>_. []) (Node (thread_of_timer x))"
    using ready_heads_range [of "Node 0x1000"] by (auto simp: e on_family_def thread_of_timer_def Node_def)
  from systimer_exception_wakes [OF sample_sleeping r this] show ?thesis unfolding e w by auto
qed

end
