(* ===== verification/Sched.thy ===== *)
theory Sched
  imports Ticker
begin

text \<open>
  kernel/kernel.c without the creation of threads: the register of live threads, the choice of the
  next thread (\<open>shift\<close>), the scheduling decision, sleeping and leaving.  A call that gives up the
  processor is cut where it calls \<open>OS_thread_switch\<close>: the first part returns \<open>Switched\<close>, the
  second part (\<open>_resume\<close>) runs when \<open>shift\<close> has brought the thread back.
\<close>

section \<open>Definitions\<close>

datatype 'r outcome = Returned 'r | Switched

text \<open>\<open>ppNode\<close> of the register points at the head variable or at a thread's \<open>pLive\<close> field.\<close>

datatype live_ref = LiveHead | LiveOf addr

fun live_get :: "live_ref \<Rightarrow> 'a os_scheme \<Rightarrow> addr" where
  "live_get LiveHead s = OS_LiveList s"
| "live_get (LiveOf t) s = pLive s t"

fun live_set :: "live_ref \<Rightarrow> addr \<Rightarrow> 'a os_scheme \<Rightarrow> 'a os_scheme" where
  "live_set LiveHead v s = s\<lparr>OS_LiveList := v\<rparr>"
| "live_set (LiveOf t) v s = s\<lparr>pLive := (pLive s)(t := v)\<rparr>"

partial_function (option) live_end :: "live_ref \<Rightarrow> 'a os_scheme \<Rightarrow> live_ref option" where
  "live_end ppNode s =
     (if NULL \<noteq> live_get ppNode s then live_end (LiveOf (live_get ppNode s)) s else Some ppNode)"

definition thread_register :: "addr \<Rightarrow> 'a os_scheme \<Rightarrow> 'a os_scheme option" where
  "thread_register pThread s =
     (case live_end LiveHead s of
        None \<Rightarrow> None
      | Some ppNode \<Rightarrow>
          let s = s\<lparr>pLive := (pLive s)(pThread := NULL)\<rparr>
          in Some (live_set ppNode pThread s))"

partial_function (option) live_find :: "addr \<Rightarrow> live_ref \<Rightarrow> 'a os_scheme \<Rightarrow> live_ref option" where
  "live_find pThread ppNode s =
     (if pThread \<noteq> live_get ppNode s then live_find pThread (LiveOf (live_get ppNode s)) s
      else Some ppNode)"

definition thread_unregister :: "addr \<Rightarrow> 'a os_scheme \<Rightarrow> 'a os_scheme option" where
  "thread_unregister pThread s =
     (case live_find pThread LiveHead s of
        None \<Rightarrow> None
      | Some ppNode \<Rightarrow> Some (live_set ppNode (pLive s pThread) s))"

text \<open>\<open>signal\<close>: \<open>SIG_TERM\<close> is 0, \<open>SIG_KILL\<close> is 1.\<close>

definition signal :: "u32 \<Rightarrow> addr \<Rightarrow> 'a os_scheme \<Rightarrow> int \<times> 'a os_scheme" where
  "signal SigNum pFunction s =
     (let (Key, s) = atom_operate_lock s;
          This = OS_This s;
          s = atom_operate_unlock Key s
      in if SigNum = 0 then (OK, s\<lparr>pExit := (pExit s)(This := pFunction)\<rparr>)
         else if SigNum = 1 then (OK, s\<lparr>pKill := (pKill s)(This := pFunction)\<rparr>)
         else (ERR, s))"

definition shift :: "addr \<Rightarrow> 'a os_scheme \<Rightarrow> addr \<times> 'a os_scheme" where
  "shift StackTop s =
     (let s = s\<lparr>pStackTop := (pStackTop s)(OS_This s := StackTop)\<rparr>;
          prio = bit_scan_forward (OS_ActivePrio s);
          s = s\<lparr>OS_This := thread_of_node (nxt s (OS_ActiveProc prio))\<rparr>
      in (pStackTop s (OS_This s), s))"

definition scheduler :: "'a os_scheme \<Rightarrow> 'a os_scheme" where
  "scheduler s =
     (if bit_scan_forward (OS_ActivePrio s) < Priority s (OS_This s) then OS_thread_switch s else s)"

definition getid :: "'a os_scheme \<Rightarrow> addr" where
  "getid s = OS_This s"

definition rename :: "addr \<Rightarrow> 'a os_scheme \<Rightarrow> int \<times> 'a os_scheme" where
  "rename name s = (OK, s\<lparr>pName := (pName s)(OS_This s := name)\<rparr>)"

definition change_priority :: "addr \<Rightarrow> u32 \<Rightarrow> 'a os_scheme \<Rightarrow> int \<times> 'a os_scheme" where
  "change_priority id' prio s = (OK, s\<lparr>Priority := (Priority s)(id' := prio)\<rparr>)"

definition sleep :: "u32 \<Rightarrow> 'a os_scheme \<Rightarrow> (int outcome \<times> 'a os_scheme) option" where
  "sleep time s =
     (if 0 = time then Some (Returned OK, s)
      else
        let pThread = OS_This s;
            prio = Priority s pThread;
            (Key, s) = atom_operate_lock s;
            s = vivify_thread pThread prio s
        in case OS_timer_add (Timer (OS_This s)) time s of
             None \<Rightarrow> None
           | Some (_, s) \<Rightarrow>
               let s = atom_operate_unlock Key s;
                   s = OS_thread_switch s
               in Some (Switched, s))"

definition sleep_resume :: "'a os_scheme \<Rightarrow> int \<times> 'a os_scheme" where
  "sleep_resume s = (let (_, s) = OS_timer_del (Timer (OS_This s)) s in (OK, s))"

definition wakeup :: "u32 \<Rightarrow> 'a os_scheme \<Rightarrow> int \<times> 'a os_scheme" where
  "wakeup Thread s = (ERR, s)"

text \<open>
  \<open>exit\<close>: \<open>call f x s\<close> is the effect of the user's callback at address \<open>f\<close>.  The C
  function is also where a thread's entry function returns to (\<open>stack_init\<close>).
\<close>

definition exit' :: "(addr \<Rightarrow> u32 \<Rightarrow> 'a os_scheme \<Rightarrow> 'a os_scheme) \<Rightarrow> u32 \<Rightarrow> 'a os_scheme \<Rightarrow>
    'a os_scheme option" where
  "exit' call Info s =
     (let pThread = OS_This s;
          s = (if NULL \<noteq> pExit s pThread then call (pExit s pThread) Info s else s);
          prio = Priority s pThread;
          (Key, s) = atom_operate_lock s
      in case thread_unregister pThread s of
           None \<Rightarrow> None
         | Some s \<Rightarrow>
             let s = vivify_thread pThread prio s;
                 (_, s) = OS_timer_del (Timer pThread) s;
                 s = list_add (Node pThread) OS_DeadList s;
                 s = atom_operate_unlock Key s
             in Some (OS_thread_switch s))"

text \<open>
  \<open>pendsv_exception\<close> of syscall.s: the eight callee-saved registers go on the thread's stack,
  \<open>shift\<close> takes the stack pointer and returns the next thread's, and that thread's registers
  come back.  The result is the new process stack pointer and the registers.
\<close>

fun push_regs :: "u32 list \<Rightarrow> addr \<Rightarrow> 'a os_scheme \<Rightarrow> 'a os_scheme" where
  "push_regs [] a s = s"
| "push_regs (r # rs) a s = push_regs rs (a + 4) (s\<lparr>stack_mem := (stack_mem s)(a := r)\<rparr>)"

fun pop_regs :: "nat \<Rightarrow> addr \<Rightarrow> 'a os_scheme \<Rightarrow> u32 list" where
  "pop_regs 0 a s = []"
| "pop_regs (Suc n) a s = stack_mem s a # pop_regs n (a + 4) s"

definition pendsv_exception :: "addr \<Rightarrow> u32 list \<Rightarrow> 'a os_scheme \<Rightarrow> addr \<times> u32 list \<times> 'a os_scheme" where
  "pendsv_exception psp regs s =
     (let r1 = psp - 32;
          s = push_regs regs r1 s;
          (r0, s) = shift r1 s
      in (r0 + 32, pop_regs 8 r0 s, s))"

section \<open>The register of live threads\<close>

fun live_chain :: "(addr \<Rightarrow> addr) \<Rightarrow> addr \<Rightarrow> addr list \<Rightarrow> bool" where
  "live_chain n a [] \<longleftrightarrow> a = NULL"
| "live_chain n a (x # xs) \<longleftrightarrow> a = x \<and> x \<noteq> NULL \<and> live_chain n (n x) xs"

definition live_list :: "'a os_scheme \<Rightarrow> addr list \<Rightarrow> bool" where
  "live_list s xs \<longleftrightarrow> distinct xs \<and> live_chain (pLive s) (OS_LiveList s) xs"

lemma live_chain_upd [simp]: "z \<notin> set xs \<Longrightarrow> live_chain (n(z := v)) a xs \<longleftrightarrow> live_chain n a xs"
  by (induction xs arbitrary: a) auto

fun live_last :: "live_ref \<Rightarrow> addr list \<Rightarrow> live_ref" where
  "live_last r [] = r"
| "live_last r (x # xs) = live_last (LiveOf x) xs"

lemma live_end_chain: "live_chain (pLive s) (live_get r s) xs \<Longrightarrow> live_end r s = Some (live_last r xs)"
proof (induction xs arbitrary: r)
  case Nil
  then show ?case by (subst live_end.simps) simp
next
  case (Cons x xs)
  have "live_end r s = live_end (LiveOf x) s" using Cons.prems by (subst live_end.simps) auto
  then show ?case using Cons by simp
qed

lemma live_find_chain:
  "live_chain (pLive s) (live_get r s) (us @ x # vs) \<Longrightarrow> x \<notin> set us \<Longrightarrow>
   live_find x r s = Some (live_last r us)"
proof (induction us arbitrary: r)
  case Nil
  then show ?case by (subst live_find.simps) auto
next
  case (Cons u us)
  have "live_find x r s = live_find x (LiveOf u) s" using Cons.prems by (subst live_find.simps) auto
  then show ?case using Cons by simp
qed

lemma live_last_snoc: "live_last r (xs @ [x]) = LiveOf x"
  by (induction xs arbitrary: r) auto

lemma live_chain_prefix: "live_chain n a (us @ u # vs) \<Longrightarrow> live_chain n (n u) vs"
  by (induction us arbitrary: a) auto

lemma live_chain_relink:
  assumes "live_chain n a (us @ u # ws)" "distinct (us @ [u])" "live_chain n v vs" "u \<notin> set vs"
  shows "live_chain (n(u := v)) a (us @ u # vs)"
  using assms by (induction us arbitrary: a) auto

lemma thread_register_live:
  assumes l: "live_list s xs" and t: "t \<noteq> NULL" "t \<notin> set xs"
  shows "\<exists>s'. thread_register t s = Some s' \<and> live_list s' (xs @ [t])"
proof (cases xs rule: rev_cases)
  case Nil
  then show ?thesis using l t
    by (simp add: thread_register_def live_end_chain [of s LiveHead "[]"] live_list_def)
next
  case (snoc us u)
  have e: "live_end LiveHead s = Some (LiveOf u)"
    using l live_end_chain [of s LiveHead xs] by (simp add: live_list_def snoc live_last_snoc)
  have "live_chain ((pLive s)(t := NULL)) (OS_LiveList s) (us @ [u])"
    using l t by (simp add: live_list_def snoc)
  then have "live_chain ((pLive s)(t := NULL, u := t)) (OS_LiveList s) (us @ u # [t])"
    by (rule live_chain_relink) (use l t snoc in \<open>auto simp: live_list_def\<close>)
  then show ?thesis using l t by (auto simp: thread_register_def e Let_def live_list_def snoc)
qed

lemma thread_unregister_live:
  assumes l: "live_list s (us @ t # vs)"
  shows "\<exists>s'. thread_unregister t s = Some s' \<and> live_list s' (us @ vs) \<and>
     s' = live_set (live_last LiveHead us) (pLive s t) s"
proof -
  have d: "distinct (us @ t # vs)" and c: "live_chain (pLive s) (OS_LiveList s) (us @ t # vs)"
    using l by (auto simp: live_list_def)
  have f: "live_find t LiveHead s = Some (live_last LiveHead us)"
    using live_find_chain [of s LiveHead us t vs] c d by simp
  have r: "live_chain (pLive s) (pLive s t) vs" using c live_chain_prefix by blast
  have "live_list (live_set (live_last LiveHead us) (pLive s t) s) (us @ vs)"
  proof (cases us rule: rev_cases)
    case Nil
    then show ?thesis using d r by (simp add: live_list_def)
  next
    case (snoc ws w)
    have "live_chain ((pLive s)(w := pLive s t)) (OS_LiveList s) (ws @ w # vs)"
      by (rule live_chain_relink [where ws = "t # vs"]) (use c d r snoc in auto)
    then show ?thesis using d by (simp add: live_list_def snoc live_last_snoc)
  qed
  then show ?thesis using f by (simp add: thread_unregister_def)
qed

section \<open>Choosing the next thread\<close>

lemma shift_ready:
  assumes r: "ready_inv s W Q" and idle: "Q (OS_ActiveProc 32) \<noteq> []"
    and sh: "shift sp s = (new, s')"
  shows "\<exists>p\<le>32. Q (OS_ActiveProc p) \<noteq> [] \<and> (\<forall>q<p. Q (OS_ActiveProc q) = []) \<and>
     OS_This s' = thread_of_node (hd (Q (OS_ActiveProc p))) \<and> Priority s' (OS_This s') = p"
    and "pStackTop s' (OS_This s) = sp" and "new = pStackTop s' (OS_This s')" and "ready_inv s' W Q"
proof -
  let ?p = "bit_scan_forward (OS_ActivePrio s)"
  have p: "?p \<le> 32" "?p < 32 \<Longrightarrow> Q (OS_ActiveProc ?p) \<noteq> []" "\<And>q. q < ?p \<Longrightarrow> Q (OS_ActiveProc q) = []"
    using ready_scan [OF r refl] by auto
  have ne: "Q (OS_ActiveProc ?p) \<noteq> []" using p idle by (cases "?p = 32") auto
  have n: "nxt s (OS_ActiveProc ?p) = hd (Q (OS_ActiveProc ?p))"
    using dl.repr_first [OF ready_invD [OF r p(1)] ne] .
  have s': "s' = s\<lparr>pStackTop := (pStackTop s)(OS_This s := sp), OS_This := thread_of_node (nxt s (OS_ActiveProc ?p))\<rparr>"
    "new = pStackTop s' (OS_This s')"
    using sh by (auto simp: shift_def Let_def)
  have "Priority s (thread_of_node (hd (Q (OS_ActiveProc ?p)))) = ?p"
    using r p(1) hd_in_set [OF ne] by (auto simp: ready_inv_def)
  then show "\<exists>p\<le>32. Q (OS_ActiveProc p) \<noteq> [] \<and> (\<forall>q<p. Q (OS_ActiveProc q) = []) \<and>
     OS_This s' = thread_of_node (hd (Q (OS_ActiveProc p))) \<and> Priority s' (OS_This s') = p"
    using p ne n by (intro exI [of _ ?p]) (simp add: s'(1))
  show "pStackTop s' (OS_This s) = sp" by (simp add: s'(1))
  show "new = pStackTop s' (OS_This s')" by (rule s'(2))
  show "ready_inv s' W Q" using r by (subst ready_inv_cong [of _ s]) (simp_all add: s'(1))
qed

lemma scheduler_iff:
  assumes r: "ready_inv s W Q" and p: "Priority s (OS_This s) \<le> 32"
  shows "scheduler s =
    (if \<exists>q<Priority s (OS_This s). Q (OS_ActiveProc q) \<noteq> [] then OS_thread_switch s else s)"
proof -
  let ?p = "bit_scan_forward (OS_ActivePrio s)"
  have "?p < Priority s (OS_This s) \<longleftrightarrow> (\<exists>q<Priority s (OS_This s). Q (OS_ActiveProc q) \<noteq> [])"
  proof
    assume *: "?p < Priority s (OS_This s)"
    then have "?p < 32" using p by simp
    with * show "\<exists>q<Priority s (OS_This s). Q (OS_ActiveProc q) \<noteq> []"
      using ready_scan(2) [OF r refl] by blast
  next
    assume "\<exists>q<Priority s (OS_This s). Q (OS_ActiveProc q) \<noteq> []"
    then obtain q where q: "q < Priority s (OS_This s)" "Q (OS_ActiveProc q) \<noteq> []" by blast
    then have "\<not> q < ?p" using ready_scan(3) [OF r refl] by blast
    with q(1) show "?p < Priority s (OS_This s)" by simp
  qed
  then show ?thesis by (simp add: scheduler_def)
qed

section \<open>The context switch\<close>

lemma push_regs_frame [simp]:
  "OS_This (push_regs rs a s) = OS_This s" "pStackTop (push_regs rs a s) = pStackTop s"
  "OS_ActivePrio (push_regs rs a s) = OS_ActivePrio s" "nxt (push_regs rs a s) = nxt s"
  "prv (push_regs rs a s) = prv s" "Priority (push_regs rs a s) = Priority s"
  by (induction rs arbitrary: a s) simp_all

lemma push_regs_other: "\<forall>k<length rs. b \<noteq> a + 4 * of_nat k \<Longrightarrow> stack_mem (push_regs rs a s) b = stack_mem s b"
proof (induction rs arbitrary: a s)
  case (Cons r rs)
  have "\<forall>k<length rs. b \<noteq> (a + 4) + 4 * of_nat k"
    using Cons.prems by (auto simp: algebra_simps dest: spec [of _ "Suc k" for k])
  moreover have "b \<noteq> a" using Cons.prems by force
  ultimately show ?case using Cons.IH by simp
qed simp

lemma pop_regs_cong:
  "(\<And>k. k < n \<Longrightarrow> stack_mem s (a + 4 * of_nat k) = stack_mem s' (a + 4 * of_nat k)) \<Longrightarrow>
   pop_regs n a s = pop_regs n a s'"
proof (induction n arbitrary: a)
  case (Suc n)
  have "stack_mem s a = stack_mem s' a" using Suc.prems [of 0] by simp
  moreover have "pop_regs n (a + 4) s = pop_regs n (a + 4) s'"
    by (rule Suc.IH) (use Suc.prems [of "Suc k" for k] in \<open>simp add: algebra_simps\<close>)
  ultimately show ?case by simp
qed simp

lemma stack_slot_apart: "Suc k < 2 ^ 30 \<Longrightarrow> (a::addr) \<noteq> a + 4 + 4 * of_nat k"
proof
  assume k: "Suc k < 2 ^ 30" and "(a::addr) = a + 4 + 4 * of_nat k"
  then have "(of_nat (4 * Suc k) :: addr) = 0" by (simp add: algebra_simps)
  moreover have "unat (of_nat (4 * Suc k) :: addr) = 4 * Suc k" using k by (intro unat_of_nat_small) simp
  ultimately show False by simp
qed

lemma pop_push: "length rs < 2 ^ 30 \<Longrightarrow> pop_regs (length rs) a (push_regs rs a s) = rs"
proof (induction rs arbitrary: a s)
  case (Cons r rs)
  have "\<forall>k<length rs. a \<noteq> (a + 4) + 4 * of_nat k" using stack_slot_apart Cons.prems by simp
  then have "stack_mem (push_regs rs (a + 4) (s\<lparr>stack_mem := (stack_mem s)(a := r)\<rparr>)) a = r"
    by (simp only: push_regs_other) simp
  then show ?case using Cons by simp
qed simp

lemma shift_stack_mem [simp]: "stack_mem (snd (shift a s)) = stack_mem s"
  by (simp add: shift_def Let_def)

text \<open>
  The switch saves: in any later state in which the saved frame and stack pointer are intact, a
  switch back to the thread returns the stack pointer and the registers it had.
\<close>

lemma context_saved:
  assumes rs: "length rs = 8" and sw: "pendsv_exception psp rs s = (psp', rs', s')"
  shows "pStackTop s' (OS_This s) = psp - 32" and "pop_regs 8 (psp - 32) s' = rs"
proof -
  have s': "s' = snd (shift (psp - 32) (push_regs rs (psp - 32) s))"
    using sw by (simp add: pendsv_exception_def Let_def split: prod.splits)
  show "pStackTop s' (OS_This s) = psp - 32"
    by (simp add: s' shift_def Let_def)
  have "pop_regs 8 (psp - 32) s' = pop_regs 8 (psp - 32) (push_regs rs (psp - 32) s)"
    by (rule pop_regs_cong) (simp add: s')
  then show "pop_regs 8 (psp - 32) s' = rs" using pop_push [of rs] rs by simp
qed

section \<open>Sleeping\<close>

lemma timer_ring_cong:
  "Next s' = Next s \<Longrightarrow> Prev s' = Prev s \<Longrightarrow> Time s' = Time s \<Longrightarrow> OS_pTimer s' = OS_pTimer s \<Longrightarrow>
   timer_ring s' b xs \<longleftrightarrow> timer_ring s b xs"
  by (cases xs) (simp_all add: timer_ring_def)

definition same_kernel :: "'a os_scheme \<Rightarrow> 'a os_scheme \<Rightarrow> bool" where
  "same_kernel s s' \<longleftrightarrow> nxt s' = nxt s \<and> prv s' = prv s \<and> OS_ActivePrio s' = OS_ActivePrio s \<and>
     Priority s' = Priority s \<and> OS_This s' = OS_This s \<and> PRIMASK s' = PRIMASK s \<and>
     pLive s' = pLive s \<and> OS_LiveList s' = OS_LiveList s \<and> pStackTop s' = pStackTop s \<and>
     stack_mem s' = stack_mem s \<and> io_impl s' = io_impl s \<and> os.more s' = os.more s"

lemma same_kernel_timer:
  "same_kernel s (write_dword a d s)" "same_kernel s (set_time T s)" "same_kernel s (timer_link p q s)"
  "same_kernel s (s\<lparr>Next := f\<rparr>)" "same_kernel s (s\<lparr>Prev := f\<rparr>)" "same_kernel s (s\<lparr>Time := g\<rparr>)"
  "same_kernel s (s\<lparr>OS_pTimer := x\<rparr>)"
  by (simp_all add: same_kernel_def set_time_def timer_link_def write_dword_def Let_def)

lemma same_kernel_timer_del: "same_kernel s (snd (OS_timer_del p s))"
  by (simp add: OS_timer_del_def same_kernel_def set_time_def write_dword_def Let_def)

lemma same_kernel_timer_add: "OS_timer_add p ms s = Some (r, s') \<Longrightarrow> same_kernel s s'"
  by (auto simp: OS_timer_add_def same_kernel_def set_time_def timer_link_def write_dword_def Let_def
      split: if_splits option.splits)

lemma same_kernel_ready: "same_kernel s s' \<Longrightarrow> ready_inv s' W Q \<longleftrightarrow> ready_inv s W Q"
  by (rule ready_inv_cong) (simp_all add: same_kernel_def)

lemma switch_frame [simp]:
  "Next (OS_thread_switch s) = Next s" "Prev (OS_thread_switch s) = Prev s" "Time (OS_thread_switch s) = Time s"
  "OS_pTimer (OS_thread_switch s) = OS_pTimer s" "same_kernel s (OS_thread_switch s)"
  "PRIMASK (OS_thread_switch s) = PRIMASK s"
  "io_log (OS_thread_switch s) = (ICSR, 0x10000000) # io_log s"
  by (simp_all add: OS_thread_switch_def write_dword_def same_kernel_def)

lemma get_left_time_cong: "io s' = io s \<Longrightarrow> get_left_time s' = get_left_time s"
  by (simp add: get_left_time_def read_dword_def)

text \<open>
  \<open>sleep\<close>: the running thread leaves its ready queue, its timer joins the ring with the asked
  delay, the interrupt mask is as before and a switch is requested.
\<close>

lemma sleep_ready:
  assumes r: "ready_inv s W Q" and t: "OS_This s = t" "Priority s t = p" "p \<le> 32"
    and n: "Node t \<in> set (Q (OS_ActiveProc p))"
    and ring: "timer_ring s b xs" "Timer t \<notin> set xs" "Timer t \<noteq> NULL"
      "b = (if xs = [] then 0 else Time s (hd xs) - get_left_time s)"
    and time: "time \<noteq> 0"
  shows "\<exists>s' us vs. sleep time s = Some (Switched, s') \<and>
    ready_inv s' W (Q(OS_ActiveProc p := remove1 (Node t) (Q (OS_ActiveProc p)))) \<and>
    xs = us @ vs \<and> timer_ring s' b (us @ Timer t # vs) \<and> Time s' (Timer t) - b = time \<and>
    PRIMASK s' = PRIMASK s \<and> hd (io_log s') = (ICSR, 0x10000000)"
proof -
  let ?s1 = "vivify_thread t p (s\<lparr>PRIMASK := 1\<rparr>)"
  have r1: "ready_inv ?s1 W (Q(OS_ActiveProc p := remove1 (Node t) (Q (OS_ActiveProc p))))"
    by (rule ready_vivify) (use r t n in \<open>simp_all add: ready_inv_cong [of "s\<lparr>PRIMASK := 1\<rparr>" s]\<close>)
  have ring1: "timer_ring ?s1 b xs" using ring(1) by (simp add: timer_ring_cong [of ?s1 s])
  have b1: "b = (if xs = [] then 0 else Time ?s1 (hd xs) - get_left_time ?s1)"
    using ring(4) by (simp add: get_left_time_cong [of ?s1 s])
  obtain s2 us vs where s2: "OS_timer_add (Timer t) time ?s1 = Some (OK, s2)" "xs = us @ vs"
      "timer_ring s2 b (us @ Timer t # vs)" "Time s2 (Timer t) - b = time"
    using OS_timer_add_ring [OF ring1 ring(2,3) b1, of time] by blast
  let ?s' = "OS_thread_switch (s2\<lparr>PRIMASK := PRIMASK s\<rparr>)"
  have "sleep time s = Some (Switched, ?s')"
    using s2(1) t time by (simp add: sleep_def atom_operate_lock_def atom_operate_unlock_def Let_def)
  moreover have "ready_inv ?s' W (Q(OS_ActiveProc p := remove1 (Node t) (Q (OS_ActiveProc p))))"
    using r1 same_kernel_ready [OF same_kernel_timer_add [OF s2(1)]]
      same_kernel_ready [OF switch_frame(5), of "s2\<lparr>PRIMASK := PRIMASK s\<rparr>"]
      ready_inv_cong [of "s2\<lparr>PRIMASK := PRIMASK s\<rparr>" s2] by simp
  moreover have "timer_ring ?s' b (us @ Timer t # vs)" "Time ?s' (Timer t) - b = time"
    using s2(3,4) by (simp_all add: timer_ring_cong [of ?s' s2])
  ultimately show ?thesis using s2(2) by (intro exI [of _ ?s'] exI [of _ us] exI [of _ vs]) simp
qed

lemma sleep_resume_ready:
  assumes "ready_inv s W Q" "timer_ring s b (us @ Timer (OS_This s) # vs)"
  shows "\<exists>s'. sleep_resume s = (OK, s') \<and> ready_inv s' W Q \<and> timer_ring s' b (us @ vs)"
proof -
  obtain s' where s': "OS_timer_del (Timer (OS_This s)) s = (OK, s')" "timer_ring s' b (us @ vs)"
    using OS_timer_del_ring [OF assms(2)] by blast
  then show ?thesis
    using same_kernel_ready [OF same_kernel_timer_del [of s "Timer (OS_This s)"]] assms(1)
    by (simp add: sleep_resume_def)
qed

lemma sleep_zero [simp]: "sleep 0 s = Some (Returned OK, s)"
  by (simp add: sleep_def)

section \<open>Leaving\<close>

lemma live_set_frame [simp]:
  "nxt (live_set r v s) = nxt s" "prv (live_set r v s) = prv s" "OS_ActivePrio (live_set r v s) = OS_ActivePrio s"
  "Priority (live_set r v s) = Priority s" "OS_This (live_set r v s) = OS_This s"
  "Next (live_set r v s) = Next s" "Prev (live_set r v s) = Prev s" "Time (live_set r v s) = Time s"
  "OS_pTimer (live_set r v s) = OS_pTimer s"
  by (cases r; simp)+

lemma ready_list_add:
  assumes r: "ready_inv s W Q" and h: "h \<in> W" and x: "\<not> on_family (ready_heads \<union> W) Q x"
  shows "ready_inv (list_add x h s) W (Q(h := x # Q h))"
proof -
  have 1: "OS_ActiveProc p \<noteq> h" if "p \<le> 32" for p
    using r h that ready_heads_memb [of p] by (auto simp: ready_inv_def)
  then have "OS_ActiveProc p \<noteq> h" if "p < 32" for p
    using that by simp
  moreover note 1
  moreover have "family dlist (list_add x h s) (ready_heads \<union> W) (Q(h := x # Q h))"
    by (rule dl.family_add) (use r h x in \<open>auto simp: ready_inv_def\<close>)
  ultimately show ?thesis using r by (simp add: ready_inv_def)
qed

lemma list_add_live [simp]:
  "pLive (list_add x h s) = pLive s" "OS_LiveList (list_add x h s) = OS_LiveList s"
  by (simp_all add: ring_simps)

lemma live_list_cong: "pLive s' = pLive s \<Longrightarrow> OS_LiveList s' = OS_LiveList s \<Longrightarrow> live_list s' xs \<longleftrightarrow> live_list s xs"
  by (simp add: live_list_def)

text \<open>
  \<open>exit\<close> without a callback: the thread is off the live list, off its ready queue and
  on the list of dead threads, and a switch is requested.
\<close>

lemma exit_ready:
  assumes r: "ready_inv s W Q" and t: "OS_This s = t" "Priority s t = p" "p \<le> 32" "pExit s t = NULL"
    and n: "Node t \<in> set (Q (OS_ActiveProc p))" and d: "OS_DeadList \<in> W"
    and l: "live_list s (us @ t # vs)"
  shows "\<exists>s'. exit' call Info s = Some s' \<and> live_list s' (us @ vs) \<and>
    ready_inv s' W (Q(OS_ActiveProc p := remove1 (Node t) (Q (OS_ActiveProc p)), OS_DeadList := Node t # Q OS_DeadList)) \<and>
    hd (io_log s') = (ICSR, 0x10000000)"
proof -
  let ?Q = "Q(OS_ActiveProc p := remove1 (Node t) (Q (OS_ActiveProc p)))"
  let ?s0 = "s\<lparr>PRIMASK := 1\<rparr>"
  obtain s1 where s1: "thread_unregister t ?s0 = Some s1" "live_list s1 (us @ vs)"
      "s1 = live_set (live_last LiveHead us) (pLive ?s0 t) ?s0"
    using thread_unregister_live [of ?s0 us t vs] l by (auto simp: live_list_def)
  let ?s2 = "vivify_thread t p s1"
  let ?s3 = "snd (OS_timer_del (Timer t) ?s2)"
  let ?s4 = "list_add (Node t) OS_DeadList ?s3"
  let ?s5 = "?s4\<lparr>PRIMASK := PRIMASK s\<rparr>"
  have k: "same_kernel ?s2 ?s3" by (rule same_kernel_timer_del)
  have r1: "ready_inv s1 W Q" using r by (subst ready_inv_cong [of _ s]) (simp_all add: s1(3))
  have r2: "ready_inv ?s2 W ?Q" and f2: "\<not> on_family (ready_heads \<union> W) ?Q (Node t)"
    using ready_vivify [OF r1 t(3) n] by auto
  have r3: "ready_inv ?s3 W ?Q" using r2 same_kernel_ready [OF k] by simp
  have od: "OS_DeadList \<noteq> OS_ActiveProc p" using r d ready_heads_memb [OF t(3)] by (auto simp: ready_inv_def)
  have r4: "ready_inv ?s4 W (?Q(OS_DeadList := Node t # Q OS_DeadList))"
    using ready_list_add [OF r3 d f2] od by simp
  have r5: "ready_inv (OS_thread_switch ?s5) W (?Q(OS_DeadList := Node t # Q OS_DeadList))"
    by (subst same_kernel_ready [OF switch_frame(5)], subst ready_inv_cong [of _ ?s4]) (simp_all add: r4)
  have "live_list ?s5 (us @ vs)"
    using s1(2) k by (simp add: live_list_cong [of ?s5 s1] same_kernel_def)
  then have l5: "live_list (OS_thread_switch ?s5) (us @ vs)"
    using live_list_cong [of "OS_thread_switch ?s5" ?s5] by (simp add: OS_thread_switch_def write_dword_def)
  have "exit' call Info s = Some (OS_thread_switch ?s5)"
    using t s1(1) by (simp add: exit'_def atom_operate_lock_def atom_operate_unlock_def Let_def split: prod.splits)
  then show ?thesis using r5 l5 by (intro exI [of _ "OS_thread_switch ?s5"]) simp
qed

section \<open>Properties\<close>

text \<open>C1: \<open>shift\<close> records the stack of the thread that leaves and hands the processor to the
  thread at the head of the highest-priority ready queue that is not empty, whose saved stack top
  it returns; the queues are not touched.\<close>

theorem shift_picks_highest:
  assumes "ready_inv s W Q" "Q (OS_ActiveProc 32) \<noteq> []"
  shows "\<exists>p\<le>32. Q (OS_ActiveProc p) \<noteq> [] \<and> (\<forall>q<p. Q (OS_ActiveProc q) = []) \<and>
    (case shift sp s of (new, s') \<Rightarrow>
      OS_This s' = thread_of_node (hd (Q (OS_ActiveProc p))) \<and> Priority s' (OS_This s') = p \<and>
      pStackTop s' (OS_This s) = sp \<and> new = pStackTop s' (OS_This s') \<and> ready_inv s' W Q)"
proof (cases "shift sp s")
  case (Pair new s')
  show ?thesis using shift_ready [OF assms Pair] by (simp add: Pair)
qed

theorem shift_picks_highest_witness:
  "OS_This (snd (shift 0x10000 (two_threads ()))) \<in> {0x1000, 0x2000} \<and>
   pStackTop (snd (shift 0x10000 (two_threads ()))) 0x1000 = 0x10000"
proof -
  let ?Q = "(\<lambda>_. [])(OS_ActiveProc 32 := [Node 0x2000], OS_ActiveProc 3 := [Node 0x1000])"
  have "ready_inv (two_threads ()) {} ?Q" by (rule sample_ready) auto
  from shift_picks_highest [OF this, of "0x10000"] obtain p where "p \<le> 32" "?Q (OS_ActiveProc p) \<noteq> []"
    "OS_This (snd (shift 0x10000 (two_threads ()))) = thread_of_node (hd (?Q (OS_ActiveProc p)))"
    "pStackTop (snd (shift 0x10000 (two_threads ()))) 0x1000 = 0x10000"
    by (auto simp: split_beta OS_ActiveProc_eq_iff)
  then show ?thesis by (auto split: if_splits)
qed

text \<open>C11: \<open>scheduler\<close> requests a switch exactly when a thread of a higher priority than the running
  one is ready; otherwise it changes nothing.\<close>

theorem scheduler_preempts:
  assumes "ready_inv s W Q" "Priority s (OS_This s) \<le> 32"
  shows "io_log (scheduler s) =
      (if \<exists>q<Priority s (OS_This s). Q (OS_ActiveProc q) \<noteq> [] then [(ICSR, 0x10000000)] else []) @ io_log s \<and>
    ((\<forall>q<Priority s (OS_This s). Q (OS_ActiveProc q) = []) \<longrightarrow> scheduler s = s)"
  using scheduler_iff [OF assms] by (auto simp: OS_thread_switch_def)

theorem scheduler_preempts_witness:
  "io_log (scheduler ((two_threads ())\<lparr>OS_This := 0x2000\<rparr>)) = (ICSR, 0x10000000) # io_log (two_threads ())"
proof -
  let ?Q = "(\<lambda>_. [])(OS_ActiveProc 32 := [Node 0x2000], OS_ActiveProc 3 := [Node 0x1000])"
  have "ready_inv (two_threads ()) {} ?Q" by (rule sample_ready) auto
  then have r: "ready_inv ((two_threads ())\<lparr>OS_This := 0x2000\<rparr>) {} ?Q" by (subst ready_inv_cong [of _ "two_threads ()"]) simp_all
  have "?Q (OS_ActiveProc 3) \<noteq> []" "(3::u32) < 32" by (simp_all add: OS_ActiveProc_eq_iff)
  then have "\<exists>q<32. ?Q (OS_ActiveProc q) \<noteq> []" by blast
  with scheduler_preempts [OF r] show ?thesis by simp
qed

text \<open>C10: a context switch saves and restores: when the thread that a \<open>pendsv_exception\<close> took the
  processor from gets it back by a later one, and its saved frame and stack top were left alone in
  between, it continues with its own stack pointer and its own eight callee-saved registers.\<close>

theorem context_switch_restores:
  assumes "length rs = 8" "pendsv_exception psp rs s = (psp1, rs1, s1)"
    "pStackTop s2 (OS_This s) = pStackTop s1 (OS_This s)"
    "\<forall>k<8. stack_mem s2 (psp - 32 + 4 * of_nat k) = stack_mem s1 (psp - 32 + 4 * of_nat k)"
    "pendsv_exception psp2 rs2 s2 = (psp3, rs3, s3)" "length rs2 = 8"
    "\<forall>k<8. \<forall>j<8. psp - 32 + 4 * of_nat k \<noteq> psp2 - 32 + 4 * of_nat j"
    "OS_This s3 = OS_This s" "OS_This s2 \<noteq> OS_This s"
  shows "psp3 = psp \<and> rs3 = rs"
proof -
  note c = context_saved [OF assms(1,2)]
  let ?s = "push_regs rs2 (psp2 - 32) s2"
  have sh: "shift (psp2 - 32) ?s = (psp3 - 32, s3)" and rs3: "rs3 = pop_regs 8 (psp3 - 32) s3"
    using assms(5) by (auto simp: pendsv_exception_def Let_def split: prod.splits)
  have "psp3 - 32 = pStackTop s3 (OS_This s3)" "pStackTop s3 (OS_This s) = pStackTop s2 (OS_This s)"
    using sh assms(9) by (auto simp: shift_def Let_def)
  then have p: "psp3 - 32 = psp - 32" using assms(3,8) c(1) by simp
  have "stack_mem s3 = stack_mem ?s" using shift_stack_mem [of "psp2 - 32" ?s] by (simp add: sh)
  then have "pop_regs 8 (psp - 32) s3 = pop_regs 8 (psp - 32) s1"
    using assms(4,6,7) by (intro pop_regs_cong) (simp add: push_regs_other)
  with c(2) rs3 p show ?thesis by simp
qed

text \<open>The thread at 0x1000 gives way to the idle thread, is readied, and comes back.\<close>

definition idle_only :: os where
  "idle_only = activate_thread 0x2000 32 (sample ())"

lemma idle_only_fields:
  "OS_This idle_only = 0x1000" "OS_ActivePrio idle_only = 0" "nxt idle_only (OS_ActiveProc 32) = Node 0x2000"
  "pStackTop idle_only = (\<lambda>_. 0)" "prv idle_only (OS_ActiveProc 3) = OS_ActiveProc 3"
  "nxt idle_only (OS_ActiveProc 3) = OS_ActiveProc 3"
  by (simp_all add: idle_only_def sample_def activate_thread_def list_add_def list_add_between_def
      set_next_def set_prev_def OS_ActiveProc_def Node_def)

lemma scan_8: "bit_scan_forward 8 = 3"
  by code_simp

theorem context_switch_restores_witness:
  "(let rs = [1, 2, 3, 4, 5, 6, 7, 8];
        (psp1, rs1, s1) = pendsv_exception 0x10000 rs idle_only;
        (psp3, rs3, s3) = pendsv_exception psp1 rs1 (activate_thread 0x1000 3 s1)
    in psp3 = 0x10000 \<and> rs3 = rs)"
proof -
  let ?rs = "[1, 2, 3, 4, 5, 6, 7, 8] :: u32 list"
  obtain psp1 rs1 s1 where 1: "pendsv_exception 0x10000 ?rs idle_only = (psp1, rs1, s1)" by (metis prod_cases3)
  let ?s2 = "activate_thread 0x1000 3 s1"
  obtain psp3 rs3 s3 where 3: "pendsv_exception psp1 rs1 ?s2 = (psp3, rs3, s3)" by (metis prod_cases3)
  have sh: "shift 0xFFE0 (push_regs ?rs 0xFFE0 idle_only) = (psp1 - 32, s1)"
    and rs1: "rs1 = pop_regs 8 (psp1 - 32) s1"
    using 1 by (auto simp: pendsv_exception_def Let_def split_beta)
  have s1: "OS_This s1 = 0x2000" "psp1 = 32" "OS_ActivePrio s1 = 0" "nxt s1 = nxt idle_only" "prv s1 = prv idle_only"
    using sh by (auto simp: shift_def Let_def idle_only_fields eq_diff_eq diff_eq_eq)
  have "length rs1 = 8" unfolding rs1 by (simp add: numeral_eq_Suc)
  moreover have "nxt ?s2 (OS_ActiveProc 3) = Node 0x1000" "OS_ActivePrio ?s2 = 8"
    using s1(3) by (simp add: activate_links list_add_def list_add_between_def, simp add: activate_thread_def)
  then have "OS_This s3 = 0x1000"
    using 3 by (auto simp: pendsv_exception_def shift_def Let_def scan_8)
  moreover have "OS_This idle_only = 0x1000" "pStackTop ?s2 = pStackTop s1" "stack_mem ?s2 = stack_mem s1"
    "OS_This ?s2 = 0x2000"
    using s1(1) by (simp_all add: idle_only_fields activate_thread_def list_add_def list_add_between_def set_next_def set_prev_def)
  moreover have "\<forall>k<8. \<forall>j<8. (0x10000 :: addr) - 32 + 4 * of_nat k \<noteq> psp1 - 32 + 4 * of_nat j"
  proof -
    have "list_all (\<lambda>k. list_all (\<lambda>j. (0x10000 :: addr) - 32 + 4 * of_nat k \<noteq> 32 - 32 + 4 * of_nat j) [0..<8]) [0..<8]"
      by code_simp
    then show ?thesis by (simp only: list_all_upt s1)
  qed
  ultimately have "psp3 = 0x10000 \<and> rs3 = ?rs"
    by (intro context_switch_restores [OF _ 1 _ _ 3]) simp_all
  then show ?thesis by (simp add: Let_def 1 3)
qed

text \<open>\<open>thread_register\<close> appends a thread to the list of live threads and
  \<open>thread_unregister\<close> takes any one of them out, both always returning; registering a thread and
  taking it out again leaves the list as it was.\<close>

theorem live_register:
  assumes "live_list s xs" "t \<noteq> NULL" "t \<notin> set xs" "u \<in> set (xs @ [t])"
  shows "\<exists>s' s''. thread_register t s = Some s' \<and> live_list s' (xs @ [t]) \<and>
    thread_unregister u s' = Some s'' \<and> live_list s'' (remove1 u (xs @ [t]))"
proof -
  obtain s' where s': "thread_register t s = Some s'" "live_list s' (xs @ [t])"
    using thread_register_live [OF assms(1-3)] by blast
  obtain us vs where x: "xs @ [t] = us @ u # vs" "u \<notin> set us" using split_list_first [OF assms(4)] by blast
  then have "live_list s' (us @ u # vs)" using s' by simp
  from thread_unregister_live [OF this] x show ?thesis using s' by (auto simp: remove1_append)
qed

theorem live_register_witness:
  "\<exists>s' s''. thread_register 0x2000 (two_threads ()) = Some s' \<and> live_list s' [0x1000, 0x2000] \<and>
    thread_unregister 0x1000 s' = Some s'' \<and> live_list s'' [0x2000]"
  using live_register [of "two_threads ()" "[0x1000]" "0x2000" "0x1000"] by (simp add: live_list_def)



text \<open>\<open>exit\<close> of a thread without an exit handler takes it off the list of live threads and off
  its ready queue, hands it to the list of the dead for the idle thread to free, and requests a
  switch.\<close>

theorem exit_hands_over:
  assumes "ready_inv s W Q" "OS_This s = t" "Priority s t = p" "p \<le> 32" "pExit s t = NULL"
    "Node t \<in> set (Q (OS_ActiveProc p))" "OS_DeadList \<in> W" "live_list s (us @ t # vs)"
  shows "\<exists>s'. exit' call Info s = Some s' \<and> live_list s' (us @ vs) \<and>
    ready_inv s' W (Q(OS_ActiveProc p := remove1 (Node t) (Q (OS_ActiveProc p)), OS_DeadList := Node t # Q OS_DeadList)) \<and>
    hd (io_log s') = (ICSR, 0x10000000)"
  by (rule exit_ready [OF assms])

theorem exit_hands_over_witness:
  "\<exists>s'. exit' (\<lambda>_ _ s. s) 0 (two_threads ()) = Some s' \<and> live_list s' [] \<and>
    ready_inv s' {OS_DeadList} ((\<lambda>_. [])(OS_ActiveProc 32 := [Node 0x2000], OS_ActiveProc 3 := [], OS_DeadList := [Node 0x1000]))"
proof -
  let ?Q = "(\<lambda>_. [])(OS_ActiveProc 32 := [Node 0x2000], OS_ActiveProc 3 := [Node 0x1000])"
  have d: "OS_DeadList \<notin> ready_heads" "OS_DeadList \<noteq> OS_ActiveProc 3" "OS_DeadList \<noteq> OS_ActiveProc 32"
    using ready_heads_range [of OS_DeadList] by (auto simp: OS_DeadList_def OS_ActiveProc_def)
  then have r: "ready_inv (two_threads ()) {OS_DeadList} ?Q"
    by (intro sample_ready) (auto simp: OS_DeadList_def Node_def)
  have l: "live_list (two_threads ()) ([] @ 0x1000 # [])" by (simp add: live_list_def)
  from exit_hands_over [OF r, of "0x1000" 3 "[]" "[]" "\<lambda>_ _ s. s" 0] d l show ?thesis by auto
qed

end
