(* ===== verification/Semaphore.thy ===== *)
theory Semaphore
  imports Sched
begin

text \<open>
  kernel/semaphore/semaphore.c, except for allocation (theory Objects): counting semaphores
  with a list of waiting threads.  \<open>semaphore_wait\<close> is cut at its \<open>OS_thread_switch\<close>;
  \<open>semaphore_wait_resume\<close> is the rest, run by the thread when it is switched back in.
\<close>

section \<open>Definitions\<close>

text \<open>\<open>struct semaphore\<close>: Status at 0, Counter at 4, WaitHead at 8.\<close>

record semaphore = os +
  Counter :: "addr \<Rightarrow> u32"

definition WaitHead :: "addr \<Rightarrow> addr" where
  "WaitHead Semaphore = Semaphore + 8"

definition semaphore_create :: "addr \<Rightarrow> u32 \<Rightarrow> 'a semaphore_scheme \<Rightarrow> int \<times> 'a semaphore_scheme" where
  "semaphore_create Semaphore Amount s =
     (if NULL = Semaphore then (ERR_BAD_PARAM, s)
      else
        let s = s\<lparr>Counter := (Counter s)(Semaphore := Amount)\<rparr>;
            s = INIT_LIST_HEAD (WaitHead Semaphore) s
        in (OK, s))"

definition semaphore_fetch :: "addr \<Rightarrow> 'a semaphore_scheme \<Rightarrow> int \<times> 'a semaphore_scheme" where
  "semaphore_fetch Semaphore s =
     (if NULL = Semaphore then (ERR_BAD_PARAM, s)
      else
        let (Key, s) = atom_operate_lock s in
        if Counter s Semaphore \<noteq> 0 then
          let s = s\<lparr>Counter := (Counter s)(Semaphore := Counter s Semaphore - 1)\<rparr>;
              s = atom_operate_unlock Key s
          in (OK, s)
        else
          let s = atom_operate_unlock Key s in (ERR, s))"

definition semaphore_wait :: "addr \<Rightarrow> u32 \<Rightarrow> 'a semaphore_scheme \<Rightarrow>
    (int outcome \<times> 'a semaphore_scheme) option" where
  "semaphore_wait Semaphore Timeout s =
     (if NULL = Semaphore then Some (Returned ERR_BAD_PARAM, s)
      else
        let (Key, s) = atom_operate_lock s in
        if Counter s Semaphore \<noteq> 0 then
          let s = s\<lparr>Counter := (Counter s)(Semaphore := Counter s Semaphore - 1)\<rparr>;
              s = atom_operate_unlock Key s
          in Some (Returned OK, s)
        else
          let pThread = OS_This s;
              prio = Priority s pThread;
              s = vivify_thread pThread prio s;
              s = list_add (Node pThread) (WaitHead Semaphore) s
          in case (if Timeout \<noteq> 0 then OS_timer_add (Timer pThread) Timeout s else Some (OK, s)) of
               None \<Rightarrow> None
             | Some (_, s) \<Rightarrow>
                 let s = atom_operate_unlock Key s;
                     s = OS_thread_switch s
                 in Some (Switched, s))"

text \<open>\<open>pThread\<close> is the local of the waiting call: the thread that runs again.\<close>

definition semaphore_wait_resume :: "addr \<Rightarrow> u32 \<Rightarrow> addr \<Rightarrow> 'a semaphore_scheme \<Rightarrow> int \<times> 'a semaphore_scheme" where
  "semaphore_wait_resume Semaphore Timeout pThread s =
     (let (Key, s) = atom_operate_lock s;
          s = (if Timeout \<noteq> 0 then snd (OS_timer_del (Timer pThread) s) else s);
          s = list_del (Node pThread) s
      in if 0 = Counter s Semaphore then
           let s = atom_operate_unlock Key s in (ERR_TIMEOUT, s)
         else
           let s = s\<lparr>Counter := (Counter s)(Semaphore := Counter s Semaphore - 1)\<rparr>;
               s = atom_operate_unlock Key s
           in (OK, s))"

definition semaphore_post :: "addr \<Rightarrow> 'a semaphore_scheme \<Rightarrow> int \<times> 'a semaphore_scheme" where
  "semaphore_post Semaphore s =
     (if NULL = Semaphore then (ERR_BAD_PARAM, s)
      else
        let (Key, s) = atom_operate_lock s;
            s = s\<lparr>Counter := (Counter s)(Semaphore := Counter s Semaphore + 1)\<rparr>
        in if list_empty (WaitHead Semaphore) s then
             let s = atom_operate_unlock Key s in (OK, s)
           else
             let pThread = thread_of_node (nxt s (WaitHead Semaphore));
                 prio = Priority s pThread;
                 s = activate_thread pThread prio s;
                 s = atom_operate_unlock Key s;
                 s = scheduler s
             in (OK, s))"

section \<open>The contract of a counted resource\<close>

text \<open>
  What a user of a counting lock relies on: taking succeeds exactly when a token is left and
  then removes one, a failed attempt changes nothing, and giving back adds one.
\<close>

locale counted =
  fixes inv :: "'s \<Rightarrow> bool"
    and tokens :: "'s \<Rightarrow> nat"
    and take :: "'s \<Rightarrow> bool \<times> 's"
    and give :: "'s \<Rightarrow> 's"
    and bound :: nat
  assumes take_ok: "inv s \<Longrightarrow> fst (take s) \<longleftrightarrow> 0 < tokens s"
    and take_tokens: "inv s \<Longrightarrow> tokens (snd (take s)) = tokens s - 1"
    and take_inv: "inv s \<Longrightarrow> inv (snd (take s))"
    and give_tokens: "inv s \<Longrightarrow> tokens s < bound \<Longrightarrow> tokens (give s) = tokens s + 1"
    and give_inv: "inv s \<Longrightarrow> inv (give s)"
begin

lemma take_some: "inv s \<Longrightarrow> 0 < tokens s \<Longrightarrow> take s = (True, snd (take s))"
  using take_ok [of s] by (cases "take s") simp

lemma take_none: "inv s \<Longrightarrow> tokens s = 0 \<Longrightarrow> fst (take s) = False \<and> tokens (snd (take s)) = 0"
  using take_ok [of s] take_tokens [of s] by simp

lemma give_take: "inv s \<Longrightarrow> tokens s < bound \<Longrightarrow>
    fst (take (give s)) \<and> tokens (snd (take (give s))) = tokens s"
  by (simp add: take_ok take_tokens give_inv give_tokens)

end

section \<open>Counting\<close>

text \<open>A history of calls on one semaphore; the result counts the units granted and posted.\<close>

datatype sem_call = Fetch | Post | Wait u32 | Resume u32 addr

fun sem_exec :: "addr \<Rightarrow> sem_call \<Rightarrow> 'a semaphore_scheme \<Rightarrow> (nat \<times> nat \<times> 'a semaphore_scheme) option" where
  "sem_exec S Fetch s = (let (r, s) = semaphore_fetch S s in Some (of_bool (r = OK), 0, s))"
| "sem_exec S Post s = (let (r, s) = semaphore_post S s in Some (0, of_bool (r = OK), s))"
| "sem_exec S (Wait t) s =
     (case semaphore_wait S t s of None \<Rightarrow> None | Some (r, s) \<Rightarrow> Some (of_bool (r = Returned OK), 0, s))"
| "sem_exec S (Resume t p) s = (let (r, s) = semaphore_wait_resume S t p s in Some (of_bool (r = OK), 0, s))"

fun sem_run :: "addr \<Rightarrow> sem_call list \<Rightarrow> 'a semaphore_scheme \<Rightarrow> (nat \<times> nat \<times> 'a semaphore_scheme) option" where
  "sem_run S [] s = Some (0, 0, s)"
| "sem_run S (c # cs) s =
     (case sem_exec S c s of
        None \<Rightarrow> None
      | Some (g, p, s) \<Rightarrow>
          (case sem_run S cs s of None \<Rightarrow> None | Some (g', p', s) \<Rightarrow> Some (g + g', p + p', s)))"

lemma Counter_frame [simp]:
  "Counter (vivify_thread t p s) = Counter s" "Counter (activate_thread t p s) = Counter s"
  "Counter (list_add x h s) = Counter s" "Counter (list_del x s) = Counter s"
  "Counter (OS_thread_switch s) = Counter s" "Counter (scheduler s) = Counter s"
  "Counter (atom_operate_unlock k s) = Counter s" "Counter (snd (atom_operate_lock s)) = Counter s"
  "Counter (snd (OS_timer_del q s)) = Counter s" "Counter (INIT_LIST_HEAD h s) = Counter s"
  by (simp_all add: vivify_thread_def activate_thread_def ring_simps OS_thread_switch_def scheduler_def
      atom_operate_unlock_def atom_operate_lock_def OS_timer_del_def set_time_def write_dword_def)

lemma Counter_timer_add: "OS_timer_add p ms s = Some (r, s') \<Longrightarrow> Counter s' = Counter s"
  by (auto simp: OS_timer_add_def set_time_def timer_link_def write_dword_def Let_def
      split: if_splits option.splits)

lemma sem_exec_counter:
  assumes "S \<noteq> NULL" "sem_exec S c s = Some (g, p, s')"
  shows "Counter s' S + of_nat g = Counter s S + of_nat p"
    and "T \<noteq> S \<Longrightarrow> Counter s' T = Counter s T"
    and "g \<noteq> 0 \<Longrightarrow> g = 1 \<and> Counter s S \<noteq> 0 \<and> p = 0" and "p \<le> 1"
  using assms
  by (cases c; auto simp: semaphore_fetch_def semaphore_post_def semaphore_wait_def
      semaphore_wait_resume_def atom_operate_lock_def atom_operate_unlock_def Let_def
      dest!: Counter_timer_add split: if_splits option.splits)+

lemma sem_exec_unat:
  assumes S: "S \<noteq> NULL" "sem_exec S c s = Some (g, p, s')" and b: "unat (Counter s S) + 1 < 2 ^ 32"
  shows "unat (Counter s' S) + g = unat (Counter s S) + p" "p \<le> 1"
proof -
  note e = sem_exec_counter [OF S]
  show p: "p \<le> 1" by (rule e(4))
  show "unat (Counter s' S) + g = unat (Counter s S) + p"
  proof (cases "g = 0")
    case True
    then have "Counter s' S = Counter s S + of_nat p" using e(1) by simp
    then show ?thesis using True p b
      by (cases p) (auto simp: unat_word_ariths)
  next
    case False
    then have "g = 1" "p = 0" "Counter s S \<noteq> 0" using e(3) by auto
    moreover have "Counter s' S + 1 = Counter s S" using e(1) \<open>g = 1\<close> \<open>p = 0\<close> by simp
    then have "Counter s' S = Counter s S - 1" by (simp add: algebra_simps)
    ultimately show ?thesis by (simp add: unat_minus_one unat_gt_0)
  qed
qed

lemma sem_run_balance:
  assumes "S \<noteq> NULL" "sem_run S cs s = Some (g, p, s')" "unat (Counter s S) + length cs < 2 ^ 32"
  shows "unat (Counter s' S) + g = unat (Counter s S) + p"
  using assms
proof (induction cs arbitrary: s g p)
  case (Cons c cs)
  obtain g1 p1 s1 where 1: "sem_exec S c s = Some (g1, p1, s1)"
    using Cons.prems(2) by (auto split: option.splits)
  obtain g2 p2 where 2: "sem_run S cs s1 = Some (g2, p2, s')" "g = g1 + g2" "p = p1 + p2"
    using Cons.prems(2) 1 by (auto split: option.splits)
  have u: "unat (Counter s1 S) + g1 = unat (Counter s S) + p1" "p1 \<le> 1"
    using sem_exec_unat [OF Cons.prems(1) 1] Cons.prems(3) by simp_all
  then have "unat (Counter s1 S) + length cs < 2 ^ 32" using Cons.prems(3) by simp
  then have "unat (Counter s' S) + g2 = unat (Counter s1 S) + p2"
    using Cons.IH [OF Cons.prems(1) 2(1)] by simp
  then show ?case using u 2 by simp
qed simp

text \<open>\<open>semaphore_fetch\<close> and \<open>semaphore_post\<close> meet the contract of a counted resource.\<close>

definition sem_take :: "addr \<Rightarrow> 'a semaphore_scheme \<Rightarrow> bool \<times> 'a semaphore_scheme" where
  "sem_take S s = (let (r, s) = semaphore_fetch S s in (r = OK, s))"

definition sem_give :: "addr \<Rightarrow> 'a semaphore_scheme \<Rightarrow> 'a semaphore_scheme" where
  "sem_give S s = snd (semaphore_post S s)"

interpretation sem: counted "\<lambda>s :: semaphore. True" "\<lambda>s. unat (Counter s 0x2007f188)"
  "sem_take 0x2007f188" "sem_give 0x2007f188" "2 ^ 32 - 1"
proof unfold_locales
  fix s :: semaphore
  show "fst (sem_take 0x2007f188 s) \<longleftrightarrow> 0 < unat (Counter s 0x2007f188)"
    by (auto simp: sem_take_def semaphore_fetch_def atom_operate_lock_def Let_def unat_gt_0)
  show "unat (Counter (snd (sem_take 0x2007f188 s)) 0x2007f188) = unat (Counter s 0x2007f188) - 1"
    by (auto simp: sem_take_def semaphore_fetch_def atom_operate_lock_def Let_def unat_minus_one)
  show "unat (Counter (sem_give 0x2007f188 s) 0x2007f188) = unat (Counter s 0x2007f188) + 1"
    if "unat (Counter s 0x2007f188) < 2 ^ 32 - 1"
    using that by (auto simp: sem_give_def semaphore_post_def atom_operate_lock_def Let_def unat_word_ariths)
qed simp_all

section \<open>Blocking and waking\<close>

lemma same_kernel_refl [simp]: "same_kernel s s"
  by (simp add: same_kernel_def)

lemma ready_transfer:
  assumes r: "ready_inv s W Q" and p: "p \<le> 32" and t: "Node t \<in> set (Q (OS_ActiveProc p))" and h: "h \<in> W"
  shows "ready_inv (list_add (Node t) h (vivify_thread t p s)) W
    (Q(OS_ActiveProc p := remove1 (Node t) (Q (OS_ActiveProc p)), h := Node t # Q h))"
proof -
  have "h \<noteq> OS_ActiveProc p" using r h ready_heads_memb [OF p] by (auto simp: ready_inv_def)
  then show ?thesis
    using ready_list_add [OF ready_vivify(1) [OF r p t] h ready_vivify(2) [OF r p t]] by simp
qed

text \<open>With no unit left and no timeout the running thread moves to the front of the waiting list.\<close>

lemma semaphore_wait_blocks:
  assumes r: "ready_inv s W Q" and t: "OS_This s = t" "Priority s t = p" "p \<le> 32"
    and n: "Node t \<in> set (Q (OS_ActiveProc p))" and S: "S \<noteq> NULL" "WaitHead S \<in> W" "Counter s S = 0"
  shows "\<exists>s'. semaphore_wait S 0 s = Some (Switched, s') \<and>
    ready_inv s' W (Q(OS_ActiveProc p := remove1 (Node t) (Q (OS_ActiveProc p)), WaitHead S := Node t # Q (WaitHead S))) \<and>
    Counter s' S = 0 \<and> PRIMASK s' = PRIMASK s \<and> hd (io_log s') = (ICSR, 0x10000000)"
proof -
  let ?s0 = "s\<lparr>PRIMASK := 1\<rparr>"
  let ?s1 = "list_add (Node t) (WaitHead S) (vivify_thread t p ?s0)"
  let ?s2 = "?s1\<lparr>PRIMASK := PRIMASK s\<rparr>"
  have "ready_inv ?s0 W Q" using r by (subst ready_inv_cong [of _ s]) simp_all
  then have "ready_inv ?s1 W (Q(OS_ActiveProc p := remove1 (Node t) (Q (OS_ActiveProc p)), WaitHead S := Node t # Q (WaitHead S)))"
    using t n S(2) by (intro ready_transfer) simp_all
  then have "ready_inv (OS_thread_switch ?s2) W (Q(OS_ActiveProc p := remove1 (Node t) (Q (OS_ActiveProc p)), WaitHead S := Node t # Q (WaitHead S)))"
    by (subst same_kernel_ready [OF switch_frame(5)], subst ready_inv_cong [of _ ?s1]) simp_all
  moreover have "semaphore_wait S 0 s = Some (Switched, OS_thread_switch ?s2)"
    using S t by (simp add: semaphore_wait_def atom_operate_lock_def atom_operate_unlock_def Let_def)
  ultimately show ?thesis using S by (intro exI [of _ "OS_thread_switch ?s2"]) simp
qed

text \<open>A list that is forgotten leaves the others well formed.\<close>

lemma ready_forget: "ready_inv s W Q \<Longrightarrow> W' \<subseteq> W \<Longrightarrow> ready_inv s W' Q"
  unfolding ready_inv_def family_def by blast

lemma ready_inv_Q_cong: "(\<And>h. h \<in> ready_heads \<union> W \<Longrightarrow> Q' h = Q h) \<Longrightarrow> ready_inv s W Q' \<longleftrightarrow> ready_inv s W Q"
proof -
  assume e: "\<And>h. h \<in> ready_heads \<union> W \<Longrightarrow> Q' h = Q h"
  then have "\<And>p. p \<le> 32 \<Longrightarrow> Q' (OS_ActiveProc p) = Q (OS_ActiveProc p)" by auto
  moreover from this have "\<And>p. p < 32 \<Longrightarrow> Q' (OS_ActiveProc p) = Q (OS_ActiveProc p)" by simp
  ultimately show ?thesis unfolding ready_inv_def family_def using e by (auto cong: conj_cong)
qed

lemma ready_wake_first:
  assumes r: "ready_inv s W Q" and h: "h \<in> W" "Q h = Node t # ns"
  shows "\<not> list_empty h s" and "nxt s h = Node t"
    and "Priority s t = p \<Longrightarrow> p \<le> 32 \<Longrightarrow>
      ready_inv (activate_thread t p s) (W - {h}) (Q(OS_ActiveProc p := Node t # Q (OS_ActiveProc p)))"
proof -
  have f: "family dlist s (ready_heads \<union> W) Q" and hn: "h \<notin> ready_heads"
    using r h by (auto simp: ready_inv_def)
  have d: "dlist s h (Node t # ns)" using familyD [OF f, of h] h by simp
  show "\<not> list_empty h s" "nxt s h = Node t"
    using dlist_empty [OF d] dlist_next [OF d] by simp_all
  have "\<not> on_family (ready_heads \<union> (W - {h})) Q (Node t)"
  proof
    assume "on_family (ready_heads \<union> (W - {h})) Q (Node t)"
    then obtain h' where "h' \<in> ready_heads \<union> W" "h' \<noteq> h" "Node t \<in> set (h' # Q h')"
      unfolding on_family_def using hn by blast
    then show False using family_disjoint [OF f, of h h'] h by auto
  qed
  moreover have "ready_inv s (W - {h}) Q" by (rule ready_forget [OF r]) blast
  ultimately show "Priority s t = p \<Longrightarrow> p \<le> 32 \<Longrightarrow>
      ready_inv (activate_thread t p s) (W - {h}) (Q(OS_ActiveProc p := Node t # Q (OS_ActiveProc p)))"
    by (intro ready_activate) simp_all
qed

text \<open>
  \<open>semaphore_post\<close> with a waiter: the unit is added and the first waiter enters its ready
  queue at the front.  It is not unlinked from the waiting list, which therefore stops being one
  of the well-formed lists.
\<close>

lemma semaphore_post_wakes:
  assumes r: "ready_inv s W Q" and S: "S \<noteq> NULL" "WaitHead S \<in> W" "Q (WaitHead S) = Node t # ns"
    and p: "Priority s t = p" "p \<le> 32"
  shows "\<exists>s'. semaphore_post S s = (OK, s') \<and>
    ready_inv s' (W - {WaitHead S}) (Q(OS_ActiveProc p := Node t # Q (OS_ActiveProc p))) \<and>
    Counter s' S = Counter s S + 1 \<and> PRIMASK s' = PRIMASK s"
proof -
  let ?s0 = "s\<lparr>PRIMASK := 1, Counter := (Counter s)(S := Counter s S + 1)\<rparr>"
  let ?s1 = "activate_thread t p ?s0"
  let ?s2 = "?s1\<lparr>PRIMASK := PRIMASK s\<rparr>"
  have "ready_inv ?s0 W Q" using r by (subst ready_inv_cong [of _ s]) simp_all
  note w = ready_wake_first [OF this S(2,3)]
  have r1: "ready_inv ?s1 (W - {WaitHead S}) (Q(OS_ActiveProc p := Node t # Q (OS_ActiveProc p)))"
    by (rule w(3)) (use p in simp_all)
  have post: "semaphore_post S s = (OK, scheduler ?s2)"
    using S w(1,2) p by (simp add: semaphore_post_def atom_operate_lock_def atom_operate_unlock_def Let_def)
  have sk: "same_kernel ?s2 (scheduler ?s2)" by (simp add: scheduler_def)
  have "ready_inv (scheduler ?s2) (W - {WaitHead S}) (Q(OS_ActiveProc p := Node t # Q (OS_ActiveProc p)))"
    by (subst same_kernel_ready [OF sk], subst ready_inv_cong [of _ ?s1]) (simp_all add: r1)
  moreover have "PRIMASK (scheduler ?s2) = PRIMASK s" using sk by (simp add: same_kernel_def)
  ultimately show ?thesis using post by simp
qed

text \<open>
  The resumed call unlinks its thread from the list it is on, and that is the ready queue: a
  thread alone at its priority leaves the queue empty while its bit in the bitmap stays set.
\<close>

lemma semaphore_wait_resume_unlinks:
  assumes r: "ready_inv s W Q" and t: "Q (OS_ActiveProc p) = [Node t]" and p: "p < 32"
  shows "let s' = snd (semaphore_wait_resume S 0 t s)
    in list_empty (OS_ActiveProc p) s' \<and> bit (OS_ActivePrio s') (unat p)"
proof -
  let ?s0 = "list_del (Node t) (s\<lparr>PRIMASK := 1\<rparr>)"
  have "dlist s (OS_ActiveProc p) [Node t]" using ready_invD [OF r, of p] t p by simp
  then have "dlist (s\<lparr>PRIMASK := 1\<rparr>) (OS_ActiveProc p) [Node t]" by (simp add: dlist_def)
  then have "dlist ?s0 (OS_ActiveProc p) []" using dlist_list_del [of _ _ "[Node t]" "Node t"] by simp
  then have "nxt ?s0 (OS_ActiveProc p) = OS_ActiveProc p" by (simp add: dlist_def)
  moreover have "bit (OS_ActivePrio s) (unat p)" using r t p by (simp add: ready_inv_def)
  ultimately show ?thesis
    by (simp add: semaphore_wait_resume_def atom_operate_lock_def atom_operate_unlock_def Let_def list_empty_def)
qed

section \<open>Properties\<close>

text \<open>C2: over any history of fetches, posts, waits and resumptions of waits on a semaphore, the
  counter stays in balance: what it holds and the units granted are what it held and the units
  posted, as long as the counter cannot wrap around.\<close>

theorem semaphore_balance:
  assumes "S \<noteq> NULL" "sem_run S cs s = Some (g, p, s')" "unat (Counter s S) + length cs < 2 ^ 32"
  shows "unat (Counter s' S) + g = unat (Counter s S) + p"
  by (rule sem_run_balance [OF assms])

definition sample_sem :: semaphore where
  "sample_sem = two_threads (semaphore.fields (\<lambda>_. 0))"

lemma Counter_sample [simp]: "Counter sample_sem = (\<lambda>_. 0)"
  by (simp add: sample_sem_def two_threads_def) (simp add: sample_def semaphore.defs)

theorem semaphore_balance_witness:
  "(case sem_run 0x3000 [Post, Post, Fetch, Wait 0] sample_sem of None \<Rightarrow> False
    | Some (g, p, s') \<Rightarrow> unat (Counter s' 0x3000) + g = p)"
proof -
  have "sem_run 0x3000 [Post, Post, Fetch, Wait 0] sample_sem \<noteq> None"
    by (auto simp: semaphore_wait_def Let_def atom_operate_lock_def split_beta split: option.splits)
  then obtain g p s' where r: "sem_run 0x3000 [Post, Post, Fetch, Wait 0] sample_sem = Some (g, p, s')"
    by auto
  from semaphore_balance [OF _ this] show ?thesis unfolding r by simp
qed

text \<open>C7: a \<open>semaphore_wait\<close> that finds no unit moves the running thread from its ready queue to
  the semaphore's waiters, restores the interrupt mask and requests a switch; a
  \<open>semaphore_post\<close> that finds waiters counts the unit and readies the thread that waits first in
  the list, at its own priority.\<close>

theorem semaphore_blocks_and_wakes:
  assumes "ready_inv s W Q" "OS_This s = t" "Priority s t = p" "p \<le> 32"
    "Node t \<in> set (Q (OS_ActiveProc p))" "S \<noteq> NULL" "WaitHead S \<in> W" "Counter s S = 0"
  shows "\<exists>s'. semaphore_wait S 0 s = Some (Switched, s') \<and>
    ready_inv s' W (Q(OS_ActiveProc p := remove1 (Node t) (Q (OS_ActiveProc p)), WaitHead S := Node t # Q (WaitHead S))) \<and>
    Counter s' S = 0 \<and> PRIMASK s' = PRIMASK s \<and> hd (io_log s') = (ICSR, 0x10000000) \<and>
    (\<forall>s2 Q2. ready_inv s2 W Q2 \<and> Q2 (WaitHead S) = Node t # Q (WaitHead S) \<and> Priority s2 t = p \<longrightarrow>
      (\<exists>s3. semaphore_post S s2 = (OK, s3) \<and> Counter s3 S = Counter s2 S + 1 \<and>
        ready_inv s3 (W - {WaitHead S}) (Q2(OS_ActiveProc p := Node t # Q2 (OS_ActiveProc p)))))"
proof -
  have "\<exists>s3. semaphore_post S s2 = (OK, s3) \<and> Counter s3 S = Counter s2 S + 1 \<and>
        ready_inv s3 (W - {WaitHead S}) (Q2(OS_ActiveProc p := Node t # Q2 (OS_ActiveProc p)))"
    if "ready_inv s2 W Q2" "Q2 (WaitHead S) = Node t # Q (WaitHead S)" "Priority s2 t = p" for s2 Q2
    using semaphore_post_wakes [OF that(1) assms(6,7) that(2,3) assms(4)] by blast
  then show ?thesis using semaphore_wait_blocks [OF assms] by blast
qed

lemma sample_sem_ready:
  "ready_inv sample_sem {WaitHead 0x3000} ((\<lambda>_. [])(OS_ActiveProc 32 := [Node 0x2000], OS_ActiveProc 3 := [Node 0x1000]))"
  unfolding sample_sem_def using ready_heads_range [of "WaitHead 0x3000"]
  by (intro sample_ready) (auto simp: WaitHead_def Node_def)

lemma sample_sem_fields [simp]:
  "OS_This sample_sem = 0x1000" "Priority sample_sem = (\<lambda>t. if t = 0x2000 then 32 else 3)"
  by (simp_all add: sample_sem_def)

theorem semaphore_blocks_and_wakes_witness:
  "\<exists>s'. semaphore_wait 0x3000 0 sample_sem = Some (Switched, s') \<and>
    ready_inv s' {WaitHead 0x3000}
      ((\<lambda>_. [])(OS_ActiveProc 32 := [Node 0x2000], OS_ActiveProc 3 := [], WaitHead 0x3000 := [Node 0x1000]))"
proof -
  have "OS_ActiveProc 32 \<noteq> WaitHead 0x3000" "OS_ActiveProc 3 \<noteq> WaitHead 0x3000"
    by (simp_all add: OS_ActiveProc_def WaitHead_def)
  then show ?thesis
    using semaphore_blocks_and_wakes [OF sample_sem_ready, of "0x1000" 3 "0x3000"] by auto
qed

text \<open>C12: what the second half of \<open>semaphore_wait\<close> does to a thread that a post has readied: it
  unlinks the thread's node, which by then is on the ready queue, so that the running thread is on
  no ready queue while, when it was alone at its priority, the bitmap still marks that queue.\<close>

theorem semaphore_resume_leaves_ready:
  assumes "ready_inv s W Q" "Q (OS_ActiveProc p) = [Node t]" "p < 32"
  shows "let s' = snd (semaphore_wait_resume S 0 t s)
    in list_empty (OS_ActiveProc p) s' \<and> bit (OS_ActivePrio s') (unat p) \<and> \<not> ready_inv s' W' Q'"
proof -
  let ?s = "snd (semaphore_wait_resume S 0 t s)"
  have r: "list_empty (OS_ActiveProc p) ?s" "bit (OS_ActivePrio ?s) (unat p)"
    using semaphore_wait_resume_unlinks [OF assms] by (simp_all add: Let_def)
  have "p \<le> 32" using assms(3) by simp
  then have "Q' (OS_ActiveProc p) = []" if "ready_inv ?s W' Q'"
    using r(1) ready_invD [OF that] dlist_empty by blast
  then have "\<not> ready_inv ?s W' Q'"
    using r(2) assms(3) by (auto simp: ready_inv_def)
  with r show ?thesis by (simp add: Let_def)
qed

theorem semaphore_resume_leaves_ready_witness:
  "list_empty (OS_ActiveProc 3) (snd (semaphore_wait_resume 0x3000 0 0x1000 sample_sem))"
  using semaphore_resume_leaves_ready [OF sample_sem_ready, of 3 "0x1000" "0x3000"]
  by (simp add: Let_def OS_ActiveProc_eq_iff)

end
