(* ===== verification/Channels.thy ===== *)
theory Channels
  imports Prelude
begin

text \<open>
  The contracts of the kernel's two message channels.  A \<open>stream\<close> (a pipe) takes the longest
  prefix of a block that fits and gives blocks from the front; a \<open>fifo\<close> (a mailbox) takes and
  gives single messages.  A stream used with blocks of one element is a fifo.
\<close>

locale fifo =
  fixes inv :: "'s \<Rightarrow> bool"
    and contents :: "'s \<Rightarrow> 'm list"
    and capacity :: "'s \<Rightarrow> nat"
    and put :: "'m \<Rightarrow> 's \<Rightarrow> bool \<times> 's"
    and get :: "'s \<Rightarrow> 'm option \<times> 's"
  assumes put_inv: "inv s \<Longrightarrow> inv (snd (put m s))"
    and get_inv: "inv s \<Longrightarrow> inv (snd (get s))"
    and put_ok: "inv s \<Longrightarrow> fst (put m s) \<longleftrightarrow> length (contents s) < capacity s"
    and put_contents: "inv s \<Longrightarrow> contents (snd (put m s)) = (if fst (put m s) then contents s @ [m] else contents s)"
    and put_capacity: "inv s \<Longrightarrow> capacity (snd (put m s)) = capacity s"
    and get_value: "inv s \<Longrightarrow> fst (get s) = (case contents s of [] \<Rightarrow> None | m # _ \<Rightarrow> Some m)"
    and get_contents: "inv s \<Longrightarrow> contents (snd (get s)) = tl (contents s)"
    and get_capacity: "inv s \<Longrightarrow> capacity (snd (get s)) = capacity s"
begin

text \<open>Messages come out in the order they went in.\<close>

fun put_all :: "'m list \<Rightarrow> 's \<Rightarrow> 's" where
  "put_all [] s = s"
| "put_all (m # ms) s = put_all ms (snd (put m s))"

fun get_all :: "nat \<Rightarrow> 's \<Rightarrow> 'm option list \<times> 's" where
  "get_all 0 s = ([], s)"
| "get_all (Suc n) s = (let (m, s) = get s; (ms, s) = get_all n s in (m # ms, s))"

lemma put_all_contents:
  "inv s \<Longrightarrow> length (contents s) + length ms \<le> capacity s \<Longrightarrow>
   inv (put_all ms s) \<and> contents (put_all ms s) = contents s @ ms \<and> capacity (put_all ms s) = capacity s"
proof (induction ms arbitrary: s)
  case (Cons m ms)
  have ok: "fst (put m s)" using Cons.prems by (simp add: put_ok)
  have "inv (put_all ms (snd (put m s))) \<and>
      contents (put_all ms (snd (put m s))) = contents (snd (put m s)) @ ms \<and>
      capacity (put_all ms (snd (put m s))) = capacity (snd (put m s))"
    by (rule Cons.IH) (use Cons.prems ok in \<open>simp_all add: put_inv put_contents put_capacity\<close>)
  then show ?case using Cons.prems ok by (simp add: put_contents put_capacity)
qed simp

lemma get_all_contents:
  "inv s \<Longrightarrow> n \<le> length (contents s) \<Longrightarrow>
   fst (get_all n s) = map Some (take n (contents s)) \<and> contents (snd (get_all n s)) = drop n (contents s) \<and>
   inv (snd (get_all n s))"
proof (induction n arbitrary: s)
  case (Suc n)
  obtain m ms where c: "contents s = m # ms" using Suc.prems by (cases "contents s") auto
  have "fst (get_all n (snd (get s))) = map Some (take n ms) \<and>
      contents (snd (get_all n (snd (get s)))) = drop n ms \<and> inv (snd (get_all n (snd (get s))))"
    using Suc.IH [of "snd (get s)"] Suc.prems by (simp add: get_inv get_contents c)
  moreover have "fst (get s) = Some m" using Suc.prems by (simp add: get_value c)
  ultimately show ?case by (simp add: c split_beta Let_def)
qed simp

lemma fifo_order:
  assumes "inv s" "contents s = []" "length ms \<le> capacity s"
  shows "fst (get_all (length ms) (put_all ms s)) = map Some ms"
  using put_all_contents [of s ms] get_all_contents [of "put_all ms s" "length ms"] assms by simp

end

text \<open>
  Blocks of fewer than \<open>bound\<close> elements: the longest prefix that fits is taken, and as much as
  there is is given.
\<close>

locale stream =
  fixes inv :: "'s \<Rightarrow> bool"
    and contents :: "'s \<Rightarrow> 'm list"
    and capacity :: "'s \<Rightarrow> nat"
    and wr :: "'m list \<Rightarrow> 's \<Rightarrow> nat \<times> 's"
    and rd :: "nat \<Rightarrow> 's \<Rightarrow> 'm list \<times> 's"
    and bound :: nat
  assumes bound: "1 < bound"
    and wr_inv: "inv s \<Longrightarrow> length ms < bound \<Longrightarrow> inv (snd (wr ms s))"
    and rd_inv: "inv s \<Longrightarrow> n < bound \<Longrightarrow> inv (snd (rd n s))"
    and wr_count: "inv s \<Longrightarrow> length ms < bound \<Longrightarrow>
      fst (wr ms s) = min (length ms) (capacity s - length (contents s))"
    and wr_contents: "inv s \<Longrightarrow> length ms < bound \<Longrightarrow>
      contents (snd (wr ms s)) = contents s @ take (fst (wr ms s)) ms"
    and wr_capacity: "inv s \<Longrightarrow> length ms < bound \<Longrightarrow> capacity (snd (wr ms s)) = capacity s"
    and rd_value: "inv s \<Longrightarrow> n < bound \<Longrightarrow> fst (rd n s) = take n (contents s)"
    and rd_contents: "inv s \<Longrightarrow> n < bound \<Longrightarrow> contents (snd (rd n s)) = drop n (contents s)"
    and rd_capacity: "inv s \<Longrightarrow> n < bound \<Longrightarrow> capacity (snd (rd n s)) = capacity s"
begin

text \<open>What is written and then read, in blocks of any size, is a prefix of what was sent.\<close>

lemma write_read:
  assumes "inv s" "contents s = []" "length ms < bound" "length ms \<le> capacity s" "n < bound"
  shows "fst (rd n (snd (wr ms s))) = take n ms"
  using assms by (simp add: wr_inv wr_count wr_contents rd_value)

lemma two_writes:
  assumes "inv s" "length ms < bound" "length ns < bound" "length (contents s) + length ms + length ns \<le> capacity s"
  shows "contents (snd (wr ns (snd (wr ms s)))) = contents s @ ms @ ns"
  using assms by (simp add: wr_inv wr_count wr_contents wr_capacity)

text \<open>Whatever the room and the sizes, nothing is lost, duplicated or reordered.\<close>

lemma write_then_read:
  assumes "inv s" "length ms < bound" "n < bound"
  shows "fst (rd n (snd (wr ms s))) @ contents (snd (rd n (snd (wr ms s)))) =
    contents s @ take (capacity s - length (contents s)) ms"
proof -
  have "inv (snd (wr ms s))" using assms(1,2) by (rule wr_inv)
  then have "fst (rd n (snd (wr ms s))) @ contents (snd (rd n (snd (wr ms s)))) = contents (snd (wr ms s))"
    using assms(3) by (simp only: rd_value rd_contents append_take_drop_id)
  then show ?thesis using assms by (simp add: wr_count wr_contents min_def)
qed

end

text \<open>A stream used one element at a time is a fifo.\<close>

sublocale stream \<subseteq> fifo inv contents capacity
  "\<lambda>m s. (fst (wr [m] s) = 1, snd (wr [m] s))"
  "\<lambda>s. (case fst (rd 1 s) of [] \<Rightarrow> None | m # _ \<Rightarrow> Some m, snd (rd 1 s))"
proof unfold_locales
  fix s :: 's and m :: 'm
  assume i: "inv s"
  have b: "length [m] < bound" "1 < bound" using bound by simp_all
  show "inv (snd (fst (wr [m] s) = 1, snd (wr [m] s)))" using wr_inv [OF i b(1)] by simp
  show "inv (snd (case fst (rd 1 s) of [] \<Rightarrow> None | m # _ \<Rightarrow> Some m, snd (rd 1 s)))"
    using rd_inv [OF i b(2)] by simp
  have c: "fst (wr [m] s) = 1 \<longleftrightarrow> length (contents s) < capacity s"
    using wr_count [OF i b(1)] by auto
  then show "fst (fst (wr [m] s) = 1, snd (wr [m] s)) \<longleftrightarrow> length (contents s) < capacity s" by simp
  have "fst (wr [m] s) = 0 \<or> fst (wr [m] s) = 1" using wr_count [OF i b(1)] by auto
  then show "contents (snd (fst (wr [m] s) = 1, snd (wr [m] s))) =
      (if fst (fst (wr [m] s) = 1, snd (wr [m] s)) then contents s @ [m] else contents s)"
    using wr_contents [OF i b(1)] by auto
  show "capacity (snd (fst (wr [m] s) = 1, snd (wr [m] s))) = capacity s"
    using wr_capacity [OF i b(1)] by simp
  show "fst (case fst (rd 1 s) of [] \<Rightarrow> None | m # _ \<Rightarrow> Some m, snd (rd 1 s)) =
      (case contents s of [] \<Rightarrow> None | m # _ \<Rightarrow> Some m)"
    using rd_value [OF i b(2)] by (cases "contents s") simp_all
  show "contents (snd (case fst (rd 1 s) of [] \<Rightarrow> None | m # _ \<Rightarrow> Some m, snd (rd 1 s))) = tl (contents s)"
    using rd_contents [OF i b(2)] by (simp add: drop_Suc)
  show "capacity (snd (case fst (rd 1 s) of [] \<Rightarrow> None | m # _ \<Rightarrow> Some m, snd (rd 1 s))) = capacity s"
    using rd_capacity [OF i b(2)] by simp
qed

end
