(* ===== verification/Mailbox.thy ===== *)
theory Mailbox
  imports Semaphore Channels
begin

text \<open>
  kernel/mailbox/mailbox.c, except for allocation (theory Objects): a ring of \<open>Size + 1\<close>
  slots in which \<open>Write\<close> is the slot last written and \<open>Read\<close> the slot last read, with a list
  of waiting threads.
\<close>

section \<open>Definitions\<close>

text \<open>\<open>struct mailbox_t\<close>: Size 0, Read 4, Write 8, WaitHead 12, Status 20, Mail 24.\<close>

record mailbox = semaphore +
  Size :: "addr \<Rightarrow> u32"
  Read :: "addr \<Rightarrow> u32"
  Write :: "addr \<Rightarrow> u32"
  Status :: "addr \<Rightarrow> u32"
  Mail :: "addr \<Rightarrow> u32 \<Rightarrow> u32"

definition MailWaitHead :: "addr \<Rightarrow> addr" where
  "MailWaitHead Mailbox = Mailbox + 12"

definition mailbox_create :: "addr \<Rightarrow> u32 \<Rightarrow> 'a mailbox_scheme \<Rightarrow> int \<times> 'a mailbox_scheme" where
  "mailbox_create M sz s =
     (if NULL = M then (ERR_BAD_PARAM, s)
      else
        let s = s\<lparr>Size := (Size s)(M := sz)\<rparr>;
            s = s\<lparr>Read := (Read s)(M := 0)\<rparr>;
            s = s\<lparr>Write := (Write s)(M := 0)\<rparr>;
            s = s\<lparr>Status := (Status s)(M := 0)\<rparr>;
            s = INIT_LIST_HEAD (MailWaitHead M) s
        in (OK, s))"

text \<open>The block that advances \<open>Read\<close> and copies the mail to \<open>*pMessage\<close>, three times in the source.\<close>

definition mail_read :: "addr \<Rightarrow> addr \<Rightarrow> 'a mailbox_scheme \<Rightarrow> 'a mailbox_scheme" where
  "mail_read M pMessage s =
     (let s = (if Read s M = Size s M then s\<lparr>Read := (Read s)(M := 0)\<rparr>
               else s\<lparr>Read := (Read s)(M := Read s M + 1)\<rparr>)
      in s\<lparr>stack_mem := (stack_mem s)(pMessage := Mail s M (Read s M))\<rparr>)"

definition mail_fetch :: "addr \<Rightarrow> addr \<Rightarrow> 'a mailbox_scheme \<Rightarrow> int \<times> 'a mailbox_scheme" where
  "mail_fetch M pMessage s =
     (let (Key, s) = atom_operate_lock s in
      if Read s M \<noteq> Write s M then
        let s = mail_read M pMessage s;
            s = atom_operate_unlock Key s
        in (OK, s)
      else
        let s = atom_operate_unlock Key s in (ERR, s))"

definition mail_wait :: "addr \<Rightarrow> addr \<Rightarrow> u32 \<Rightarrow> 'a mailbox_scheme \<Rightarrow>
    (int outcome \<times> 'a mailbox_scheme) option" where
  "mail_wait M pMessage Timeout s =
     (if NULL = M \<or> NULL = pMessage then Some (Returned ERR_BAD_PARAM, s)
      else
        let (Key, s) = atom_operate_lock s in
        if Read s M \<noteq> Write s M then
          let s = mail_read M pMessage s;
              s = atom_operate_unlock Key s
          in Some (Returned OK, s)
        else
          let pThread = OS_This s;
              prio = Priority s pThread;
              s = vivify_thread pThread prio s;
              s = list_add (Node pThread) (MailWaitHead M) s
          in case (if Timeout \<noteq> 0 then OS_timer_add (Timer pThread) Timeout s else Some (OK, s)) of
               None \<Rightarrow> None
             | Some (_, s) \<Rightarrow>
                 let s = atom_operate_unlock Key s;
                     s = OS_thread_switch s
                 in Some (Switched, s))"

definition mail_wait_resume :: "addr \<Rightarrow> addr \<Rightarrow> u32 \<Rightarrow> addr \<Rightarrow> 'a mailbox_scheme \<Rightarrow> int \<times> 'a mailbox_scheme" where
  "mail_wait_resume M pMessage Timeout pThread s =
     (let (Key, s) = atom_operate_lock s;
          s = (if Timeout \<noteq> 0 then snd (OS_timer_del (Timer pThread) s) else s);
          s = list_del (Node pThread) s
      in if Read s M = Write s M then
           let s = atom_operate_unlock Key s in (ERR_TIMEOUT, s)
         else
           let s = mail_read M pMessage s;
               s = atom_operate_unlock Key s
           in (OK, s))"

definition mail_post :: "addr \<Rightarrow> u32 \<Rightarrow> 'a mailbox_scheme \<Rightarrow> int \<times> 'a mailbox_scheme" where
  "mail_post M Message s =
     (let Index = Write s M;
          Index = (if Index = Size s M then 0 else Index + 1)
      in if Index = Read s M then (ERR, s)
         else
           let s = s\<lparr>Write := (Write s)(M := Index)\<rparr>;
               s = s\<lparr>Mail := (Mail s)(M := (Mail s M)(Index := Message))\<rparr>
           in if list_empty (MailWaitHead M) s then (OK, s)
              else
                let Thread = thread_of_node (nxt s (MailWaitHead M));
                    prio = Priority s Thread;
                    (Key, s) = atom_operate_lock s;
                    s = activate_thread Thread prio s;
                    s = atom_operate_unlock Key s;
                    s = scheduler s
                in (OK, s))"

section \<open>The ring as a queue\<close>

definition mail_next :: "u32 \<Rightarrow> u32 \<Rightarrow> u32" where
  "mail_next sz i = (if i = sz then 0 else i + 1)"

text \<open>The number of mails and the mails, oldest first.\<close>

definition mail_count :: "addr \<Rightarrow> 'a mailbox_scheme \<Rightarrow> nat" where
  "mail_count M s =
     (if Read s M \<le> Write s M then unat (Write s M) - unat (Read s M)
      else unat (Write s M) + unat (Size s M) + 1 - unat (Read s M))"

definition mails_from :: "(u32 \<Rightarrow> u32) \<Rightarrow> u32 \<Rightarrow> u32 \<Rightarrow> nat \<Rightarrow> u32 list" where
  "mails_from m sz i n = map (\<lambda>k. m (((mail_next sz) ^^ Suc k) i)) [0..<n]"

definition mails :: "addr \<Rightarrow> 'a mailbox_scheme \<Rightarrow> u32 list" where
  "mails M s = mails_from (Mail s M) (Size s M) (Read s M) (mail_count M s)"

definition mailbox_inv :: "addr \<Rightarrow> 'a mailbox_scheme \<Rightarrow> bool" where
  "mailbox_inv M s \<longleftrightarrow> Read s M \<le> Size s M \<and> Write s M \<le> Size s M \<and> Size s M < - 1"

lemma mail_next_unat:
  assumes "i \<le> sz" "sz < - 1"
  shows "unat (mail_next sz i) = (unat i + 1) mod (unat sz + 1)" and "mail_next sz i \<le> sz"
proof -
  have "i = sz \<or> unat i < unat sz" using assms(1) by (auto simp: word_le_nat_alt word_unat_eq_iff)
  moreover have "unat sz < 2 ^ 32 - 1"
    using assms(2) by (simp add: word_less_nat_alt unsigned_minus_1_eq_mask mask_eq_exp_minus_1)
  ultimately have "unat (mail_next sz i) = (unat i + 1) mod (unat sz + 1) \<and> mail_next sz i \<le> sz"
    by (auto simp: mail_next_def word_le_nat_alt unat_word_ariths)
  then show "unat (mail_next sz i) = (unat i + 1) mod (unat sz + 1)" "mail_next sz i \<le> sz" by auto
qed

lemma mail_next_funpow:
  assumes "i \<le> sz" "sz < - 1"
  shows "unat ((mail_next sz ^^ k) i) = (unat i + k) mod (unat sz + 1)" and "(mail_next sz ^^ k) i \<le> sz"
proof -
  have "unat ((mail_next sz ^^ k) i) = (unat i + k) mod (unat sz + 1) \<and> (mail_next sz ^^ k) i \<le> sz"
  proof (induction k)
    case 0
    then show ?case using assms by (simp add: word_le_nat_alt)
  next
    case (Suc k)
    then show ?case using mail_next_unat [of "(mail_next sz ^^ k) i" sz] assms by (simp add: mod_Suc_eq)
  qed
  then show "unat ((mail_next sz ^^ k) i) = (unat i + k) mod (unat sz + 1)" "(mail_next sz ^^ k) i \<le> sz" by auto
qed

lemma mails_from_snoc: "mails_from m sz i (Suc n) = mails_from m sz i n @ [m ((mail_next sz ^^ Suc n) i)]"
  by (simp add: mails_from_def)

lemma mails_from_Cons: "mails_from m sz i (Suc n) = m (mail_next sz i) # mails_from m sz (mail_next sz i) n"
  unfolding mails_from_def
  by (simp add: upt_conv_Cons funpow_swap1 del: upt_Suc flip: map_Suc_upt)

lemma mail_count_mod:
  assumes "mailbox_inv M s"
  shows "mail_count M s = (unat (Write s M) + (unat (Size s M) + 1) - unat (Read s M)) mod (unat (Size s M) + 1)"
  using assms
  by (auto simp: mailbox_inv_def mail_count_def word_le_nat_alt le_mod_geq)

lemma mail_count_le: "mailbox_inv M s \<Longrightarrow> mail_count M s \<le> unat (Size s M)"
  using mod_less_divisor [of "unat (Size s M) + 1" "unat (Write s M) + (unat (Size s M) + 1) - unat (Read s M)"]
  unfolding mail_count_mod by linarith

lemma mail_write_index:
  assumes "mailbox_inv M s"
  shows "(mail_next (Size s M) ^^ mail_count M s) (Read s M) = Write s M"
proof -
  have "unat ((mail_next (Size s M) ^^ mail_count M s) (Read s M)) = (unat (Read s M) + mail_count M s) mod (unat (Size s M) + 1)"
    using assms by (intro mail_next_funpow) (simp_all add: mailbox_inv_def)
  also have "\<dots> = (unat (Write s M) + (unat (Size s M) + 1)) mod (unat (Size s M) + 1)"
    unfolding mail_count_mod [OF assms] using assms
    by (simp add: mod_add_right_eq mailbox_inv_def word_le_nat_alt)
  also have "\<dots> = unat (Write s M)"
    unfolding mod_add_self2 by (rule mod_less) (use assms in \<open>simp add: mailbox_inv_def word_le_nat_alt\<close>)
  finally show ?thesis by (simp add: word_unat_eq_iff)
qed

lemma mail_empty_iff: "mailbox_inv M s \<Longrightarrow> mail_count M s = 0 \<longleftrightarrow> Read s M = Write s M"
  by (auto simp: mail_count_def mailbox_inv_def word_le_nat_alt word_unat_eq_iff split: if_splits)

lemma mail_full_iff:
  assumes "mailbox_inv M s"
  shows "mail_next (Size s M) (Write s M) = Read s M \<longleftrightarrow> mail_count M s = unat (Size s M)"
proof -
  have u: "unat (mail_next (Size s M) (Write s M)) = (unat (Write s M) + 1) mod (unat (Size s M) + 1)"
    using assms by (intro mail_next_unat) (simp_all add: mailbox_inv_def)
  show ?thesis
    using assms unfolding word_unat_eq_iff u
    by (cases "unat (Write s M) = unat (Size s M)")
       (auto simp: mail_count_def mailbox_inv_def word_le_nat_alt)
qed

lemma mail_slots_distinct:
  assumes "mailbox_inv M s" "k < n" "n \<le> unat (Size s M)"
  shows "(mail_next (Size s M) ^^ Suc k) (Read s M) \<noteq> (mail_next (Size s M) ^^ Suc n) (Read s M)"
proof
  assume e: "(mail_next (Size s M) ^^ Suc k) (Read s M) = (mail_next (Size s M) ^^ Suc n) (Read s M)"
  have "(unat (Read s M) + Suc k) mod (unat (Size s M) + 1) = (unat (Read s M) + Suc n) mod (unat (Size s M) + 1)"
    using arg_cong [OF e, of unat] assms(1) unfolding mailbox_inv_def by (metis mail_next_funpow(1))
  then have "unat (Size s M) + 1 dvd (unat (Read s M) + Suc n) - (unat (Read s M) + Suc k)"
    using assms(2) by (metis mod_eq_dvd_iff_nat add_le_cancel_left less_imp_le_nat Suc_le_mono)
  then have "unat (Size s M) + 1 \<le> n - k" using assms(2) by (intro dvd_imp_le) simp_all
  then show False using assms(2,3) by simp
qed


lemma Size_bound: "mailbox_inv M s \<Longrightarrow> unat (Size s M) + 1 < 2 ^ 32"
  by (simp add: mailbox_inv_def word_less_nat_alt unsigned_minus_1_eq_mask mask_eq_exp_minus_1)

lemma mail_read_frame [simp]:
  "Size (mail_read M p s) = Size s" "Write (mail_read M p s) = Write s" "Mail (mail_read M p s) = Mail s"
  "nxt (mail_read M p s) = nxt s" "prv (mail_read M p s) = prv s" "PRIMASK (mail_read M p s) = PRIMASK s"
  "OS_ActivePrio (mail_read M p s) = OS_ActivePrio s" "Priority (mail_read M p s) = Priority s"
  "OS_This (mail_read M p s) = OS_This s"
  by (simp_all add: mail_read_def Let_def)

lemma mail_read_Read: "Read (mail_read M p s) = (Read s)(M := mail_next (Size s M) (Read s M))"
  by (auto simp: mail_read_def mail_next_def Let_def)

lemma mail_read_value: "stack_mem (mail_read M p s) p = Mail s M (mail_next (Size s M) (Read s M))"
  by (auto simp: mail_read_def mail_next_def Let_def)

lemma mail_read_inv: "mailbox_inv M s \<Longrightarrow> mailbox_inv M (mail_read M p s)"
  using mail_next_unat(2) [of "Read s M" "Size s M"] by (simp add: mailbox_inv_def mail_read_Read)

lemma mail_read_count:
  assumes "mailbox_inv M s" "Read s M \<noteq> Write s M"
  shows "mail_count M s = Suc (mail_count M (mail_read M p s))"
proof -
  have le: "unat (Read s M) \<le> unat (Size s M)" "unat (Write s M) \<le> unat (Size s M)"
    "unat (Read s M) \<noteq> unat (Write s M)"
    using assms by (simp_all add: mailbox_inv_def word_le_nat_alt word_unat_eq_iff)
  have n: "unat (mail_next (Size s M) (Read s M)) = (if Read s M = Size s M then 0 else unat (Read s M) + 1)"
    using Size_bound [OF assms(1)] le by (simp add: mail_next_def unat_word_ariths)
  show ?thesis
    using le unfolding mail_count_def mail_read_frame mail_read_Read fun_upd_same word_le_nat_alt n
    by (auto simp: word_unat_eq_iff)
qed

lemma mail_read_mails:
  assumes "mailbox_inv M s" "Read s M \<noteq> Write s M"
  shows "mails M s = stack_mem (mail_read M p s) p # mails M (mail_read M p s)"
  unfolding mails_def mail_read_count [OF assms, of p] mails_from_Cons mail_read_value
  by (simp add: mail_read_Read)

text \<open>The slot that \<open>mail_post\<close> fills.\<close>

definition mail_put :: "addr \<Rightarrow> u32 \<Rightarrow> 'a mailbox_scheme \<Rightarrow> 'a mailbox_scheme" where
  "mail_put M m s =
     (let i = mail_next (Size s M) (Write s M)
      in s\<lparr>Write := (Write s)(M := i), Mail := (Mail s)(M := (Mail s M)(i := m))\<rparr>)"

lemma mail_put_frame [simp]:
  "Size (mail_put M m s) = Size s" "Read (mail_put M m s) = Read s"
  "nxt (mail_put M m s) = nxt s" "prv (mail_put M m s) = prv s"
  "OS_ActivePrio (mail_put M m s) = OS_ActivePrio s" "Priority (mail_put M m s) = Priority s"
  "OS_This (mail_put M m s) = OS_This s" "PRIMASK (mail_put M m s) = PRIMASK s"
  by (simp_all add: mail_put_def Let_def)

lemma mail_put_inv: "mailbox_inv M s \<Longrightarrow> mailbox_inv M (mail_put M m s)"
  using mail_next_unat(2) [of "Write s M" "Size s M"] by (simp add: mailbox_inv_def mail_put_def Let_def)

lemma mail_put_count:
  assumes "mailbox_inv M s" "mail_next (Size s M) (Write s M) \<noteq> Read s M"
  shows "mail_count M (mail_put M m s) = Suc (mail_count M s)"
proof -
  have le: "unat (Read s M) \<le> unat (Size s M)" "unat (Write s M) \<le> unat (Size s M)"
    using assms by (simp_all add: mailbox_inv_def word_le_nat_alt word_unat_eq_iff)
  have n: "unat (mail_next (Size s M) (Write s M)) = (if Write s M = Size s M then 0 else unat (Write s M) + 1)"
    using Size_bound [OF assms(1)] le by (simp add: mail_next_def unat_word_ariths)
  have W: "Write (mail_put M m s) M = mail_next (Size s M) (Write s M)" by (simp add: mail_put_def Let_def)
  have ne: "unat (mail_next (Size s M) (Write s M)) \<noteq> unat (Read s M)" using assms(2) by (simp add: word_unat_eq_iff)
  show ?thesis
    using le ne unfolding mail_count_def mail_put_frame W word_le_nat_alt n
    by (auto simp: word_unat_eq_iff)
qed

lemma mails_from_upd:
  "(\<And>k. k < n \<Longrightarrow> (mail_next sz ^^ Suc k) i \<noteq> j) \<Longrightarrow> mails_from (f(j := v)) sz i n = mails_from f sz i n"
  by (simp add: mails_from_def)

lemma mail_put_mails:
  assumes inv: "mailbox_inv M s" and room: "mail_next (Size s M) (Write s M) \<noteq> Read s M"
  shows "mails M (mail_put M m s) = mails M s @ [m]"
proof -
  let ?i = "mail_next (Size s M) (Write s M)" and ?n = "mail_count M s"
  have i: "(mail_next (Size s M) ^^ Suc ?n) (Read s M) = ?i" using mail_write_index [OF inv] by simp
  have lt: "Suc ?n \<le> unat (Size s M)"
    using mail_count_le [OF inv] mail_full_iff [OF inv] room by simp
  have "mails M (mail_put M m s) = mails_from ((Mail s M)(?i := m)) (Size s M) (Read s M) (Suc ?n)"
    unfolding mails_def mail_put_count [OF assms] by (simp add: mail_put_def Let_def)
  also have "\<dots> = mails_from ((Mail s M)(?i := m)) (Size s M) (Read s M) ?n @ [m]"
    unfolding mails_from_snoc i by simp
  also have "mails_from ((Mail s M)(?i := m)) (Size s M) (Read s M) ?n = mails M s"
    unfolding mails_def by (rule mails_from_upd) (metis i mail_slots_distinct [OF inv] lt Suc_leD)
  finally show ?thesis .
qed

lemma mail_post_eq:
  "mail_post M m s =
     (if mail_next (Size s M) (Write s M) = Read s M then (ERR, s)
      else
        let s = mail_put M m s in
        if list_empty (MailWaitHead M) s then (OK, s)
        else
          let t = thread_of_node (nxt s (MailWaitHead M));
              s' = activate_thread t (Priority s t) (s\<lparr>PRIMASK := 1\<rparr>)
          in (OK, scheduler (s'\<lparr>PRIMASK := PRIMASK s\<rparr>)))"
  by (simp add: mail_post_def mail_put_def mail_next_def Let_def atom_operate_lock_def atom_operate_unlock_def)

text \<open>The mailbox without waiters is a queue of capacity \<open>Size\<close>.\<close>

definition mail_send :: "addr \<Rightarrow> u32 \<Rightarrow> 'a mailbox_scheme \<Rightarrow> bool \<times> 'a mailbox_scheme" where
  "mail_send M m s = (let (r, s) = mail_post M m s in (r = OK, s))"

definition mail_receive :: "addr \<Rightarrow> addr \<Rightarrow> 'a mailbox_scheme \<Rightarrow> u32 option \<times> 'a mailbox_scheme" where
  "mail_receive M p s =
     (let (r, s) = mail_fetch M p s in (if r = OK then Some (stack_mem s p) else None, s))"

definition quiet_mailbox :: "addr \<Rightarrow> 'a mailbox_scheme \<Rightarrow> bool" where
  "quiet_mailbox M s \<longleftrightarrow> mailbox_inv M s \<and> list_empty (MailWaitHead M) s"

lemma mail_send_quiet:
  "quiet_mailbox M s \<Longrightarrow> mail_send M m s =
     (if mail_next (Size s M) (Write s M) = Read s M then (False, s) else (True, mail_put M m s))"
  by (simp add: mail_send_def mail_post_eq quiet_mailbox_def list_empty_def Let_def)

lemma mail_fetch_eq:
  "mail_fetch M p s = (if Read s M \<noteq> Write s M then (OK, mail_read M p s) else (ERR, s))"
  by (simp add: mail_fetch_def atom_operate_lock_def atom_operate_unlock_def Let_def mail_read_def)

interpretation mb: fifo "quiet_mailbox M" "mails M" "\<lambda>s. unat (Size s M)" "mail_send M" "mail_receive M p"
  for M p :: addr
proof unfold_locales
  fix s :: "'a mailbox_scheme" and m :: u32
  assume q: "quiet_mailbox M s"
  then have inv: "mailbox_inv M s" and e: "list_empty (MailWaitHead M) s" by (simp_all add: quiet_mailbox_def)
  have len: "length (mails M s) = mail_count M s" by (simp add: mails_def mails_from_def)
  show "quiet_mailbox M (snd (mail_send M m s))"
    using q mail_put_inv [OF inv] by (simp add: mail_send_quiet quiet_mailbox_def list_empty_def)
  show "fst (mail_send M m s) \<longleftrightarrow> length (mails M s) < unat (Size s M)"
    using mail_count_le [OF inv] mail_full_iff [OF inv] by (auto simp: mail_send_quiet [OF q] len)
  show "mails M (snd (mail_send M m s)) = (if fst (mail_send M m s) then mails M s @ [m] else mails M s)"
    by (simp add: mail_send_quiet [OF q] mail_put_mails [OF inv])
  show "unat (Size (snd (mail_send M m s)) M) = unat (Size s M)"
    by (simp add: mail_send_quiet [OF q])
  show "quiet_mailbox M (snd (mail_receive M p s))"
    using q mail_read_inv [OF inv] by (simp add: mail_receive_def mail_fetch_eq quiet_mailbox_def list_empty_def)
  show "fst (mail_receive M p s) = (case mails M s of [] \<Rightarrow> None | m # _ \<Rightarrow> Some m)"
    using mail_read_mails [OF inv, of p] mail_empty_iff [OF inv] len
    by (auto simp: mail_receive_def mail_fetch_eq split: list.split)
  show "mails M (snd (mail_receive M p s)) = tl (mails M s)"
    using mail_read_mails [OF inv, of p] mail_empty_iff [OF inv] len
    by (auto simp: mail_receive_def mail_fetch_eq)
  show "unat (Size (snd (mail_receive M p s)) M) = unat (Size s M)"
    by (simp add: mail_receive_def mail_fetch_eq)
qed

section \<open>Waking\<close>

lemma mail_put_ready: "ready_inv (mail_put M m s) W Q \<longleftrightarrow> ready_inv s W Q"
  by (rule ready_inv_cong) simp_all

text \<open>Posting to a mailbox on which a thread waits stores the mail and readies the first waiter.\<close>

lemma mail_post_wakes:
  assumes r: "ready_inv s W Q" and M: "MailWaitHead M \<in> W" "Q (MailWaitHead M) = Node t # ns"
    and room: "mailbox_inv M s" "mail_next (Size s M) (Write s M) \<noteq> Read s M"
    and p: "Priority s t = p" "p \<le> 32"
  shows "\<exists>s'. mail_post M m s = (OK, s') \<and>
    ready_inv s' (W - {MailWaitHead M}) (Q(OS_ActiveProc p := Node t # Q (OS_ActiveProc p))) \<and>
    mails M s' = mails M s @ [m]"
proof -
  let ?s0 = "(mail_put M m s)\<lparr>PRIMASK := 1\<rparr>"
  let ?s1 = "activate_thread t p ?s0"
  let ?s2 = "?s1\<lparr>PRIMASK := PRIMASK s\<rparr>"
  have "ready_inv ?s0 W Q"
    using r by (subst ready_inv_cong [of _ "mail_put M m s"]) (simp_all add: mail_put_ready)
  note w = ready_wake_first [OF this M]
  have r1: "ready_inv ?s1 (W - {MailWaitHead M}) (Q(OS_ActiveProc p := Node t # Q (OS_ActiveProc p)))"
    by (rule w(3)) (use p in simp_all)
  have post: "mail_post M m s = (OK, scheduler ?s2)"
    using room(2) w(1,2) p by (simp add: mail_post_eq list_empty_def Let_def)
  have sk: "same_kernel ?s2 (scheduler ?s2)" by (simp add: scheduler_def)
  have "ready_inv (scheduler ?s2) (W - {MailWaitHead M}) (Q(OS_ActiveProc p := Node t # Q (OS_ActiveProc p)))"
    by (subst same_kernel_ready [OF sk], subst ready_inv_cong [of _ ?s1]) (simp_all add: r1)
  moreover have "mails M (scheduler ?s2) = mails M (mail_put M m s)"
    by (simp add: mails_def mail_count_def scheduler_def OS_thread_switch_def write_dword_def activate_thread_def ring_simps)
  ultimately show ?thesis using post mail_put_mails [OF room] by simp
qed

section \<open>Properties\<close>

fun mail_drain :: "addr \<Rightarrow> addr \<Rightarrow> nat \<Rightarrow> 'a mailbox_scheme \<Rightarrow> u32 option list \<times> 'a mailbox_scheme" where
  "mail_drain M p 0 s = ([], s)"
| "mail_drain M p (Suc n) s =
     (let (m, s) = mail_receive M p s; (ms, s) = mail_drain M p n s in (m # ms, s))"

lemma mail_drain_get_all: "mail_drain M p n s = mb.get_all M p n s"
  by (induction n arbitrary: s) simp_all

lemma mail_fold_put_all: "fold (\<lambda>m s. snd (mail_send M m s)) ms s = mb.put_all M ms s"
  by (induction ms arbitrary: s) simp_all


definition sample_mail :: mailbox where
  "sample_mail = two_threads (semaphore_ext (\<lambda>_. 0)
     (mailbox_ext (\<lambda>_. 0) (\<lambda>_. 0) (\<lambda>_. 0) (\<lambda>_. 0) (\<lambda>_ _. 0) ()))"

lemma length_789: "length [7, 8, 9 :: u32] = 3"
  by simp


text \<open>a post to a mailbox that a thread waits on stores the mail behind the others and puts the
  waiting thread on the ready queue of its priority; if the mailbox is full the post is refused and
  nothing changes.\<close>

theorem mail_post_stores_and_wakes:
  assumes "ready_inv s W Q" "MailWaitHead M \<in> W" "Q (MailWaitHead M) = Node t # ns" "mailbox_inv M s"
    "Priority s t = p" "p \<le> 32"
  shows "if mail_count M s < unat (Size s M)
    then \<exists>s'. mail_post M m s = (OK, s') \<and> mails M s' = mails M s @ [m] \<and>
      ready_inv s' (W - {MailWaitHead M}) (Q(OS_ActiveProc p := Node t # Q (OS_ActiveProc p)))
    else mail_post M m s = (ERR, s)"
  using mail_post_wakes [OF assms(1-4) _ assms(5,6), of m] mail_full_iff [OF assms(4)] mail_count_le [OF assms(4)]
  by (auto simp: mail_post_eq [of M m s])

lemma sample_mail_fields [simp]:
  "Priority sample_mail = (\<lambda>t. if t = 0x2000 then 32 else 3)" "Size sample_mail = (\<lambda>_. 0)"
  "Read sample_mail = (\<lambda>_. 0)" "Write sample_mail = (\<lambda>_. 0)"
  by (simp_all add: sample_mail_def two_threads_def activate_thread_def list_add_def list_add_between_def
      set_next_def set_prev_def sample_def)

theorem mail_post_stores_and_wakes_witness:
  "\<exists>s'. mail_post 0x3000 7 (list_add (Node 0x4000) (MailWaitHead 0x3000) (sample_mail\<lparr>Size := \<lambda>_. 2\<rparr>)) = (OK, s') \<and>
     mails 0x3000 s' = [7] \<and>
     ready_inv s' {} ((\<lambda>_. [])(OS_ActiveProc 32 := [Node 0x2000], MailWaitHead 0x3000 := [Node 0x4000],
       OS_ActiveProc 3 := [Node 0x4000, Node 0x1000]))"
proof -
  let ?Q = "(\<lambda>_. [])(OS_ActiveProc 32 := [Node 0x2000], OS_ActiveProc 3 := [Node 0x1000])"
  let ?u = "sample_mail\<lparr>Size := \<lambda>_. 2\<rparr>"
  let ?s = "list_add (Node 0x4000) (MailWaitHead 0x3000) ?u"
  have h: "OS_ActiveProc 32 \<noteq> MailWaitHead 0x3000" "OS_ActiveProc 3 \<noteq> MailWaitHead 0x3000"
    by (simp_all add: OS_ActiveProc_def MailWaitHead_def)
  have w: "MailWaitHead 0x3000 \<notin> ready_heads" "Node 0x4000 \<notin> ready_heads"
    using ready_heads_range [of "MailWaitHead 0x3000"] ready_heads_range [of "Node 0x4000"]
    by (auto simp: MailWaitHead_def Node_def)
  have "ready_inv sample_mail {MailWaitHead 0x3000} ?Q"
    unfolding sample_mail_def using w by (intro sample_ready) (auto simp: MailWaitHead_def Node_def)
  then have r0: "ready_inv ?u {MailWaitHead 0x3000} ?Q" by (subst ready_inv_cong [of ?u sample_mail]) simp_all
  have "\<not> on_family (ready_heads \<union> {MailWaitHead 0x3000}) ?Q (Node 0x4000)"
    using w by (auto simp: on_family_def MailWaitHead_def Node_def split: if_splits)
  from ready_list_add [OF r0 _ this, of "MailWaitHead 0x3000"]
  have r: "ready_inv ?s {MailWaitHead 0x3000} (?Q(MailWaitHead 0x3000 := [Node 0x4000]))" using h by simp
  have f: "Size ?s = (\<lambda>_. 2)" "Read ?s = (\<lambda>_. 0)" "Write ?s = (\<lambda>_. 0)"
    by (simp_all add: list_add_def list_add_between_def set_next_def set_prev_def)
  have "(?Q(MailWaitHead 0x3000 := [Node 0x4000]))(OS_ActiveProc 3 := [Node 0x4000, Node 0x1000]) =
    (\<lambda>_. [])(OS_ActiveProc 32 := [Node 0x2000], MailWaitHead 0x3000 := [Node 0x4000],
       OS_ActiveProc 3 := [Node 0x4000, Node 0x1000])"
    using h by (auto simp: fun_eq_iff)
  then show ?thesis
    using mail_post_stores_and_wakes [OF r, of "0x3000" "0x4000" "[]" 3 7] h
    by (simp add: mailbox_inv_def f mail_count_def mails_def mails_from_def)
qed

end
