(* ===== verification/Pipe.thy ===== *)
theory Pipe
  imports Mailbox
begin

text \<open>
  kernel/pipe/pipe.c, except for allocation (theory Objects): a ring of \<open>Lenth\<close> elements of
  \<open>Width\<close> bytes, with free-running 32-bit indices \<open>In\<close> and \<open>Out\<close> that are masked by
  \<open>Lenth - 1\<close> on access.
\<close>

section \<open>Definitions\<close>

record pipe = mailbox +
  pBuffer :: "addr \<Rightarrow> addr"
  Lenth :: "addr \<Rightarrow> u32"
  Width :: "addr \<Rightarrow> u32"
  In :: "addr \<Rightarrow> u32"
  Out :: "addr \<Rightarrow> u32"
  pReadThread :: "addr \<Rightarrow> addr"
  bytes :: "addr \<Rightarrow> u8"

fun memcpy :: "addr \<Rightarrow> addr \<Rightarrow> nat \<Rightarrow> (addr \<Rightarrow> u8) \<Rightarrow> addr \<Rightarrow> u8" where
  "memcpy d a 0 m = m"
| "memcpy d a (Suc n) m = memcpy (d + 1) (a + 1) n (m(d := m a))"

definition pipe_write :: "addr \<Rightarrow> addr \<Rightarrow> u32 \<Rightarrow> 'a pipe_scheme \<Rightarrow> int \<times> 'a pipe_scheme" where
  "pipe_write P pElements Length s =
     (if NULL = P \<or> NULL = pElements then (ERR_BAD_PARAM, s)
      else
        let pInputData = pElements;
            Length = min Length (Lenth s P - In s P + Out s P);
            sz = min Length (Lenth s P - (In s P AND (Lenth s P - 1)));
            s = s\<lparr>bytes := memcpy (pBuffer s P + Width s P * (In s P AND (Lenth s P - 1))) pInputData
                               (unat (sz * Width s P)) (bytes s)\<rparr>;
            s = s\<lparr>bytes := memcpy (pBuffer s P) (pInputData + sz * Width s P)
                               (unat ((Length - sz) * Width s P)) (bytes s)\<rparr>;
            s = s\<lparr>In := (In s)(P := In s P + Length)\<rparr>;
            Thread = pReadThread s P
        in if NULL = Thread then (sint Length, s)
           else
             let prio = Priority s Thread;
                 (Key, s) = atom_operate_lock s;
                 s = activate_thread Thread prio s;
                 s = atom_operate_unlock Key s;
                 s = scheduler s
             in (sint Length, s))"

text \<open>The copy out of the ring, twice in \<open>pipe_read\<close>.\<close>

definition pipe_take :: "addr \<Rightarrow> addr \<Rightarrow> u32 \<Rightarrow> 'a pipe_scheme \<Rightarrow> u32 \<times> 'a pipe_scheme" where
  "pipe_take P pOutputData Length s =
     (let Length = min Length (In s P - Out s P);
          sz = min Length (Lenth s P - (Out s P AND (Lenth s P - 1)));
          s = s\<lparr>bytes := memcpy pOutputData (pBuffer s P + Width s P * (Out s P AND (Lenth s P - 1)))
                             (unat (sz * Width s P)) (bytes s)\<rparr>;
          s = s\<lparr>bytes := memcpy (pOutputData + sz * Width s P) (pBuffer s P)
                             (unat ((Length - sz) * Width s P)) (bytes s)\<rparr>;
          s = s\<lparr>Out := (Out s)(P := Out s P + Length)\<rparr>
      in (Length, s))"

definition pipe_read :: "addr \<Rightarrow> addr \<Rightarrow> u32 \<Rightarrow> u32 \<Rightarrow> 'a pipe_scheme \<Rightarrow>
    (int outcome \<times> 'a pipe_scheme) option" where
  "pipe_read P pElements Length Timeout s =
     (if NULL = P \<or> NULL = pElements then Some (Returned ERR_BAD_PARAM, s)
      else
        let (Key, s) = atom_operate_lock s in
        if In s P \<noteq> Out s P then
          let (Length, s) = pipe_take P pElements Length s;
              s = atom_operate_unlock Key s
          in Some (Returned (sint Length), s)
        else
          let pThread = OS_This s;
              s = s\<lparr>pReadThread := (pReadThread s)(P := pThread)\<rparr>;
              prio = Priority s pThread;
              s = vivify_thread pThread prio s
          in case (if Timeout \<noteq> 0 then OS_timer_add (Timer pThread) Timeout s else Some (OK, s)) of
               None \<Rightarrow> None
             | Some (_, s) \<Rightarrow>
                 let s = atom_operate_unlock Key s;
                     s = OS_thread_switch s
                 in Some (Switched, s))"

definition pipe_read_resume :: "addr \<Rightarrow> addr \<Rightarrow> u32 \<Rightarrow> u32 \<Rightarrow> addr \<Rightarrow> 'a pipe_scheme \<Rightarrow>
    int \<times> 'a pipe_scheme" where
  "pipe_read_resume P pElements Length Timeout pThread s =
     (let (Key, s) = atom_operate_lock s;
          s = (if Timeout \<noteq> 0 then snd (OS_timer_del (Timer pThread) s) else s);
          s = s\<lparr>pReadThread := (pReadThread s)(P := NULL)\<rparr>
      in if In s P = Out s P then
           let s = atom_operate_unlock Key s in (ERR_TIMEOUT, s)
         else
           let (Length, s) = pipe_take P pElements Length s;
               s = atom_operate_unlock Key s
           in (sint Length, s))"

section \<open>The ring\<close>

text \<open>Element \<open>i\<close> of the ring, and element \<open>j\<close> of a block of memory.\<close>

definition ring_elem :: "addr \<Rightarrow> 'a pipe_scheme \<Rightarrow> u32 \<Rightarrow> u8 list" where
  "ring_elem P s i = map (\<lambda>k. bytes s (pBuffer s P + Width s P * (i AND (Lenth s P - 1)) + of_nat k))
     [0..<unat (Width s P)]"

definition block_elem :: "addr \<Rightarrow> 'a pipe_scheme \<Rightarrow> addr \<Rightarrow> nat \<Rightarrow> u8 list" where
  "block_elem P s a j = map (\<lambda>k. bytes s (a + of_nat (j * unat (Width s P) + k))) [0..<unat (Width s P)]"

definition pipe_contents :: "addr \<Rightarrow> 'a pipe_scheme \<Rightarrow> u8 list list" where
  "pipe_contents P s = map (\<lambda>k. ring_elem P s (Out s P + of_nat k)) [0..<unat (In s P - Out s P)]"

text \<open>
  A pipe as \<open>pipe_new\<close> makes it when the length is a power of two: the buffer has no more than
  \<open>2 ^ 32\<close> bytes and holds at most \<open>Lenth\<close> elements.
\<close>

definition pipe_inv :: "addr \<Rightarrow> 'a pipe_scheme \<Rightarrow> bool" where
  "pipe_inv P s \<longleftrightarrow>
     (\<exists>n<32. Lenth s P = 2 ^ n) \<and> unat (Lenth s P) * unat (Width s P) < 2 ^ 32 \<and> 0 < Width s P \<and>
     In s P - Out s P \<le> Lenth s P"

text \<open>A block of \<open>n\<close> bytes at \<open>a\<close> that does not meet the buffer.\<close>

definition apart_buffer :: "addr \<Rightarrow> 'a pipe_scheme \<Rightarrow> addr \<Rightarrow> nat \<Rightarrow> bool" where
  "apart_buffer P s a n \<longleftrightarrow>
     (\<forall>i<n. \<forall>j<unat (Lenth s P) * unat (Width s P). a + of_nat i \<noteq> pBuffer s P + of_nat j)"

section \<open>The copies\<close>

lemma memcpy_other: "(\<And>j. j < n \<Longrightarrow> x \<noteq> d + of_nat j) \<Longrightarrow> memcpy d a n m x = m x"
proof (induction n arbitrary: d a m)
  case (Suc n)
  have "x \<noteq> d" using Suc.prems [of 0] by simp
  moreover have "x \<noteq> (d + 1) + of_nat j" if "j < n" for j
    using Suc.prems [of "Suc j"] that by (simp add: algebra_simps)
  ultimately show ?case using Suc.IH by simp
qed simp

lemma memcpy_at:
  "n \<le> 2 ^ 32 \<Longrightarrow> (\<And>i j. i < n \<Longrightarrow> j < n \<Longrightarrow> a + of_nat i \<noteq> d + of_nat j) \<Longrightarrow> j < n \<Longrightarrow>
   memcpy d a n m (d + of_nat j) = m (a + of_nat j)"
proof (induction n arbitrary: d a m j)
  case (Suc n)
  have ap: "(a + 1) + of_nat i \<noteq> (d + 1) + of_nat k" if "i < n" "k < n" for i k
    using Suc.prems(2) [of "Suc i" "Suc k"] that by (simp add: algebra_simps)
  show ?case
  proof (cases j)
    case 0
    have "d \<noteq> (d + 1) + of_nat k" if "k < n" for k
    proof
      assume "d = (d + 1) + of_nat k"
      then have "(of_nat (Suc k) :: addr) = of_nat 0" by (simp add: algebra_simps)
      then show False using of_nat_inj32 [of "Suc k" 0] that Suc.prems(1) by simp
    qed
    then show ?thesis using 0 by (simp add: memcpy_other)
  next
    case (Suc j')
    then have "memcpy (d + 1) (a + 1) n (m(d := m a)) ((d + 1) + of_nat j') = (m(d := m a)) ((a + 1) + of_nat j')"
      using Suc.IH [OF _ ap, of j'] Suc.prems(1,3) by simp
    moreover have "(a + 1) + of_nat j' \<noteq> d" using Suc.prems(2) [of "Suc j'" 0] Suc.prems(3) Suc by (simp add: algebra_simps)
    ultimately show ?thesis using Suc by (simp add: algebra_simps)
  qed
qed simp

text \<open>Masking by a power of two minus one.\<close>

lemma unat_mask_mod:
  assumes "L = (2 :: u32) ^ n" "n < 32"
  shows "unat (i AND (L - 1)) = unat i mod unat L"
proof -
  have "i AND (L - 1) = take_bit n i" by (simp add: assms(1) take_bit_eq_mask mask_eq_exp_minus_1)
  then have "unat (i AND (L - 1)) = take_bit n (unat i)" by (simp only: unsigned_take_bit_eq)
  then show ?thesis using assms by (simp add: take_bit_eq_mod unat_pow2)
qed

lemma slot_add:
  fixes i :: u32
  assumes "L = (2 :: u32) ^ n" "n < 32"
  shows "unat (i + of_nat k) mod unat L = (unat i + k) mod unat L"
proof -
  have d: "(2::nat) ^ n dvd 2 ^ 32" using assms(2) by (intro le_imp_power_dvd) simp
  have "unat (i + of_nat k) mod 2 ^ n = (unat i + k mod 2 ^ 32) mod 2 ^ n"
    by (simp add: unat_word_ariths unsigned_of_nat take_bit_eq_mod mod_mod_cancel [OF d, simplified])
  also have "\<dots> = (unat i + k) mod 2 ^ n"
    using mod_mod_cancel [OF d, of k] by (metis mod_add_right_eq)
  finally show ?thesis using assms by (simp add: unat_pow2)
qed

text \<open>The two copies of \<open>pipe_write\<close>, at the level of positions in the buffer.\<close>

lemma ring_copy_in:
  fixes B e :: addr and m :: "addr \<Rightarrow> u8"
  assumes a: "a < L" and n: "n \<le> L" and sz: "sz = min n (L - a)" and LW: "L * W < 2 ^ 32"
    and ap: "\<And>i j. i < n * W \<Longrightarrow> j < L * W \<Longrightarrow> e + of_nat i \<noteq> B + of_nat j"
    and j: "j < L" "k < W"
  defines "m' \<equiv> memcpy B (e + of_nat (sz * W)) ((n - sz) * W) (memcpy (B + of_nat (a * W)) e (sz * W) m)"
  shows "m' (B + of_nat (j * W + k)) =
    (if (j + L - a) mod L < n then m (e + of_nat (((j + L - a) mod L) * W + k)) else m (B + of_nat (j * W + k)))"
proof -
  have szn: "sz \<le> n" "sz \<le> L - a" "sz \<le> L" using sz by auto
  have pos: "i * W + k < c * W \<longleftrightarrow> i < c" for i c
  proof
    assume "i < c"
    then have "Suc i * W \<le> c * W" by (intro mult_le_mono1) simp
    then show "i * W + k < c * W" using j(2) by simp
  next
    assume "i * W + k < c * W"
    then show "i < c" by (metis add_lessD1 mult_less_cancel2)
  qed
  have inLW: "j * W + k < L * W" using pos j(1) by blast
  have w1: "sz * W \<le> L * W" "a * W + sz * W \<le> L * W"
    using szn a mult_le_mono1 [of "a + sz" L W] by (simp_all add: add_mult_distrib)
  define m1 where "m1 = memcpy (B + of_nat (a * W)) e (sz * W) m"
  have c1: "m1 (B + of_nat (a * W) + of_nat i) = m (e + of_nat i)" if "i < sz * W" for i
    unfolding m1_def
  proof (rule memcpy_at [OF _ _ that])
    show "sz * W \<le> 2 ^ 32" using w1 LW by linarith
    show "e + of_nat i \<noteq> B + of_nat (a * W) + of_nat i'" if "i < sz * W" "i' < sz * W" for i i'
      using ap [of i "a * W + i'"] that w1 mult_le_mono1 [OF szn(1), of W] by (simp add: add.assoc)
  qed
  have o1: "m1 (B + of_nat i) = m (B + of_nat i)" if "i < L * W" "i < a * W \<or> a * W + sz * W \<le> i" for i
    unfolding m1_def
  proof (rule memcpy_other)
    fix q assume q: "q < sz * W"
    have "(of_nat i :: addr) \<noteq> of_nat (a * W + q)"
      using of_nat_inj32 [of i "a * W + q"] that q w1 LW by auto
    then show "B + of_nat i \<noteq> B + of_nat (a * W) + of_nat q" by (simp add: add.assoc)
  qed
  have e1: "m1 (e + of_nat i) = m (e + of_nat i)" if "i < n * W" for i
    unfolding m1_def
  proof (rule memcpy_other)
    fix q assume q: "q < sz * W"
    then show "e + of_nat i \<noteq> B + of_nat (a * W) + of_nat q"
      using ap [OF that, of "a * W + q"] w1 by (simp add: add.assoc)
  qed
  have m': "m' = memcpy B (e + of_nat (sz * W)) ((n - sz) * W) m1" by (simp add: m'_def m1_def)
  have nW: "sz * W + (n - sz) * W = n * W" using szn by (simp flip: add_mult_distrib)
  have nL: "n * W \<le> L * W" using n by simp
  have c2: "m' (B + of_nat i) = m (e + of_nat (sz * W + i))" if "i < (n - sz) * W" for i
  proof -
    have "m' (B + of_nat i) = m1 (e + of_nat (sz * W) + of_nat i)"
      unfolding m'
    proof (rule memcpy_at [OF _ _ that])
      show "(n - sz) * W \<le> 2 ^ 32" using nW nL LW by linarith
      show "e + of_nat (sz * W) + of_nat i \<noteq> B + of_nat i'" if "i < (n - sz) * W" "i' < (n - sz) * W" for i i'
        using ap [of "sz * W + i" i'] that nW nL by (simp add: add.assoc)
    qed
    also have "\<dots> = m (e + of_nat (sz * W + i))" using e1 [of "sz * W + i"] that nW by (simp add: add.assoc)
    finally show ?thesis .
  qed
  have o2: "m' (B + of_nat i) = m1 (B + of_nat i)" if "i < L * W" "(n - sz) * W \<le> i" for i
    unfolding m'
  proof (rule memcpy_other)
    fix q assume "q < (n - sz) * W"
    then show "B + of_nat i \<noteq> B + of_nat q"
      using of_nat_inj32 [of i q] that nW nL LW by auto
  qed
  show ?thesis
  proof (cases "j < n - sz")
    case True
    then have s: "sz = L - a" using sz by auto
    then have ja: "j < a" using True n by auto
    have idx: "(j + L - a) mod L = j + L - a" using ja a by (simp add: mod_less)
    have "j * W + k < (n - sz) * W" using pos True by blast
    then have "m' (B + of_nat (j * W + k)) = m (e + of_nat (sz * W + (j * W + k)))" by (rule c2)
    moreover have "sz * W + (j * W + k) = ((j + L - a) mod L) * W + k"
      unfolding idx using a s by (simp add: algebra_simps flip: add_mult_distrib)
    ultimately have "m' (B + of_nat (j * W + k)) = m (e + of_nat (((j + L - a) mod L) * W + k))"
      by (simp only:)
    moreover have "(j + L - a) mod L < n" using True s idx a by auto
    ultimately show ?thesis by (simp only: if_True)
  next
    case False
    then have "(n - sz) * W \<le> j * W + k" using pos [of j "n - sz"] by linarith
    with o2 inLW have m'1: "m' (B + of_nat (j * W + k)) = m1 (B + of_nat (j * W + k))" by blast
    show ?thesis
    proof (cases "a \<le> j \<and> j < a + sz")
      case True
      then obtain d where d: "j = a + d" "d < sz" by (metis add_less_cancel_left le_Suc_ex)
      have "m1 (B + of_nat (a * W) + of_nat (d * W + k)) = m (e + of_nat (d * W + k))"
        by (rule c1) (use pos d(2) in blast)
      moreover have "(j + L - a) mod L = d" using d szn a by simp
      ultimately show ?thesis using m'1 d szn by (simp add: algebra_simps)
    next
      case out: False
      have "\<not> (j + L - a) mod L < n"
      proof (cases "a \<le> j")
        case True
        then have "(j + L - a) mod L = j - a" using j(1) by (simp add: le_mod_geq)
        moreover have "sz \<le> j - a" using out True by linarith
        ultimately show ?thesis using sz j(1) a True by auto
      next
        case F: False
        then have "(j + L - a) mod L = j + L - a" using a by simp
        moreover have "n \<le> j + L - a"
          using False F sz a by (cases "n \<le> L - a") auto
        ultimately show ?thesis by simp
      qed
      moreover have "j * W + k < a * W \<or> a * W + sz * W \<le> j * W + k"
      proof (cases "j < a")
        case True
        then show ?thesis using pos by blast
      next
        case False
        then have "\<not> j < a + sz" using out by linarith
        then have "\<not> j * W + k < (a + sz) * W" using pos by blast
        then show ?thesis by (simp add: add_mult_distrib)
      qed
      ultimately show ?thesis using m'1 o1 [OF inLW] by simp
    qed
  qed
qed

text \<open>The two copies of a read, as copies out of the ring.\<close>

lemma ring_copy_out:
  fixes B e :: addr and m :: "addr \<Rightarrow> u8"
  assumes a: "a < L" and n: "n \<le> L" and sz: "sz = min n (L - a)" and LW: "L * W < 2 ^ 32"
    and ap: "\<And>i j. i < n * W \<Longrightarrow> j < L * W \<Longrightarrow> e + of_nat i \<noteq> B + of_nat j"
  defines "m' \<equiv> memcpy (e + of_nat (sz * W)) B ((n - sz) * W) (memcpy e (B + of_nat (a * W)) (sz * W) m)"
  shows "j < n \<Longrightarrow> k < W \<Longrightarrow> m' (e + of_nat (j * W + k)) = m (B + of_nat (((a + j) mod L) * W + k))"
    and "i < L * W \<Longrightarrow> m' (B + of_nat i) = m (B + of_nat i)"
proof -
  have szn: "sz \<le> n" "sz \<le> L - a" "sz \<le> L" using sz by auto
  have pos: "i * W + k < c * W \<longleftrightarrow> i < c" if "k < W" for i c k
  proof
    assume "i < c"
    then have "Suc i * W \<le> c * W" by (intro mult_le_mono1) simp
    then show "i * W + k < c * W" using that by simp
  next
    assume "i * W + k < c * W"
    then show "i < c" by (metis add_lessD1 mult_less_cancel2)
  qed
  have w1: "sz * W \<le> L * W" "a * W + sz * W \<le> L * W" "sz * W \<le> n * W" "n * W \<le> L * W"
    using szn a n mult_le_mono1 [of "a + sz" L W] by (simp_all add: add_mult_distrib)
  have nW: "sz * W + (n - sz) * W = n * W" using szn by (simp flip: add_mult_distrib)
  define m1 where "m1 = memcpy e (B + of_nat (a * W)) (sz * W) m"
  have m': "m' = memcpy (e + of_nat (sz * W)) B ((n - sz) * W) m1" by (simp add: m'_def m1_def)
  have B1: "m1 (B + of_nat i) = m (B + of_nat i)" if "i < L * W" for i
    unfolding m1_def
  proof (rule memcpy_other)
    show "B + of_nat i \<noteq> e + of_nat q" if "q < sz * W" for q
      using ap [of q i] \<open>i < L * W\<close> that w1 by fastforce
  qed
  have B2: "m' (B + of_nat i) = m1 (B + of_nat i)" if "i < L * W" for i
    unfolding m'
  proof (rule memcpy_other)
    show "B + of_nat i \<noteq> e + of_nat (sz * W) + of_nat q" if "q < (n - sz) * W" for q
      using ap [of "sz * W + q" i] \<open>i < L * W\<close> that nW by (auto simp: add.assoc)
  qed
  show "i < L * W \<Longrightarrow> m' (B + of_nat i) = m (B + of_nat i)" using B1 B2 by simp
  have c1: "m1 (e + of_nat i) = m (B + of_nat (a * W) + of_nat i)" if "i < sz * W" for i
    unfolding m1_def
  proof (rule memcpy_at [OF _ _ that])
    show "sz * W \<le> 2 ^ 32" using w1 LW by linarith
    show "B + of_nat (a * W) + of_nat i \<noteq> e + of_nat i'" if "i < sz * W" "i' < sz * W" for i i'
      using ap [of i' "a * W + i"] that w1 by (auto simp: add.assoc)
  qed
  have e2: "m' (e + of_nat i) = m1 (e + of_nat i)" if "i < sz * W" for i
    unfolding m'
  proof (rule memcpy_other)
    fix q assume q: "q < (n - sz) * W"
    have "sz * W + q < 2 ^ 32" "i < 2 ^ 32" using that q nW w1(4) LW by linarith+
    then have "(of_nat i :: addr) \<noteq> of_nat (sz * W + q)"
      using of_nat_inj32 [of i "sz * W + q"] that by (simp only:)
    then show "e + of_nat i \<noteq> e + of_nat (sz * W) + of_nat q" by (simp add: add.assoc)
  qed
  have c2: "m' (e + of_nat (sz * W) + of_nat i) = m1 (B + of_nat i)" if "i < (n - sz) * W" for i
    unfolding m'
  proof (rule memcpy_at [OF _ _ that])
    show "(n - sz) * W \<le> 2 ^ 32" using nW w1 LW by linarith
    show "B + of_nat i \<noteq> e + of_nat (sz * W) + of_nat i'" if "i < (n - sz) * W" "i' < (n - sz) * W" for i i'
      using ap [of "sz * W + i'" i] that nW w1 by (auto simp: add.assoc)
  qed
  show "m' (e + of_nat (j * W + k)) = m (B + of_nat (((a + j) mod L) * W + k))" if jk: "j < n" "k < W"
  proof (cases "j < sz")
    case True
    then have "j * W + k < sz * W" using pos jk by blast
    moreover have "(a + j) mod L = a + j" using True szn a by simp
    moreover have "B + of_nat ((a + j) * W + k) = B + of_nat (a * W) + of_nat (j * W + k)"
      by (simp only: add_mult_distrib of_nat_add add.assoc)
    ultimately show ?thesis using e2 [of "j * W + k"] c1 [of "j * W + k"] by (simp only:)
  next
    case False
    then have s: "sz = L - a" using sz jk by auto
    have idx: "(a + j) mod L = j - sz" using False s a jk(1) n by (simp add: le_mod_geq)
    have lt: "(j - sz) * W + k < (n - sz) * W" using pos [OF jk(2), of "j - sz" "n - sz"] jk False by simp
    have "j * W + k = sz * W + ((j - sz) * W + k)" using False by (simp flip: add_mult_distrib)
    then have "m' (e + of_nat (j * W + k)) = m' (e + of_nat (sz * W) + of_nat ((j - sz) * W + k))"
      by (simp only: of_nat_add add.assoc)
    also have "\<dots> = m1 (B + of_nat ((j - sz) * W + k))" by (rule c2 [OF lt])
    also have "\<dots> = m (B + of_nat ((j - sz) * W + k))" by (rule B1) (use lt nW w1 in linarith)
    finally show ?thesis by (simp only: idx)
  qed
qed

section \<open>Reading and writing the ring\<close>

lemma unat_mult_small: "unat (x :: u32) * unat y < 2 ^ 32 \<Longrightarrow> unat (x * y) = unat x * unat y"
  using unat_mult_lem [of x y] by simp

lemma ring_elem_nat:
  assumes "pipe_inv P s"
  shows "ring_elem P s i = map (\<lambda>k. bytes s (pBuffer s P + of_nat ((unat i mod unat (Lenth s P)) * unat (Width s P) + k)))
    [0..<unat (Width s P)]"
proof -
  obtain n where n: "n < 32" "Lenth s P = 2 ^ n" using assms by (auto simp: pipe_inv_def)
  have "Width s P * (i AND (Lenth s P - 1)) = of_nat ((unat i mod unat (Lenth s P)) * unat (Width s P))"
    using unat_mask_mod [OF n(2,1), of i] word_mult_of_nat [of "i AND (Lenth s P - 1)" "Width s P"]
    by (simp add: mult.commute)
  then show ?thesis by (simp add: ring_elem_def add.assoc)
qed

definition pipe_put :: "addr \<Rightarrow> addr \<Rightarrow> u32 \<Rightarrow> 'a pipe_scheme \<Rightarrow> 'a pipe_scheme" where
  "pipe_put P e Length s =
     (let sz = min Length (Lenth s P - (In s P AND (Lenth s P - 1)))
      in s\<lparr>bytes := memcpy (pBuffer s P) (e + sz * Width s P) (unat ((Length - sz) * Width s P))
              (memcpy (pBuffer s P + Width s P * (In s P AND (Lenth s P - 1))) e (unat (sz * Width s P)) (bytes s)),
            In := (In s)(P := In s P + Length)\<rparr>)"

definition room :: "addr \<Rightarrow> 'a pipe_scheme \<Rightarrow> u32" where
  "room P s = Lenth s P - In s P + Out s P"

lemma pipe_write_eq:
  "pipe_write P e Length s =
     (if NULL = P \<or> NULL = e then (ERR_BAD_PARAM, s)
      else
        let n = min Length (room P s); s = pipe_put P e n s; t = pReadThread s P in
        if NULL = t then (sint n, s)
        else (sint n, scheduler ((activate_thread t (Priority s t) (s\<lparr>PRIMASK := 1\<rparr>))\<lparr>PRIMASK := PRIMASK s\<rparr>)))"
  by (simp add: pipe_write_def pipe_put_def room_def Let_def atom_operate_lock_def atom_operate_unlock_def)

lemma pipe_put_frame [simp]:
  "pBuffer (pipe_put P e n s) = pBuffer s" "Lenth (pipe_put P e n s) = Lenth s" "Width (pipe_put P e n s) = Width s"
  "Out (pipe_put P e n s) = Out s" "pReadThread (pipe_put P e n s) = pReadThread s"
  "In (pipe_put P e n s) = (In s)(P := In s P + n)" "nxt (pipe_put P e n s) = nxt s" "prv (pipe_put P e n s) = prv s"
  "OS_ActivePrio (pipe_put P e n s) = OS_ActivePrio s" "Priority (pipe_put P e n s) = Priority s"
  "PRIMASK (pipe_put P e n s) = PRIMASK s"
  by (simp_all add: pipe_put_def Let_def)

lemma room_unat: "pipe_inv P s \<Longrightarrow> unat (room P s) = unat (Lenth s P) - unat (In s P - Out s P)"
  using unat_sub [of "In s P - Out s P" "Lenth s P"] by (simp add: room_def pipe_inv_def algebra_simps)

lemma pipe_put_inv:
  assumes "pipe_inv P s" "n \<le> room P s"
  shows "pipe_inv P (pipe_put P e n s)" "unat (In s P + n - Out s P) = unat (In s P - Out s P) + unat n"
proof -
  have c: "unat (In s P - Out s P) \<le> unat (Lenth s P)" using assms(1) by (simp add: pipe_inv_def word_le_nat_alt)
  have le: "unat (In s P - Out s P) + unat n \<le> unat (Lenth s P)"
    using room_unat [OF assms(1)] assms(2) c by (simp add: word_le_nat_alt)
  have "unat (Lenth s P) < 2 ^ 32" using unat_less_2p32 [of "Lenth s P"] by simp
  with le have u: "unat ((In s P - Out s P) + n) = unat (In s P - Out s P) + unat n"
    using unat_add_lem [of "In s P - Out s P" n] by simp
  then show e: "unat (In s P + n - Out s P) = unat (In s P - Out s P) + unat n" by (simp add: algebra_simps)
  show "pipe_inv P (pipe_put P e n s)"
    using assms(1) le e by (simp add: pipe_inv_def word_le_nat_alt)
qed

lemma pipe_put_elem:
  assumes inv: "pipe_inv P s" and n: "n \<le> room P s"
    and ap: "apart_buffer P s e (unat n * unat (Width s P))"
  defines "L \<equiv> unat (Lenth s P)" and "W \<equiv> unat (Width s P)" and "a \<equiv> unat (In s P) mod unat (Lenth s P)"
  shows "ring_elem P (pipe_put P e n s) i =
    (let d = (unat i mod L + L - a) mod L in if d < unat n then block_elem P s e d else ring_elem P s i)"
proof -
  obtain b where b: "b < 32" "Lenth s P = 2 ^ b" using inv by (auto simp: pipe_inv_def)
  have L0: "0 < L" by (simp add: L_def b unat_pow2)
  have LW: "L * W < 2 ^ 32" using inv by (simp add: pipe_inv_def L_def W_def)
  have aL: "a < L" unfolding a_def L_def [symmetric] using L0 by simp
  have nL: "unat n \<le> L" using n room_unat [OF inv] by (simp add: word_le_nat_alt L_def)
  let ?m = "In s P AND (Lenth s P - 1)"
  have um: "unat ?m = a" unfolding a_def by (rule unat_mask_mod [OF b(2,1)])
  define sz where "sz = min n (Lenth s P - ?m)"
  have usz: "unat sz = min (unat n) (L - a)"
  proof -
    have "unat (Lenth s P - ?m) = L - a"
      using aL um by (subst unat_sub) (simp_all add: word_le_nat_alt L_def)
    then show ?thesis by (simp add: sz_def min_def word_le_nat_alt)
  qed
  have w: "sz * Width s P = of_nat (unat sz * W)" "Width s P * ?m = of_nat (a * W)"
    "(n - sz) * Width s P = of_nat ((unat n - unat sz) * W)"
  proof -
    show "sz * Width s P = of_nat (unat sz * W)" by (simp add: W_def)
    show "Width s P * ?m = of_nat (a * W)" using um by (metis W_def mult.commute word_mult_of_nat)
    have "sz \<le> n" by (simp add: sz_def)
    then have "unat (n - sz) = unat n - unat sz" by (rule unat_sub)
    then show "(n - sz) * Width s P = of_nat ((unat n - unat sz) * W)"
      using word_mult_of_nat [of "n - sz" "Width s P"] by (simp only: W_def)
  qed
  have le: "unat sz * W \<le> L * W" "(unat n - unat sz) * W \<le> L * W"
    using usz nL by (auto intro: mult_le_mono1)
  have uw: "unat (sz * Width s P) = unat sz * W" "unat ((n - sz) * Width s P) = (unat n - unat sz) * W"
    unfolding w using le LW by (intro unat_of_nat_small; linarith)+
  have by': "bytes (pipe_put P e n s) = memcpy (pBuffer s P) (e + of_nat (unat sz * W)) ((unat n - unat sz) * W)
      (memcpy (pBuffer s P + of_nat (a * W)) e (unat sz * W) (bytes s))"
  proof -
    have "bytes (pipe_put P e n s) = memcpy (pBuffer s P) (e + sz * Width s P) (unat ((n - sz) * Width s P))
        (memcpy (pBuffer s P + Width s P * ?m) e (unat (sz * Width s P)) (bytes s))"
      by (simp add: pipe_put_def Let_def sz_def)
    then show ?thesis by (simp only: uw) (simp only: w)
  qed
  have el: "bytes (pipe_put P e n s) (pBuffer s P + of_nat (j * W + k)) =
      (if (j + L - a) mod L < unat n then bytes s (e + of_nat (((j + L - a) mod L) * W + k))
       else bytes s (pBuffer s P + of_nat (j * W + k)))" if "j < L" "k < W" for j k
    unfolding by'
    by (rule ring_copy_in [OF aL nL usz LW _ that])
       (use ap in \<open>auto simp: apart_buffer_def L_def W_def\<close>)
  have iL: "unat i mod L < L" using L0 by simp
  show ?thesis
    unfolding ring_elem_nat [OF pipe_put_inv(1) [OF inv n]] ring_elem_nat [OF inv] block_elem_def
      pipe_put_frame L_def [symmetric] W_def [symmetric] Let_def
    using el [OF iL] by (simp del: of_nat_add of_nat_mult)
qed

lemma pipe_put_contents:
  assumes inv: "pipe_inv P s" and n: "n \<le> room P s"
    and ap: "apart_buffer P s e (unat n * unat (Width s P))"
  shows "pipe_contents P (pipe_put P e n s) = pipe_contents P s @ map (block_elem P s e) [0..<unat n]"
proof -
  let ?L = "unat (Lenth s P)" and ?c = "unat (In s P - Out s P)"
  obtain b where b: "b < 32" "Lenth s P = 2 ^ b" using inv by (auto simp: pipe_inv_def)
  have L0: "0 < ?L" by (simp add: b unat_pow2)
  have cL: "?c \<le> ?L" using inv by (simp add: pipe_inv_def word_le_nat_alt)
  have nL: "unat n \<le> ?L - ?c" using n room_unat [OF inv] by (simp add: word_le_nat_alt)
  have slot: "unat (Out s P + of_nat k) mod ?L = (unat (Out s P) + k) mod ?L" for k
    by (rule slot_add [OF b(2,1)])
  have "In s P = Out s P + of_nat ?c" by simp
  then have a: "unat (In s P) mod ?L = (unat (Out s P) + ?c) mod ?L" using slot by metis
  have el: "ring_elem P (pipe_put P e n s) (Out s P + of_nat k) =
    (let d = ((unat (Out s P) + k) mod ?L + ?L - (unat (Out s P) + ?c) mod ?L) mod ?L
     in if d < unat n then block_elem P s e d else ring_elem P s (Out s P + of_nat k))" for k
    using pipe_put_elem [OF inv n ap, of "Out s P + of_nat k"] by (simp only: slot a)
  have old: "ring_elem P (pipe_put P e n s) (Out s P + of_nat k) = ring_elem P s (Out s P + of_nat k)" if k: "k < ?c" for k
  proof -
    have "(unat (Out s P) + k) mod ?L = (unat (Out s P) + ?c + (?L - (?c - k))) mod ?L"
    proof -
      have "unat (Out s P) + ?c + (?L - (?c - k)) = unat (Out s P) + k + ?L" using k cL by linarith
      then show ?thesis by (simp only: mod_add_self2)
    qed
    then have "((unat (Out s P) + k) mod ?L + ?L - (unat (Out s P) + ?c) mod ?L) mod ?L = (?L - (?c - k)) mod ?L"
      using mod_back [OF L0] by metis
    moreover have "\<not> (?L - (?c - k)) mod ?L < unat n"
      using k cL nL by (cases "?c - k = ?L") auto
    ultimately show ?thesis using el by (simp only: Let_def if_False)
  qed
  have new: "ring_elem P (pipe_put P e n s) (Out s P + of_nat (?c + j)) = block_elem P s e j" if "j < unat n" for j
  proof -
    have "((unat (Out s P) + (?c + j)) mod ?L + ?L - (unat (Out s P) + ?c) mod ?L) mod ?L = j"
      using mod_back [OF L0, of "unat (Out s P) + ?c" j] that nL by (simp add: add.assoc)
    then show ?thesis using el [of "?c + j"] that by (simp only: Let_def if_True)
  qed
  have "unat (In s P + n - Out s P) = ?c + unat n" by (rule pipe_put_inv(2) [OF inv n])
  then have "pipe_contents P (pipe_put P e n s) =
      map (\<lambda>k. ring_elem P (pipe_put P e n s) (Out s P + of_nat k)) ([0..<?c] @ map (\<lambda>j. ?c + j) [0..<unat n])"
    by (simp only: pipe_contents_def pipe_put_frame fun_upd_same upt_split_add)
  also have "\<dots> = pipe_contents P s @ map (block_elem P s e) [0..<unat n]"
    using old new by (simp add: pipe_contents_def del: of_nat_add)
  finally show ?thesis .
qed

lemma pipe_take_eq:
  "pipe_take P e Length s =
     (let n = min Length (In s P - Out s P);
          sz = min n (Lenth s P - (Out s P AND (Lenth s P - 1)))
      in (n, s\<lparr>bytes := memcpy (e + sz * Width s P) (pBuffer s P) (unat ((n - sz) * Width s P))
              (memcpy e (pBuffer s P + Width s P * (Out s P AND (Lenth s P - 1))) (unat (sz * Width s P)) (bytes s)),
            Out := (Out s)(P := Out s P + n)\<rparr>))"
  by (simp add: pipe_take_def Let_def)

lemma pipe_take_frame [simp]:
  "pBuffer (snd (pipe_take P e n s)) = pBuffer s" "Lenth (snd (pipe_take P e n s)) = Lenth s"
  "Width (snd (pipe_take P e n s)) = Width s" "In (snd (pipe_take P e n s)) = In s"
  "pReadThread (snd (pipe_take P e n s)) = pReadThread s" "fst (pipe_take P e n s) = min n (In s P - Out s P)"
  "Out (snd (pipe_take P e n s)) = (Out s)(P := Out s P + min n (In s P - Out s P))"
  "PRIMASK (snd (pipe_take P e n s)) = PRIMASK s"
  by (simp_all add: pipe_take_eq Let_def)

lemma pipe_take_inv:
  assumes "pipe_inv P s"
  shows "pipe_inv P (snd (pipe_take P e n s))"
    "unat (In s P - (Out s P + min n (In s P - Out s P))) = unat (In s P - Out s P) - min (unat n) (unat (In s P - Out s P))"
proof -
  let ?n = "min n (In s P - Out s P)"
  have le: "?n \<le> In s P - Out s P" by simp
  have "unat ((In s P - Out s P) - ?n) = unat (In s P - Out s P) - unat ?n" by (rule unat_sub [OF le])
  then show e: "unat (In s P - (Out s P + ?n)) = unat (In s P - Out s P) - min (unat n) (unat (In s P - Out s P))"
    by (simp add: algebra_simps min_def word_le_nat_alt)
  show "pipe_inv P (snd (pipe_take P e n s))"
    using assms e by (simp add: pipe_inv_def word_le_nat_alt le_trans [OF diff_le_self])
qed

lemma pipe_take_contents:
  assumes inv: "pipe_inv P s" and N: "N = min (unat n) (length (pipe_contents P s))"
    and ap: "apart_buffer P s e (N * unat (Width s P))"
  shows "map (block_elem P (snd (pipe_take P e n s)) e) [0..<N] = take (unat n) (pipe_contents P s)"
    and "pipe_contents P (snd (pipe_take P e n s)) = drop (unat n) (pipe_contents P s)"
proof -
  let ?s' = "snd (pipe_take P e n s)"
  let ?c = "unat (In s P - Out s P)"
  define L W a where "L = unat (Lenth s P)" and "W = unat (Width s P)" and "a = unat (Out s P) mod unat (Lenth s P)"
  define n' where "n' = min n (In s P - Out s P)"
  have N': "N = unat n'" by (simp add: N n'_def pipe_contents_def min_def word_le_nat_alt)
  obtain b where b: "b < 32" "Lenth s P = 2 ^ b" using inv by (auto simp: pipe_inv_def)
  have L0: "0 < L" by (simp add: L_def b unat_pow2)
  have LW: "L * W < 2 ^ 32" using inv by (simp add: pipe_inv_def L_def W_def)
  have aL: "a < L" unfolding a_def L_def [symmetric] using L0 by simp
  have nc: "N \<le> ?c" by (simp add: N pipe_contents_def)
  have cL: "?c \<le> L" using inv by (simp add: pipe_inv_def word_le_nat_alt L_def)
  have nL: "N \<le> L" using nc cL by simp
  let ?m = "Out s P AND (Lenth s P - 1)"
  have um: "unat ?m = a" unfolding a_def by (rule unat_mask_mod [OF b(2,1)])
  define sz where "sz = min n' (Lenth s P - ?m)"
  have usz: "unat sz = min N (L - a)"
  proof -
    have "unat (Lenth s P - ?m) = L - a"
      using aL um by (subst unat_sub) (simp_all add: word_le_nat_alt L_def)
    then show ?thesis by (simp add: sz_def min_def word_le_nat_alt N')
  qed
  have w: "sz * Width s P = of_nat (unat sz * W)" "Width s P * ?m = of_nat (a * W)"
    "(n' - sz) * Width s P = of_nat ((N - unat sz) * W)"
  proof -
    show "sz * Width s P = of_nat (unat sz * W)" by (simp add: W_def)
    show "Width s P * ?m = of_nat (a * W)" using um by (metis W_def mult.commute word_mult_of_nat)
    have "sz \<le> n'" by (simp add: sz_def)
    then have "unat (n' - sz) = N - unat sz" unfolding N' by (rule unat_sub)
    then show "(n' - sz) * Width s P = of_nat ((N - unat sz) * W)"
      using word_mult_of_nat [of "n' - sz" "Width s P"] by (simp only: W_def)
  qed
  have le: "unat sz * W \<le> L * W" "(N - unat sz) * W \<le> L * W"
    using usz nL by (auto intro: mult_le_mono1)
  have uw: "unat (sz * Width s P) = unat sz * W" "unat ((n' - sz) * Width s P) = (N - unat sz) * W"
    unfolding w using le LW by (intro unat_of_nat_small; linarith)+
  have by': "bytes ?s' = memcpy (e + of_nat (unat sz * W)) (pBuffer s P) ((N - unat sz) * W)
      (memcpy e (pBuffer s P + of_nat (a * W)) (unat sz * W) (bytes s))"
  proof -
    have "bytes ?s' = memcpy (e + sz * Width s P) (pBuffer s P) (unat ((n' - sz) * Width s P))
        (memcpy e (pBuffer s P + Width s P * ?m) (unat (sz * Width s P)) (bytes s))"
      by (simp add: pipe_take_eq Let_def sz_def n'_def)
    then show ?thesis by (simp only: uw) (simp only: w)
  qed
  have ap': "e + of_nat i \<noteq> pBuffer s P + of_nat j" if "i < N * W" "j < L * W" for i j
    using ap that by (simp add: apart_buffer_def L_def W_def)
  have copy1: "bytes ?s' (e + of_nat (j * W + k)) = bytes s (pBuffer s P + of_nat (((a + j) mod L) * W + k))"
    if "j < N" "k < W" for j k
    unfolding by' by (rule ring_copy_out(1) [OF aL nL usz LW _ that]) (rule ap')
  have copy2: "bytes ?s' (pBuffer s P + of_nat i) = bytes s (pBuffer s P + of_nat i)" if "i < L * W" for i
    unfolding by' by (rule ring_copy_out(2) [OF aL nL usz LW _ that]) (rule ap')
  have slot: "unat (Out s P + of_nat k) mod L = (unat (Out s P) + k) mod L" for k
    unfolding L_def by (rule slot_add [OF b(2,1)])
  have re: "ring_elem P ?s' i = ring_elem P s i" for i
  proof -
    have iL: "unat i mod L < L" using L0 by simp
    have "(unat i mod L) * W + k < L * W" if "k < W" for k
    proof -
      have "Suc (unat i mod L) * W \<le> L * W" using iL by (intro mult_le_mono1) simp
      then show ?thesis using that by simp
    qed
    then show ?thesis
      unfolding ring_elem_nat [OF pipe_take_inv(1) [OF inv]] ring_elem_nat [OF inv]
        pipe_take_frame L_def [symmetric] W_def [symmetric]
      using copy2 by (simp del: of_nat_add of_nat_mult)
  qed
  have be: "block_elem P ?s' e j = ring_elem P s (Out s P + of_nat j)" if "j < N" for j
  proof -
    have "(a + j) mod L = unat (Out s P + of_nat j) mod L"
      unfolding slot by (simp add: a_def L_def mod_add_left_eq)
    then show ?thesis
      unfolding ring_elem_nat [OF inv] block_elem_def pipe_take_frame L_def [symmetric] W_def [symmetric]
      using copy1 [OF that] by (simp del: of_nat_add of_nat_mult)
  qed
  show "map (block_elem P ?s' e) [0..<N] = take (unat n) (pipe_contents P s)"
  proof (rule nth_equalityI)
    show "length (map (block_elem P ?s' e) [0..<N]) = length (take (unat n) (pipe_contents P s))" by (simp add: N)
    show "map (block_elem P ?s' e) [0..<N] ! j = take (unat n) (pipe_contents P s) ! j"
      if "j < length (map (block_elem P ?s' e) [0..<N])" for j
      using that be [of j] nc by (simp add: N pipe_contents_def)
  qed
  have u: "unat (In s P - (Out s P + n')) = ?c - N"
    using pipe_take_inv(2) [OF inv, of n] by (simp add: n'_def N pipe_contents_def)
  have "pipe_contents P ?s' = map (\<lambda>k. ring_elem P s (Out s P + n' + of_nat k)) [0..<?c - N]"
    using u by (simp add: pipe_contents_def re n'_def)
  also have "\<dots> = map (\<lambda>k. ring_elem P s (Out s P + of_nat (N + k))) [0..<?c - N]"
    by (simp add: N' add.assoc)
  also have "\<dots> = drop (unat n) (pipe_contents P s)"
  proof (cases "unat n \<le> ?c")
    case True
    then have "N = unat n" by (simp add: N pipe_contents_def)
    then show ?thesis
      by (simp add: pipe_contents_def drop_map map_add_upt [of "unat n", symmetric] add.commute [of _ "unat n"])
         (rule nth_equalityI, simp_all)
  next
    case False
    then have "N = ?c" by (simp add: N pipe_contents_def)
    then show ?thesis using False by (simp add: pipe_contents_def)
  qed
  finally show "pipe_contents P ?s' = drop (unat n) (pipe_contents P s)" .
qed

section \<open>Byte pipes as streams\<close>

fun store_block :: "addr \<Rightarrow> u8 list \<Rightarrow> (addr \<Rightarrow> u8) \<Rightarrow> addr \<Rightarrow> u8" where
  "store_block a [] m = m"
| "store_block a (b # bs) m = store_block (a + 1) bs (m(a := b))"

lemma store_block_other: "(\<And>j. j < length bs \<Longrightarrow> x \<noteq> a + of_nat j) \<Longrightarrow> store_block a bs m x = m x"
proof (induction bs arbitrary: a m)
  case (Cons b bs)
  have "x \<noteq> a" using Cons.prems [of 0] by simp
  moreover have "x \<noteq> (a + 1) + of_nat j" if "j < length bs" for j
    using Cons.prems [of "Suc j"] that by (simp add: algebra_simps)
  ultimately show ?case using Cons.IH by simp
qed simp

lemma store_block_at: "length bs \<le> 2 ^ 32 \<Longrightarrow> j < length bs \<Longrightarrow> store_block a bs m (a + of_nat j) = bs ! j"
proof (induction bs arbitrary: a m j)
  case (Cons b bs)
  show ?case
  proof (cases j)
    case 0
    have "a \<noteq> (a + 1) + of_nat k" if "k < length bs" for k
    proof
      assume "a = (a + 1) + of_nat k"
      then have "(of_nat (Suc k) :: addr) = of_nat 0" by (simp add: algebra_simps)
      then show False using of_nat_inj32 [of "Suc k" 0] that Cons.prems(1) by simp
    qed
    then show ?thesis using 0 by (simp add: store_block_other)
  next
    case (Suc j')
    have "store_block (a + 1) bs (m(a := b)) ((a + 1) + of_nat j') = bs ! j'"
      by (rule Cons.IH) (use Cons.prems Suc in simp_all)
    moreover have "(a + 1) + of_nat j' = a + of_nat j" by (simp add: Suc)
    ultimately show ?thesis by (simp only: store_block.simps Suc nth_Cons_Suc)
  qed
qed simp

definition pipe_send :: "addr \<Rightarrow> addr \<Rightarrow> u8 list \<Rightarrow> 'a pipe_scheme \<Rightarrow> nat \<times> 'a pipe_scheme" where
  "pipe_send P U bs s =
     (let (r, s) = pipe_write P U (of_nat (length bs)) (s\<lparr>bytes := store_block U bs (bytes s)\<rparr>)
      in (nat r, s))"

definition pipe_receive :: "addr \<Rightarrow> addr \<Rightarrow> nat \<Rightarrow> 'a pipe_scheme \<Rightarrow> u8 list \<times> 'a pipe_scheme" where
  "pipe_receive P U n s =
     (let (k, s) = pipe_take P U (of_nat n) s
      in (map (\<lambda>i. bytes s (U + of_nat i)) [0..<unat k], s))"

definition pipe_bytes :: "addr \<Rightarrow> 'a pipe_scheme \<Rightarrow> u8 list" where
  "pipe_bytes P s = map hd (pipe_contents P s)"

definition quiet_pipe :: "addr \<Rightarrow> addr \<Rightarrow> 'a pipe_scheme \<Rightarrow> bool" where
  "quiet_pipe P U s \<longleftrightarrow> pipe_inv P s \<and> Width s P = 1 \<and> pReadThread s P = NULL \<and> P \<noteq> NULL \<and> U \<noteq> NULL \<and>
     apart_buffer P s U (2 ^ 16)"

lemma block_elem_1: "Width s P = 1 \<Longrightarrow> block_elem P s a j = [bytes s (a + of_nat j)]"
  by (simp add: block_elem_def)

lemma apart_sub: "apart_buffer P s U m \<Longrightarrow> n \<le> m \<Longrightarrow> apart_buffer P s U n"
  by (simp add: apart_buffer_def)

lemma apart_cong: "pBuffer s' = pBuffer s \<Longrightarrow> Lenth s' = Lenth s \<Longrightarrow> Width s' = Width s \<Longrightarrow>
    apart_buffer P s' U n \<longleftrightarrow> apart_buffer P s U n"
  by (simp add: apart_buffer_def)

lemma store_block_contents:
  assumes inv: "pipe_inv P s" and ap: "apart_buffer P s U (length bs)"
  shows "pipe_contents P (s\<lparr>bytes := store_block U bs (bytes s)\<rparr>) = pipe_contents P s"
proof -
  let ?s = "s\<lparr>bytes := store_block U bs (bytes s)\<rparr>"
  let ?L = "unat (Lenth s P)" and ?W = "unat (Width s P)"
  have inv': "pipe_inv P ?s" using inv by (simp add: pipe_inv_def)
  have L0: "0 < ?L" using inv by (auto simp: pipe_inv_def unat_pow2)
  have "ring_elem P ?s i = ring_elem P s i" for i
    unfolding ring_elem_nat [OF inv'] ring_elem_nat [OF inv]
  proof (simp del: of_nat_add of_nat_mult, intro ballI, rule store_block_other)
    fix k j assume k: "k \<in> {0..<?W}" and j: "j < length bs"
    have "Suc (unat i mod ?L) * ?W \<le> ?L * ?W" using L0 by (intro mult_le_mono1) (simp add: Suc_leI)
    then have "(unat i mod ?L) * ?W + k < ?L * ?W" using k by simp
    then show "pBuffer s P + of_nat ((unat i mod ?L) * ?W + k) \<noteq> U + of_nat j"
      using ap j unfolding apart_buffer_def by metis
  qed
  then show ?thesis by (simp add: pipe_contents_def)
qed

lemma pipe_send_quiet:
  assumes q: "quiet_pipe P U s" and b: "length bs < 2 ^ 16"
  defines "m \<equiv> min (length bs) (unat (Lenth s P) - length (pipe_bytes P s))"
  shows "fst (pipe_send P U bs s) = m" and "quiet_pipe P U (snd (pipe_send P U bs s))"
    and "pipe_bytes P (snd (pipe_send P U bs s)) = pipe_bytes P s @ take m bs"
    and "Lenth (snd (pipe_send P U bs s)) = Lenth s"
proof -
  let ?s1 = "s\<lparr>bytes := store_block U bs (bytes s)\<rparr>"
  let ?n = "min (of_nat (length bs)) (room P ?s1)"
  have i: "pipe_inv P s" and W: "Width s P = 1" and t: "pReadThread s P = NULL" and nz: "P \<noteq> NULL" "U \<noteq> NULL"
    and ap: "apart_buffer P s U (2 ^ 16)" using q by (auto simp: quiet_pipe_def)
  have i1: "pipe_inv P ?s1" using i by (simp add: pipe_inv_def)
  have c1: "pipe_contents P ?s1 = pipe_contents P s"
    by (rule store_block_contents [OF i apart_sub [OF ap]]) (use b in simp)
  have ub: "unat (of_nat (length bs) :: u32) = length bs" using b by (intro unat_of_nat_small) simp
  have un: "unat ?n = m"
    using room_unat [OF i1] ub by (simp add: m_def min_def word_le_nat_alt pipe_bytes_def pipe_contents_def)
  have m: "m \<le> length bs" "m < 2 ^ 16" using b by (auto simp: m_def)
  have ap1: "apart_buffer P ?s1 U (unat ?n * unat (Width ?s1 P))"
    using ap m by (simp add: un W apart_buffer_def)
  have si: "sint ?n = int m"
    using sint_unat_small [of ?n] un m by simp
  have e: "pipe_send P U bs s = (m, pipe_put P U ?n ?s1)"
    using nz t si by (simp add: pipe_send_def pipe_write_eq Let_def)
  show "fst (pipe_send P U bs s) = m" by (simp add: e)
  show "Lenth (snd (pipe_send P U bs s)) = Lenth s" by (simp add: e)
  show "quiet_pipe P U (snd (pipe_send P U bs s))"
  proof -
    have "apart_buffer P (pipe_put P U ?n ?s1) U (2 ^ 16)" using ap by (subst apart_cong [of _ s]) simp_all
    moreover have "pipe_inv P (pipe_put P U ?n ?s1)" by (rule pipe_put_inv(1) [OF i1]) simp
    ultimately show ?thesis using W t nz unfolding e quiet_pipe_def snd_conv by (intro conjI) simp_all
  qed
  have "pipe_contents P (pipe_put P U ?n ?s1) = pipe_contents P s @ map (block_elem P ?s1 U) [0..<m]"
    using pipe_put_contents [OF i1 _ ap1] un c1 by simp
  moreover have "map hd (map (block_elem P ?s1 U) [0..<m]) = take m bs"
  proof (rule nth_equalityI)
    show "length (map hd (map (block_elem P ?s1 U) [0..<m])) = length (take m bs)" using m by simp
    fix j assume "j < length (map hd (map (block_elem P ?s1 U) [0..<m]))"
    then have j: "j < m" "j < length bs" using m by auto
    then show "map hd (map (block_elem P ?s1 U) [0..<m]) ! j = take m bs ! j"
      using store_block_at [of bs j U "bytes s"] b W by (simp add: block_elem_1)
  qed
  ultimately show "pipe_bytes P (snd (pipe_send P U bs s)) = pipe_bytes P s @ take m bs"
    by (simp add: e pipe_bytes_def)
qed

lemma pipe_receive_quiet:
  assumes q: "quiet_pipe P U s" and n: "n < 2 ^ 16"
  shows "fst (pipe_receive P U n s) = take n (pipe_bytes P s)"
    and "quiet_pipe P U (snd (pipe_receive P U n s))"
    and "pipe_bytes P (snd (pipe_receive P U n s)) = drop n (pipe_bytes P s)"
    and "Lenth (snd (pipe_receive P U n s)) = Lenth s"
proof -
  let ?n = "of_nat n :: u32"
  let ?s' = "snd (pipe_take P U ?n s)"
  let ?N = "min (unat ?n) (length (pipe_contents P s))"
  have i: "pipe_inv P s" and W: "Width s P = 1" and t: "pReadThread s P = NULL" and nz: "P \<noteq> NULL" "U \<noteq> NULL"
    and ap: "apart_buffer P s U (2 ^ 16)" using q by (auto simp: quiet_pipe_def)
  have un: "unat ?n = n" using n by (intro unat_of_nat_small) simp
  have ap1: "apart_buffer P s U (?N * unat (Width s P))" using apart_sub [OF ap] n by (simp add: un W)
  have k: "unat (min ?n (In s P - Out s P)) = ?N" by (simp add: pipe_contents_def min_def word_le_nat_alt)
  have e: "pipe_receive P U n s = (map (\<lambda>i. bytes ?s' (U + of_nat i)) [0..<?N], ?s')"
    using k by (simp add: pipe_receive_def split_beta Let_def)
  have "map (\<lambda>i. bytes ?s' (U + of_nat i)) [0..<?N] = map hd (map (block_elem P ?s' U) [0..<?N])"
    using W by (simp add: block_elem_1)
  also have "\<dots> = take n (pipe_bytes P s)"
    using pipe_take_contents(1) [OF i refl ap1] un by (simp add: pipe_bytes_def take_map)
  finally show "fst (pipe_receive P U n s) = take n (pipe_bytes P s)" by (simp add: e)
  show "pipe_bytes P (snd (pipe_receive P U n s)) = drop n (pipe_bytes P s)"
    using pipe_take_contents(2) [OF i refl ap1] un by (simp add: e pipe_bytes_def drop_map)
  show "Lenth (snd (pipe_receive P U n s)) = Lenth s" by (simp add: e)
  show "quiet_pipe P U (snd (pipe_receive P U n s))"
  proof -
    have "apart_buffer P ?s' U (2 ^ 16)" using ap by (subst apart_cong [of _ s]) simp_all
    moreover have "pipe_inv P ?s'" by (rule pipe_take_inv(1) [OF i])
    ultimately show ?thesis using W t nz unfolding e quiet_pipe_def snd_conv by (intro conjI) simp_all
  qed
qed

interpretation ps: stream "quiet_pipe P U" "pipe_bytes P" "\<lambda>s. unat (Lenth s P)" "pipe_send P U" "pipe_receive P U" "2 ^ 16"
  for P U :: addr
proof unfold_locales
  show "(1 :: nat) < 2 ^ 16" by simp
  fix s :: "'a pipe_scheme" and ms :: "u8 list" and n :: nat
  assume q: "quiet_pipe P U s"
  show "length ms < 2 ^ 16 \<Longrightarrow> quiet_pipe P U (snd (pipe_send P U ms s))" by (rule pipe_send_quiet(2) [OF q])
  show "n < 2 ^ 16 \<Longrightarrow> quiet_pipe P U (snd (pipe_receive P U n s))" by (rule pipe_receive_quiet(2) [OF q])
  show "length ms < 2 ^ 16 \<Longrightarrow> fst (pipe_send P U ms s) = min (length ms) (unat (Lenth s P) - length (pipe_bytes P s))"
    by (rule pipe_send_quiet(1) [OF q])
  show "length ms < 2 ^ 16 \<Longrightarrow> pipe_bytes P (snd (pipe_send P U ms s)) = pipe_bytes P s @ take (fst (pipe_send P U ms s)) ms"
    by (simp only: pipe_send_quiet(1,3) [OF q])
  show "length ms < 2 ^ 16 \<Longrightarrow> unat (Lenth (snd (pipe_send P U ms s)) P) = unat (Lenth s P)"
    by (simp only: pipe_send_quiet(4) [OF q])
  show "n < 2 ^ 16 \<Longrightarrow> fst (pipe_receive P U n s) = take n (pipe_bytes P s)" by (rule pipe_receive_quiet(1) [OF q])
  show "n < 2 ^ 16 \<Longrightarrow> pipe_bytes P (snd (pipe_receive P U n s)) = drop n (pipe_bytes P s)"
    by (rule pipe_receive_quiet(3) [OF q])
  show "n < 2 ^ 16 \<Longrightarrow> unat (Lenth (snd (pipe_receive P U n s)) P) = unat (Lenth s P)"
    by (simp only: pipe_receive_quiet(4) [OF q])
qed

section \<open>Properties\<close>

text \<open>A pipe is a queue of elements of any width: \<open>pipe_write\<close> copies in the longest prefix of
  the elements at the caller's address that fits and returns its length, \<open>pipe_take\<close> (the copy of
  \<open>pipe_read\<close>) copies the oldest elements to the caller's address, and the indices may wrap
  around the end of the ring and around 2 ^ 32.\<close>

theorem pipe_copies:
  assumes "pipe_inv P s" "P \<noteq> NULL" "e \<noteq> NULL" "pReadThread s P = NULL"
    "apart_buffer P s e (unat (min n (room P s)) * unat (Width s P))"
    "N = min (unat k) (length (pipe_contents P s))" "apart_buffer P s d (N * unat (Width s P))"
  shows "(let (r, s') = pipe_write P e n s in
      r = sint (min n (room P s)) \<and> pipe_inv P s' \<and>
      pipe_contents P s' = pipe_contents P s @ map (block_elem P s e) [0..<unat (min n (room P s))]) \<and>
    (let (r, s') = pipe_take P d k s in
      unat r = N \<and> pipe_inv P s' \<and> map (block_elem P s' d) [0..<N] = take (unat k) (pipe_contents P s) \<and>
      pipe_contents P s' = drop (unat k) (pipe_contents P s))"
proof -
  have n: "min n (room P s) \<le> room P s" by simp
  have w: "pipe_write P e n s = (sint (min n (room P s)), pipe_put P e (min n (room P s)) s)"
    using assms(2-4) by (simp add: pipe_write_eq Let_def)
  have "length (pipe_contents P s) = unat (In s P - Out s P)" by (simp add: pipe_contents_def)
  then have "unat (min k (In s P - Out s P)) = N" by (simp add: assms(6) min_def word_le_nat_alt)
  then show ?thesis
    using pipe_put_contents [OF assms(1) n assms(5)] pipe_put_inv(1) [OF assms(1) n]
      pipe_take_contents [OF assms(1,6,7)] pipe_take_inv(1) [OF assms(1), of d k]
    by (simp add: w split_beta)
qed

text \<open>C4: bytes written to a pipe and read back in blocks of whatever sizes come out once, in order
  and unchanged: what is read and what is left are what was there and the prefix of the written
  block for which there was room.\<close>

theorem pipe_order:
  assumes "quiet_pipe P U s" "length bs < 2 ^ 16" "n < 2 ^ 16"
  shows "(let s1 = snd (pipe_send P U bs s); (xs, s2) = pipe_receive P U n s1 in
    xs @ pipe_bytes P s2 = pipe_bytes P s @ take (unat (Lenth s P) - length (pipe_bytes P s)) bs \<and>
    xs = take n (pipe_bytes P s1) \<and> quiet_pipe P U s2)"
  using ps.write_then_read [OF assms] ps.rd_value [OF ps.wr_inv [OF assms(1,2)] assms(3)]
    ps.rd_inv [OF ps.wr_inv [OF assms(1,2)] assms(3)]
  by (simp add: Let_def split_beta)

text \<open>A pipe of four bytes at 0x8000, written by a caller whose block is at 0x20000.\<close>

definition sample_pipe :: pipe where
  "sample_pipe = two_threads (semaphore_ext (\<lambda>_. 0)
     (mailbox_ext (\<lambda>_. 0) (\<lambda>_. 0) (\<lambda>_. 0) (\<lambda>_. 0) (\<lambda>_ _. 0)
     (pipe_ext (\<lambda>_. 0x8000) (\<lambda>_. 4) (\<lambda>_. 1) (\<lambda>_. 0) (\<lambda>_. 0) (\<lambda>_. 0) (\<lambda>_. 0) ())))"

lemma sample_pipe_fields [simp]:
  "pBuffer sample_pipe = (\<lambda>_. 0x8000)" "Lenth sample_pipe = (\<lambda>_. 4)" "Width sample_pipe = (\<lambda>_. 1)"
  "In sample_pipe = (\<lambda>_. 0)" "Out sample_pipe = (\<lambda>_. 0)" "pReadThread sample_pipe = (\<lambda>_. 0)"
  by (simp_all add: sample_pipe_def two_threads_def activate_thread_def list_add_def list_add_between_def
      set_next_def set_prev_def sample_def)

lemma apart_buffer_after:
  assumes "unat (pBuffer s P) + unat (Lenth s P) * unat (Width s P) \<le> unat a" "unat a + n \<le> 2 ^ 32"
  shows "apart_buffer P s a n"
  unfolding apart_buffer_def
proof (intro allI impI notI)
  fix i j assume ij: "i < n" "j < unat (Lenth s P) * unat (Width s P)" "a + of_nat i = pBuffer s P + of_nat j"
  have "i < 2 ^ 32" "j < 2 ^ 32" using ij assms by linarith+
  then have u: "unat (of_nat i :: addr) = i" "unat (of_nat j :: addr) = j" by (simp_all add: unat_of_nat_small)
  have "unat (a + of_nat i) = unat a + i" "unat (pBuffer s P + of_nat j) = unat (pBuffer s P) + j"
    using ij assms unat_add_lem [of a "of_nat i"] unat_add_lem [of "pBuffer s P" "of_nat j"] by (simp_all add: u)
  then have "unat a + i = unat (pBuffer s P) + j" using ij(3) by metis
  then show False using ij assms by linarith
qed

lemma sample_pipe_quiet: "quiet_pipe 0x3000 0x20000 sample_pipe"
  by (simp add: quiet_pipe_def pipe_inv_def apart_buffer_after) (rule exI [of _ 2], simp)

lemma sample_pipe_empty: "pipe_bytes 0x3000 sample_pipe = []" "pipe_contents 0x3000 sample_pipe = []"
  by (simp_all add: pipe_bytes_def pipe_contents_def)

theorem pipe_order_witness:
  "(let s1 = snd (pipe_send 0x3000 0x20000 [10, 20, 30, 40, 50] sample_pipe);
        (xs, s2) = pipe_receive 0x3000 0x20000 3 s1 in
    xs @ pipe_bytes 0x3000 s2 = [10, 20, 30, 40])"
  using pipe_order [OF sample_pipe_quiet, of "[10, 20, 30, 40, 50]" 3]
  by (simp add: Let_def split_beta sample_pipe_empty) metis

theorem pipe_copies_witness:
  "pipe_contents 0x3000 (snd (pipe_write 0x3000 0x20000 2 sample_pipe)) = [[0], [0]]"
proof -
  have r: "min 2 (room 0x3000 sample_pipe) = 2" by (simp add: room_def)
  have b: "bytes sample_pipe = (\<lambda>_. 0)"
    by (simp add: sample_pipe_def two_threads_def activate_thread_def list_add_def list_add_between_def
        set_next_def set_prev_def sample_def)
  have "apart_buffer 0x3000 sample_pipe 0x20000 2" "apart_buffer 0x3000 sample_pipe 0x20000 0"
    by (rule apart_buffer_after; simp)+
  then show ?thesis
    using pipe_copies [of "0x3000" sample_pipe "0x20000" 2 0 0 "0x20000"] sample_pipe_quiet r
    by (simp add: quiet_pipe_def split_beta sample_pipe_empty block_elem_def b upt_rec)
qed

end
