(* ===== verification/Malloc.thy ===== *)
theory Malloc
  imports Pipe
begin

text \<open>
  library/malloc/malloc.c: the allocator, over the words of memory.  Chunks carry their size and
  state in a header word and in the header of the next chunk; free chunks of up to 256 bytes are
  on rings by size, larger ones in 32 bitwise digital trees.  The loops over the trees do not end
  on a broken tree and are partial functions.  Field offsets are those of \<open>CHUNK\<close> and \<open>TNODE\<close>:
  PrevInfo 0, ThisInfo 4, pFreeNext 8, pFreePrev 12, pChild 16 and 20, pParent 24, Index 28.
\<close>

section \<open>Layout\<close>

type_synonym heap = "addr \<Rightarrow> u32"

definition Mallocor :: addr where "Mallocor = 0x2007eff8"
definition SameMap :: addr where "SameMap = Mallocor"
definition TreeMap :: addr where "TreeMap = Mallocor + 4"

definition pTreeChunks :: "u32 \<Rightarrow> addr" where
  "pTreeChunks Index = Mallocor + 272 + 4 * Index"

abbreviation (input) PrevInfo :: "addr \<Rightarrow> addr" where "PrevInfo p \<equiv> p"
abbreviation (input) ThisInfo :: "addr \<Rightarrow> addr" where "ThisInfo p \<equiv> p + 4"
abbreviation (input) pFreeNext :: "addr \<Rightarrow> addr" where "pFreeNext p \<equiv> p + 8"
abbreviation (input) pFreePrev :: "addr \<Rightarrow> addr" where "pFreePrev p \<equiv> p + 12"
abbreviation (input) pChild :: "addr \<Rightarrow> u32 \<Rightarrow> addr" where "pChild p i \<equiv> p + 16 + 4 * i"
abbreviation (input) pParent :: "addr \<Rightarrow> addr" where "pParent p \<equiv> p + 24"
abbreviation (input) TreeIndex :: "addr \<Rightarrow> addr" where "TreeIndex p \<equiv> p + 28"

abbreviation (input) USED :: u32 where "USED \<equiv> 1"
abbreviation (input) FREE :: u32 where "FREE \<equiv> 0"
abbreviation (input) MIN_CHUNK_SIZE :: u32 where "MIN_CHUNK_SIZE \<equiv> 16"

section \<open>Operations on chunks\<close>

definition left_bits :: "u32 \<Rightarrow> u32" where
  "left_bits x = push_bit 1 x OR - push_bit 1 x"

definition to_memory_size :: "u32 \<Rightarrow> u32" where
  "to_memory_size ChunkSize = ChunkSize - 8"

definition to_chunk_size :: "u32 \<Rightarrow> u32" where
  "to_chunk_size sz = sz + 8"

definition get_same_chunk_group :: "u32 \<Rightarrow> addr" where
  "get_same_chunk_group Index = Mallocor + 8 + 4 * push_bit 1 Index"

definition splite_free_chunk :: "addr \<Rightarrow> u32 \<Rightarrow> heap \<Rightarrow> addr \<times> heap" where
  "splite_free_chunk pFreeChunk ChunkSize h =
     (let FreeSize = h (ThisInfo pFreeChunk);
          pNextChunk = pFreeChunk + FreeSize
      in if FreeSize - ChunkSize < MIN_CHUNK_SIZE then
           let h = h(PrevInfo pNextChunk := FreeSize OR USED);
               h = h(ThisInfo pFreeChunk := FreeSize OR USED)
           in (NULL, h)
         else
           let RestSize = FreeSize - ChunkSize;
               pRestChunk = pFreeChunk + ChunkSize;
               h = h(PrevInfo pRestChunk := ChunkSize OR USED);
               h = h(ThisInfo pFreeChunk := ChunkSize OR USED);
               pFreeChunk = pRestChunk;
               h = h(PrevInfo pNextChunk := RestSize OR FREE);
               h = h(ThisInfo pFreeChunk := RestSize OR FREE)
           in (pFreeChunk, h))"

definition combin_free_chunk :: "addr \<Rightarrow> addr \<Rightarrow> addr" where
  "combin_free_chunk pThisChunk pNewChunk = pThisChunk"

definition chunk_to_memeory :: "addr \<Rightarrow> addr" where
  "chunk_to_memeory pChunk = (if pChunk \<noteq> NULL then pChunk + 8 else NULL)"

definition get_box_index :: "u32 \<Rightarrow> u32" where
  "get_box_index sz = drop_bit 3 sz - 1"

definition tree_size_to_index :: "u32 \<Rightarrow> u32" where
  "tree_size_to_index sz =
     (let x = drop_bit 8 sz in
      if x = 0 then 0
      else if x > 0xFFFF then 31
      else
        let y = x;
            n = drop_bit 16 (y - 0x100) AND 8;
            y = push_bit (unat n) y;
            k = drop_bit 16 (y - 0x1000) AND 4;
            n = n + k;
            y = push_bit (unat k) y;
            k = drop_bit 16 (y - 0x4000) AND 2;
            n = n + k;
            y = push_bit (unat k) y;
            k = 14 - n + drop_bit 15 y
        in push_bit 1 k + (drop_bit (unat (k + 7)) sz AND 1))"

definition leftshift_for_tree_index :: "u32 \<Rightarrow> u32" where
  "leftshift_for_tree_index Index = (if Index = 31 then 0 else 25 - drop_bit 1 Index)"

definition get_chunk_size :: "addr \<Rightarrow> heap \<Rightarrow> u32" where
  "get_chunk_size pChunk h = h (ThisInfo pChunk) AND NOT 1"

definition insert_small_chunk :: "addr \<Rightarrow> u32 \<Rightarrow> heap \<Rightarrow> heap" where
  "insert_small_chunk pChunk sz h =
     (let Index = get_box_index sz;
          pHead = get_same_chunk_group Index;
          h = (if 0 = test_bit (h SameMap) Index
               then h(SameMap := h SameMap OR push_bit (unat Index) 1) else h);
          h = h(pFreeNext pChunk := h (pFreeNext pHead));
          h = h(pFreePrev pChunk := pHead);
          h = h(pFreePrev (h (pFreeNext pHead)) := pChunk)
      in h(pFreeNext pHead := pChunk))"

text \<open>The descent of \<open>insert_large_chunk\<close> in a tree that is not empty.\<close>

partial_function (option) insert_descend :: "addr \<Rightarrow> u32 \<Rightarrow> addr \<Rightarrow> u32 \<Rightarrow> heap \<Rightarrow> heap option" where
  "insert_descend pChunk ChunkSize pNode BitMap h =
     (if ChunkSize \<noteq> get_chunk_size pNode h then
        let C = pChild pNode (drop_bit 31 BitMap AND 1);
            BitMap = push_bit 1 BitMap
        in if NULL \<noteq> h C then insert_descend pChunk ChunkSize (h C) BitMap h
           else
             let h = h(C := pChunk);
                 h = h(pParent pChunk := pNode);
                 h = h(pFreeNext pChunk := pChunk)
             in Some (h(pFreePrev pChunk := pChunk))
      else
        let h = h(pParent pChunk := NULL);
            h = h(pFreeNext pChunk := h (pFreeNext pNode));
            h = h(pFreePrev pChunk := pNode);
            h = h(pFreePrev (h (pFreeNext pNode)) := pChunk)
        in Some (h(pFreeNext pNode := pChunk)))"

definition insert_large_chunk :: "addr \<Rightarrow> u32 \<Rightarrow> heap \<Rightarrow> heap option" where
  "insert_large_chunk pChunk sz h =
     (let Index = tree_size_to_index sz;
          pNode = h (pTreeChunks Index);
          h = h(TreeIndex pChunk := Index);
          h = h(pChild pChunk 1 := NULL);
          h = h(pChild pChunk 0 := NULL)
      in if 0 = test_bit (h TreeMap) Index then
           let h = h(TreeMap := h TreeMap OR push_bit (unat Index) 1);
               h = h(pTreeChunks Index := pChunk);
               h = h(pParent pChunk := pTreeChunks Index);
               h = h(pFreePrev pChunk := pChunk)
           in Some (h(pFreeNext pChunk := pChunk))
         else
           insert_descend pChunk (sz + 8) pNode
             (push_bit (unat (leftshift_for_tree_index Index)) sz) h)"

definition is_small :: "u32 \<Rightarrow> bool" where
  "is_small sz \<longleftrightarrow> sz \<le> 256"

definition checkin_free_chunk :: "addr \<Rightarrow> u32 \<Rightarrow> heap \<Rightarrow> heap option" where
  "checkin_free_chunk pChunk ChunkSize h =
     (if NULL \<noteq> pChunk then
        let sz = ChunkSize - 8 in
        if is_small sz then Some (insert_small_chunk pChunk sz h)
        else insert_large_chunk pChunk sz h
      else Some h)"

definition letfmost_child :: "addr \<Rightarrow> heap \<Rightarrow> addr" where
  "letfmost_child pTreeNode h =
     (if h (pChild pTreeNode 0) \<noteq> NULL then h (pChild pTreeNode 0) else h (pChild pTreeNode 1))"

definition unlink_small_chunk :: "addr \<Rightarrow> u32 \<Rightarrow> heap \<Rightarrow> heap" where
  "unlink_small_chunk pChunk sz h =
     (let FreeNext = h (pFreeNext pChunk);
          FreePrev = h (pFreePrev pChunk);
          Index = get_box_index sz;
          h = (if FreeNext = FreePrev
               then h(SameMap := h SameMap AND NOT (push_bit (unat Index) 1)) else h);
          h = h(pFreePrev FreeNext := FreePrev)
      in h(pFreeNext FreePrev := FreeNext))"

text \<open>The search for a leaf below the link \<open>ppNode\<close>, the inner loop of \<open>unlink_large_chunk\<close>.\<close>

partial_function (option) leaf_link :: "addr \<Rightarrow> heap \<Rightarrow> addr option" where
  "leaf_link ppNode h =
     (let pReplace = h ppNode in
      if NULL \<noteq> h (pChild pReplace 1) then leaf_link (pChild pReplace 1) h
      else if NULL \<noteq> h (pChild pReplace 0) then leaf_link (pChild pReplace 0) h
      else Some ppNode)"

text \<open>The first half: the replacement of the chunk.\<close>

definition unlink_replace :: "addr \<Rightarrow> heap \<Rightarrow> (addr \<times> heap) option" where
  "unlink_replace pChunk h =
     (if h (pFreePrev pChunk) \<noteq> pChunk then
        let pNext = h (pFreeNext pChunk);
            pReplace = h (pFreePrev pChunk);
            h = h(pFreePrev pNext := pReplace)
        in Some (pReplace, h(pFreeNext pReplace := pNext))
      else
        let ppNode = (if NULL \<noteq> h (pChild pChunk 1) then pChild pChunk 1 else pChild pChunk 0) in
        if NULL \<noteq> h ppNode then
          case leaf_link ppNode h of
            None \<Rightarrow> None
          | Some ppNode \<Rightarrow> Some (h ppNode, h(ppNode := NULL))
        else Some (NULL, h))"

text \<open>The second half: parent and children of the chunk pass to the replacement.\<close>

definition unlink_relink :: "addr \<Rightarrow> addr \<Rightarrow> heap \<Rightarrow> heap" where
  "unlink_relink pChunk pReplace h =
     (let parent = h (pParent pChunk) in
      if NULL \<noteq> parent then
        let ppTmp = pTreeChunks (h (TreeIndex pChunk));
            h = (if pChunk = h ppTmp then
                   let h = h(ppTmp := pReplace) in
                   if NULL = pReplace
                   then h(TreeMap := h TreeMap AND NOT (push_bit (unat (h (TreeIndex pChunk))) 1))
                   else h
                 else if h (pChild parent 0) = pChunk then h(pChild parent 0 := pReplace)
                 else h(pChild parent 1 := pReplace))
        in if NULL \<noteq> pReplace then
             let h = h(pParent pReplace := parent);
                 pChild_0 = h (pChild pChunk 0);
                 h = (if NULL \<noteq> pChild_0 then
                        let h = h(pChild pReplace 0 := pChild_0) in h(pParent pChild_0 := pReplace)
                      else h);
                 pChild_1 = h (pChild pChunk 1)
             in if NULL \<noteq> pChild_1 then
                  let h = h(pChild pReplace 1 := pChild_1) in h(pParent pChild_1 := pReplace)
                else h
           else h
      else h)"

definition unlink_large_chunk :: "addr \<Rightarrow> heap \<Rightarrow> heap option" where
  "unlink_large_chunk pChunk h =
     (if NULL = pChunk then Some h
      else
        case unlink_replace pChunk h of
          None \<Rightarrow> None
        | Some (pReplace, h) \<Rightarrow> Some (unlink_relink pChunk pReplace h))"

definition unlink_chunk :: "addr \<Rightarrow> u32 \<Rightarrow> heap \<Rightarrow> heap option" where
  "unlink_chunk pChunk sz h =
     (if is_small sz then Some (unlink_small_chunk pChunk sz h) else unlink_large_chunk pChunk h)"

definition checkout_small_chunk_in_group :: "addr \<Rightarrow> u32 \<Rightarrow> heap \<Rightarrow> addr \<times> heap" where
  "checkout_small_chunk_in_group pHead Index h =
     (let pFirstChunk = h (pFreeNext pHead);
          pNext = h (pFreeNext pFirstChunk);
          h = (if pHead = pNext
               then h(SameMap := h SameMap AND NOT (push_bit (unat Index) 1)) else h);
          h = h(pFreeNext pHead := pNext);
          h = h(pFreePrev pNext := pHead)
      in (pFirstChunk, h))"

partial_function (option) smallest_left :: "addr \<Rightarrow> addr \<Rightarrow> u32 \<Rightarrow> heap \<Rightarrow> addr option" where
  "smallest_left pTmp pChunk FreeSize h =
     (let pTmp = letfmost_child pTmp h in
      if NULL \<noteq> pTmp then
        let ThisMargin = h (ThisInfo pTmp) in
        if ThisMargin < FreeSize then smallest_left pTmp pTmp ThisMargin h
        else smallest_left pTmp pChunk FreeSize h
      else Some pChunk)"

definition checkout_small_chunk_in_tree :: "u32 \<Rightarrow> heap \<Rightarrow> (addr \<times> heap) option" where
  "checkout_small_chunk_in_tree sz h =
     (if 0 = h TreeMap then Some (NULL, h)
      else
        let Index = bit_scan_forward (h TreeMap);
            pTmp = h (pTreeChunks Index)
        in case smallest_left pTmp pTmp (h (ThisInfo pTmp)) h of
             None \<Rightarrow> None
           | Some pChunk \<Rightarrow>
               (case unlink_large_chunk pChunk h of
                  None \<Rightarrow> None
                | Some h \<Rightarrow> Some (pChunk, h)))"

text \<open>
  The descent of \<open>checkout_large_chunk_in_tree\<close> along the bits of the size: the result is
  the subtree that is left to search, the best chunk and its margin.
\<close>

partial_function (option) large_descend ::
  "u32 \<Rightarrow> addr \<Rightarrow> u32 \<Rightarrow> addr \<Rightarrow> addr \<Rightarrow> u32 \<Rightarrow> heap \<Rightarrow> (addr \<times> addr \<times> u32) option" where
  "large_descend ChunkSize pTree sizebits pBigTree pChunk rsize h =
     (let trem = get_chunk_size pTree h - ChunkSize;
          better = trem < rsize;
          pChunk = (if better then pTree else pChunk);
          rsize = (if better then trem else rsize)
      in if better \<and> 0 = rsize then Some (pTree, pChunk, rsize)
         else
           let pRightTree = h (pChild pTree 1);
               pTree = h (pChild pTree (drop_bit 31 sizebits AND 1));
               pBigTree = (if pRightTree \<noteq> NULL \<and> pRightTree \<noteq> pTree then pRightTree else pBigTree)
           in if NULL = pTree then Some (pBigTree, pChunk, rsize)
              else large_descend ChunkSize pTree (push_bit 1 sizebits) pBigTree pChunk rsize h)"

partial_function (option) large_smallest :: "u32 \<Rightarrow> addr \<Rightarrow> addr \<Rightarrow> u32 \<Rightarrow> heap \<Rightarrow> addr option" where
  "large_smallest ChunkSize pTree pChunk rsize h =
     (if NULL \<noteq> pTree then
        let trem = get_chunk_size pTree h - ChunkSize in
        if trem < rsize then large_smallest ChunkSize (letfmost_child pTree h) pTree trem h
        else large_smallest ChunkSize (letfmost_child pTree h) pChunk rsize h
      else Some pChunk)"

definition checkout_large_chunk_in_tree :: "u32 \<Rightarrow> heap \<Rightarrow> (addr \<times> heap) option" where
  "checkout_large_chunk_in_tree sz h =
     (let idx = tree_size_to_index sz;
          pTree = h (pTreeChunks idx);
          ChunkSize = to_chunk_size sz;
          rsize = - ChunkSize
      in case (if NULL \<noteq> pTree then
                 large_descend ChunkSize pTree (push_bit (unat (leftshift_for_tree_index idx)) sz)
                   NULL NULL rsize h
               else Some (pTree, NULL, rsize)) of
           None \<Rightarrow> None
         | Some (pTree, pChunk, rsize) \<Rightarrow>
             let leftbits = h TreeMap AND left_bits (push_bit (unat idx) 1);
                 Index = bit_scan_forward leftbits;
                 search = NULL = pTree \<and> NULL = pChunk \<and> leftbits \<noteq> 0
             in if search \<and> 32 = Index then Some (NULL, h)
                else
                  let pTree = (if search then h (pTreeChunks Index) else pTree) in
                  (case large_smallest ChunkSize pTree pChunk rsize h of
                     None \<Rightarrow> None
                   | Some pChunk \<Rightarrow>
                       (case unlink_large_chunk pChunk h of
                          None \<Rightarrow> None
                        | Some h \<Rightarrow> Some (pChunk, h))))"

section \<open>The allocator\<close>

text \<open>
  The words of memory that the allocator works on, the access lock and the memory banks (with the
  ends of the two data segments that the linker put in project/hello/hello.map).
\<close>

record mallocor = pipe +
  hmem :: heap

definition Lock :: addr where "Lock = 0x2007f188"

definition aRamBanks :: "(addr \<times> addr) list" where
  "aRamBanks = [(0x10000800, 0x10008000), (0x2007f22c, 0x20084000)]"

text \<open>The 100 words of \<open>Mallocor\<close> are cleared and the 32 rings made empty.\<close>

definition clear_mallocor :: "heap \<Rightarrow> heap" where
  "clear_mallocor h = fold (\<lambda>i h. h(Mallocor + 4 * of_nat i := 0)) [0..<100] h"

definition init_groups :: "heap \<Rightarrow> heap" where
  "init_groups h = fold (\<lambda>i h.
     let pChunk = get_same_chunk_group (of_nat i);
         h = h(pFreeNext pChunk := pChunk)
     in h(pFreePrev pChunk := pChunk)) [0..<32] h"

text \<open>The loop over the banks; \<open>Counter\<close> counts the pools that were accepted.\<close>

fun register_banks :: "(addr \<times> addr) list \<Rightarrow> nat \<Rightarrow> heap \<Rightarrow> (nat \<times> heap) option" where
  "register_banks [] Counter' h = Some (Counter', h)"
| "register_banks ((StartAddr, EndAddr) # banks) Counter' h =
     (let StartAddr = align_upside StartAddr 4;
          EndAddr = align_downside EndAddr 4
      in if EndAddr < StartAddr then register_banks banks Counter' h
         else
           let EndAddr = EndAddr - 8;
               ChunkSize = EndAddr - StartAddr
           in if ChunkSize < MIN_CHUNK_SIZE then register_banks banks Counter' h
              else
                let h = h(StartAddr := 0 OR USED);
                    h = h(StartAddr + 4 := ChunkSize OR FREE);
                    h = h(EndAddr := ChunkSize OR FREE);
                    h = h(EndAddr + 4 := 0 OR USED)
                in case checkin_free_chunk StartAddr ChunkSize h of
                     None \<Rightarrow> None
                   | Some h \<Rightarrow> register_banks banks (Counter' + 1) h)"

definition mallocor_setup :: "'a mallocor_scheme \<Rightarrow> (int \<times> 'a mallocor_scheme) option" where
  "mallocor_setup s =
     (let s = s\<lparr>Counter := (Counter s)(Lock := 1)\<rparr>;
          s = INIT_LIST_HEAD (WaitHead Lock) s;
          h = init_groups (clear_mallocor (hmem s))
      in case register_banks aRamBanks 0 h of
           None \<Rightarrow> None
         | Some (Counter', h) \<Rightarrow>
             Some (if Counter' \<noteq> 0 then OK else ERR_NO_MEMERY, s\<lparr>hmem := h\<rparr>))"

text \<open>What \<open>malloc\<close> does under the lock: find a chunk, split it, give the rest back.\<close>

definition malloc_find :: "u32 \<Rightarrow> heap \<Rightarrow> (u32 \<times> addr \<times> heap) option" where
  "malloc_find sz h =
     (if is_small sz then
        let sz = align_upside sz 8;
            Index = get_box_index sz;
            SameBits = drop_bit (unat Index) (h SameMap);
            Index = 0x1F AND bit_scan_forward (push_bit (unat Index) SameBits)
        in if Index \<noteq> 0 then
             let pHead = get_same_chunk_group Index;
                 (pChunk, h) = checkout_small_chunk_in_group pHead Index h
             in Some (sz, pChunk, h)
           else map_option (Pair sz) (checkout_small_chunk_in_tree sz h)
      else map_option (Pair sz) (checkout_large_chunk_in_tree sz h))"

definition malloc_locked :: "u32 \<Rightarrow> heap \<Rightarrow> (addr \<times> heap) option" where
  "malloc_locked sz h =
     (let sz = align_upside (sz + MIN_CHUNK_SIZE) 4
      in case malloc_find sz h of
           None \<Rightarrow> None
         | Some (sz, pChunk, h) \<Rightarrow>
             if NULL \<noteq> pChunk then
               let (pFreeChunk, h) = splite_free_chunk pChunk (sz + 8) h
               in (case checkin_free_chunk pFreeChunk (h (ThisInfo pFreeChunk)) h of
                     None \<Rightarrow> None
                   | Some h \<Rightarrow> Some (pChunk, h))
             else Some (pChunk, h))"

definition malloc_rest :: "u32 \<Rightarrow> 'a mallocor_scheme \<Rightarrow> (addr outcome \<times> 'a mallocor_scheme) option" where
  "malloc_rest sz s =
     (case malloc_locked sz (hmem s) of
        None \<Rightarrow> None
      | Some (pChunk, h) \<Rightarrow>
          let s = s\<lparr>hmem := h\<rparr>;
              (_, s) = semaphore_post Lock s
          in Some (Returned (chunk_to_memeory pChunk), s))"

definition malloc :: "u32 \<Rightarrow> 'a mallocor_scheme \<Rightarrow> (addr outcome \<times> 'a mallocor_scheme) option" where
  "malloc sz s =
     (case semaphore_wait Lock 0 s of
        None \<Rightarrow> None
      | Some (Switched, s) \<Rightarrow> Some (Switched, s)
      | Some (Returned _, s) \<Rightarrow> malloc_rest sz s)"

text \<open>The rest of a call that had to wait for the lock; the result of the wait is not looked at.\<close>

definition malloc_resume :: "u32 \<Rightarrow> addr \<Rightarrow> 'a mallocor_scheme \<Rightarrow> (addr outcome \<times> 'a mallocor_scheme) option" where
  "malloc_resume sz pThread s = malloc_rest sz (snd (semaphore_wait_resume Lock 0 pThread s))"

text \<open>\<open>free\<close> merges the chunk with free neighbours on both sides and puts it back.\<close>

definition merge_prev :: "addr \<Rightarrow> u32 \<Rightarrow> addr \<Rightarrow> heap \<Rightarrow> (addr \<times> u32 \<times> heap) option" where
  "merge_prev pThisChunk sz pNextChunk h =
     (if FREE = test_bit (h (PrevInfo pThisChunk)) 0 then
        let PrevSize = h (PrevInfo pThisChunk);
            pPrevChunk = pThisChunk - PrevSize;
            sz = sz + PrevSize;
            pThisChunk = pPrevChunk
        in case unlink_chunk pPrevChunk (to_memory_size PrevSize) h of
             None \<Rightarrow> None
           | Some h \<Rightarrow>
               let h = h(PrevInfo pNextChunk := sz);
                   h = h(ThisInfo pThisChunk := sz)
               in Some (pThisChunk, sz, h)
      else Some (pThisChunk, sz, h))"

definition merge_next :: "addr \<Rightarrow> u32 \<Rightarrow> addr \<Rightarrow> heap \<Rightarrow> (u32 \<times> heap) option" where
  "merge_next pThisChunk sz pNextChunk h =
     (if FREE = test_bit (h (ThisInfo pNextChunk)) 0 then
        let NextSize = h (ThisInfo pNextChunk);
            pNextNextChunk = pNextChunk + NextSize
        in case unlink_chunk pNextChunk (to_memory_size NextSize) h of
             None \<Rightarrow> None
           | Some h \<Rightarrow>
               let sz = sz + NextSize;
                   h = h(PrevInfo pNextNextChunk := sz);
                   h = h(ThisInfo pThisChunk := sz)
               in Some (sz, h)
      else Some (sz, h))"

definition free_locked :: "addr \<Rightarrow> heap \<Rightarrow> heap option" where
  "free_locked pMemory h =
     (let pThisChunk = pMemory - 8;
          sz = h (ThisInfo pThisChunk) AND NOT 1;
          pNextChunk = pThisChunk + sz;
          h = h(PrevInfo pNextChunk := sz);
          h = h(ThisInfo pThisChunk := sz)
      in case merge_prev pThisChunk sz pNextChunk h of
           None \<Rightarrow> None
         | Some (pThisChunk, sz, h) \<Rightarrow>
             (case merge_next pThisChunk sz pNextChunk h of
                None \<Rightarrow> None
              | Some (sz, h) \<Rightarrow> checkin_free_chunk pThisChunk sz h))"

definition free_rest :: "addr \<Rightarrow> 'a mallocor_scheme \<Rightarrow> (unit outcome \<times> 'a mallocor_scheme) option" where
  "free_rest pMemory s =
     (case free_locked pMemory (hmem s) of
        None \<Rightarrow> None
      | Some h \<Rightarrow> Some (Returned (), snd (semaphore_post Lock (s\<lparr>hmem := h\<rparr>))))"

definition free :: "addr \<Rightarrow> 'a mallocor_scheme \<Rightarrow> (unit outcome \<times> 'a mallocor_scheme) option" where
  "free pMemory s =
     (if NULL = pMemory then Some (Returned (), s)
      else
        case semaphore_wait Lock 0 s of
          None \<Rightarrow> None
        | Some (Switched, s) \<Rightarrow> Some (Switched, s)
        | Some (Returned _, s) \<Rightarrow> free_rest pMemory s)"

definition free_resume :: "addr \<Rightarrow> addr \<Rightarrow> 'a mallocor_scheme \<Rightarrow> (unit outcome \<times> 'a mallocor_scheme) option" where
  "free_resume pMemory pThread s = free_rest pMemory (snd (semaphore_wait_resume Lock 0 pThread s))"

section \<open>The tree bins\<close>

text \<open>
  \<open>tree_size_to_index\<close> finds the highest bit of the size without a loop: each step shifts by a
  power of two when the value is below a bound, which the borrow of a subtraction tells.
\<close>

lemma borrow_mask:
  fixes y c m :: u32
  assumes "unat y < 2 ^ 16" "0 < unat c" "unat c \<le> 2 ^ 16" "m AND 0xFFFF = m"
  shows "drop_bit 16 (y - c) AND m = (if y < c then m else 0)"
proof (cases "y < c")
  case True
  have "unat (y - c) = 2 ^ 32 + unat y - unat c" using True by (simp add: word_less_nat_alt unat_sub_if_size word_size)
  then have "unat (drop_bit 16 (y - c)) = (2 ^ 32 + unat y - unat c) div 2 ^ 16" by (simp add: unat_drop)
  also have "\<dots> = 0xFFFF"
    using assms(1-3) True by (intro div_nat_eqI) (simp_all add: word_less_nat_alt)
  finally have "drop_bit 16 (y - c) = 0xFFFF" by (simp add: word_unat_eq_iff)
  then show ?thesis using True assms(4) by (simp add: and.commute)
next
  case False
  then have "unat (y - c) = unat y - unat c" by (simp add: unat_sub word_le_nat_alt not_less)
  then have "unat (drop_bit 16 (y - c)) = 0" using assms(1) by (simp add: unat_drop)
  then have "drop_bit 16 (y - c) = 0" by (simp only: unat_eq_zero)
  then show ?thesis using False by simp
qed

lemma push_unat: "unat (y :: u32) * 2 ^ k < 2 ^ 32 \<Longrightarrow> unat (push_bit k y) = unat y * 2 ^ k"
  by (simp add: unsigned_push_bit_eq) (simp add: push_bit_eq_mult take_bit_nat_eq_self)

text \<open>One step: below \<open>2 ^ b\<close> the value is shifted by \<open>k\<close>, and \<open>n\<close> counts.\<close>

lemma normalise_step:
  fixes y m :: u32
  assumes "2 ^ a \<le> unat y" "unat y < 2 ^ 16" "a \<le> b" "b + k \<le> 16" "b \<le> a + k" "unat m = k" "m AND 0xFFFF = m"
  defines "n \<equiv> drop_bit 16 (y - 2 ^ b) AND m"
  shows "unat (push_bit (unat n) y) = unat y * 2 ^ unat n \<and> 2 ^ b \<le> unat y * 2 ^ unat n \<and>
    unat y * 2 ^ unat n < 2 ^ 16 \<and> unat n \<le> k"
proof -
  have b: "b < 32" "unat (2 ^ b :: u32) = 2 ^ b" using assms(4) by (auto simp: unat_pow2)
  have p: "(2::nat) ^ b \<le> 2 ^ 16" using assms(4) by (intro power_increasing) auto
  have n: "n = (if y < 2 ^ b then m else 0)"
    unfolding n_def using assms(2,7) b p by (intro borrow_mask) auto
  show ?thesis
  proof (cases "y < 2 ^ b")
    case True
    then have y: "unat y < 2 ^ b" by (simp add: word_less_nat_alt b)
    have "unat y * 2 ^ k < 2 ^ b * 2 ^ k" using y by simp
    also have "\<dots> \<le> 2 ^ 16" unfolding power_add [symmetric] using assms(4) by (intro power_increasing) auto
    finally have l: "unat y * 2 ^ k < 2 ^ 16" .
    have "(2::nat) ^ b \<le> 2 ^ (a + k)" using assms(5) by (intro power_increasing) auto
    also have "\<dots> \<le> unat y * 2 ^ k" using assms(1) by (simp add: power_add)
    finally show ?thesis using True n l assms(6) by (simp add: push_unat)
  next
    case False
    then show ?thesis using n assms(2) b by (simp add: word_less_nat_alt)
  qed
qed

lemma tree_size_to_index_bin:
  assumes k: "k < 16" "2 ^ (k + 8) \<le> unat sz" "unat sz < 2 ^ (k + 9)"
  shows "unat (tree_size_to_index sz) = 2 * k + of_bool (bit sz (k + 7))"
proof -
  let ?x = "drop_bit 8 sz"
  have ux: "unat ?x = unat sz div 256" by (simp add: unat_drop)
  have x: "2 ^ k \<le> unat ?x" "unat ?x < 2 ^ (k + 1)"
    using k(2,3) div_le_mono [of "2 ^ k * 256" "unat sz" 256]
    by (simp_all add: ux power_add less_mult_imp_div_less)
  have "(2::nat) ^ (k + 1) \<le> 2 ^ 16" using k(1) by (intro power_increasing) auto
  then have x16: "unat ?x < 2 ^ 16" using x(2) by simp
  have x1: "2 ^ 0 \<le> unat ?x" using x(1) by (metis le_trans one_le_power one_le_numeral power_0)
  define n1 where "n1 = drop_bit 16 (?x - 0x100) AND 8"
  define y1 where "y1 = push_bit (unat n1) ?x"
  define n2 where "n2 = drop_bit 16 (y1 - 0x1000) AND 4"
  define y2 where "y2 = push_bit (unat n2) y1"
  define n3 where "n3 = drop_bit 16 (y2 - 0x4000) AND 2"
  define y3 where "y3 = push_bit (unat n3) y2"
  have m: "(8 :: u32) AND 0xFFFF = 8" "(4 :: u32) AND 0xFFFF = 4" "(2 :: u32) AND 0xFFFF = 2" by code_simp+
  have 1: "unat y1 = unat ?x * 2 ^ unat n1" "2 ^ 8 \<le> unat y1" "unat y1 < 2 ^ 16" "unat n1 \<le> 8"
    using normalise_step [OF x1 x16, of 8 8 8] m by (simp_all add: n1_def y1_def)
  have 2: "unat y2 = unat y1 * 2 ^ unat n2" "2 ^ 12 \<le> unat y2" "unat y2 < 2 ^ 16" "unat n2 \<le> 4"
    using normalise_step [OF 1(2,3), of 12 4 4] m by (simp_all add: n2_def y2_def)
  have 3: "unat y3 = unat y2 * 2 ^ unat n3" "2 ^ 14 \<le> unat y3" "unat y3 < 2 ^ 16" "unat n3 \<le> 2"
    using normalise_step [OF 2(2,3), of 14 2 2] m by (simp_all add: n3_def y3_def)
  define t where "t = unat n1 + unat n2 + unat n3"
  have t: "t \<le> 14" "unat y3 = unat ?x * 2 ^ t" "n1 + n2 + n3 = of_nat t"
    using 1(1,4) 2(1,4) 3(1,4) by (simp_all add: t_def power_add)
  have lo: "2 ^ (k + t) \<le> unat y3" and hi: "unat y3 < 2 ^ (k + t + 1)"
    using x by (simp_all add: t(2) power_add)
  have "(2::nat) ^ (k + t) < 2 ^ 16" "(2::nat) ^ 14 < 2 ^ (k + t + 1)" using lo hi 3(2,3) by linarith+
  then have kt: "k + t < 16" "14 < k + t + 1" by (simp_all only: power_strict_increasing_iff one_less_numeral_iff semiring_norm)
  have d: "unat (drop_bit 15 y3) = k + t - 14"
  proof (cases "k + t = 15")
    case True
    then have "unat y3 div 2 ^ 15 = 1" using lo hi by (intro div_nat_eqI) simp_all
    then show ?thesis using True by (simp add: unat_drop)
  next
    case False
    then have "k + t = 14" using kt by simp
    then show ?thesis using hi by (simp add: unat_drop)
  qed
  have kk: "14 - (n1 + n2 + n3) + drop_bit 15 y3 = of_nat k"
  proof -
    have "drop_bit 15 y3 = of_nat (unat (drop_bit 15 y3))" by simp
    also have "\<dots> = of_nat (k + t - 14)" by (simp only: d)
    also have "\<dots> = of_nat k + of_nat t - 14" using kt by (simp add: of_nat_diff)
    finally show ?thesis by (simp add: t(3))
  qed
  have "?x \<noteq> 0" "\<not> 0xFFFF < ?x" using x1 x16 by (auto simp: word_less_nat_alt)
  then have "tree_size_to_index sz =
    (let k = 14 - (n1 + n2 + n3) + drop_bit 15 y3 in push_bit 1 k + (drop_bit (unat (k + 7)) sz AND 1))"
    unfolding y3_def n3_def y2_def n2_def y1_def n1_def tree_size_to_index_def Let_def by (simp only: if_False)
  then have e: "tree_size_to_index sz = push_bit 1 (of_nat k) + (drop_bit (unat (of_nat k + 7 :: u32)) sz AND 1)"
    by (simp only: kk Let_def)
  have "unat (of_nat k + 7 :: u32) = k + 7" using k(1) by (simp add: unat_word_ariths unat_of_nat_small)
  moreover have "drop_bit (k + 7) sz AND 1 = of_bool (bit sz (k + 7))"
    by (simp add: and_one_eq mod2_eq_if bit_iff_odd_drop_bit)
  moreover have "unat (push_bit 1 (of_nat k) + of_bool b :: u32) = 2 * k + of_bool b" for b
    using k(1) by (cases b) (simp_all add: unat_word_ariths unat_of_nat_small push_bit_eq_mult)
  ultimately show ?thesis by (simp add: e)
qed

lemma floor_log2_ex: "0 < (n::nat) \<Longrightarrow> \<exists>k. 2 ^ k \<le> n \<and> n < 2 ^ (k + 1)"
proof (induction n rule: less_induct)
  case (less n)
  show ?case
  proof (cases "n = 1")
    case True
    then show ?thesis by (intro exI [of _ 0]) simp
  next
    case False
    with less.prems have "n div 2 < n" "0 < n div 2" by simp_all
    from less.IH [OF this] obtain k where "2 ^ k \<le> n div 2" "n div 2 < 2 ^ (k + 1)" by blast
    then show ?thesis by (intro exI [of _ "k + 1"]) (simp, linarith)
  qed
qed

text \<open>The first size of the bin \<open>i\<close>.\<close>

definition bin_start :: "nat \<Rightarrow> nat" where
  "bin_start i = (if i = 0 then 0 else 2 ^ (i div 2 + 8) + (i mod 2) * 2 ^ (i div 2 + 7))"

text \<open>\<open>tree_size_to_index\<close> puts every size in one of 32 bins, which split each interval between
  two powers of two in halves: bin 0 is [0, 384), bin 31 is open at the top.\<close>

theorem tree_bins:
  "(let i = unat (tree_size_to_index sz) in
    i < 32 \<and> bin_start i \<le> unat sz \<and> unat sz < (if i < 31 then bin_start (i + 1) else 2 ^ 32))"
proof -
  consider "unat sz < 256" | "2 ^ 24 \<le> unat sz" | "256 \<le> unat sz" "unat sz < 2 ^ 24" by linarith
  then show ?thesis
  proof cases
    case 1
    then have "unat (drop_bit 8 sz) = 0" by (simp add: unat_drop)
    then have "drop_bit 8 sz = 0" by (simp only: unat_eq_zero)
    with 1 show ?thesis by (simp add: tree_size_to_index_def bin_start_def)
  next
    case 2
    then have "2 ^ 16 \<le> unat (drop_bit 8 sz)" using div_le_mono [OF 2, of 256] by (simp add: unat_drop)
    then have "0xFFFF < drop_bit 8 sz" "drop_bit 8 sz \<noteq> 0" by (auto simp: word_less_nat_alt)
    with 2 show ?thesis by (simp add: tree_size_to_index_def bin_start_def unat_less_2p32)
  next
    case 3
    then have "0 < unat sz div 256" by simp
    from floor_log2_ex [OF this] obtain k where k: "2 ^ k \<le> unat sz div 256" "unat sz div 256 < 2 ^ (k + 1)" by blast
    then have lo: "2 ^ (k + 8) \<le> unat sz" and hi: "unat sz < 2 ^ (k + 9)" by (simp_all add: power_add)
    have "(2::nat) ^ (k + 8) < 2 ^ 24" using lo 3(2) by linarith
    then have k16: "k < 16" by (simp only: power_strict_increasing_iff one_less_numeral_iff semiring_norm)
    define b where "b = bit sz (k + 7)"
    have i: "unat (tree_size_to_index sz) = 2 * k + of_bool b"
      unfolding b_def by (rule tree_size_to_index_bin [OF k16 lo hi])
    have w: "bit (unat sz) (k + 7) \<longleftrightarrow> bit sz (k + 7)" using k16 by (simp add: bit_unsigned_iff)
    let ?q = "unat sz div 2 ^ (k + 7)"
    have q: "?q = 2 \<or> ?q = 3"
    proof -
      have "2 * 2 ^ (k + 7) \<le> unat sz" "unat sz < 4 * 2 ^ (k + 7)" using lo hi by (simp_all add: power_add)
      then have "2 \<le> ?q" "?q < 4" by (simp_all add: less_eq_div_iff_mult_less_eq less_mult_imp_div_less)
      then show ?thesis by linarith
    qed
    have m: "?q * 2 ^ (k + 7) \<le> unat sz" "unat sz < (?q + 1) * 2 ^ (k + 7)"
      by (simp, simp add: dividend_less_div_times)
    have "b \<longleftrightarrow> odd ?q" unfolding b_def w [symmetric] by (simp add: bit_iff_odd)
    with q m have "b \<and> 3 * 2 ^ (k + 7) \<le> unat sz \<and> unat sz < 4 * 2 ^ (k + 7) \<or>
        \<not> b \<and> 2 * 2 ^ (k + 7) \<le> unat sz \<and> unat sz < 3 * 2 ^ (k + 7)"
      by (elim disjE) simp_all
    then show ?thesis
      using i k16 unat_less_2p32 [of sz] by (cases b) (auto simp: bin_start_def power_add Let_def)
  qed
qed

section \<open>The rings of small chunks\<close>

text \<open>
  The \<open>pFreeNext\<close> and \<open>pFreePrev\<close> words seen as the links of the list library.  Cells whose
  fields do not overlap are \<open>apart_cells\<close>; \<open>small_inv h Q\<close>: the 32 rings represent the lists
  \<open>Q\<close>, share no cell, and \<open>SameMap\<close> marks exactly the rings that are not empty.
\<close>

definition links :: "heap \<Rightarrow> list_head" where
  "links h = \<lparr>nxt = \<lambda>p. h (pFreeNext p), prv = \<lambda>p. h (pFreePrev p)\<rparr>"

lemma links_sel [simp]: "nxt (links h) p = h (p + 8)" "prv (links h) p = h (p + 12)"
  by (simp_all add: links_def)

definition apart_cells :: "addr set \<Rightarrow> bool" where
  "apart_cells S \<longleftrightarrow> (\<forall>a\<in>S. a + 8 \<noteq> SameMap \<and> a + 12 \<noteq> SameMap \<and> (\<forall>b\<in>S. a + 4 \<noteq> b))"

definition group_heads :: "addr set" where
  "group_heads = get_same_chunk_group ` {i. i < 32}"

definition cells :: "addr set \<Rightarrow> (addr \<Rightarrow> addr list) \<Rightarrow> addr set" where
  "cells H Q = (\<Union>h\<in>H. set (h # Q h))"

definition small_inv :: "heap \<Rightarrow> (addr \<Rightarrow> addr list) \<Rightarrow> bool" where
  "small_inv h Q \<longleftrightarrow> family dlist (links h) group_heads Q \<and> apart_cells (cells group_heads Q) \<and>
     (\<forall>i<32. bit (h SameMap) (unat i) \<longleftrightarrow> Q (get_same_chunk_group i) \<noteq> [])"

lemma apart_cells_word:
  "apart_cells S \<Longrightarrow> a \<in> S \<Longrightarrow> b \<in> S \<Longrightarrow> a + 8 \<noteq> b + 12 \<and> b + 12 \<noteq> a + 8 \<and> a + 8 \<noteq> SameMap \<and> a + 12 \<noteq> SameMap"
  by (auto simp: apart_cells_def algebra_simps)

lemma apart_cells_sub: "apart_cells S \<Longrightarrow> T \<subseteq> S \<Longrightarrow> apart_cells T"
  unfolding apart_cells_def by blast

lemma family_agree:
  assumes "\<And>x. x \<in> cells H Q \<Longrightarrow> nxt s' x = nxt s x \<and> prv s' x = prv s x"
  shows "family dlist s' H Q \<longleftrightarrow> family dlist s H Q"
proof -
  have "dlist s' h (Q h) \<longleftrightarrow> dlist s h (Q h)" if "h \<in> H" for h
    using that assms by (intro dlist_cong) (auto simp: cells_def)
  then show ?thesis by (simp add: family_def)
qed

lemma cellsI: "h \<in> H \<Longrightarrow> x = h \<or> x \<in> set (Q h) \<Longrightarrow> x \<in> cells H Q"
  by (auto simp: cells_def)

lemma group_inj: "i < 32 \<Longrightarrow> j < 32 \<Longrightarrow> get_same_chunk_group i = get_same_chunk_group j \<longleftrightarrow> i = j"
proof -
  assume ij: "i < 32" "j < 32"
  have u: "unat (4 * push_bit 1 k) = 8 * unat k" if "k < 32" for k :: u32
  proof -
    have "unat (push_bit 1 k) = unat k * 2" using that by (subst push_unat) (simp_all add: word_less_nat_alt)
    then show ?thesis using that unat_mult_lem [of 4 "push_bit 1 k"] by (simp add: word_less_nat_alt)
  qed
  have "get_same_chunk_group i = get_same_chunk_group j \<longleftrightarrow> 4 * push_bit 1 i = 4 * push_bit 1 j"
    by (simp only: get_same_chunk_group_def add_left_cancel)
  also have "\<dots> \<longleftrightarrow> 8 * unat i = 8 * unat j" by (simp only: word_unat_eq_iff u [OF ij(1)] u [OF ij(2)])
  finally show ?thesis by (simp add: word_unat_eq_iff)
qed

text \<open>The cell a list operation touches lies among the cells.\<close>

lemma small_inv_dlist:
  "small_inv h Q \<Longrightarrow> i < 32 \<Longrightarrow> dlist (links h) (get_same_chunk_group i) (Q (get_same_chunk_group i))"
  unfolding small_inv_def by (rule familyD) (auto simp: group_heads_def)

lemma insert_small_inv:
  assumes inv: "small_inv h Q" and i: "get_box_index sz < 32"
    and c: "c \<notin> cells group_heads Q" "apart_cells (insert c (cells group_heads Q))"
  defines "g \<equiv> get_same_chunk_group (get_box_index sz)"
  shows "small_inv (insert_small_chunk c sz h) (Q(g := c # Q g))"
proof -
  let ?Q = "Q(g := c # Q g)" and ?h = "insert_small_chunk c sz h"
  have g: "g \<in> group_heads" using i by (auto simp: g_def group_heads_def)
  have d: "dlist (links h) g (Q g)" using small_inv_dlist [OF inv i] by (simp add: g_def)
  have n: "h (g + 8) \<in> cells group_heads Q" using dlist_next_in [OF d, of g] g by (auto intro: cellsI)
  have gc: "g \<in> cells group_heads Q" using g by (auto intro: cellsI)
  let ?C = "insert c (cells group_heads Q)"
  have sub: "cells group_heads ?Q = ?C" using g by (auto simp: cells_def split: if_splits)
  have ap: "a + 8 \<noteq> b + 12" "b + 12 \<noteq> a + 8" "a + 8 \<noteq> SameMap" "a + 12 \<noteq> SameMap" if "a \<in> ?C" "b \<in> ?C" for a b
    using apart_cells_word [OF c(2) that] by blast+
  have "\<not> on_family group_heads Q c" "family dlist (links h) group_heads Q"
    using c(1) inv by (auto simp: on_family_def cells_def small_inv_def)
  from dl.family_add [OF this(2) g this(1)]
  have f: "family dlist (list_add c g (links h)) group_heads ?Q" .
  have cn: "c \<noteq> h (g + 8)" "c \<noteq> g" using c(1) n gc by auto
  have agree: "nxt (links ?h) x = nxt (list_add c g (links h)) x \<and> prv (links ?h) x = prv (list_add c g (links h)) x"
    if x: "x \<in> ?C" for x
  proof -
    have "c \<in> ?C" "g \<in> ?C" "h (g + 8) \<in> ?C" "x \<in> ?C" using gc n x by auto
    note A = ap [OF this(1,1)] ap [OF this(1,2)] ap [OF this(1,3)] ap [OF this(1,4)] ap [OF this(2,1)] ap [OF this(2,2)]
      ap [OF this(2,3)] ap [OF this(2,4)] ap [OF this(3,1)] ap [OF this(3,2)] ap [OF this(3,4)]
      ap [OF this(4,1)] ap [OF this(4,2)] ap [OF this(4,3)] ap [OF this(4,4)]
    show ?thesis
      using A cn by (simp add: insert_small_chunk_def Let_def g_def [symmetric] list_add_def list_add_between_def)
  qed
  have "family dlist (links ?h) group_heads ?Q"
    using f family_agree [of group_heads ?Q "links ?h" "list_add c g (links h)"] agree unfolding sub by blast
  moreover have "bit (?h SameMap) (unat j) \<longleftrightarrow> ?Q (get_same_chunk_group j) \<noteq> []" if j: "j < 32" for j
  proof -
    have u: "unat (get_box_index sz) < 32" using i by (simp add: word_less_nat_alt)
    have e: "?h SameMap = (if 0 = test_bit (h SameMap) (get_box_index sz)
        then h SameMap OR push_bit (unat (get_box_index sz)) 1 else h SameMap)"
      using ap(3,4) [of c c] ap(3,4) [of g g] ap(3,4) [of "h (g + 8)" g] gc n ap(1,2) [of g c] ap(1,2) [of g g] cn
      by (simp add: insert_small_chunk_def Let_def g_def [symmetric])
    have "bit (?h SameMap) (unat j) \<longleftrightarrow> bit (h SameMap) (unat j) \<or> j = get_box_index sz"
      using bit_test_bit_iff [of "h SameMap" "get_box_index sz"] bit_or_flag [OF u, of "h SameMap" "unat j"]
      by (auto simp: e word_unat_eq_iff)
    moreover have "bit (h SameMap) (unat j) \<longleftrightarrow> Q (get_same_chunk_group j) \<noteq> []"
      using inv j by (simp add: small_inv_def)
    ultimately show ?thesis using group_inj [OF j i] by (auto simp: g_def)
  qed
  ultimately show ?thesis using c(2) by (simp add: small_inv_def sub)
qed

text \<open>
  Taking a chunk out of a ring, which \<open>unlink_small_chunk\<close> does to any chunk and
  \<open>checkout_small_chunk_in_group\<close> to the first.
\<close>

definition small_remove :: "addr \<Rightarrow> u32 \<Rightarrow> heap \<Rightarrow> heap" where
  "small_remove c i h =
     (let h' = (if h (pFreeNext c) = h (pFreePrev c)
               then h(SameMap := h SameMap AND NOT (push_bit (unat i) 1)) else h)
      in h'(pFreePrev (h (pFreeNext c)) := h (pFreePrev c), pFreeNext (h (pFreePrev c)) := h (pFreeNext c)))"

lemma unlink_small_remove: "unlink_small_chunk c sz h = small_remove c (get_box_index sz) h"
  by (simp add: unlink_small_chunk_def small_remove_def Let_def)

lemma dlist_neighbours_eq:
  assumes d: "dlist s g xs" and c: "c \<in> set xs"
  shows "nxt s c = prv s c \<longleftrightarrow> xs = [c]"
proof -
  obtain us vs where x: "xs = us @ c # vs" using c by (auto simp: in_set_conv_decomp)
  have n: "nxt s c = hd (vs @ [g])" and p: "prv s c = last (g # us)"
    using d seg_next [of "nxt s" "prv s" c vs g] seg_prev [of "nxt s" "prv s" g us c]
    by (simp_all add: dlist_def x seg_append)
  have "distinct (g # us @ c # vs)" using d by (simp add: dlist_def x)
  then show ?thesis by (cases us rule: rev_cases; cases vs) (auto simp: n p x)
qed

lemma small_remove_inv:
  assumes inv: "small_inv h Q" and i: "i < 32"
  defines "g \<equiv> get_same_chunk_group i"
  assumes c: "c \<in> set (Q g)"
  shows "small_inv (small_remove c i h) (Q(g := remove1 c (Q g)))"
proof -
  let ?Q = "Q(g := remove1 c (Q g))" and ?h = "small_remove c i h" and ?C = "cells group_heads Q"
  have g: "g \<in> group_heads" using i by (auto simp: g_def group_heads_def)
  have d: "dlist (links h) g (Q g)" using small_inv_dlist [OF inv i] by (simp add: g_def)
  have in_cells: "x \<in> ?C" if "x \<in> set (g # Q g)" for x using that g by (auto intro: cellsI)
  have n: "h (c + 8) \<in> ?C" "h (c + 12) \<in> ?C" "c \<in> ?C" "g \<in> ?C"
    using dlist_next_in [OF d, of c] dlist_prev_in [OF d, of c] c by (auto intro!: in_cells)
  have apC: "apart_cells ?C" using inv by (simp add: small_inv_def)
  note ap = apart_cells_word [OF apC]
  have fam: "family dlist (links h) group_heads Q" using inv by (simp add: small_inv_def)
  note del = dl.family_del [OF fam g c]
  have sub: "cells group_heads ?Q \<subseteq> ?C" using set_remove1_subset [of c "Q g"] by (auto simp: cells_def split: if_splits)
  have nc: "c \<notin> cells group_heads ?Q" using del(2) by (simp add: on_family_def cells_def)
  have agree: "nxt (links ?h) x = nxt (list_del c (links h)) x \<and> prv (links ?h) x = prv (list_del c (links h)) x"
    if x: "x \<in> cells group_heads ?Q" for x
  proof -
    have "x \<in> ?C" "x \<noteq> c" using x sub nc by auto
    then show ?thesis
      using ap [OF \<open>x \<in> ?C\<close> n(1)] ap [OF \<open>x \<in> ?C\<close> n(2)] ap [OF n(1) \<open>x \<in> ?C\<close>] ap [OF n(2) \<open>x \<in> ?C\<close>] ap [OF n(1,2)] ap [OF n(2,1)]
        ap [OF n(1,3)] ap [OF n(2,3)] ap [OF n(3,1)] ap [OF n(3,2)]
      by (simp add: small_remove_def Let_def list_del_def list_del_between_def)
  qed
  have "family dlist (links ?h) group_heads ?Q"
    using del(1) family_agree [of group_heads ?Q "links ?h" "list_del c (links h)"] agree by blast
  moreover have "bit (?h SameMap) (unat j) \<longleftrightarrow> ?Q (get_same_chunk_group j) \<noteq> []" if j: "j < 32" for j
  proof -
    have q: "h (c + 8) = h (c + 12) \<longleftrightarrow> Q g = [c]" using dlist_neighbours_eq [OF d c] by simp
    have e: "?h SameMap = (if Q g = [c] then h SameMap AND NOT (push_bit (unat i) 1) else h SameMap)"
      using ap [OF n(1,1)] ap [OF n(2,2)]
      by (simp add: small_remove_def Let_def q eq_commute [of SameMap "h (c + 8) + 12"] eq_commute [of SameMap "h (c + 12) + 8"])
    have b: "bit (h SameMap) (unat j) \<longleftrightarrow> Q (get_same_chunk_group j) \<noteq> []" using inv j by (simp add: small_inv_def)
    have "remove1 c (Q g) = [] \<longleftrightarrow> Q g = [c]" using c by (cases "Q g") auto
    then show ?thesis
      using b bit_and_not_flag [of "h SameMap" "unat i" "unat j"]
      by (auto simp: e g_def group_inj [OF j i] word_unat_eq_iff [symmetric])
  qed
  ultimately show ?thesis using apart_cells_sub [OF apC sub] by (simp add: small_inv_def)
qed

lemma checkout_small_remove:
  assumes inv: "small_inv h Q" and i: "i < 32"
  defines "g \<equiv> get_same_chunk_group i"
  assumes c: "Q g = c # cs"
  shows "checkout_small_chunk_in_group g i h = (c, small_remove c i h)"
proof -
  have g: "g \<in> group_heads" using i by (auto simp: g_def group_heads_def)
  have d: "dlist (links h) g (c # cs)" using small_inv_dlist [OF inv i] c by (simp add: g_def)
  have p: "h (g + 8) = c" "h (c + 12) = g" using d by (simp_all add: dlist_def)
  have n: "h (c + 8) \<in> cells group_heads Q" "g \<in> cells group_heads Q"
    using dlist_next_in [OF d, of c] g c by (auto intro: cellsI)
  have "apart_cells (cells group_heads Q)" using inv by (simp add: small_inv_def)
  from apart_cells_word [OF this n(2,1)] have "g + 8 \<noteq> h (c + 8) + 12" by simp
  then show ?thesis
    using p by (auto simp: checkout_small_chunk_in_group_def small_remove_def Let_def fun_upd_twist)
qed

text \<open>The rings that \<open>mallocor_setup\<close> makes.\<close>

lemma group_unat: "i < 32 \<Longrightarrow> get_same_chunk_group (of_nat i) = Mallocor + 8 + of_nat (8 * i)"
  by (simp add: get_same_chunk_group_def push_bit_eq_mult)

lemma small_offsets:
  assumes "i < 32" "j < 32"
  shows "get_same_chunk_group (of_nat i) + 8 \<noteq> get_same_chunk_group (of_nat j) + 12"
    and "get_same_chunk_group (of_nat i) + 12 \<noteq> get_same_chunk_group (of_nat j) + 8"
    and "get_same_chunk_group (of_nat i) + 8 = get_same_chunk_group (of_nat j) + 8 \<longleftrightarrow> i = j"
    and "get_same_chunk_group (of_nat i) + 4 \<noteq> get_same_chunk_group (of_nat j)"
    and "get_same_chunk_group (of_nat i) + 8 \<noteq> SameMap" "get_same_chunk_group (of_nat i) + 12 \<noteq> SameMap"
proof -
  have inj: "of_nat a = (of_nat b :: addr) \<longleftrightarrow> a = b" if "a < 2 ^ 32" "b < 2 ^ 32" for a b
    using that by (metis unat_of_nat_small)
  have e: "get_same_chunk_group (of_nat i) + of_nat k = Mallocor + 8 + of_nat (8 * i + k)"
    "get_same_chunk_group (of_nat j) + of_nat k = Mallocor + 8 + of_nat (8 * j + k)" for k
    using assms by (simp_all add: group_unat)
  have ne: "8 * i + 8 \<noteq> 8 * j + 12" "8 * i + 12 \<noteq> 8 * j + 8" "8 * i + 4 \<noteq> 8 * j + 0" by presburger+
  have b: "8 * i + 12 < 2 ^ 32" "8 * j + 12 < 2 ^ 32" using assms by simp_all
  show "get_same_chunk_group (of_nat i) + 8 \<noteq> get_same_chunk_group (of_nat j) + 12"
    using inj [of "8 * i + 8" "8 * j + 12"] ne b e(1) [of 8] e(2) [of 12] by simp
  show "get_same_chunk_group (of_nat i) + 12 \<noteq> get_same_chunk_group (of_nat j) + 8"
    using inj [of "8 * i + 12" "8 * j + 8"] ne b e(1) [of 12] e(2) [of 8] by simp
  show "get_same_chunk_group (of_nat i) + 8 = get_same_chunk_group (of_nat j) + 8 \<longleftrightarrow> i = j"
    using inj [of "8 * i + 8" "8 * j + 8"] b e(1) [of 8] e(2) [of 8] by simp
  show "get_same_chunk_group (of_nat i) + 4 \<noteq> get_same_chunk_group (of_nat j)"
    using inj [of "8 * i + 4" "8 * j + 0"] ne b e(1) [of 4] e(2) [of 0] by (simp add: add_ac)
  show "get_same_chunk_group (of_nat i) + 8 \<noteq> SameMap"
    using inj [of "8 * i + 16" 0] assms(1) e(1) [of 8] by (simp add: SameMap_def add_ac)
  show "get_same_chunk_group (of_nat i) + 12 \<noteq> SameMap"
    using inj [of "8 * i + 20" 0] assms(1) e(1) [of 12] by (simp add: SameMap_def add_ac)
qed

lemma init_groups_upto:
  fixes h :: heap
  assumes "n \<le> 32"
  defines "h' \<equiv> fold (\<lambda>i h. let pChunk = get_same_chunk_group (of_nat i); h = h(pFreeNext pChunk := pChunk)
     in h(pFreePrev pChunk := pChunk)) [0..<n] h"
  shows "h' SameMap = h SameMap \<and> (\<forall>i<n. h' (get_same_chunk_group (of_nat i) + 8) = get_same_chunk_group (of_nat i) \<and>
    h' (get_same_chunk_group (of_nat i) + 12) = get_same_chunk_group (of_nat i))"
  using assms(1) unfolding h'_def
proof (induction n)
  case (Suc n)
  have ne: "get_same_chunk_group (of_nat i) + 12 \<noteq> get_same_chunk_group (of_nat n) + 12" if "i < n" for i
    using small_offsets(3) [of i n] that Suc.prems by auto
  show ?case
    using Suc small_offsets [of n n] small_offsets(1-3) [of _ n] small_offsets(1) [of n _] ne
    by (auto simp: Let_def less_Suc_eq)
qed simp

lemma clear_mallocor_upto:
  "k < n \<Longrightarrow> fold (\<lambda>i h. h(Mallocor + 4 * of_nat i := 0)) [0..<n] h (Mallocor + 4 * of_nat k) = 0"
  by (induction n) (auto simp: less_Suc_eq)

lemma clear_SameMap: "clear_mallocor h SameMap = 0" "clear_mallocor h TreeMap = 0"
  using clear_mallocor_upto [of 0 100 h] clear_mallocor_upto [of 1 100 h]
  by (simp_all add: clear_mallocor_def SameMap_def TreeMap_def)

lemma group_heads_ex: "g \<in> group_heads \<Longrightarrow> \<exists>k<32. g = get_same_chunk_group (of_nat k)"
  unfolding group_heads_def
proof (elim imageE, intro exI conjI)
  fix i :: u32 assume "g = get_same_chunk_group i" "i \<in> {i. i < 32}"
  then show "unat i < 32" "g = get_same_chunk_group (of_nat (unat i))" by (simp_all add: word_less_nat_alt)
qed

lemma init_groups_inv: "small_inv (init_groups (clear_mallocor h)) (\<lambda>_. [])"
proof -
  let ?h = "init_groups (clear_mallocor h)"
  note u = init_groups_upto [of 32 "clear_mallocor h", folded init_groups_def, simplified]
  have "dlist (links ?h) g []" if "g \<in> group_heads" for g
    using group_heads_ex [OF that] u by (auto simp: dlist_def)
  moreover have "apart_cells group_heads"
    unfolding apart_cells_def
  proof (intro ballI conjI)
    fix a b assume "a \<in> group_heads" "b \<in> group_heads"
    then obtain k l where "k < 32" "l < 32" "a = get_same_chunk_group (of_nat k)" "b = get_same_chunk_group (of_nat l)"
      by (elim group_heads_ex [THEN exE]) blast
    then show "a + 8 \<noteq> SameMap" "a + 12 \<noteq> SameMap" "a + 4 \<noteq> b" using small_offsets [of k l] by simp_all
  qed
  moreover have "set (a # []) \<inter> set (b # []) = {}" if "a \<noteq> b" for a b :: addr using that by simp
  moreover have "\<not> bit (?h SameMap) n" for n using u clear_SameMap by simp
  ultimately show ?thesis by (simp add: small_inv_def family_def cells_def)
qed

section \<open>Properties\<close>

text \<open>the rings of small chunks stay well formed, apart and in step with \<open>SameMap\<close> under each of
  the three operations: \<open>insert_small_chunk\<close> puts a chunk at the front of the ring of its size,
  \<open>unlink_small_chunk\<close> takes any chunk out of its ring, and \<open>checkout_small_chunk_in_group\<close>
  returns the first chunk of a ring that is not empty and takes it out.\<close>

theorem small_rings:
  assumes "small_inv h Q" "get_box_index sz < 32"
  defines "g \<equiv> get_same_chunk_group (get_box_index sz)"
  shows "(c \<notin> cells group_heads Q \<and> apart_cells (insert c (cells group_heads Q)) \<longrightarrow>
      small_inv (insert_small_chunk c sz h) (Q(g := c # Q g))) \<and>
    (c \<in> set (Q g) \<longrightarrow> small_inv (unlink_small_chunk c sz h) (Q(g := remove1 c (Q g)))) \<and>
    (Q g = c # cs \<longrightarrow> (case checkout_small_chunk_in_group g (get_box_index sz) h of (d, h') \<Rightarrow>
      d = c \<and> small_inv h' (Q(g := cs))))"
proof (intro conjI impI)
  assume "c \<notin> cells group_heads Q \<and> apart_cells (insert c (cells group_heads Q))"
  then show "small_inv (insert_small_chunk c sz h) (Q(g := c # Q g))"
    unfolding g_def by (intro insert_small_inv [OF assms(1,2)]) simp_all
next
  assume "c \<in> set (Q g)"
  then show "small_inv (unlink_small_chunk c sz h) (Q(g := remove1 c (Q g)))"
    unfolding g_def unlink_small_remove by (rule small_remove_inv [OF assms(1,2)])
next
  assume c: "Q g = c # cs"
  then show "case checkout_small_chunk_in_group g (get_box_index sz) h of (d, h') \<Rightarrow> d = c \<and> small_inv h' (Q(g := cs))"
    using checkout_small_remove [OF assms(1,2), folded g_def, of c cs, OF c]
      small_remove_inv [OF assms(1,2), folded g_def, of c] by simp
qed

theorem small_rings_witness:
  "(let h = insert_small_chunk 0x10000800 40 (init_groups (clear_mallocor (\<lambda>_. 0))) in
    fst (checkout_small_chunk_in_group (get_same_chunk_group 4) 4 h) = 0x10000800)"
proof -
  let ?h0 = "init_groups (clear_mallocor (\<lambda>_. 0))" and ?g = "get_same_chunk_group 4"
  have b: "get_box_index 40 = 4" by (simp add: get_box_index_def) 
  have r: "0x2007f000 \<le> g \<and> g \<le> 0x2007f100" if "g \<in> group_heads" for g
  proof -
    from group_heads_ex [OF that] obtain k where k: "k < 32" "g = Mallocor + 8 + of_nat (8 * k)"
      by (auto simp: group_unat)
    have "unat g = 0x2007f000 + 8 * k"
      using k by (simp add: Mallocor_def unat_word_ariths unat_of_nat_small)
    then show ?thesis using k(1) by (simp add: word_le_nat_alt)
  qed
  have c: "cells group_heads (\<lambda>_. []) = group_heads" by (auto simp: cells_def)
  have n: "0x10000800 \<notin> group_heads" using r [of "0x10000800"] by (auto simp: word_le_nat_alt)
  have "apart_cells group_heads" using init_groups_inv [of "\<lambda>_. 0"] by (simp add: small_inv_def c)
  then have "apart_cells (insert 0x10000800 group_heads)"
    using r [of "0x10000804"] r [of "0x100007fc"]
    by (auto simp: apart_cells_def SameMap_def Mallocor_def eq_diff_eq [symmetric] word_le_nat_alt)
  then have i: "small_inv (insert_small_chunk 0x10000800 40 ?h0) ((\<lambda>_. [])(?g := [0x10000800]))"
    using small_rings [OF init_groups_inv, of 40 "0x10000800" "\<lambda>_. 0"] n by (simp add: b c)
  show ?thesis
    using small_rings [OF i, of 40 "0x10000800" "[]"] by (simp add: b split_beta Let_def)
qed

section \<open>Boundary tags\<close>

text \<open>
  A pool is a row of chunks, each with its size and state in its own header and in the
  \<open>PrevInfo\<close> of the next, closed by a header that is marked as used and has size 0.
  \<open>tags h p w cs\<close>: the chunks \<open>cs\<close> start at \<open>p\<close>, where \<open>PrevInfo\<close> is \<open>w\<close>.
\<close>

type_synonym chunk = "u32 \<times> bool"

definition info :: "chunk \<Rightarrow> u32" where
  "info c = fst c OR of_bool (snd c)"

fun pool_size :: "chunk list \<Rightarrow> nat" where
  "pool_size [] = 0"
| "pool_size (c # cs) = unat (fst c) + pool_size cs"

fun tags_seg :: "heap \<Rightarrow> addr \<Rightarrow> u32 \<Rightarrow> chunk list \<Rightarrow> addr \<Rightarrow> u32 \<Rightarrow> bool" where
  "tags_seg h p w [] q v \<longleftrightarrow> p = q \<and> w = v"
| "tags_seg h p w (c # cs) q v \<longleftrightarrow>
     h (PrevInfo p) = w \<and> h (ThisInfo p) = info c \<and> 16 \<le> fst c \<and> tags_seg h (p + fst c) (info c) cs q v"

definition row :: "heap \<Rightarrow> addr \<Rightarrow> u32 \<Rightarrow> chunk list \<Rightarrow> bool" where
  "row h p w cs \<longleftrightarrow> (\<exists>q v. tags_seg h p w cs q v \<and> h (PrevInfo q) = v \<and> h (ThisInfo q) = USED)"

definition tags :: "heap \<Rightarrow> addr \<Rightarrow> u32 \<Rightarrow> chunk list \<Rightarrow> bool" where
  "tags h p w cs \<longleftrightarrow> unat p + pool_size cs + 8 \<le> 2 ^ 32 \<and> row h p w cs"

lemma tags_seg_append:
  "tags_seg h p w (us @ vs) q v \<longleftrightarrow> (\<exists>r x. tags_seg h p w us r x \<and> tags_seg h r x vs q v)"
  by (induction us arbitrary: p w) auto

lemma tags_seg_end:
  "tags_seg h p w cs q v \<Longrightarrow> unat p + pool_size cs < 2 ^ 32 \<Longrightarrow> unat q = unat p + pool_size cs"
proof (induction cs arbitrary: p w)
  case (Cons c cs)
  have "unat (p + fst c) = unat p + unat (fst c)" using Cons.prems(2) unat_add_lem [of p "fst c"] by simp
  then show ?case using Cons.IH [of "p + fst c" "info c"] Cons.prems by simp
qed simp

text \<open>A write below a row or above it does not touch its headers.\<close>

lemma tags_seg_upd:
  "tags_seg h p w cs q v \<Longrightarrow> unat p + pool_size cs < 2 ^ 32 \<Longrightarrow> unat a < unat p \<or> unat p + pool_size cs \<le> unat a \<Longrightarrow>
   tags_seg (h(a := x)) p w cs q v"
proof (induction cs arbitrary: p w)
  case (Cons c cs)
  have c: "16 \<le> unat (fst c)" using Cons.prems(1) by (simp add: word_le_nat_alt)
  have e: "unat (p + fst c) = unat p + unat (fst c)" "unat (p + 4) = unat p + 4"
    using Cons.prems(2) c unat_add_lem [of p "fst c"] unat_add_lem [of p 4] by simp_all
  have "p \<noteq> a" "p + 4 \<noteq> a" using e Cons.prems(3) c by auto
  moreover have "tags_seg (h(a := x)) (p + fst c) (info c) cs q v"
    using Cons.prems e by (intro Cons.IH) auto
  moreover have "(h(a := x)) p = h p" "(h(a := x)) (p + 4) = h (p + 4)"
    using \<open>p \<noteq> a\<close> \<open>p + 4 \<noteq> a\<close> by simp_all
  ultimately show ?case using Cons.prems(1) by (simp only: tags_seg.simps)
qed simp

text \<open>Rewriting the first \<open>PrevInfo\<close> of a row, and a word below it.\<close>

lemma row_prev:
  assumes "row h p w vs" "unat p + pool_size vs + 8 \<le> 2 ^ 32"
  shows "row (h(p := x)) p x vs"
proof -
  obtain q v where r: "tags_seg h p w vs q v" "h q = v" "h (q + 4) = USED" using assms(1) by (auto simp: row_def)
  show ?thesis
  proof (cases vs)
    case Nil
    then show ?thesis using r by (auto simp: row_def)
  next
    case (Cons c cs)
    have c: "16 \<le> unat (fst c)" using r(1) by (simp add: Cons word_le_nat_alt)
    have b: "unat p + unat (fst c) + pool_size cs + 8 \<le> 2 ^ 32" using assms(2) by (simp add: Cons)
    have e: "unat (p + fst c) = unat p + unat (fst c)" "unat (p + 4) = unat p + 4"
      using b c unat_add_lem [of p "fst c"] unat_add_lem [of p 4] by simp_all
    have s: "tags_seg h (p + fst c) (info c) cs q v" using r(1) by (simp add: Cons)
    have q: "unat q = unat (p + fst c) + pool_size cs" using tags_seg_end [OF s] b e by simp
    then have q4: "unat (q + 4) = unat q + 4" using b e unat_add_lem [of q 4] by simp
    have "tags_seg (h(p := x)) (p + fst c) (info c) cs q v"
      using tags_seg_upd [OF s, of p x] b e c by simp
    moreover have "p \<noteq> p + 4" "q \<noteq> p" "q + 4 \<noteq> p" using e(2) q q4 e(1) c by auto
    ultimately show ?thesis using r by (auto simp: Cons row_def)
  qed
qed

lemma row_upd:
  assumes "row h p w vs" "unat p + pool_size vs + 8 \<le> 2 ^ 32" "unat a < unat p"
  shows "row (h(a := x)) p w vs"
proof -
  obtain q v where r: "tags_seg h p w vs q v" "h q = v" "h (q + 4) = USED" using assms(1) by (auto simp: row_def)
  have q: "unat q = unat p + pool_size vs" using tags_seg_end [OF r(1)] assms(2) by simp
  then have "unat (q + 4) = unat q + 4" using assms(2) unat_add_lem [of q 4] by simp
  then have "q \<noteq> a" "q + 4 \<noteq> a" using q assms(3) by auto
  moreover have "tags_seg (h(a := x)) p w vs q v" using tags_seg_upd [OF r(1)] assms(2,3) by simp
  ultimately show ?thesis using r by (auto simp: row_def)
qed

lemma row_append:
  "row h p w (us @ vs) \<longleftrightarrow> (\<exists>r x. tags_seg h p w us r x \<and> row h r x vs)"
  by (auto simp: row_def tags_seg_append)

lemma row_Cons:
  "row h p w (c # cs) \<longleftrightarrow> h p = w \<and> h (p + 4) = info c \<and> 16 \<le> fst c \<and> row h (p + fst c) (info c) cs"
  by (auto simp: row_def)

lemma pool_size_append [simp]: "pool_size (us @ vs) = pool_size us + pool_size vs"
  by (induction us) simp_all

text \<open>\<open>splite_free_chunk\<close> cuts a free chunk of a pool into a used chunk of the requested size and
  a free rest, which it returns, or, when the rest would be smaller than a header of 16 bytes, marks
  the chunk as used as a whole; the headers of all chunks of the pool stay consistent and no byte is
  lost.\<close>

theorem splite_keeps_tags:
  assumes "tags h p w (us @ (sz, False) # vs)" "16 \<le> n" "n \<le> sz"
  defines "c \<equiv> p + of_nat (pool_size us)"
  defines "ws \<equiv> (if sz - n < 16 then [(sz, True)] else [(n, True), (sz - n, False)])"
  shows "(case splite_free_chunk c n h of (r, h') \<Rightarrow>
      r = (if sz - n < 16 then NULL else c + n) \<and> tags h' p w (us @ ws @ vs)) \<and>
    pool_size (us @ ws @ vs) = pool_size (us @ (sz, False) # vs)"
proof -
  obtain c' x where t: "tags_seg h p w us c' x" "h c' = x" "h (c' + 4) = sz" "16 \<le> sz" "row h (c' + sz) sz vs"
    and b: "unat p + pool_size us + unat sz + pool_size vs + 8 \<le> 2 ^ 32"
    using assms(1) by (auto simp: tags_def row_append row_Cons info_def)
  have uc': "unat c' = unat p + pool_size us" using tags_seg_end [OF t(1)] b by simp
  then have "c' = c" using b by (simp add: c_def word_unat_eq_iff unat_word_ariths unat_of_nat take_bit_nat_eq_self)
  note t = t [unfolded this] and uc = uc' [unfolded this]
  have nn: "16 \<le> unat n" "unat n \<le> unat sz" using assms(2,3) by (simp_all add: word_le_nat_alt)
  have e: "unat (c + 4) = unat c + 4" "unat (c + sz) = unat c + unat sz" "unat (c + n) = unat c + unat n"
    "unat (c + n + 4) = unat c + unat n + 4"
    using b uc nn unat_add_lem [of c 4] unat_add_lem [of c sz] unat_add_lem [of c n] unat_add_lem [of "c + n" 4]
    by simp_all
  have sub: "unat (sz - n) = unat sz - unat n" using assms(3) by (simp add: unat_sub)
  have bv: "unat (c + sz) + pool_size vs + 8 \<le> 2 ^ 32" using b uc e by simp
  note upd = tags_seg_upd [where p = p and w = w and cs = us and q = c and v = x]
  have s16: "sz - n < 16 \<longleftrightarrow> unat sz - unat n < 16" by (simp add: word_less_nat_alt sub)
  show ?thesis
  proof (cases "sz - n < 16")
    case True
    let ?h = "h(c + sz := sz OR 1, c + 4 := sz OR 1)"
    have "tags_seg ?h p w us c x" using t(1) b uc e by (intro upd) auto
    moreover have "row ?h (c + sz) (sz OR 1) vs"
      using row_upd [OF row_prev [OF t(5) bv] bv] e nn by simp
    moreover have "c \<noteq> c + sz" "c \<noteq> c + 4" "c + sz \<noteq> c + 4" using e nn by auto
    moreover have "?h c = x" "?h (c + 4) = sz OR 1" using t(2) \<open>c \<noteq> c + sz\<close> by simp_all
    ultimately have "row ?h c x ([(sz, True)] @ vs)" using t(4) by (simp add: row_Cons info_def)
    with \<open>tags_seg ?h p w us c x\<close> have "tags ?h p w (us @ [(sz, True)] @ vs)"
      using b unfolding tags_def row_append by auto
    then show ?thesis using True t(3) by (simp add: splite_free_chunk_def ws_def Let_def)
  next
    case False
    let ?h0 = "h(c + sz := sz - n)"
    let ?h = "?h0(c + n := n OR 1, c + 4 := n OR 1, c + n + 4 := sz - n)"
    have rest: "16 \<le> unat sz - unat n" using False s16 by simp
    have ne: "c + sz \<noteq> c + n" "c + sz \<noteq> c + 4" "c + sz \<noteq> c + n + 4" "c + n \<noteq> c + 4" "c + n \<noteq> c + n + 4"
      "c + 4 \<noteq> c + n + 4" "c \<noteq> c + sz" "c \<noteq> c + 4" "c \<noteq> c + n" "c \<noteq> c + n + 4"
      using e nn rest by (auto simp: word_unat_eq_iff)
    have "splite_free_chunk c n h = (c + n, ?h)"
      using False t(3) ne by (simp add: splite_free_chunk_def Let_def fun_upd_twist)
    moreover have "tags_seg ?h p w us c x" using t(1) b uc e by (intro upd) auto
    moreover have "row ?h (c + sz) (sz - n) vs"
      using e nn rest by (intro row_upd row_prev [OF t(5) bv] bv) auto
    moreover have "c + n + (sz - n) = c + sz" by simp
    moreover have "16 \<le> sz - n" using rest by (simp add: word_le_nat_alt sub)
    moreover have "?h c = x" "?h (c + 4) = n OR 1" "?h (c + n) = n OR 1" "?h (c + n + 4) = sz - n"
      using ne t(2) by simp_all
    ultimately have "row ?h c x ([(n, True), (sz - n, False)] @ vs)"
      using assms(2) by (simp add: row_Cons info_def)
    with \<open>tags_seg ?h p w us c x\<close> have "row ?h p w (us @ [(n, True), (sz - n, False)] @ vs)"
      unfolding row_append by blast
    then show ?thesis
      using b nn \<open>splite_free_chunk c n h = (c + n, ?h)\<close> False by (simp add: tags_def ws_def sub)
  qed
qed

theorem splite_keeps_tags_witness:
  "(let h = (\<lambda>_. 0)(0x1000 := 1, 0x1004 := 64, 0x1040 := 64, 0x1044 := 1) in
    case splite_free_chunk 0x1000 40 h of (r, h') \<Rightarrow> r = 0x1028 \<and> tags h' 0x1000 1 [(40, True), (24, False)])"
proof -
  let ?h = "(\<lambda>_. 0)(0x1000 := 1, 0x1004 := 64, 0x1040 := 64, 0x1044 := 1) :: heap"
  have "tags ?h 0x1000 1 ([] @ (64, False) # [])" by (simp add: tags_def row_def info_def)
  from splite_keeps_tags [OF this, of 40] show ?thesis by (simp add: Let_def)
qed

section \<open>The access lock\<close>

lemma hmem_frame [simp]:
  "hmem (vivify_thread t p s) = hmem s" "hmem (activate_thread t p s) = hmem s" "hmem (list_add x h s) = hmem s"
  "hmem (OS_thread_switch s) = hmem s" "hmem (scheduler s) = hmem s" "hmem (list_del x s) = hmem s"
  by (simp_all add: vivify_thread_def activate_thread_def ring_simps OS_thread_switch_def scheduler_def write_dword_def)

lemma Lock_nonzero [simp]: "Lock \<noteq> 0"
  by (simp add: Lock_def)

lemma lock_taken:
  "Counter s Lock = 0 \<Longrightarrow> \<exists>s'. semaphore_wait Lock 0 s = Some (Switched, s') \<and> hmem s' = hmem s \<and> Counter s' Lock = 0"
  by (simp add: semaphore_wait_def Let_def atom_operate_lock_def atom_operate_unlock_def)

lemma lock_free:
  "Counter s Lock \<noteq> 0 \<Longrightarrow> \<exists>s'. semaphore_wait Lock 0 s = Some (Returned OK, s') \<and> hmem s' = hmem s \<and>
     Counter s' Lock = Counter s Lock - 1"
  by (simp add: semaphore_wait_def Let_def atom_operate_lock_def atom_operate_unlock_def)

lemma post_lock: "hmem (snd (semaphore_post Lock s)) = hmem s"
    "Counter (snd (semaphore_post Lock s)) Lock = Counter s Lock + 1"
  by (simp_all add: semaphore_post_def Let_def atom_operate_lock_def atom_operate_unlock_def)

text \<open>C13: \<open>malloc\<close> and \<open>free\<close> work on the chunks only under the access lock: when it is taken they
  suspend the caller and leave memory as it is, otherwise whatever they do to memory is what
  \<open>malloc_locked\<close> and \<open>free_locked\<close> do, and the lock has its old count when they return.\<close>

theorem allocator_lock:
  assumes "p \<noteq> NULL"
  shows "if Counter s Lock = 0 then
      (\<exists>s'. malloc sz s = Some (Switched, s') \<and> hmem s' = hmem s \<and> Counter s' Lock = 0) \<and>
      (\<exists>s'. free p s = Some (Switched, s') \<and> hmem s' = hmem s \<and> Counter s' Lock = 0)
    else
      (case malloc_locked sz (hmem s) of
         None \<Rightarrow> malloc sz s = None
       | Some (c, h) \<Rightarrow> \<exists>s'. malloc sz s = Some (Returned (chunk_to_memeory c), s') \<and> hmem s' = h \<and>
           Counter s' Lock = Counter s Lock) \<and>
      (case free_locked p (hmem s) of
         None \<Rightarrow> free p s = None
       | Some h \<Rightarrow> \<exists>s'. free p s = Some (Returned (), s') \<and> hmem s' = h \<and> Counter s' Lock = Counter s Lock)"
proof (cases "Counter s Lock = 0")
  case True
  then show ?thesis using lock_taken [OF True] assms by (auto simp: malloc_def free_def)
next
  case False
  from lock_free [OF False] obtain s1 where s1: "semaphore_wait Lock 0 s = Some (Returned OK, s1)" "hmem s1 = hmem s"
    "Counter s1 Lock = Counter s Lock - 1" by blast
  show ?thesis
    using False assms post_lock [of "s1\<lparr>hmem := h\<rparr>" for h]
    by (auto simp: malloc_def free_def malloc_rest_def free_rest_def s1 split_beta split: option.splits)
qed

definition sample_heap :: mallocor where
  "sample_heap = two_threads (semaphore_ext (\<lambda>_. 0)
     (mailbox_ext (\<lambda>_. 0) (\<lambda>_. 0) (\<lambda>_. 0) (\<lambda>_. 0) (\<lambda>_ _. 0)
     (pipe_ext (\<lambda>_. 0) (\<lambda>_. 0) (\<lambda>_. 0) (\<lambda>_. 0) (\<lambda>_. 0) (\<lambda>_. 0) (\<lambda>_. 0) (mallocor_ext (\<lambda>_. 0) ()))))"

theorem allocator_lock_witness:
  "\<exists>s'. malloc 40 sample_heap = Some (Switched, s') \<and> hmem s' = (\<lambda>_. 0)"
proof -
  have "Counter sample_heap = (\<lambda>_. 0)" "hmem sample_heap = (\<lambda>_. 0)"
    by (simp_all add: sample_heap_def two_threads_def activate_thread_def list_add_def list_add_between_def
      set_next_def set_prev_def sample_def)
  then show ?thesis using allocator_lock [of "0x10000808" sample_heap 40] by auto
qed

end
