(* ===== verification/Objects.thy ===== *)
theory Objects
  imports Malloc
begin
text \<open>
  The calls of kernel/semaphore, kernel/mailbox and kernel/pipe that allocate and release their
  objects.  They go through \<open>malloc\<close> and \<open>free\<close> and so may have to wait for the
  allocator's lock: \<open>after\<close> continues a call with what follows it, and the \<open>_resume\<close> versions
  run when the thread has been switched back in.
\<close>

section \<open>Definitions\<close>

definition after :: "('r outcome \<times> 's) option \<Rightarrow> ('r \<Rightarrow> 's \<Rightarrow> ('q outcome \<times> 's) option) \<Rightarrow>
    ('q outcome \<times> 's) option" where
  "after call rest =
     (case call of
        None \<Rightarrow> None
      | Some (Switched, s) \<Rightarrow> Some (Switched, s)
      | Some (Returned r, s) \<Rightarrow> rest r s)"

lemma after_simps [simp]:
  "after None f = None" "after (Some (Switched, s)) f = Some (Switched, s)"
  "after (Some (Returned r, s)) f = f r s"
  by (simp_all add: after_def)

text \<open>\<open>sizeof (struct semaphore)\<close> is 16.\<close>

definition semaphore_new_init :: "u32 \<Rightarrow> addr \<Rightarrow> 'a mallocor_scheme \<Rightarrow> (addr outcome \<times> 'a mallocor_scheme) option" where
  "semaphore_new_init Amount Semaphore s =
     (if NULL \<noteq> Semaphore then
        let s = s\<lparr>Counter := (Counter s)(Semaphore := Amount)\<rparr>;
            s = INIT_LIST_HEAD (WaitHead Semaphore) s
        in Some (Returned Semaphore, s)
      else Some (Returned Semaphore, s))"

definition semaphore_new :: "u32 \<Rightarrow> 'a mallocor_scheme \<Rightarrow> (addr outcome \<times> 'a mallocor_scheme) option" where
  "semaphore_new Amount s = after (malloc 16 s) (semaphore_new_init Amount)"

definition semaphore_new_resume :: "u32 \<Rightarrow> addr \<Rightarrow> 'a mallocor_scheme \<Rightarrow> (addr outcome \<times> 'a mallocor_scheme) option" where
  "semaphore_new_resume Amount pThread s = after (malloc_resume 16 pThread s) (semaphore_new_init Amount)"

definition semaphore_free :: "addr \<Rightarrow> 'a mallocor_scheme \<Rightarrow> (int outcome \<times> 'a mallocor_scheme) option" where
  "semaphore_free Semaphore s = after (free Semaphore s) (\<lambda>_ s. Some (Returned OK, s))"

text \<open>\<open>sizeof (struct mailbox_t)\<close> is 28, with the first of its mails.\<close>

definition mailbox_bytes :: "u32 \<Rightarrow> u32" where
  "mailbox_bytes sz = sz * 4 + 28"

definition mailbox_new_init :: "u32 \<Rightarrow> addr \<Rightarrow> 'a mallocor_scheme \<Rightarrow> (addr outcome \<times> 'a mallocor_scheme) option" where
  "mailbox_new_init sz pMailbox s =
     (if NULL \<noteq> pMailbox then
        let s = s\<lparr>Size := (Size s)(pMailbox := sz)\<rparr>;
            s = s\<lparr>Read := (Read s)(pMailbox := 0)\<rparr>;
            s = s\<lparr>Write := (Write s)(pMailbox := 0)\<rparr>;
            s = INIT_LIST_HEAD (MailWaitHead pMailbox) s
        in Some (Returned pMailbox, s)
      else Some (Returned pMailbox, s))"

definition mailbox_new :: "u32 \<Rightarrow> 'a mallocor_scheme \<Rightarrow> (addr outcome \<times> 'a mallocor_scheme) option" where
  "mailbox_new sz s =
     (if 0 = sz then Some (Returned NULL, s)
      else after (malloc (mailbox_bytes sz) s) (mailbox_new_init sz))"

definition mailbox_new_resume :: "u32 \<Rightarrow> addr \<Rightarrow> 'a mallocor_scheme \<Rightarrow> (addr outcome \<times> 'a mallocor_scheme) option" where
  "mailbox_new_resume sz pThread s = after (malloc_resume (mailbox_bytes sz) pThread s) (mailbox_new_init sz)"

definition mailbox_free :: "addr \<Rightarrow> 'a mallocor_scheme \<Rightarrow> (int outcome \<times> 'a mallocor_scheme) option" where
  "mailbox_free Mailbox s = after (free Mailbox s) (\<lambda>_ s. Some (Returned OK, s))"

text \<open>\<open>sizeof (struct pipe_t)\<close> is 24; the buffer follows the structure.\<close>

definition pipe_length :: "u32 \<Rightarrow> u32" where
  "pipe_length Length = (if Length AND (Length - 1) \<noteq> 0 then push_bit 1 (Length AND - Length) else Length)"

definition pipe_new_init :: "u32 \<Rightarrow> u32 \<Rightarrow> addr \<Rightarrow> 'a mallocor_scheme \<Rightarrow> (addr outcome \<times> 'a mallocor_scheme) option" where
  "pipe_new_init wid Length pPipe s =
     (if NULL \<noteq> pPipe then
        let s = s\<lparr>pReadThread := (pReadThread s)(pPipe := NULL)\<rparr>;
            s = s\<lparr>Lenth := (Lenth s)(pPipe := Length)\<rparr>;
            s = s\<lparr>Width := (Width s)(pPipe := wid)\<rparr>;
            s = s\<lparr>Out := (Out s)(pPipe := 0)\<rparr>;
            s = s\<lparr>In := (In s)(pPipe := 0)\<rparr>;
            s = s\<lparr>pBuffer := (pBuffer s)(pPipe := pPipe + 24)\<rparr>
        in Some (Returned pPipe, s)
      else Some (Returned pPipe, s))"

definition pipe_new :: "u32 \<Rightarrow> u32 \<Rightarrow> 'a mallocor_scheme \<Rightarrow> (addr outcome \<times> 'a mallocor_scheme) option" where
  "pipe_new wid Length s =
     (if 0 = Length \<or> 0 = wid then Some (Returned NULL, s)
      else
        let Length = pipe_length Length
        in after (malloc (Length * wid + 24) s) (pipe_new_init wid Length))"

definition pipe_new_resume :: "u32 \<Rightarrow> u32 \<Rightarrow> addr \<Rightarrow> 'a mallocor_scheme \<Rightarrow> (addr outcome \<times> 'a mallocor_scheme) option" where
  "pipe_new_resume wid Length pThread s =
     (let Length = pipe_length Length
      in after (malloc_resume (Length * wid + 24) pThread s) (pipe_new_init wid Length))"

definition pipe_free :: "addr \<Rightarrow> 'a mallocor_scheme \<Rightarrow> (unit outcome \<times> 'a mallocor_scheme) option" where
  "pipe_free Pipe s = free Pipe s"

section \<open>Lemmas\<close>

lemma bit_le_unat: "bit (x :: u32) j \<Longrightarrow> 2 ^ j \<le> unat x"
proof -
  assume "bit x j"
  then have "odd (unat x div 2 ^ j)" by (simp add: bit_unsigned_iff bit_iff_odd [symmetric] bit_nat_iff)
  then have "unat x div 2 ^ j \<noteq> 0" by (metis even_zero)
  then show "2 ^ j \<le> unat x" by (simp add: div_eq_0_iff)
qed

lemma and_not_and: "(x :: u32) AND NOT y = x AND NOT (x AND y)"
  by (rule bit_word_eqI) (auto simp: bit_simps)

text \<open>The rounding of the length, by the lowest set bit.\<close>

lemma pipe_length_cases:
  assumes "L \<noteq> 0"
  obtains (power) k where "k < 32" "L = 2 ^ k" "pipe_length L = L"
  | (cut) k where "k < 31" "L AND (L - 1) \<noteq> 0" "pipe_length L = 2 ^ (k + 1)" "2 ^ (k + 1) < unat L" "bit L k"
      "\<forall>j<k. \<not> bit L j"
proof -
  obtain k where k: "k < 32" "bit L k" "\<forall>j<k. \<not> bit L j" using assms by (rule lowest_bit_ex)
  have low: "L AND - L = 2 ^ k" using and_minus_lowest_bit [of L k] k by simp
  have "L - 1 = NOT (- L)" by (simp add: not_eq_complement)
  then have rest: "L AND (L - 1) = L AND NOT (2 ^ k)" using and_not_and [of L "- L"] by (simp only: low)
  have split: "L = (L AND NOT (2 ^ k)) + 2 ^ k"
  proof -
    have "(L AND NOT (2 ^ k)) AND 2 ^ k = 0" by (intro bit_word_eqI) (auto simp: bit_simps)
    then have "(L AND NOT (2 ^ k)) + 2 ^ k = (L AND NOT (2 ^ k)) OR 2 ^ k" by (simp add: disjunctive_add_eq_or)
    also have "\<dots> = L" using k(1,2) by (intro bit_word_eqI) (auto simp: bit_simps)
    finally show ?thesis by simp
  qed
  show ?thesis
  proof (cases "L AND (L - 1) = 0")
    case True
    then have "pipe_length L = L" by (simp add: pipe_length_def)
    moreover have "L AND NOT (2 ^ k) = 0" using True by (simp only: rest)
    then have "L = 2 ^ k" using split by simp
    ultimately show ?thesis using power k(1) by blast
  next
    case False
    then obtain j where j: "bit (L AND NOT (2 ^ k)) j" unfolding rest by (metis bit_eqI bit_0_eq bot_apply bot_bool_def)
    then have "bit L j" "j \<noteq> k" "j < 32" using bit_imp_le_length [of L j] by (auto simp: bit_simps)
    then have "k < j" using k(3) by (metis linorder_neqE_nat)
    have b: "2 ^ j \<le> unat (L AND NOT (2 ^ k))" by (rule bit_le_unat [OF j])
    have "unat L = unat (L AND NOT (2 ^ k)) + unat (2 ^ k :: u32)"
    proof -
      have "2 ^ k \<le> unat L" by (rule bit_le_unat [OF k(2)])
      moreover have "unat (2 ^ k :: u32) = 2 ^ k" using k(1) by (simp add: unat_pow2)
      ultimately have "2 ^ k \<le> L" by (simp add: word_le_nat_alt)
      have "L AND NOT (2 ^ k) = L - 2 ^ k" using split by (metis add_diff_cancel_right')
      then have "unat (L AND NOT (2 ^ k)) = unat L - unat (2 ^ k :: u32)" using \<open>2 ^ k \<le> L\<close> by (simp only: unat_sub)
      then show ?thesis using \<open>2 ^ k \<le> L\<close> by (simp add: word_le_nat_alt)
    qed
    moreover have "0 < unat (2 ^ k :: u32)" using k(1) by (simp add: unat_pow2)
    moreover have "(2::nat) ^ (k + 1) \<le> 2 ^ j" using \<open>k < j\<close> by (intro power_increasing) simp_all
    ultimately have "2 ^ (k + 1) < unat L" using b by linarith
    moreover have "pipe_length L = 2 ^ (k + 1)" using False by (simp add: pipe_length_def low push_bit_eq_mult)
    ultimately show ?thesis using cut [of k] False k \<open>k < j\<close> \<open>j < 32\<close> by simp
  qed
qed

lemma pipe_length_power:
  assumes "L \<noteq> 0"
  shows "(\<exists>k<32. pipe_length L = 2 ^ k) \<and> pipe_length L \<le> L \<and> (pipe_length L = L \<longleftrightarrow> (\<exists>k<32. L = 2 ^ k))"
  using assms
proof (cases L rule: pipe_length_cases)
  case (power k)
  then show ?thesis by auto
next
  case (cut k)
  have u: "unat (2 ^ i :: u32) = 2 ^ i" if "i < 32" for i using that by (simp add: unat_pow2)
  have "L \<noteq> 2 ^ i" if "i < 32" for i
  proof
    assume "L = 2 ^ i"
    then have "k = i" using cut(5) that by (auto simp: bit_simps)
    then show False using cut(1,4) \<open>L = 2 ^ i\<close> u [of i] by simp
  qed
  moreover have "pipe_length L < L" using cut u [of "k + 1"] by (simp add: word_less_nat_alt)
  moreover have "\<exists>i<32. pipe_length L = 2 ^ i" using cut(1,3) by (intro exI [of _ "k + 1"]) simp
  ultimately show ?thesis by (auto simp: less_le)
qed

text \<open>Initialised objects.\<close>

lemma pipe_new_init_fields:
  assumes "p \<noteq> NULL" "pipe_new_init wid L p s = Some (Returned q, s')"
  shows "q = p" "Lenth s' = (Lenth s)(p := L)" "Width s' = (Width s)(p := wid)" "In s' = (In s)(p := 0)"
    "Out s' = (Out s)(p := 0)" "pReadThread s' = (pReadThread s)(p := NULL)" "pBuffer s' = (pBuffer s)(p := p + 24)"
    "bytes s' = bytes s"
  using assms by (auto simp: pipe_new_init_def Let_def)

lemma pipe_contents_cong:
  "Lenth s' q = Lenth s q \<Longrightarrow> Width s' q = Width s q \<Longrightarrow> In s' q = In s q \<Longrightarrow> Out s' q = Out s q \<Longrightarrow>
   pBuffer s' q = pBuffer s q \<Longrightarrow> bytes s' = bytes s \<Longrightarrow> pipe_contents q s' = pipe_contents q s"
  by (simp add: pipe_contents_def ring_elem_def)

section \<open>Properties\<close>

text \<open>\<open>pipe_new\<close> makes an empty pipe that can be read and written at once (\<open>pipe_inv\<close>) when its
  size in bytes can be expressed, and leaves every other pipe alone.  Its length is a power of two, but
  never more than the one asked for: a length that is no power of two is rounded down, to twice its lowest set bit.\<close>

theorem pipe_new_rounds:
  assumes "L \<noteq> 0" "wid \<noteq> 0" "malloc (pipe_length L * wid + 24) s = Some (Returned p, s1)" "p \<noteq> NULL"
    "unat (pipe_length L) * unat wid < 2 ^ 32"
  shows "(\<exists>s'. pipe_new wid L s = Some (Returned p, s') \<and> pipe_inv p s' \<and> pipe_contents p s' = [] \<and>
      (\<forall>q. q \<noteq> p \<longrightarrow> pipe_contents q s' = pipe_contents q s1)) \<and>
    (\<exists>k<32. pipe_length L = 2 ^ k) \<and> pipe_length L \<le> L \<and> (pipe_length L = L \<longleftrightarrow> (\<exists>k<32. L = 2 ^ k))"
proof -
  have pl: "\<exists>k<32. pipe_length L = 2 ^ k" "pipe_length L \<le> L" "pipe_length L = L \<longleftrightarrow> (\<exists>k<32. L = 2 ^ k)"
    using pipe_length_power [OF assms(1)] by blast+
  obtain s' where n: "pipe_new_init wid (pipe_length L) p s1 = Some (Returned p, s')"
    using assms(4) by (simp add: pipe_new_init_def Let_def)
  note f = pipe_new_init_fields [OF assms(4) n]
  have "pipe_inv p s'" using f pl(1) assms(2,5) by (simp add: pipe_inv_def word_neq_0_conv)
  moreover have "pipe_contents p s' = []" using f by (simp add: pipe_contents_def)
  moreover have "pipe_contents q s' = pipe_contents q s1" if "q \<noteq> p" for q
    using f that by (intro pipe_contents_cong) simp_all
  moreover have "pipe_new wid L s = Some (Returned p, s')"
    using assms n by (simp add: pipe_new_def Let_def)
  ultimately show ?thesis using pl by blast
qed

text \<open>\<open>semaphore_new\<close> makes a semaphore with the given amount and no waiters, \<open>mailbox_new\<close> an
  empty mailbox of the given size with no waiters; when no memory is left both return \<open>NULL\<close> and touch nothing,
  when the allocator is locked both wait for it, and a mailbox of size 0 is refused.\<close>

theorem objects_start_empty:
  assumes "malloc 16 s = Some (r, s1)" "malloc (mailbox_bytes sz) s = Some (r', s2)" "0 < sz" "sz < - 1"
  shows "(\<exists>s'. semaphore_new n s = Some (r, s') \<and>
      (case r of Returned p \<Rightarrow> if p = NULL then s' = s1
         else Counter s' = (Counter s1)(p := n) \<and> dlist s' (WaitHead p) []
       | Switched \<Rightarrow> s' = s1)) \<and>
    (\<exists>s'. mailbox_new sz s = Some (r', s') \<and>
      (case r' of Returned p \<Rightarrow> if p = NULL then s' = s2
         else mailbox_inv p s' \<and> Size s' p = sz \<and> mails p s' = [] \<and> dlist s' (MailWaitHead p) [] \<and>
           (\<forall>q. q \<noteq> p \<longrightarrow> mails q s' = mails q s2)
       | Switched \<Rightarrow> s' = s2)) \<and>
    mailbox_new 0 s = Some (Returned NULL, s)"
proof (intro conjI)
  show "\<exists>s'. semaphore_new n s = Some (r, s') \<and>
      (case r of Returned p \<Rightarrow> if p = NULL then s' = s1
         else Counter s' = (Counter s1)(p := n) \<and> dlist s' (WaitHead p) []
       | Switched \<Rightarrow> s' = s1)"
    using assms(1)
    by (cases r) (simp_all add: semaphore_new_def semaphore_new_init_def Let_def ring_simps dlist_def)
  show "\<exists>s'. mailbox_new sz s = Some (r', s') \<and>
      (case r' of Returned p \<Rightarrow> if p = NULL then s' = s2
         else mailbox_inv p s' \<and> Size s' p = sz \<and> mails p s' = [] \<and> dlist s' (MailWaitHead p) [] \<and>
           (\<forall>q. q \<noteq> p \<longrightarrow> mails q s' = mails q s2)
       | Switched \<Rightarrow> s' = s2)"
    using assms(2-) less_imp_neq [OF assms(3)]
    by (cases r') (simp_all add: mailbox_new_def mailbox_new_init_def Let_def ring_simps dlist_def mailbox_inv_def mails_def
      mails_from_def mail_count_def)
  show "mailbox_new 0 s = Some (Returned NULL, s)" by (simp add: mailbox_new_def)
qed

text \<open>A heap with one free chunk, and the calls on it.\<close>

definition small_heap :: mallocor where
  "small_heap = two_threads (semaphore_ext (\<lambda>_. 1)
     (mailbox_ext (\<lambda>_. 0) (\<lambda>_. 0) (\<lambda>_. 0) (\<lambda>_. 0) (\<lambda>_ _. 0)
     (pipe_ext (\<lambda>_. 0) (\<lambda>_. 0) (\<lambda>_. 0) (\<lambda>_. 0) (\<lambda>_. 0) (\<lambda>_. 0) (\<lambda>_. 0) 
     (mallocor_ext ((\<lambda>_. 0)(SameMap := 0x20, get_same_chunk_group 5 + 8 := 0x10000808,
        0x10000810 := get_same_chunk_group 5, 0x10000814 := get_same_chunk_group 5, 0x1000080c := 56)) ()))))"

lemma small_heap_fields: "Counter small_heap = (\<lambda>_. 1)"
  "hmem small_heap = (\<lambda>_. 0)(SameMap := 0x20, get_same_chunk_group 5 + 8 := 0x10000808,
     0x10000810 := get_same_chunk_group 5, 0x10000814 := get_same_chunk_group 5, 0x1000080c := 56)"
  by (simp_all add: small_heap_def two_threads_def activate_thread_def list_add_def list_add_between_def
      set_next_def set_prev_def sample_def)

lemma small_heap_scan: "bit_scan_forward 32 = 5"
  by code_simp

lemma small_heap_sizes:
  "align_upside 32 4 = 32" "align_upside 48 4 = 48" "align_upside 44 4 = 44" "align_upside 32 8 = 32"
  "align_upside 48 8 = 48" "align_upside 44 8 = 48" "get_box_index 32 = 3" "get_box_index 48 = 5" "get_box_index 8 = 0"
  by code_simp+

lemma small_heap_groups: "get_same_chunk_group 5 = 0x2007f028" "get_same_chunk_group 0 = 0x2007f000" "SameMap = 0x2007eff8"
  by code_simp+

lemma small_heap_find:
  assumes "sz = 32 \<or> sz = 48 \<or> sz = 44"
  shows "\<exists>h. malloc_find sz (hmem small_heap) = Some (align_upside sz 8, 0x10000808, h) \<and> h 0x1000080c = 56"
  using assms
  by (elim disjE)
    (simp_all add: malloc_find_def is_small_def small_heap_sizes small_heap_fields small_heap_groups small_heap_scan
      checkout_small_chunk_in_group_def Let_def)

lemma small_heap_locked:
  assumes "sz \<in> {16, 32, 28}"
  shows "\<exists>h'. malloc_locked sz (hmem small_heap) = Some (0x10000808, h')"
proof -
  let ?n = "align_upside (sz + MIN_CHUNK_SIZE) 4"
  have "?n = 32 \<or> ?n = 48 \<or> ?n = 44" using assms by (auto simp: small_heap_sizes)
  then obtain m h where m: "malloc_find ?n (hmem small_heap) = Some (m, 0x10000808, h)" "h 0x1000080c = 56" "m = 32 \<or> m = 48"
    using small_heap_find [of ?n] by (elim disjE) (auto simp: small_heap_sizes)
  then show ?thesis
    by (elim disjE)
      (simp_all add: malloc_locked_def Let_def splite_free_chunk_def checkin_free_chunk_def is_small_def)
qed

lemma small_heap_malloc:
  assumes "sz \<in> {16, 32, 28}"
  shows "\<exists>s'. malloc sz small_heap = Some (Returned 0x10000810, s')"
proof -
  have "Counter small_heap Lock \<noteq> 0" by (simp add: small_heap_fields)
  from lock_free [OF this] obtain s1 where "semaphore_wait Lock 0 small_heap = Some (Returned OK, s1)" "hmem s1 = hmem small_heap"
    by blast
  with small_heap_locked [OF assms] show ?thesis
    by (auto simp: malloc_def malloc_rest_def chunk_to_memeory_def split_beta)
qed

theorem pipe_new_rounds_witness:
  "\<exists>s'. pipe_new 1 12 small_heap = Some (Returned 0x10000810, s') \<and> pipe_inv 0x10000810 s' \<and> pipe_length 12 = 8"
proof -
  have l: "pipe_length 12 = 8" by (simp add: pipe_length_def)
  obtain s1 where "malloc 32 small_heap = Some (Returned 0x10000810, s1)" using small_heap_malloc [of 32] by blast
  then show ?thesis using pipe_new_rounds [of 12 1 small_heap "0x10000810" s1] l by auto
qed

theorem objects_start_empty_witness:
  "\<exists>s'. semaphore_new 3 small_heap = Some (Returned 0x10000810, s') \<and> Counter s' 0x10000810 = 3"
proof -
  obtain s1 s2 where m: "malloc 16 small_heap = Some (Returned 0x10000810, s1)"
    "malloc (mailbox_bytes 1) small_heap = Some (Returned 0x10000810, s2)"
    using small_heap_malloc [of 16] small_heap_malloc [of 32] by (auto simp: mailbox_bytes_def)
  moreover have "(1 :: u32) < - 1" by code_simp
  ultimately show ?thesis using objects_start_empty [OF m, of 3] by auto
qed

end
