(* ===== verification/Threads.thy ===== *)
theory Threads
  imports Objects
begin

text \<open>
  The life of a thread outside its own calls: building its first stack (\<open>stack_init\<close> of cpu.c),
  creating it (\<open>labour\<close>), killing it, freeing the dead (the loop of \<open>idle\<close>), and the start of
  the system (\<open>startup\<close> and \<open>static_activate_system\<close> of syscall.s).  Function pointers are the
  addresses in project/hello/hello.map, with the Thumb bit.
\<close>

section \<open>Definitions\<close>

definition exit_fn :: addr where "exit_fn = 0x00000c1f"
definition idle_fn :: addr where "idle_fn = 0x00000e11"

definition OS_aIdleStack :: addr where "OS_aIdleStack = 0x2007ebf8"

definition AIRCR :: addr where "AIRCR = 0xE000ED0C"

definition restart :: "addr \<Rightarrow> 'a bus_scheme \<Rightarrow> int \<times> 'a bus_scheme" where
  "restart pOption s =
     (let Register = read_dword AIRCR s;
          Register = Register AND 0x0000ff00;
          Register = Register OR (push_bit 16 0x05FA OR push_bit 2 1);
          s = write_dword AIRCR Register s
      in (OK, s))"

text \<open>\<open>*pStackTop-- = v\<close>.\<close>

definition push_word :: "u32 \<Rightarrow> addr \<times> 'a os_scheme \<Rightarrow> addr \<times> 'a os_scheme" where
  "push_word v ps = (case ps of (p, s) \<Rightarrow> (p - 4, s\<lparr>stack_mem := (stack_mem s)(p := v)\<rparr>))"

definition stack_init :: "addr \<Rightarrow> addr \<Rightarrow> addr \<Rightarrow> 'a os_scheme \<Rightarrow> addr \<times> 'a os_scheme" where
  "stack_init pThread pOption Bottom s =
     (let ps = (Bottom, s);
          ps = push_word 0x01000000 ps;
          ps = push_word pThread ps;
          ps = push_word exit_fn ps;
          ps = push_word 0 ps;
          ps = push_word 0 ps;
          ps = push_word 0 ps;
          ps = push_word 0 ps;
          ps = push_word pOption ps;
          ps = push_word 0 ps;
          ps = push_word 0 ps;
          ps = push_word 0 ps;
          ps = push_word 0 ps;
          ps = push_word 0 ps;
          ps = push_word 0 ps;
          (pStackTop, s) = push_word 0 ps;
          s = s\<lparr>stack_mem := (stack_mem s)(pStackTop := 0)\<rparr>
      in (pStackTop, s))"

text \<open>
  \<open>memset (pControl, 0, n)\<close> on the memory of a new thread: the fields of \<open>THREAD\<close>, with the
  embedded timer and node, and the words of its stack.
\<close>

definition clear_thread :: "addr \<Rightarrow> u32 \<Rightarrow> 'a os_scheme \<Rightarrow> 'a os_scheme" where
  "clear_thread p n s =
     s\<lparr>pStackTop := (pStackTop s)(p := 0), pStackBottom := (pStackBottom s)(p := 0),
       Priority := (Priority s)(p := 0), pName := (pName s)(p := 0), pLive := (pLive s)(p := 0),
       Prev := (Prev s)(Timer p := 0), Next := (Next s)(Timer p := 0), Time := (Time s)(Timer p := 0),
       nxt := (nxt s)(Node p := 0), prv := (prv s)(Node p := 0),
       pAttachment := (pAttachment s)(p := 0), pExit := (pExit s)(p := 0), pKill := (pKill s)(p := 0),
       stack_mem := (\<lambda>a. if a - p < n then 0 else stack_mem s a)\<rparr>"

text \<open>\<open>sizeof (THREAD)\<close> is 52.  \<open>labour_init\<close> is the call from the return of \<open>malloc\<close> on.\<close>

definition labour_init ::
  "addr \<Rightarrow> addr \<Rightarrow> addr \<Rightarrow> u32 \<Rightarrow> u32 \<Rightarrow> addr \<Rightarrow> 'a mallocor_scheme \<Rightarrow> (addr outcome \<times> 'a mallocor_scheme) option" where
  "labour_init name pProcess pOption StackDepth prio pControl s =
     (if NULL = pControl then Some (Returned NULL, s)
      else
        let s = clear_thread pControl (StackDepth + 52) s;
            Bottom = pControl + 52 + (StackDepth - 4);
            s = s\<lparr>pStackBottom := (pStackBottom s)(pControl := Bottom)\<rparr>;
            (Top, s) = stack_init pProcess pOption Bottom s;
            s = s\<lparr>pStackTop := (pStackTop s)(pControl := Top)\<rparr>;
            s = s\<lparr>Priority := (Priority s)(pControl := prio)\<rparr>;
            s = s\<lparr>pName := (pName s)(pControl := name)\<rparr>
        in case thread_register pControl s of
             None \<Rightarrow> None
           | Some s \<Rightarrow>
               let s = activate_thread pControl prio s;
                   s = (if prio < Priority s (OS_This s) then OS_thread_switch s else s)
               in Some (Returned pControl, s))"

definition labour ::
  "addr \<Rightarrow> addr \<Rightarrow> addr \<Rightarrow> u32 \<Rightarrow> u32 \<Rightarrow> 'a mallocor_scheme \<Rightarrow> (addr outcome \<times> 'a mallocor_scheme) option" where
  "labour name pProcess pOption StackDepth prio s =
     (if prio AND NOT 0x1F \<noteq> 0 \<or> NULL = pProcess \<or> 0 = StackDepth then Some (Returned NULL, s)
      else
        let StackDepth = align_upside StackDepth 4
        in after (malloc (StackDepth + 52) s) (labour_init name pProcess pOption StackDepth prio))"

definition labour_resume ::
  "addr \<Rightarrow> addr \<Rightarrow> addr \<Rightarrow> u32 \<Rightarrow> u32 \<Rightarrow> addr \<Rightarrow> 'a mallocor_scheme \<Rightarrow> (addr outcome \<times> 'a mallocor_scheme) option" where
  "labour_resume name pProcess pOption StackDepth prio pThread s =
     (let StackDepth = align_upside StackDepth 4
      in after (malloc_resume (StackDepth + 52) pThread s) (labour_init name pProcess pOption StackDepth prio))"

text \<open>\<open>kill\<close>: \<open>call f s\<close> is the effect of the user's callback at address \<open>f\<close>.\<close>

definition kill :: "(addr \<Rightarrow> 'a mallocor_scheme \<Rightarrow> 'a mallocor_scheme) \<Rightarrow> addr \<Rightarrow> 'a mallocor_scheme \<Rightarrow>
    (int outcome \<times> 'a mallocor_scheme) option" where
  "kill call Thread s =
     (if NULL = Thread then Some (Returned ERR_BAD_PARAM, s)
      else
        let pThread = Thread;
            s = (if NULL \<noteq> pKill s pThread then call (pKill s pThread) s else s);
            (Key, s) = atom_operate_lock s
        in case thread_unregister pThread s of
             None \<Rightarrow> None
           | Some s \<Rightarrow>
               let prio = Priority s pThread;
                   s = vivify_thread pThread prio s;
                   (_, s) = OS_timer_del (Timer pThread) s;
                   s = atom_operate_unlock Key s
               in after (free pThread s) (\<lambda>_ s. Some (Returned OK, s)))"

text \<open>
  One round of the endless loop of \<open>idle\<close>: the walk of the list of dead threads, from the node
  \<open>pNode\<close> on.  The step of the walk reads the link of the node just freed.
\<close>

partial_function (option) idle_reap :: "addr \<Rightarrow> 'a mallocor_scheme \<Rightarrow> (unit outcome \<times> 'a mallocor_scheme) option" where
  "idle_reap pNode s =
     (if pNode \<noteq> OS_DeadList then
        let pThread = thread_of_node pNode;
            s = list_del (Node pThread) s
        in (case free pThread s of
              None \<Rightarrow> None
            | Some (Switched, s) \<Rightarrow> Some (Switched, s)
            | Some (Returned _, s) \<Rightarrow> idle_reap (nxt s pNode) s)
      else Some (Returned (), s))"

definition activate_system :: "'a os_scheme \<Rightarrow> addr \<times> u32 list \<times> 'a os_scheme" where
  "activate_system s =
     (let R0 = pStackTop s (OS_This s);
          (R0, s) = shift R0 s
      in (R0 + 32, pop_regs 8 R0 s, s))"

text \<open>\<open>startup\<close>; the address of the literal \<open>''idle''\<close> is the argument.\<close>

definition startup_idle :: "addr \<Rightarrow> 'a os_scheme \<Rightarrow> 'a os_scheme" where
  "startup_idle name s =
     (let Bottom = OS_aIdleStack + 4 * (256 - 1);
          s = s\<lparr>pStackBottom := (pStackBottom s)(OS_Idle := Bottom)\<rparr>;
          (Top, s) = stack_init idle_fn NULL Bottom s;
          s = s\<lparr>pStackTop := (pStackTop s)(OS_Idle := Top)\<rparr>;
          s = s\<lparr>Priority := (Priority s)(OS_Idle := 32)\<rparr>;
          s = s\<lparr>pName := (pName s)(OS_Idle := name)\<rparr>;
          s = list_add (Node OS_Idle) (OS_ActiveProc 32) s
      in s\<lparr>OS_This := OS_Idle\<rparr>)"

definition startup_queues :: "'a os_scheme \<Rightarrow> 'a os_scheme" where
  "startup_queues s =
     (let s = s\<lparr>OS_ActivePrio := 0\<rparr>;
          s = INIT_LIST_HEAD OS_DeadList s
      in fold (\<lambda>i. INIT_LIST_HEAD (OS_ActiveProc (of_nat i))) [0..<33] s)"

definition startup :: "addr \<Rightarrow> 'a os_scheme \<Rightarrow> (addr \<times> u32 list \<times> 'a os_scheme) option" where
  "startup name s =
     (let s = startup_queues s;
          s = startup_idle name s
      in map_option activate_system (thread_register (OS_This s) s))"

section \<open>The first frame of a thread\<close>

lemma stack_init_top: "fst (stack_init f x b s) = b - 60"
  by (simp add: stack_init_def push_word_def)

definition first_frame :: "addr \<Rightarrow> addr \<Rightarrow> u32 list" where
  "first_frame f x = [0, 0, 0, 0, 0, 0, 0, 0, x, 0, 0, 0, 0, exit_fn, f, 0x01000000]"

lemma stack_init_frame:
  "snd (stack_init f x b s) = s\<lparr>stack_mem := stack_mem (snd (stack_init f x b s))\<rparr>"
  by (simp add: stack_init_def push_word_def)

lemma pop_regs_map: "pop_regs n a s = map (\<lambda>k. stack_mem s (a + 4 * of_nat k)) [0..<n]"
proof (induction n arbitrary: a)
  case (Suc n)
  have "[0..<Suc n] = 0 # map Suc [0..<n]" by (simp add: upt_conv_Cons map_Suc_upt del: upt_Suc)
  then show ?case using Suc by (simp add: algebra_simps del: upt_Suc)
qed simp

lemma stack_init_mem:
  "stack_mem (snd (stack_init f x (a + 60) s)) =
     (stack_mem s)(a + 60 := 0x01000000, a + 56 := f, a + 52 := exit_fn, a + 48 := 0, a + 44 := 0, a + 40 := 0,
       a + 36 := 0, a + 32 := x, a + 28 := 0, a + 24 := 0, a + 20 := 0, a + 16 := 0, a + 12 := 0, a + 8 := 0,
       a + 4 := 0, a := 0)"
  by (simp add: stack_init_def push_word_def add.commute)

lemma stack_init_pops: "pop_regs 16 (b - 60) (snd (stack_init f x b s)) = first_frame f x"
proof -
  define a where "a = b - 60"
  have b: "b = a + 60" by (simp add: a_def)
  have upt: "[0..<16] = [0, 1, 2, 3, 4, 5, 6, 7, 8, 9, 10, 11, 12, 13, 14, 15]" by (simp add: upt_rec)
  show ?thesis unfolding pop_regs_map b stack_init_mem upt by (simp add: first_frame_def)
qed

lemma stack_mem_activate: "stack_mem (activate_thread t p s) = stack_mem s"
  by (simp add: activate_thread_def ring_simps)

lemma ready_priority:
  assumes "ready_inv s W Q" "\<not> on_family (ready_heads \<union> W) Q (Node t)" "nxt s' = nxt s" "prv s' = prv s"
    "OS_ActivePrio s' = OS_ActivePrio s" "Priority s' = (Priority s)(t := p)"
  shows "ready_inv s' W Q"
proof -
  have "thread_of_node n \<noteq> t" if "q \<le> 32" "n \<in> set (Q (OS_ActiveProc q))" for q n
    using assms(2) that ready_heads_memb [OF that(1)] by (auto simp: on_family_def)
  then show ?thesis using assms by (simp add: ready_inv_def family_dlist_cong [of s' s])
qed

lemma more_fields:
  "os.more s' = os.more s \<Longrightarrow> Counter s' = Counter s" "os.more s' = os.more s \<Longrightarrow> hmem s' = hmem s"
  by (cases s; cases s'; simp)+

lemma live_set_more [simp]: "os.more (live_set r v s) = os.more s"
  by (cases r) simp_all

text \<open>The steps of \<open>labour\<close> that build the control block leave the queues alone.\<close>

lemma clear_thread_ready:
  assumes r: "ready_inv s W Q" and n: "\<not> on_family (ready_heads \<union> W) Q (Node p)"
  shows "ready_inv (clear_thread p k s) W Q"
proof -
  let ?s = "clear_thread p k s"
  have nn: "x \<noteq> Node p" if "h \<in> ready_heads \<union> W" "x \<in> set (h # Q h)" for h x
    using n that by (auto simp: on_family_def)
  have "family dlist ?s (ready_heads \<union> W) Q"
  proof (rule family_agree [THEN iffD2, rotated])
    show "family dlist s (ready_heads \<union> W) Q" using r by (simp add: ready_inv_def)
    show "nxt ?s x = nxt s x \<and> prv ?s x = prv s x" if "x \<in> cells (ready_heads \<union> W) Q" for x
      using that nn by (auto simp: cells_def clear_thread_def)
  qed
  moreover have "Priority ?s (thread_of_node x) = Priority s (thread_of_node x)"
    if "q \<le> 32" "x \<in> set (Q (OS_ActiveProc q))" for q x
  proof -
    have "x \<noteq> Node p" using nn [of "OS_ActiveProc q" x] that by simp
    then have "thread_of_node x \<noteq> p" by (metis Node_thread_of_node)
    then show ?thesis by (simp add: clear_thread_def)
  qed
  ultimately show ?thesis using r by (simp add: ready_inv_def clear_thread_def)
qed

lemma live_chain_zero: "t \<notin> set xs \<Longrightarrow> live_list s xs \<Longrightarrow> live_list (clear_thread t k s) xs"
  by (simp add: live_list_def clear_thread_def)

lemma thread_register_frame:
  "thread_register t s = Some s' \<Longrightarrow> s' = s\<lparr>pLive := pLive s', OS_LiveList := OS_LiveList s'\<rparr>"
proof -
  assume "thread_register t s = Some s'"
  then obtain r where "s' = live_set r t (s\<lparr>pLive := (pLive s)(t := NULL)\<rparr>)"
    by (auto simp: thread_register_def Let_def split: option.splits)
  then show ?thesis by (cases r) simp_all
qed

lemma priority_range: "x AND - 32 = (0 :: u32) \<longleftrightarrow> x < 32"
proof -
  have "unat (x AND NOT (2 ^ 5 - 1)) = 2 ^ 5 * (unat x div 2 ^ 5)"
    using align_downside_unat [of x 5] by (simp only: align_downside_def)
  then have "unat (x AND - 32) = 32 * (unat x div 32)" by simp
  moreover have "x AND - 32 = 0 \<longleftrightarrow> unat (x AND - 32) = 0" by (simp only: unat_eq_zero)
  ultimately show ?thesis by (simp add: word_less_nat_alt div_eq_0_iff)
qed

text \<open>The start of the system: all queues are emptied, the idle thread is put in the queue behind the bitmap.\<close>

lemma init_heads:
  "nxt (fold (\<lambda>i. INIT_LIST_HEAD (OS_ActiveProc (of_nat i))) ks s) a =
     (if a \<in> (\<lambda>i. OS_ActiveProc (of_nat i)) ` set ks then a else nxt s a)"
  "prv (fold (\<lambda>i. INIT_LIST_HEAD (OS_ActiveProc (of_nat i))) ks s) a =
     (if a \<in> (\<lambda>i. OS_ActiveProc (of_nat i)) ` set ks then a else prv s a)"
  by (induction ks arbitrary: s) (auto simp: INIT_LIST_HEAD_def)

lemma init_heads_os:
  "os.more (fold (\<lambda>i. INIT_LIST_HEAD (OS_ActiveProc (of_nat i))) ks s) = os.more s"
  "OS_ActivePrio (fold (\<lambda>i. INIT_LIST_HEAD (OS_ActiveProc (of_nat i))) ks s) = OS_ActivePrio s"
  "OS_LiveList (fold (\<lambda>i. INIT_LIST_HEAD (OS_ActiveProc (of_nat i))) ks s) = OS_LiveList s"
  by (induction ks arbitrary: s) (simp_all add: INIT_LIST_HEAD_def set_next_def set_prev_def)

lemma ready_heads_upt: "ready_heads = (\<lambda>i. OS_ActiveProc (of_nat i)) ` set [0..<33]"
proof -
  have "{p :: u32. p \<le> 32} = of_nat ` set [0..<33]"
  proof (intro equalityI subsetI)
    fix p :: u32 assume "p \<in> {p. p \<le> 32}"
    then have "unat p < 33" "p = of_nat (unat p)" by (simp_all add: word_le_nat_alt)
    then show "p \<in> of_nat ` set [0..<33]" by (metis atLeastLessThan_iff image_eqI le0 set_upt)
  qed (auto simp: word_le_nat_alt unat_of_nat_small)
  then show ?thesis by (simp only: ready_heads_def image_image)
qed

lemma startup_queues_ready: "ready_inv (startup_queues s) {OS_DeadList} (\<lambda>_. [])"
proof -
  have "OS_DeadList \<notin> ready_heads" using ready_heads_range [of OS_DeadList] by (auto simp: OS_DeadList_def)
  moreover have "dlist (startup_queues s) h []" if "h \<in> ready_heads \<union> {OS_DeadList}" for h
    using that unfolding ready_heads_upt by (auto simp: startup_queues_def Let_def dlist_def init_heads INIT_LIST_HEAD_def)
  moreover have "OS_ActivePrio (startup_queues s) = 0"
    by (simp add: startup_queues_def init_heads_os INIT_LIST_HEAD_def set_next_def set_prev_def)
  ultimately show ?thesis by (auto simp: ready_inv_def family_def)
qed

lemma ready_add_idle:
  assumes r: "ready_inv s W Q" and t: "\<not> on_family (ready_heads \<union> W) Q (Node t)" "Priority s t = 32"
  shows "ready_inv (list_add (Node t) (OS_ActiveProc 32) s) W (Q(OS_ActiveProc 32 := Node t # Q (OS_ActiveProc 32)))"
proof -
  have ne: "OS_ActiveProc p \<noteq> OS_ActiveProc 32" if "p < 32" for p
    using that OS_ActiveProc_eq_iff [of p 32] by auto
  have "family dlist (list_add (Node t) (OS_ActiveProc 32) s) (ready_heads \<union> W)
      (Q(OS_ActiveProc 32 := Node t # Q (OS_ActiveProc 32)))"
    by (rule dl.family_add) (use r t in \<open>auto simp: ready_inv_def\<close>)
  then show ?thesis using r t ne by (auto simp: ready_inv_def OS_ActiveProc_eq_iff)
qed

lemma startup_idle_unfold:
  "\<exists>m. startup_idle name s = (list_add (Node OS_Idle) (OS_ActiveProc 32) (s\<lparr>pStackBottom := (pStackBottom s)(OS_Idle := OS_aIdleStack + 1020),
       stack_mem := m, pStackTop := (pStackTop s)(OS_Idle := OS_aIdleStack + 960), Priority := (Priority s)(OS_Idle := 32),
       pName := (pName s)(OS_Idle := name)\<rparr>))\<lparr>OS_This := OS_Idle\<rparr> \<and>
     pop_regs 16 (OS_aIdleStack + 960) (s\<lparr>stack_mem := m\<rparr>) = first_frame idle_fn NULL"
proof -
  let ?s = "s\<lparr>pStackBottom := (pStackBottom s)(OS_Idle := OS_aIdleStack + 1020)\<rparr>"
  obtain m where i: "stack_init idle_fn NULL (OS_aIdleStack + 1020) ?s = (OS_aIdleStack + 960, ?s\<lparr>stack_mem := m\<rparr>)"
    using stack_init_top [of idle_fn NULL "OS_aIdleStack + 1020" ?s] stack_init_frame [of idle_fn NULL "OS_aIdleStack + 1020" ?s]
    by (cases "stack_init idle_fn NULL (OS_aIdleStack + 1020) ?s") auto
  have "pop_regs 16 (OS_aIdleStack + 960) (?s\<lparr>stack_mem := m\<rparr>) = first_frame idle_fn NULL"
    using stack_init_pops [of "OS_aIdleStack + 1020" idle_fn NULL ?s] by (simp add: i add.commute)
  then have "pop_regs 16 (OS_aIdleStack + 960) (s\<lparr>stack_mem := m\<rparr>) = first_frame idle_fn NULL"
    by (simp add: pop_regs_map)
  then show ?thesis by (intro exI [of _ m]) (simp add: startup_idle_def Let_def i)
qed

lemma pop_regs_tail: "pop_regs (m + n) a s = pop_regs m a s @ pop_regs n (a + 4 * of_nat m) s"
  by (induction m arbitrary: a) (simp_all add: algebra_simps)

text \<open>With the lock free and nobody waiting, \<open>malloc\<close> and \<open>free\<close> change the heap only.\<close>

lemma free_quiet:
  assumes "Counter s Lock \<noteq> 0" "list_empty (WaitHead Lock) s" "p \<noteq> NULL" "free_locked p (hmem s) = Some h"
  shows "free p s = Some (Returned (), s\<lparr>hmem := h\<rparr>)"
  using assms
  by (simp add: free_def semaphore_wait_def semaphore_post_def free_rest_def atom_operate_lock_def atom_operate_unlock_def
      Let_def list_empty_def)

lemma malloc_quiet:
  assumes "Counter s Lock \<noteq> 0" "list_empty (WaitHead Lock) s" "malloc_locked sz (hmem s) = Some (c, h)"
  shows "malloc sz s = Some (Returned (chunk_to_memeory c), s\<lparr>hmem := h\<rparr>)"
  using assms
  by (simp add: malloc_def semaphore_wait_def semaphore_post_def malloc_rest_def atom_operate_lock_def atom_operate_unlock_def
      Let_def list_empty_def)

section \<open>Properties\<close>


text \<open>A heap with a free chunk of 80 bytes.\<close>

definition thread_heap :: mallocor where
  "thread_heap = small_heap\<lparr>hmem := (\<lambda>_. 0)(0x2007eff8 := 0x100, 0x2007f048 := 0x10000808,
     0x10000810 := 0x2007f040, 0x10000814 := 0x2007f040, 0x1000080c := 80)\<rparr>"

lemma thread_heap_sizes:
  "align_upside 1 4 = 4" "align_upside 72 4 = 72" "align_upside 72 8 = 72" "get_box_index 72 = 8" "bit_scan_forward 256 = 8"
  "get_same_chunk_group 8 = 0x2007f040"
  by code_simp+

lemma thread_heap_malloc: "\<exists>h. malloc 56 thread_heap = Some (Returned 0x10000810, thread_heap\<lparr>hmem := h\<rparr>)"
proof -
  have "list_empty (WaitHead Lock) thread_heap"
    by (simp add: thread_heap_def list_empty_def small_heap_def two_threads_def activate_thread_def list_add_def list_add_between_def
        set_next_def set_prev_def sample_def WaitHead_def Lock_def Node_def OS_ActiveProc_def)
  moreover have "Counter thread_heap Lock \<noteq> 0" by (simp add: thread_heap_def small_heap_fields)
  moreover have "\<exists>h. malloc_locked 56 (hmem thread_heap) = Some (0x10000808, h)"
    by (simp add: malloc_locked_def malloc_find_def is_small_def thread_heap_sizes small_heap_groups thread_heap_def
        checkout_small_chunk_in_group_def splite_free_chunk_def checkin_free_chunk_def Let_def)
  ultimately show ?thesis using malloc_quiet [of thread_heap 56] by (auto simp: chunk_to_memeory_def)
qed


text \<open>\<open>startup\<close> on a cleared memory empties all queues, makes the idle thread the only live and
  ready thread, and the processor enters \<open>idle\<close> with the frame of \<open>stack_init\<close>.\<close>

theorem startup_runs_idle:
  assumes "OS_LiveList s = NULL"
  shows "\<exists>psp s'. startup name s = Some (psp, replicate 8 0, s') \<and>
    ready_inv s' {OS_DeadList} ((\<lambda>_. [])(OS_ActiveProc 32 := [Node OS_Idle])) \<and> live_list s' [OS_Idle] \<and>
    OS_This s' = OS_Idle \<and> Priority s' OS_Idle = 32 \<and>
    pop_regs 8 psp s' = [NULL, 0, 0, 0, 0, exit_fn, idle_fn, 0x01000000]"
proof -
  let ?W = "{OS_DeadList}" and ?Q = "(\<lambda>_. [])(OS_ActiveProc 32 := [Node OS_Idle])"
  obtain m where m: "startup_idle name (startup_queues s) = (list_add (Node OS_Idle) (OS_ActiveProc 32) ((startup_queues s)\<lparr>
       pStackBottom := (pStackBottom (startup_queues s))(OS_Idle := OS_aIdleStack + 1020),
       stack_mem := m, pStackTop := (pStackTop (startup_queues s))(OS_Idle := OS_aIdleStack + 960),
       Priority := (Priority (startup_queues s))(OS_Idle := 32), pName := (pName (startup_queues s))(OS_Idle := name)\<rparr>))\<lparr>OS_This := OS_Idle\<rparr>"
    "pop_regs 16 (OS_aIdleStack + 960) ((startup_queues s)\<lparr>stack_mem := m\<rparr>) = first_frame idle_fn NULL"
    using startup_idle_unfold by blast
  let ?i = "startup_idle name (startup_queues s)"
  have "OS_LiveList ?i = NULL"
    unfolding m(1) using assms by (simp add: startup_queues_def init_heads_os ring_simps)
  then obtain s5 where s5: "thread_register OS_Idle ?i = Some s5" "live_list s5 [OS_Idle]"
    using thread_register_live [of ?i "[]" OS_Idle] by (auto simp: live_list_def OS_Idle_def)
  note f5 = thread_register_frame [OF s5(1)]
  have e5: "pStackTop s5 OS_Idle = OS_aIdleStack + 960" "OS_This s5 = OS_Idle" "stack_mem s5 = m" "Priority s5 OS_Idle = 32"
    by (subst f5, subst m, simp add: ring_simps)+
  have n: "\<not> on_family (ready_heads \<union> ?W) (\<lambda>_. []) (Node OS_Idle)"
    using ready_heads_range [of "Node OS_Idle"] by (auto simp: on_family_def Node_def OS_Idle_def OS_DeadList_def)
  let ?q = "(startup_queues s)\<lparr>
       pStackBottom := (pStackBottom (startup_queues s))(OS_Idle := OS_aIdleStack + 1020),
       stack_mem := m, pStackTop := (pStackTop (startup_queues s))(OS_Idle := OS_aIdleStack + 960),
       Priority := (Priority (startup_queues s))(OS_Idle := 32), pName := (pName (startup_queues s))(OS_Idle := name)\<rparr>"
  have "ready_inv ?q ?W (\<lambda>_. [])" by (rule ready_priority [OF startup_queues_ready n]) simp_all
  from ready_add_idle [OF this n] have r: "ready_inv (list_add (Node OS_Idle) (OS_ActiveProc 32) ?q) ?W ?Q" by simp
  have r5: "ready_inv s5 ?W ?Q"
    using r by (subst ready_inv_cong [of _ "list_add (Node OS_Idle) (OS_ActiveProc 32) ?q"]) (subst f5, subst m, simp)+
  obtain new s6 where s6: "shift (pStackTop s5 OS_Idle) s5 = (new, s6)" by fastforce
  note sh = shift_ready [OF r5 _ s6]
  have this6: "OS_This s6 = OS_Idle"
    using sh(1) by (auto split: if_splits)
  have live6: "live_list s6 [OS_Idle]"
    using s5(2) s6 by (auto simp: live_list_def shift_def Let_def)
  have "pop_regs 16 (OS_aIdleStack + 960) s6 = first_frame idle_fn NULL"
    unfolding m(2) [symmetric] using s6 e5(3) by (intro pop_regs_cong) (auto simp: shift_def Let_def)
  then have pops: "pop_regs 8 (OS_aIdleStack + 960) s6 = replicate 8 0"
    "pop_regs 8 (OS_aIdleStack + 992) s6 = [NULL, 0, 0, 0, 0, exit_fn, idle_fn, 0x01000000]"
    using pop_regs_tail [of 8 8 "OS_aIdleStack + 960" s6] by (simp_all add: first_frame_def numeral_eq_Suc add.commute)
  have "new = OS_aIdleStack + 960" "Priority s6 OS_Idle = 32" using s6 e5 this6 by (auto simp: shift_def Let_def)
  moreover have "startup name s = Some (new + 32, pop_regs 8 new s6, s6)"
    using s5(1) s6 m(1) e5(2) by (simp add: startup_def activate_system_def Let_def)
  ultimately show ?thesis using sh(4) this6 live6 pops by (simp add: add.commute)
qed

theorem startup_runs_idle_witness:
  "\<exists>psp s'. startup 0x3000 ((two_threads ())\<lparr>OS_LiveList := NULL\<rparr>) = Some (psp, replicate 8 0, s') \<and> OS_This s' = OS_Idle"
  using startup_runs_idle [of "(two_threads ())\<lparr>OS_LiveList := NULL\<rparr>" "0x3000"] by auto

text \<open>\<open>kill\<close> of another thread that is ready takes it off the list of live threads and off its ready
  queue and gives its memory back with \<open>free\<close>; the other threads stay as they are.\<close>

theorem kill_removes:
  assumes "ready_inv s W Q" "Priority s t = p" "p \<le> 32" "pKill s t = NULL" "t \<noteq> NULL"
    "Node t \<in> set (Q (OS_ActiveProc p))" "live_list s (us @ t # vs)"
  shows "\<exists>s'. kill call t s = after (free t s') (\<lambda>_ s. Some (Returned OK, s)) \<and> live_list s' (us @ vs) \<and>
    ready_inv s' W (Q(OS_ActiveProc p := remove1 (Node t) (Q (OS_ActiveProc p)))) \<and>
    Counter s' = Counter s \<and> hmem s' = hmem s \<and> PRIMASK s' = PRIMASK s"
proof -
  let ?Q = "Q(OS_ActiveProc p := remove1 (Node t) (Q (OS_ActiveProc p)))"
  let ?s0 = "s\<lparr>PRIMASK := 1\<rparr>"
  obtain s1 where s1: "thread_unregister t ?s0 = Some s1" "live_list s1 (us @ vs)"
      "s1 = live_set (live_last LiveHead us) (pLive ?s0 t) ?s0"
    using thread_unregister_live [of ?s0 us t vs] assms(7) by (auto simp: live_list_def)
  let ?s2 = "vivify_thread t p s1"
  let ?s3 = "snd (OS_timer_del (Timer t) ?s2)"
  let ?s' = "?s3\<lparr>PRIMASK := PRIMASK s\<rparr>"
  have k: "same_kernel ?s2 ?s3" by (rule same_kernel_timer_del)
  have "ready_inv s1 W Q" using assms(1) by (subst ready_inv_cong [of _ s]) (simp_all add: s1(3))
  then have "ready_inv ?s2 W ?Q" using ready_vivify(1) assms(3,6) by blast
  then have "ready_inv ?s' W ?Q" using same_kernel_ready [OF k] by (subst ready_inv_cong [of _ ?s3]) simp_all
  moreover have "live_list ?s' (us @ vs)"
    using s1(2) k by (simp add: live_list_cong [of ?s' s1] same_kernel_def)
  moreover have "os.more ?s' = os.more s" 
    using k by (simp add: same_kernel_def s1(3))
  then have "Counter ?s' = Counter s" "hmem ?s' = hmem s" by (rule more_fields)+
  moreover have "kill call t s = after (free t ?s') (\<lambda>_ s. Some (Returned OK, s))"
    using assms s1(1,3) by (simp add: kill_def atom_operate_lock_def atom_operate_unlock_def Let_def split: prod.splits)
  ultimately show ?thesis by (intro exI [of _ ?s']) simp
qed

theorem kill_removes_witness:
  "\<exists>s'. kill (\<lambda>_ s. s) 0x1000 sample_heap = Some (Switched, s')"
proof -
  let ?Q = "(\<lambda>_. [])(OS_ActiveProc 32 := [Node 0x2000], OS_ActiveProc 3 := [Node 0x1000])"
  have r: "ready_inv sample_heap {} ?Q" unfolding sample_heap_def by (rule sample_ready) auto
  have f: "Counter sample_heap = (\<lambda>_. 0)" "pKill sample_heap = (\<lambda>_. 0)" "Priority sample_heap 0x1000 = 3"
    by (simp_all add: sample_heap_def two_threads_def activate_thread_def list_add_def list_add_between_def
      set_next_def set_prev_def sample_def)
  have l: "live_list sample_heap ([] @ 0x1000 # [])" by (simp add: live_list_def sample_heap_def)
  obtain s' where "kill (\<lambda>_ s. s) 0x1000 sample_heap = after (free 0x1000 s') (\<lambda>_ s. Some (Returned OK, s))" "Counter s' = Counter sample_heap"
    using kill_removes [OF r, of "0x1000" 3 "[]" "[]" "\<lambda>_ s. s"] f l by auto
  then show ?thesis using lock_taken [of s'] f by (auto simp: free_def)
qed

text \<open>The work of one round of the idle loop on the heap.\<close>

fun free_all :: "addr list \<Rightarrow> heap \<Rightarrow> heap option" where
  "free_all [] h = Some h"
| "free_all (t # ts) h = (case free_locked t h of None \<Rightarrow> None | Some h \<Rightarrow> free_all ts h)"

text \<open>C14: with the allocator's lock free and nobody waiting for it, one round of the idle loop ends and
  frees every dead thread once, in the order of the list, which is empty afterwards.\<close>

theorem idle_reap_frees:
  assumes "dlist s OS_DeadList ns" "Counter s Lock \<noteq> 0" "list_empty (WaitHead Lock) s"
    "WaitHead Lock \<notin> set ns" "thread_of_node ` set ns \<inter> {NULL} = {}" "free_all (map thread_of_node ns) (hmem s) = Some h"
  shows "\<exists>s'. idle_reap (nxt s OS_DeadList) s = Some (Returned (), s') \<and> dlist s' OS_DeadList [] \<and> hmem s' = h \<and>
    Counter s' = Counter s"
  using assms
proof (induction ns arbitrary: s)
  case Nil
  then show ?case by (subst idle_reap.simps) (auto simp: dlist_def)
next
  case (Cons n ns)
  let ?s1 = "list_del n s"
  have d: "nxt s OS_DeadList = n" "n \<noteq> OS_DeadList" "dlist ?s1 OS_DeadList ns"
    using Cons.prems(1) dlist_list_del [OF Cons.prems(1), of n] by (auto simp: dlist_def)
  obtain h1 where h1: "free_locked (thread_of_node n) (hmem s) = Some h1" "free_all (map thread_of_node ns) h1 = Some h"
    using Cons.prems(6) by (auto split: option.splits)
  let ?s2 = "?s1\<lparr>hmem := h1\<rparr>"
  have n1: "nxt ?s1 = (nxt s)(OS_DeadList := nxt s n)" using Cons.prems(1) by (simp add: dlist_def list_del_def list_del_between_def)
  have w: "list_empty (WaitHead Lock) ?s1"
    using Cons.prems(3) by (simp add: list_empty_def n1 WaitHead_def Lock_def OS_DeadList_def)
  have f: "free (thread_of_node n) ?s1 = Some (Returned (), ?s2)"
    using Cons.prems(2,5) h1 w by (intro free_quiet) (auto simp: ring_simps)
  have "nxt ?s2 n = nxt ?s2 OS_DeadList" using d(2) by (simp add: n1)
  then have "idle_reap (nxt s OS_DeadList) s = idle_reap (nxt ?s2 OS_DeadList) ?s2"
    using d f by (subst idle_reap.simps) (simp add: Let_def)
  moreover have "\<exists>s'. idle_reap (nxt ?s2 OS_DeadList) ?s2 = Some (Returned (), s') \<and> dlist s' OS_DeadList [] \<and> hmem s' = h \<and>
    Counter s' = Counter ?s2"
    using d(3) w Cons.prems(2-5) h1 by (intro Cons.IH) (auto simp: dlist_def list_empty_def ring_simps)
  ultimately show ?case by (simp add: ring_simps)
qed

text \<open>A thread at 0x10000810 is dead; its chunk has 56 bytes.\<close>

definition one_dead :: mallocor where
  "one_dead = small_heap\<lparr>nxt := id(OS_DeadList := 0x10000830, 0x10000830 := OS_DeadList),
     prv := id(OS_DeadList := 0x10000830, 0x10000830 := OS_DeadList), hmem := (\<lambda>_. 1)(0x1000080c := 57)\<rparr>"

theorem idle_reap_frees_witness:
  "\<exists>s'. idle_reap 0x10000830 one_dead = Some (Returned (), s') \<and> dlist s' OS_DeadList []"
proof -
  have "dlist one_dead OS_DeadList [0x10000830]" by (simp add: dlist_def one_dead_def OS_DeadList_def)
  moreover have "Counter one_dead = (\<lambda>_. 1)" by (simp add: one_dead_def small_heap_fields)
  moreover have "list_empty (WaitHead Lock) one_dead"
    by (simp add: one_dead_def list_empty_def WaitHead_def Lock_def OS_DeadList_def)
  moreover have "test_bit 1 0 = 1" by code_simp
  then have "\<exists>h. free_all (map thread_of_node [0x10000830]) (hmem one_dead) = Some h"
    by (simp add: free_locked_def one_dead_def thread_of_node_def merge_prev_def merge_next_def checkin_free_chunk_def
      is_small_def Let_def get_chunk_size_def)
  moreover have "nxt one_dead OS_DeadList = 0x10000830" by (simp add: one_dead_def)
  ultimately show ?thesis
    using idle_reap_frees [of one_dead "[0x10000830]"] by (auto simp: WaitHead_def Lock_def thread_of_node_def)
qed

end
