(* ===== verification/Printk.thy ===== *)
theory Printk
  imports Bits
begin

text \<open>
  library/printk.c up to the output of the finished string: the number formatter and
  \<open>vsprintf\<close>.  A format is the list of its characters without the final NUL, the output is the
  list of characters written so far, and the variable arguments are the words that \<open>va_arg\<close> takes;
  \<open>None\<close> means that the format asks for more of them than there are.  \<open>mem\<close> gives the
  characters that pointers point at; the writes of \<open>%n\<close> are returned.  Signed integers that the
  code never lets overflow are mathematical ones; the number to print is a word.
\<close>

section \<open>Definitions\<close>

abbreviation (input) ZEROPAD :: u32 where "ZEROPAD \<equiv> 1"
abbreviation (input) SIGN :: u32 where "SIGN \<equiv> 2"
abbreviation (input) PLUS :: u32 where "PLUS \<equiv> 4"
abbreviation (input) SPACE :: u32 where "SPACE \<equiv> 8"
abbreviation (input) LEFT :: u32 where "LEFT \<equiv> 16"
abbreviation (input) SPECIAL :: u32 where "SPECIAL \<equiv> 32"
abbreviation (input) LARGE :: u32 where "LARGE \<equiv> 64"

definition is_digit :: "char \<Rightarrow> bool" where
  "is_digit c \<longleftrightarrow> of_char c \<ge> (of_char (CHR ''0'') :: nat) \<and> of_char c \<le> (of_char (CHR ''9'') :: nat)"

fun skip_atoi :: "int \<Rightarrow> string \<Rightarrow> int \<times> string" where
  "skip_atoi i [] = (i, [])"
| "skip_atoi i (c # cs) =
     (if is_digit c then skip_atoi (i * 10 + of_char c - of_char (CHR ''0'')) cs else (i, c # cs))"

function strnlen :: "u32 \<Rightarrow> (nat \<Rightarrow> char) \<Rightarrow> nat" where
  "strnlen count s = (if count \<noteq> 0 \<and> s 0 \<noteq> CHR 0x00 then Suc (strnlen (count - 1) (\<lambda>i. s (Suc i))) else 0)"
  by pat_completeness auto
termination
  by (relation "measure (\<lambda>(count, _). unat count)") (auto simp: unat_minus_one unat_gt_0)

declare strnlen.simps [simp del]

definition do_div :: "u32 \<Rightarrow> int \<Rightarrow> nat \<times> u32" where
  "do_div n base = (unat (n mod of_int base), n div of_int base)"

definition digits :: "u32 \<Rightarrow> string" where
  "digits type =
     (if type AND LARGE \<noteq> 0 then ''0123456789ABCDEFGHIJKLMNOPQRSTUVWXYZ''
      else ''0123456789abcdefghijklmnopqrstuvwxyz'')"

text \<open>The digits, least significant first, into the 66 characters of \<open>tmp\<close>.\<close>

fun put_digits :: "nat \<Rightarrow> string \<Rightarrow> int \<Rightarrow> u32 \<Rightarrow> string option" where
  "put_digits 0 ds base num = (if num \<noteq> 0 then None else Some [])"
| "put_digits (Suc n) ds base num =
     (if num \<noteq> 0 then
        let (res, num) = do_div num base
        in map_option ((#) (ds ! res)) (put_digits n ds base num)
      else Some [])"

text \<open>\<open>while (n-- > 0) *str++ = c\<close>: what it writes, and \<open>n\<close> afterwards.\<close>

definition pad :: "char \<Rightarrow> int \<Rightarrow> string \<times> int" where
  "pad c n = (replicate (nat n) c, min n 0 - 1)"

definition number :: "u32 \<Rightarrow> int \<Rightarrow> int \<Rightarrow> int \<Rightarrow> u32 \<Rightarrow> string option" where
  "number num base sz prec type =
     (let ds = digits type;
          type = (if type AND LEFT \<noteq> 0 then type AND NOT ZEROPAD else type)
      in if base < 2 \<or> base > 36 then None
         else
           let c = (if type AND ZEROPAD \<noteq> 0 then CHR ''0'' else CHR '' '');
               (sign, num, sz) =
                 (if type AND SIGN \<noteq> 0 then
                    if sint num < 0 then (''-'', - num, sz - 1)
                    else if type AND PLUS \<noteq> 0 then (''+'', num, sz - 1)
                    else if type AND SPACE \<noteq> 0 then ('' '', num, sz - 1)
                    else ('''', num, sz)
                  else ('''', num, sz));
               sz = (if type AND SPECIAL \<noteq> 0 then
                       if base = 16 then sz - 2 else if base = 8 then sz - 1 else sz
                     else sz)
           in case (if num = 0 then Some ''0'' else put_digits 66 ds base num) of
                None \<Rightarrow> None
              | Some tmp \<Rightarrow>
                  let i = int (length tmp);
                      prec = (if i > prec then i else prec);
                      sz = sz - prec;
                      (out1, sz) = (if type AND (ZEROPAD + LEFT) = 0 then pad (CHR '' '') sz else ('''', sz));
                      prefix = (if type AND SPECIAL \<noteq> 0 then
                                  if base = 8 then ''0'' else if base = 16 then [CHR ''0'', ds ! 33] else ''''
                                else '''');
                      (out2, sz) = (if type AND LEFT = 0 then pad c sz else ('''', sz));
                      out3 = replicate (nat (prec - i)) (CHR ''0'');
                      (out4, sz) = pad (CHR '' '') sz
                  in Some (out1 @ sign @ prefix @ out2 @ out3 @ rev tmp @ out4))"

text \<open>The parts of a conversion specification.\<close>

fun get_flags :: "u32 \<Rightarrow> string \<Rightarrow> u32 \<times> string" where
  "get_flags flags [] = (flags, [])"
| "get_flags flags (c # fmt) =
     (if c = CHR ''-'' then get_flags (flags OR LEFT) fmt
      else if c = CHR ''+'' then get_flags (flags OR PLUS) fmt
      else if c = CHR '' '' then get_flags (flags OR SPACE) fmt
      else if c = CHR ''#'' then get_flags (flags OR SPECIAL) fmt
      else if c = CHR ''0'' then get_flags (flags OR ZEROPAD) fmt
      else (flags, c # fmt))"

definition starts :: "(char \<Rightarrow> bool) \<Rightarrow> string \<Rightarrow> bool" where
  "starts P fmt \<longleftrightarrow> (case fmt of [] \<Rightarrow> False | c # _ \<Rightarrow> P c)"

definition va_arg :: "u32 list \<Rightarrow> (u32 \<times> u32 list) option" where
  "va_arg args = (case args of [] \<Rightarrow> None | w # ws \<Rightarrow> Some (w, ws))"

definition get_width :: "u32 \<Rightarrow> string \<Rightarrow> u32 list \<Rightarrow> (int \<times> u32 \<times> string \<times> u32 list) option" where
  "get_width flags fmt args =
     (if starts is_digit fmt then
        let (width, fmt) = skip_atoi 0 fmt in Some (width, flags, fmt, args)
      else if starts ((=) (CHR ''*'')) fmt then
        (case va_arg args of
           None \<Rightarrow> None
         | Some (w, args) \<Rightarrow>
             if sint w < 0 then Some (- sint w, flags OR LEFT, tl fmt, args)
             else Some (sint w, flags, tl fmt, args))
      else Some (- 1, flags, fmt, args))"

definition get_precision :: "string \<Rightarrow> u32 list \<Rightarrow> (int \<times> string \<times> u32 list) option" where
  "get_precision fmt args =
     (if starts ((=) (CHR ''.'')) fmt then
        let fmt = tl fmt in
        (case (if starts is_digit fmt then
                 let (prec, fmt) = skip_atoi 0 fmt in Some (prec, fmt, args)
               else if starts ((=) (CHR ''*'')) fmt then
                 map_option (\<lambda>(w, args). (sint w, tl fmt, args)) (va_arg args)
               else Some (- 1, fmt, args)) of
           None \<Rightarrow> None
         | Some (prec, fmt, args) \<Rightarrow> Some (if prec < 0 then 0 else prec, fmt, args))
      else Some (- 1, fmt, args))"

definition get_qualifier :: "string \<Rightarrow> char option \<times> string" where
  "get_qualifier fmt =
     (if starts (\<lambda>c. c = CHR ''h'' \<or> c = CHR ''l'' \<or> c = CHR ''L'') fmt
      then (Some (hd fmt), tl fmt) else (None, fmt))"

text \<open>The conversions of a character and of a string, and the choice of the number to print.\<close>

definition convert_char :: "u32 \<Rightarrow> int \<Rightarrow> u32 \<Rightarrow> string" where
  "convert_char flags width w =
     (let (out1, width) = (if flags AND LEFT = 0
                           then (replicate (nat (width - 1)) (CHR '' ''), min (width - 1) 0)
                           else ('''', width));
          out2 = replicate (nat (width - 1)) (CHR '' '')
      in out1 @ [char_of (unat w)] @ out2)"

definition convert_string :: "(addr \<Rightarrow> char) \<Rightarrow> u32 \<Rightarrow> int \<Rightarrow> int \<Rightarrow> addr \<Rightarrow> string" where
  "convert_string mem flags width prec p =
     (let s = (if p = NULL then (\<lambda>i. (''<NULL>'' @ [CHR 0x00]) ! i) else (\<lambda>i. mem (p + of_nat i)));
          len = strnlen (of_int prec) s;
          (out1, width) = (if flags AND LEFT = 0
                           then (replicate (nat (width - int len)) (CHR '' ''), min width (int len) - 1)
                           else ('''', width));
          out2 = replicate (nat (width - int len)) (CHR '' '')
      in out1 @ map s [0..<len] @ out2)"

definition get_number :: "u32 \<Rightarrow> char option \<Rightarrow> u32 \<Rightarrow> u32" where
  "get_number flags qual w =
     (if qual = Some (CHR ''l'') then w
      else if qual = Some (CHR ''h'') then
        let num = ucast (ucast w :: u16)
        in if flags AND SIGN \<noteq> 0 then scast (ucast num :: u16) else num
      else w)"

text \<open>
  One conversion, from the character after the qualifier on: the output with what it adds, the
  writes of \<open>%n\<close>, the rest of the format and of the arguments.
\<close>

type_synonym fmt_state = "string \<times> (addr \<times> nat) list \<times> string \<times> u32 list"

definition convert_number :: "string \<Rightarrow> (addr \<times> nat) list \<Rightarrow> u32 \<Rightarrow> int \<Rightarrow> int \<Rightarrow> char option \<Rightarrow> int \<Rightarrow> string \<Rightarrow> u32 list \<Rightarrow>
    fmt_state option" where
  "convert_number out ws flags width prec qual base fmt args =
     (case va_arg args of
        None \<Rightarrow> None
      | Some (w, args) \<Rightarrow>
          (case number (get_number flags qual w) base width prec flags of
             None \<Rightarrow> None
           | Some ds \<Rightarrow> Some (out @ ds, ws, fmt, args)))"

definition convert :: "(addr \<Rightarrow> char) \<Rightarrow> string \<Rightarrow> (addr \<times> nat) list \<Rightarrow> u32 \<Rightarrow> int \<Rightarrow> int \<Rightarrow> char option \<Rightarrow> string \<Rightarrow> u32 list \<Rightarrow>
    fmt_state option" where
  "convert mem out ws flags width prec qual fmt args =
     (case fmt of
        [] \<Rightarrow> Some (out @ ''%'', ws, [], args)
      | c # fmt \<Rightarrow>
          if c = CHR ''c'' then
            (case va_arg args of
               None \<Rightarrow> None
             | Some (w, args) \<Rightarrow> Some (out @ convert_char flags width w, ws, fmt, args))
          else if c = CHR ''s'' then
            (case va_arg args of
               None \<Rightarrow> None
             | Some (w, args) \<Rightarrow> Some (out @ convert_string mem flags width prec w, ws, fmt, args))
          else if c = CHR ''p'' then
            let (flags, width) = (if width = - 1 then (flags OR ZEROPAD, 8) else (flags, width)) in
            (case va_arg args of
               None \<Rightarrow> None
             | Some (w, args) \<Rightarrow>
                 map_option (\<lambda>ds. (out @ ds, ws, fmt, args)) (number w 16 width prec flags))
          else if c = CHR ''n'' then
            (case va_arg args of
               None \<Rightarrow> None
             | Some (w, args) \<Rightarrow> Some (out, (w, length out) # ws, fmt, args))
          else if c = CHR ''%'' then Some (out @ ''%'', ws, fmt, args)
          else if c = CHR ''o'' then convert_number out ws flags width prec qual 8 fmt args
          else if c = CHR ''X'' then convert_number out ws (flags OR LARGE) width prec qual 16 fmt args
          else if c = CHR ''x'' then convert_number out ws flags width prec qual 16 fmt args
          else if c = CHR ''d'' \<or> c = CHR ''i'' then convert_number out ws (flags OR SIGN) width prec qual 10 fmt args
          else if c = CHR ''u'' then convert_number out ws flags width prec qual 10 fmt args
          else Some (out @ [CHR ''%'', c], ws, fmt, args))"

text \<open>What follows a \<open>%\<close>.\<close>

definition directive :: "(addr \<Rightarrow> char) \<Rightarrow> string \<Rightarrow> (addr \<times> nat) list \<Rightarrow> string \<Rightarrow> u32 list \<Rightarrow> fmt_state option" where
  "directive mem out ws fmt args =
     (let (flags, fmt) = get_flags 0 fmt in
      (case get_width flags fmt args of
         None \<Rightarrow> None
       | Some (width, flags, fmt, args) \<Rightarrow>
           (case get_precision fmt args of
              None \<Rightarrow> None
            | Some (prec, fmt, args) \<Rightarrow>
                let (qual, fmt) = get_qualifier fmt
                in convert mem out ws flags width prec qual fmt args)))"

section \<open>The format is consumed\<close>

lemma skip_atoi_length: "length (snd (skip_atoi i cs)) \<le> length cs"
  by (induction i cs rule: skip_atoi.induct) auto

lemma get_flags_length: "length (snd (get_flags f cs)) \<le> length cs"
  by (induction f cs rule: get_flags.induct) auto

lemma get_width_length: "get_width flags fmt args = Some (w, f, fmt', args') \<Longrightarrow> length fmt' \<le> length fmt"
  using skip_atoi_length [of 0 fmt]
  by (auto simp: get_width_def split: if_splits option.splits prod.splits)

lemma get_precision_length: "get_precision fmt args = Some (p, fmt', args') \<Longrightarrow> length fmt' \<le> length fmt"
  using skip_atoi_length [of 0 "tl fmt"]
  by (cases fmt) (auto simp: get_precision_def starts_def split: if_splits option.splits prod.splits)

lemma get_qualifier_length: "length (snd (get_qualifier fmt)) \<le> length fmt"
  by (cases fmt) (auto simp: get_qualifier_def)

lemma convert_length: "convert mem out ws f w p q fmt args = Some (out', ws', fmt', args') \<Longrightarrow> length fmt' \<le> length fmt"
  by (auto simp: convert_def convert_number_def split: list.splits if_splits option.splits prod.splits)

lemma directive_length: "directive mem out ws fmt args = Some (out', ws', fmt', args') \<Longrightarrow> length fmt' \<le> length fmt"
proof -
  assume a: "directive mem out ws fmt args = Some (out', ws', fmt', args')"
  obtain f fmt1 where 1: "get_flags 0 fmt = (f, fmt1)" by (metis surj_pair)
  with a obtain w f2 fmt2 args2 where 2: "get_width f fmt1 args = Some (w, f2, fmt2, args2)"
    by (auto simp: directive_def split: option.splits)
  with a 1 obtain p fmt3 args3 where 3: "get_precision fmt2 args2 = Some (p, fmt3, args3)"
    by (auto simp: directive_def split: option.splits)
  obtain q fmt4 where 4: "get_qualifier fmt3 = (q, fmt4)" by (metis surj_pair)
  have "convert mem out ws f2 w p q fmt4 args3 = Some (out', ws', fmt', args')"
    using a by (simp add: directive_def 1 2 3 4)
  from convert_length [OF this] show "length fmt' \<le> length fmt"
    using get_flags_length [of 0 fmt] get_width_length [OF 2] get_precision_length [OF 3] get_qualifier_length [of fmt3] 1 4
    by simp
qed

function vsprintf_from :: "(addr \<Rightarrow> char) \<Rightarrow> string \<Rightarrow> (addr \<times> nat) list \<Rightarrow> string \<Rightarrow> u32 list \<Rightarrow>
    (string \<times> (addr \<times> nat) list) option" where
  "vsprintf_from mem out ws [] args = Some (out, ws)"
| "vsprintf_from mem out ws (c # fmt) args =
     (if c \<noteq> CHR ''%'' then vsprintf_from mem (out @ [c]) ws fmt args
      else (case directive mem out ws fmt args of
              None \<Rightarrow> None
            | Some (out, ws, fmt, args) \<Rightarrow> vsprintf_from mem out ws fmt args))"
  by pat_completeness auto
termination
  by (relation "measure (\<lambda>(_, _, _, fmt, _). length fmt)") (auto dest: directive_length)

text \<open>\<open>vsprintf\<close>: the text it leaves in the buffer in front of the NUL, with its length, and the writes of \<open>%n\<close>.\<close>

definition vsprintf :: "(addr \<Rightarrow> char) \<Rightarrow> string \<Rightarrow> u32 list \<Rightarrow> (nat \<times> string \<times> (addr \<times> nat) list) option" where
  "vsprintf mem fmt args =
     (case vsprintf_from mem [] [] fmt args of
        None \<Rightarrow> None
      | Some (out, ws) \<Rightarrow> Some (length out, out, ws))"

section \<open>Numbers\<close>

text \<open>The numeral of a number in a base, most significant digit first.\<close>

function numeral_of :: "string \<Rightarrow> nat \<Rightarrow> nat \<Rightarrow> string" where
  "numeral_of ds b n = (if b < 2 \<or> n < b then [ds ! n] else numeral_of ds b (n div b) @ [ds ! (n mod b)])"
  by pat_completeness auto
termination
  by (relation "measure (\<lambda>(_, _, n). n)") auto

declare numeral_of.simps [simp del]

lemma unat_base: "0 \<le> base \<Longrightarrow> base \<le> 36 \<Longrightarrow> unat (of_int base :: u32) = nat base"
proof -
  assume "0 \<le> base" "base \<le> 36"
  then obtain n where n: "base = int n" "n \<le> 36" using nonneg_int_cases [of base] by fastforce
  then show ?thesis using unat_of_nat_small [of n] by simp
qed

lemma put_digits_zero [simp]: "put_digits n ds base 0 = Some []"
  by (cases n) simp_all

lemma put_digits_numeral:
  assumes "2 \<le> base" "base \<le> 36"
  shows "num \<noteq> 0 \<Longrightarrow> unat num < nat base ^ n \<Longrightarrow> put_digits n ds base num = Some (rev (numeral_of ds (nat base) (unat num)))"
proof (induction n arbitrary: num)
  case 0
  then have "unat num = 0" by simp
  with 0(1) show ?case by (simp only: unat_eq_zero)
next
  case (Suc n)
  let ?b = "of_int base :: u32"
  have b: "unat ?b = nat base" using assms by (simp add: unat_base)
  have d: "unat (num div ?b) = unat num div nat base" "unat (num mod ?b) = unat num mod nat base"
    by (simp_all add: unat_div unat_mod b)
  show ?case
  proof (cases "num div ?b = 0")
    case True
    then have "unat num < nat base" using d(1) assms by (auto simp: div_eq_0_iff)
    then show ?thesis using Suc.prems True d by (simp add: do_div_def numeral_of.simps)
  next
    case False
    then have "unat num div nat base \<noteq> 0" using d(1) by (metis unat_eq_zero)
    then have n: "\<not> unat num < nat base" by auto
    have "unat (num div ?b) < nat base ^ n"
      using Suc.prems(2) assms by (simp add: d less_mult_imp_div_less mult.commute)
    then have "put_digits n ds base (num div ?b) = Some (rev (numeral_of ds (nat base) (unat num div nat base)))"
      using Suc.IH [OF False] by (simp add: d)
    moreover have "\<not> nat base < 2" using assms by simp
    ultimately show ?thesis using Suc.prems n d
      by (simp add: do_div_def numeral_of.simps [of _ "nat base" "unat num"])
  qed
qed

lemma number_digits:
  assumes "2 \<le> base" "base \<le> 36"
  shows "(if num = 0 then Some ''0'' else put_digits 66 (digits type) base num) = Some (rev (numeral_of (digits type) (nat base) (unat num)))"
proof (cases "num = 0")
  case True
  then show ?thesis using assms by (simp add: numeral_of.simps digits_def)
next
  case False
  have "(2::nat) ^ 66 \<le> nat base ^ 66" using assms by (intro power_mono) auto
  moreover have "unat num < 2 ^ 66" using unat_less_2p32 [of num] by simp
  ultimately have "unat num < nat base ^ 66" by (rule less_le_trans [rotated])
  then show ?thesis using put_digits_numeral [OF assms False] False by simp
qed

text \<open>The layout that the flags ask for.\<close>

definition sign_text :: "u32 \<Rightarrow> u32 \<Rightarrow> string" where
  "sign_text type num =
     (if type AND SIGN = 0 then ''''
      else if sint num < 0 then ''-'' else if type AND PLUS \<noteq> 0 then ''+'' else if type AND SPACE \<noteq> 0 then '' '' else '''')"

definition prefix_text :: "u32 \<Rightarrow> int \<Rightarrow> string" where
  "prefix_text type base =
     (if type AND SPECIAL = 0 then ''''
      else if base = 8 then ''0'' else if base = 16 then [CHR ''0'', digits type ! 33] else '''')"

definition magnitude :: "u32 \<Rightarrow> u32 \<Rightarrow> nat" where
  "magnitude type num = unat (if type AND SIGN \<noteq> 0 \<and> sint num < 0 then - num else num)"

definition layout :: "u32 \<Rightarrow> int \<Rightarrow> int \<Rightarrow> int \<Rightarrow> u32 \<Rightarrow> string" where
  "layout num base sz prec type =
     (let ds = numeral_of (digits type) (nat base) (magnitude type num);
          ds = replicate (nat prec - length ds) (CHR ''0'') @ ds;
          head = sign_text type num @ prefix_text type base;
          fill = nat sz - length (head @ ds)
      in if type AND LEFT \<noteq> 0 then head @ ds @ replicate fill (CHR '' '')
         else if type AND ZEROPAD \<noteq> 0 then head @ replicate fill (CHR ''0'') @ ds
         else replicate fill (CHR '' '') @ head @ ds)"

text \<open>The flags as bits.\<close>

lemma flag_bits:
  "(x :: u32) AND 1 = 0 \<longleftrightarrow> \<not> bit x 0" "x AND 2 = 0 \<longleftrightarrow> \<not> bit x 1" "x AND 4 = 0 \<longleftrightarrow> \<not> bit x 2" "x AND 8 = 0 \<longleftrightarrow> \<not> bit x 3"
  "x AND 16 = 0 \<longleftrightarrow> \<not> bit x 4" "x AND 32 = 0 \<longleftrightarrow> \<not> bit x 5" "x AND 64 = 0 \<longleftrightarrow> \<not> bit x 6"
  using and_exp_eq_0_iff_not_bit [of x 0] and_exp_eq_0_iff_not_bit [of x 1] and_exp_eq_0_iff_not_bit [of x 2]
    and_exp_eq_0_iff_not_bit [of x 3] and_exp_eq_0_iff_not_bit [of x 4] and_exp_eq_0_iff_not_bit [of x 5]
    and_exp_eq_0_iff_not_bit [of x 6] by simp_all

lemma bit_clear_zeropad: "n < 32 \<Longrightarrow> bit (x AND NOT 1 :: u32) n \<longleftrightarrow> bit x n \<and> n \<noteq> 0"
  by (auto simp: bit_and_iff bit_not_iff bit_1_iff)

lemma zeropad_left: "(x :: u32) AND 17 = 0 \<longleftrightarrow> \<not> bit x 0 \<and> \<not> bit x 4"
proof -
  have "(17 :: u32) = 1 OR 16" by simp
  then have "x AND 17 = (x AND 1) OR (x AND 16)" by (simp only: bit.conj_disj_distrib)
  then show ?thesis by (simp add: or_eq_0_iff flag_bits)
qed

text \<open>The padding, for any sign, prefix and digits.\<close>

lemma padding:
  fixes ds sg pf :: string and sz prec :: int
  defines "p \<equiv> (if int (length ds) > prec then int (length ds) else prec)"
  defines "z \<equiv> sz - int (length sg) - int (length pf) - p"
  defines "ds' \<equiv> replicate (nat prec - length ds) (CHR ''0'') @ ds"
  defines "fill \<equiv> nat sz - length (sg @ pf @ ds')"
  shows "(case (if \<not> zero \<and> \<not> left then pad (CHR '' '') z else ('''', z)) of (out1, z) \<Rightarrow>
          (case (if \<not> left then pad (if zero \<and> \<not> left then CHR ''0'' else CHR '' '') z else ('''', z)) of (out2, z) \<Rightarrow>
            (case pad (CHR '' '') z of (out4, z) \<Rightarrow>
              Some (out1 @ sg @ pf @ out2 @ replicate (nat (p - int (length ds))) (CHR ''0'') @ ds @ out4)))) =
         Some (if left then (sg @ pf) @ ds' @ replicate fill (CHR '' '')
          else if zero then (sg @ pf) @ replicate fill (CHR ''0'') @ ds'
          else replicate fill (CHR '' '') @ (sg @ pf) @ ds')"
proof -
  have z: "nat z = fill"
    by (auto simp: z_def fill_def ds'_def p_def)
  have d: "replicate (nat (p - int (length ds))) (CHR ''0'') @ ds = ds'"
    by (auto simp: p_def ds'_def nat_diff_distrib)
  have n: "nat (min z 0 - 1) = 0" "nat (min (min z 0 - 1) 0 - 1) = 0" by auto
  show ?thesis by (simp add: pad_def z n) (simp add: d [symmetric])
qed

lemma number_layout:
  assumes "2 \<le> base" "base \<le> 36"
  shows "number num base sz prec type = Some (layout num base sz prec type)"
proof -
  define T where "T = (if type AND LEFT \<noteq> 0 then type AND NOT ZEROPAD else type)"
  have b: "bit T n \<longleftrightarrow> bit type n \<and> (n = 0 \<longrightarrow> \<not> bit type 4)" if "n < 32" for n
    using that bit_clear_zeropad [of n type] flag_bits(5) [of type] by (auto simp: T_def)
  let ?neg = "bit type 1 \<and> sint num < 0"
  let ?num = "if ?neg then - num else num"
  let ?ds = "numeral_of (digits type) (nat base) (magnitude type num)"
  have d: "(if ?num = 0 then Some ''0'' else put_digits 66 (digits type) base ?num) = Some (rev ?ds)"
    using number_digits [OF assms, of ?num type] by (simp only: magnitude_def flag_bits not_not)
  let ?sg = "sign_text type num" and ?pf = "prefix_text type base"
  have T: "T AND ZEROPAD = 0 \<longleftrightarrow> \<not> (bit type 0 \<and> \<not> bit type 4)" "T AND SIGN = 0 \<longleftrightarrow> \<not> bit type 1"
    "T AND PLUS = 0 \<longleftrightarrow> \<not> bit type 2" "T AND SPACE = 0 \<longleftrightarrow> \<not> bit type 3" "T AND LEFT = 0 \<longleftrightarrow> \<not> bit type 4"
    "T AND SPECIAL = 0 \<longleftrightarrow> \<not> bit type 5" "T AND (ZEROPAD + LEFT) = 0 \<longleftrightarrow> \<not> bit type 0 \<and> \<not> bit type 4"
    using b [of 0] b [of 1] b [of 2] b [of 3] b [of 4] b [of 5] by (simp_all add: flag_bits zeropad_left) blast
  have sg: "(if T AND SIGN \<noteq> 0 then
                    if sint num < 0 then (''-'', - num, sz - 1)
                    else if T AND PLUS \<noteq> 0 then (''+'', num, sz - 1)
                    else if T AND SPACE \<noteq> 0 then ('' '', num, sz - 1)
                    else ('''', num, sz)
                  else ('''', num, sz)) = (?sg, ?num, sz - int (length ?sg))"
    unfolding T by (simp add: sign_text_def flag_bits)
  have pf: "(if T AND SPECIAL \<noteq> 0 then if base = 16 then z - 2 else if base = 8 then z - 1 else z else z) = z - int (length ?pf)"
    "(if T AND SPECIAL \<noteq> 0 then if base = 8 then ''0'' else if base = 16 then [CHR ''0'', digits type ! 33] else '''' else '''') = ?pf" for z
    unfolding T by (simp_all add: prefix_text_def flag_bits)
  have "\<not> (base < 2 \<or> base > 36)" using assms by simp
  note p = padding [where ds = ?ds and prec = prec and sz = sz and sg = ?sg and pf = ?pf and zero = "bit type 0" and left = "bit type 4"]
  show ?thesis
    unfolding number_def Let_def T_def [symmetric] sg pf
    by (simp only: if_False if_not_P [OF \<open>\<not> (base < 2 \<or> base > 36)\<close>] prod.case d option.case length_rev rev_rev_ident T not_not p)
      (simp only: layout_def Let_def flag_bits not_not append_assoc)
qed

section \<open>Reading back\<close>

definition digit_value :: "char \<Rightarrow> nat" where
  "digit_value c = length (takeWhile ((\<noteq>) c) ''0123456789abcdefghijklmnopqrstuvwxyz'')"

definition read_base :: "nat \<Rightarrow> string \<Rightarrow> nat" where
  "read_base b cs = foldl (\<lambda>v c. v * b + digit_value c) 0 cs"

lemma digit_chars: "list_all (\<lambda>k. digit_value (digits 0 ! k) = k \<and> (is_digit (digits 0 ! k) \<longleftrightarrow> k < 10) \<and>
    (k < 10 \<longrightarrow> of_char (digits 0 ! k) - of_char (CHR ''0'') = int k) \<and> digits 0 ! k \<noteq> CHR ''%'') [0..<36]"
  by code_simp

lemma digit_char:
  assumes "k < 36"
  shows "digit_value (digits 0 ! k) = k" "is_digit (digits 0 ! k) \<longleftrightarrow> k < 10"
    "k < 10 \<Longrightarrow> of_char (digits 0 ! k) - of_char (CHR ''0'') = int k"
  using digit_chars assms unfolding list_all_upt by auto

lemma read_base_numeral: "2 \<le> b \<Longrightarrow> b \<le> 36 \<Longrightarrow> read_base b (numeral_of (digits 0) b n) = n"
proof (induction n rule: less_induct)
  case (less n)
  show ?case
  proof (cases "n < b")
    case True
    then show ?thesis using less.prems by (simp add: numeral_of.simps read_base_def digit_char)
  next
    case False
    then have "n div b < n" using less.prems by simp
    moreover have "n mod b < 36" using less.prems by (meson le_trans mod_less_divisor not_le order_less_le_trans zero_less_numeral)
    ultimately show ?thesis using less False
      by (simp add: numeral_of.simps [of _ b n] read_base_def digit_char)
  qed
qed

lemma skip_atoi_numeral:
  "skip_atoi i (numeral_of (digits 0) 10 n @ rest) =
     skip_atoi (i * 10 ^ length (numeral_of (digits 0) 10 n) + int n) rest"
proof (induction n arbitrary: rest rule: less_induct)
  case (less n)
  have one: "skip_atoi j ((digits 0 ! k) # rest) = skip_atoi (j * 10 + int k) rest" if "k < 10" for j k rest
    using digit_char [of k] that by (simp add: algebra_simps)
  show ?case
  proof (cases "n < 10")
    case True
    then show ?thesis by (simp add: numeral_of.simps one del: skip_atoi.simps)
  next
    case False
    then have "n div 10 < n" by simp
    have "int n = int (n div 10) * 10 + int (n mod 10)" by (metis div_mult_mod_eq of_nat_add of_nat_mult of_nat_numeral)
    then show ?thesis
      using False less.IH [OF \<open>n div 10 < n\<close>]
      by (simp add: numeral_of.simps [of _ 10 n] one algebra_simps del: skip_atoi.simps)
  qed
qed

lemma skip_atoi_stop: "\<not> starts is_digit rest \<Longrightarrow> skip_atoi i rest = (i, rest)"
  by (cases rest) (auto simp: starts_def)

lemma numeral_nonempty [simp]: "numeral_of ds b n \<noteq> []"
  by (subst numeral_of.simps) simp

lemma numeral_hd: "2 \<le> b \<Longrightarrow> b \<le> 36 \<Longrightarrow> 0 < n \<Longrightarrow> hd (numeral_of (digits 0) b n) \<noteq> CHR ''0''"
proof (induction n rule: less_induct)
  case (less n)
  have z: "digit_value (CHR ''0'') = 0" by code_simp
  show ?case
  proof (cases "n < b")
    case True
    then show ?thesis using less.prems digit_char(1) [of n] z by (auto simp: numeral_of.simps)
  next
    case False
    then show ?thesis using less.IH [of "n div b"] less.prems
      by (simp add: numeral_of.simps [of _ b n] div_greater_zero_iff)
  qed
qed

section \<open>Properties\<close>

text \<open>C15: for every base from 2 to 36, any width, precision and flags, \<open>number\<close> writes the
  declarative layout: sign, prefix and digits with the zeros of the precision, padded to the width with
  spaces on the right when left-justified, with zeros behind the prefix when zero-padded and with spaces on the left
  otherwise; the text is as long as the width or longer.\<close>

theorem number_lays_out:
  assumes "2 \<le> base" "base \<le> 36"
  shows "number num base sz prec type = Some (layout num base sz prec type) \<and>
    length (layout num base sz prec type) =
      max (nat sz) (length (sign_text type num @ prefix_text type base) +
        max (nat prec) (length (numeral_of (digits type) (nat base) (magnitude type num))))"
  using number_layout [OF assms] by (auto simp: layout_def Let_def max_def)

theorem number_lays_out_witness:
  "number (- 42) 10 6 (- 1) (SIGN OR ZEROPAD) = Some ''-00042'' \<and> number 255 16 8 (- 1) (SPECIAL OR LEFT) = Some ''0xff    ''"
proof -
  have "layout (- 42) 10 6 (- 1) (SIGN OR ZEROPAD) = ''-00042''" by code_simp
  moreover have "layout 255 16 8 (- 1) (SPECIAL OR LEFT) = ''0xff    ''" by code_simp
  ultimately show ?thesis
    using number_lays_out [of 10 "- 42" 6 "- 1" "SIGN OR ZEROPAD"] number_lays_out [of 16 255 8 "- 1" "SPECIAL OR LEFT"]
    by simp
qed

text \<open>what \<open>number\<close> writes without flags is the canonical numeral of its argument as an unsigned
  number: reading it back gives the number, there is no leading zero, and in base 10 \<open>skip_atoi\<close>
  reads exactly this number and stops behind it.\<close>

theorem number_reads_back:
  assumes "2 \<le> base" "base \<le> 36" "\<not> starts is_digit rest"
  shows "\<exists>ds. number num base (- 1) (- 1) 0 = Some ds \<and> read_base (nat base) ds = unat num \<and> ds \<noteq> [] \<and>
    (num \<noteq> 0 \<longrightarrow> hd ds \<noteq> CHR ''0'') \<and> (base = 10 \<longrightarrow> skip_atoi 0 (ds @ rest) = (int (unat num), rest))"
proof -
  let ?ds = "numeral_of (digits 0) (nat base) (unat num)"
  have "layout num base (- 1) (- 1) 0 = ?ds"
    by (simp add: layout_def Let_def sign_text_def prefix_text_def magnitude_def)
  then have "number num base (- 1) (- 1) 0 = Some ?ds" using number_layout [OF assms(1,2)] by simp
  moreover have "skip_atoi 0 (numeral_of (digits 0) 10 (unat num) @ rest) = (int (unat num), rest)"
    using assms(3) by (simp add: skip_atoi_numeral skip_atoi_stop)
  moreover have "read_base (nat base) ?ds = unat num" using assms by (intro read_base_numeral) auto
  moreover have "num \<noteq> 0 \<longrightarrow> hd ?ds \<noteq> CHR ''0''" using assms numeral_hd [of "nat base" "unat num"] by (auto simp: unat_gt_0)
  ultimately show ?thesis by auto
qed

theorem number_reads_back_witness:
  "\<exists>ds. number 0xFFFFFFFF 10 (- 1) (- 1) 0 = Some ds \<and> skip_atoi 0 (ds @ '' km'') = (4294967295, '' km'')"
proof -
  have "\<not> starts is_digit '' km''" by code_simp
  from number_reads_back [OF _ _ this, of 10 "0xFFFFFFFF"] show ?thesis by auto
qed

text \<open>Text without a percent sign is copied.\<close>

lemma vsprintf_copies:
  "CHR ''%'' \<notin> set p \<Longrightarrow> vsprintf_from mem out ws (p @ fmt) args = vsprintf_from mem (out @ p) ws fmt args"
  by (induction p arbitrary: out) auto

definition decimal :: "u32 \<Rightarrow> string" where
  "decimal w = (if sint w < 0 then CHR ''-'' # numeral_of (digits 0) 10 (unat (- w)) else numeral_of (digits 0) 10 (unat w))"

lemma digits_sign: "digits SIGN = digits 0"
  by (simp add: digits_def)

lemma directive_d: "directive mem out ws (CHR ''d'' # fmt) (w # args) = Some (out @ decimal w, ws, fmt, args)"
proof -
  have "number w 10 (- 1) (- 1) SIGN = Some (decimal w)"
    by (simp add: number_layout layout_def Let_def sign_text_def prefix_text_def magnitude_def decimal_def digits_sign)
  moreover have "is_digit (CHR ''d'') = False" by code_simp
  ultimately show ?thesis
    by (simp add: directive_def get_width_def starts_def get_precision_def get_qualifier_def convert_def convert_number_def
        va_arg_def get_number_def)
qed

lemma directive_s:
  "directive mem out ws (CHR ''s'' # fmt) (w # args) = Some (out @ convert_string mem 0 (- 1) (- 1) w, ws, fmt, args)"
proof -
  have "is_digit (CHR ''s'') = False" by code_simp
  then show ?thesis
    by (simp add: directive_def get_width_def starts_def get_precision_def get_qualifier_def convert_def va_arg_def)
qed

definition c_string :: "(addr \<Rightarrow> char) \<Rightarrow> addr \<Rightarrow> string \<Rightarrow> bool" where
  "c_string mem a cs \<longleftrightarrow> (\<forall>i<length cs. mem (a + of_nat i) = cs ! i) \<and> CHR 0x00 \<notin> set cs \<and>
     mem (a + of_nat (length cs)) = CHR 0x00"

lemma strnlen_string:
  "(\<forall>i<length cs. s i = cs ! i) \<Longrightarrow> CHR 0x00 \<notin> set cs \<Longrightarrow> s (length cs) = CHR 0x00 \<Longrightarrow> length cs \<le> unat count \<Longrightarrow>
   strnlen count s = length cs"
proof (induction cs arbitrary: s count)
  case Nil
  then show ?case by (simp add: strnlen.simps)
next
  case (Cons c cs)
  have "unat count \<noteq> 0" using Cons.prems(4) by auto
  then have n: "count \<noteq> 0" by (auto simp: unat_eq_zero)
  then have "unat (count - 1) = unat count - 1" by (rule unat_minus_one)
  then have "strnlen (count - 1) (\<lambda>i. s (Suc i)) = length cs"
    using Cons.prems by (intro Cons.IH) (auto dest: spec [of _ "Suc i" for i])
  moreover have "s 0 \<noteq> CHR 0x00" using Cons.prems(1,2) by force
  ultimately show ?case using n by (subst strnlen.simps) simp
qed

lemma convert_c_string:
  assumes "c_string mem a cs" "a \<noteq> NULL" "length cs < 2 ^ 32"
  shows "convert_string mem 0 (- 1) (- 1) a = cs"
proof -
  have "unat (- 1 :: u32) = 2 ^ 32 - 1" by (simp add: unsigned_minus_1_eq_mask mask_eq_exp_minus_1)
  then have "strnlen (- 1) (\<lambda>i. mem (a + of_nat i)) = length cs"
    using assms by (intro strnlen_string) (simp_all add: c_string_def)
  moreover have "map (\<lambda>i. mem (a + of_nat i)) [0..<length cs] = cs"
    using assms(1) by (intro nth_equalityI) (auto simp: c_string_def)
  ultimately show ?thesis using assms(2) by (simp add: convert_string_def)
qed

text \<open>C16: \<open>vsprintf\<close> copies the text of a message and puts the signed decimal numeral of its
  argument in the place of \<open>%d\<close> and the string its argument points at in the place of \<open>%s\<close>; it returns the length.\<close>

theorem vsprintf_message:
  assumes "CHR ''%'' \<notin> set p" "CHR ''%'' \<notin> set q" "CHR ''%'' \<notin> set r" "c_string mem a cs" "a \<noteq> NULL" "length cs < 2 ^ 32"
  shows "vsprintf mem (p @ ''%d'' @ q @ ''%s'' @ r) [w, a] =
    (let out = p @ decimal w @ q @ cs @ r in Some (length out, out, []))"
proof -
  have "vsprintf_from mem out ws r [] = Some (out @ r, ws)" for out ws
    using vsprintf_copies [OF assms(3), of mem out ws "[]"] by simp
  then have "vsprintf_from mem [] [] (p @ ''%d'' @ q @ ''%s'' @ r) [w, a] = Some (p @ decimal w @ q @ cs @ r, [])"
    using assms by (simp add: vsprintf_copies directive_d directive_s convert_c_string)
  then show ?thesis by (simp add: vsprintf_def Let_def)
qed

theorem vsprintf_message_witness:
  "vsprintf (\<lambda>a. if a = 0x100 then CHR ''o'' else if a = 0x101 then CHR ''k'' else CHR 0x00) ''n = %d: %s!'' [- 7, 0x100] =
    Some (11, ''n = -7: ok!'', [])"
proof -
  have c: "c_string (\<lambda>a. if a = 0x100 then CHR ''o'' else if a = 0x101 then CHR ''k'' else CHR 0x00) 0x100 ''ok''"
    by (auto simp: c_string_def less_Suc_eq)
  have "decimal (- 7) = ''-7''" by code_simp
  then show ?thesis using vsprintf_message [OF _ _ _ c, of "''n = ''" "'': ''" "''!''" "- 7"] by (simp add: Let_def)
qed

end
