(* ===== verification/Uart.thy ===== *)
theory Uart
  imports Threads Printk
begin

text \<open>
  lpc1766/uart: the driver of the serial ports (uart.c), the port uart0 with its pins, and the character
  output of library/sysio/sysio.c and \<open>printk\<close> on top of it.  The chip is a parameter: \<open>tick\<close> is what it does to its
  registers between two polls of a status register, \<open>after_read a\<close> what it does when the register \<open>a\<close>
  has been read (the receive buffer gives up a character).  A poll that never sees its bit is \<open>None\<close>.
\<close>

section \<open>The driver\<close>

record 's chip =
  tick :: "'s \<Rightarrow> 's"
  after_read :: "addr \<Rightarrow> 's \<Rightarrow> 's"

partial_function (option) poll :: "('a bus_scheme \<Rightarrow> 'a bus_scheme) \<Rightarrow> addr \<Rightarrow> u32 \<Rightarrow> 'a bus_scheme \<Rightarrow> 'a bus_scheme option" where
  "poll tk a m s = (if read_dword a s AND m = 0 then poll tk a m (tk s) else Some s)"

record uart_info =
  BaseAddress :: addr

abbreviation (input) RBR :: u32 where "RBR \<equiv> 0x00"
abbreviation (input) THR :: u32 where "THR \<equiv> 0x00"
abbreviation (input) DLL :: u32 where "DLL \<equiv> 0x00"
abbreviation (input) DLM :: u32 where "DLM \<equiv> 0x04"
abbreviation (input) FCR :: u32 where "FCR \<equiv> 0x08"
abbreviation (input) LCR :: u32 where "LCR \<equiv> 0x0C"
abbreviation (input) LSR :: u32 where "LSR \<equiv> 0x14"
abbreviation (input) FDR :: u32 where "FDR \<equiv> 0x28"

abbreviation (input) DLi :: u32 where "DLi \<equiv> 5"
abbreviation (input) DLm :: u32 where "DLm \<equiv> 14"
abbreviation (input) DLn :: u32 where "DLn \<equiv> 5"

definition uart_setup :: "uart_info \<Rightarrow> int \<Rightarrow> 'a bus_scheme \<Rightarrow> int \<times> 'a bus_scheme" where
  "uart_setup This Speed s =
     (let Base = BaseAddress This;
          s = write_dword (Base + LCR) (push_bit 0 3 OR push_bit 2 0 OR push_bit 3 0 OR push_bit 4 0 OR push_bit 6 0 OR push_bit 7 0) s;
          s = dword_set_bits (Base + FCR) (push_bit 0 1 OR push_bit 2 1) s;
          s = dword_set_bits (Base + LCR) (push_bit 7 1) s;
          s = write_dword (Base + DLM) (drop_bit 8 DLi) s;
          s = write_dword (Base + DLL) (DLi AND 0xFF) s;
          s = write_dword (Base + FDR) (push_bit 4 DLm OR push_bit 0 DLn) s;
          s = dword_clear_bits (Base + LCR) (push_bit 7 1) s
      in (OK, s))"

definition uart_cleanup :: "uart_info \<Rightarrow> 'a bus_scheme \<Rightarrow> 'a bus_scheme" where
  "uart_cleanup This s = s"

text \<open>\<open>*pBuffer\<close> is the second result; \<open>Size\<close> is not looked at.\<close>

definition uart_recv :: "'a bus_scheme chip \<Rightarrow> uart_info \<Rightarrow> int \<Rightarrow> 'a bus_scheme \<Rightarrow> (int \<times> char \<times> 'a bus_scheme) option" where
  "uart_recv chip This sz s =
     (let Base = BaseAddress This in
      case poll (tick chip) (Base + LSR) 0x01 s of
        None \<Rightarrow> None
      | Some s \<Rightarrow>
          let c = char_of (unat (read_dword (Base + RBR) s));
              s = after_read chip (Base + RBR) s
          in Some (OK, c, s))"

definition uart_send :: "'a bus_scheme chip \<Rightarrow> uart_info \<Rightarrow> char \<Rightarrow> int \<Rightarrow> 'a bus_scheme \<Rightarrow> (int \<times> 'a bus_scheme) option" where
  "uart_send chip This c sz s =
     (let Base = BaseAddress This in
      case poll (tick chip) (Base + LSR) (push_bit 5 0x01) s of
        None \<Rightarrow> None
      | Some s \<Rightarrow> let s = write_dword (Base + THR) (of_char c) s in Some (OK, s))"

section \<open>The port uart0\<close>

definition PINSEL0 :: addr where "PINSEL0 = 0x4002C000"

definition uart0_info :: uart_info where
  "uart0_info = \<lparr>BaseAddress = 0x4000C000\<rparr>"

definition uart0_setup :: "'a bus_scheme \<Rightarrow> int \<times> 'a bus_scheme" where
  "uart0_setup s =
     (let s = dword_set_bits PCONP (push_bit 3 1) s;
          s = dword_modify PINSEL0 (push_bit 7 1 OR push_bit 5 1) (push_bit 6 1 OR push_bit 4 1) s
      in uart_setup uart0_info 0 s)"

definition uart0_cleanup :: "'a bus_scheme \<Rightarrow> int \<times> 'a bus_scheme" where
  "uart0_cleanup s = (let s = dword_clear_bits PCONP (push_bit 3 1) s in (OK, s))"

definition uart0_send :: "'a bus_scheme chip \<Rightarrow> char \<Rightarrow> int \<Rightarrow> 'a bus_scheme \<Rightarrow> (int \<times> 'a bus_scheme) option" where
  "uart0_send chip c sz s = map_option (\<lambda>(_, s). (OK, s)) (uart_send chip uart0_info c sz s)"

definition uart0_recv :: "'a bus_scheme chip \<Rightarrow> int \<Rightarrow> 'a bus_scheme \<Rightarrow> (int \<times> char \<times> 'a bus_scheme) option" where
  "uart0_recv chip sz s = map_option (\<lambda>(_, c, s). (OK, c, s)) (uart_recv chip uart0_info sz s)"

section \<open>Character input and output\<close>

definition scanc :: "'a bus_scheme chip \<Rightarrow> 'a bus_scheme \<Rightarrow> (char \<times> 'a bus_scheme) option" where
  "scanc chip s = map_option (\<lambda>(_, c, s). (c, s)) (uart0_recv chip 1 s)"

definition printc :: "'a bus_scheme chip \<Rightarrow> char \<Rightarrow> 'a bus_scheme \<Rightarrow> (int \<times> 'a bus_scheme) option" where
  "printc chip c s = uart0_send chip c 1 s"

text \<open>A string is its characters up to the NUL; the null pointer is \<open>None\<close>.\<close>

fun prints_loop :: "'a bus_scheme chip \<Rightarrow> string \<Rightarrow> 'a bus_scheme \<Rightarrow> 'a bus_scheme option" where
  "prints_loop chip [] s = Some s"
| "prints_loop chip (c # cs) s =
     (case printc chip c s of None \<Rightarrow> None | Some (_, s) \<Rightarrow> prints_loop chip cs s)"

definition prints :: "'a bus_scheme chip \<Rightarrow> string option \<Rightarrow> 'a bus_scheme \<Rightarrow> (int \<times> 'a bus_scheme) option" where
  "prints chip pString s =
     (case pString of
        None \<Rightarrow> Some (ERR_BAD_PARAM, s)
      | Some cs \<Rightarrow> map_option (Pair OK) (prints_loop chip cs s))"

text \<open>
  \<open>printk\<close>: the text is built in a local buffer and printed up to its first NUL; the result
  is the length that \<open>vsprintf\<close> returned.
\<close>

definition printk :: "'a bus_scheme chip \<Rightarrow> (addr \<Rightarrow> char) \<Rightarrow> string \<Rightarrow> u32 list \<Rightarrow> 'a bus_scheme \<Rightarrow>
    (nat \<times> 'a bus_scheme) option" where
  "printk chip mem Format args s =
     (case vsprintf mem Format args of
        None \<Rightarrow> None
      | Some (i, aPrintBuf, _) \<Rightarrow>
          (case prints chip (Some (takeWhile (\<lambda>c. c \<noteq> CHR 0x00) aPrintBuf)) s of
             None \<Rightarrow> None
           | Some (_, s) \<Rightarrow> Some (i, s)))"

section \<open>Lemmas\<close>

text \<open>A poll ends when the chip sets the bit after some number of ticks.\<close>

lemma poll_ends:
  "read_dword a ((tk ^^ n) s) AND m \<noteq> 0 \<Longrightarrow>
   \<exists>k\<le>n. poll tk a m s = Some ((tk ^^ k) s) \<and> read_dword a ((tk ^^ k) s) AND m \<noteq> 0"
proof (induction n arbitrary: s)
  case 0
  then show ?case by (subst poll.simps) auto
next
  case (Suc n)
  show ?case
  proof (cases "read_dword a s AND m = 0")
    case True
    have "read_dword a ((tk ^^ n) (tk s)) AND m \<noteq> 0" using Suc.prems by (simp add: funpow_swap1)
    from Suc.IH [OF this] obtain k where "k \<le> n" "poll tk a m (tk s) = Some ((tk ^^ k) (tk s))"
      "read_dword a ((tk ^^ k) (tk s)) AND m \<noteq> 0" by blast
    then show ?thesis using True by (intro exI [of _ "Suc k"]) (subst poll.simps, simp add: funpow_swap1)
  next
    case False
    then show ?thesis by (intro exI [of _ 0]) (subst poll.simps, simp)
  qed
qed

text \<open>A chip that drains its transmitter: in every state the status bit gets set some time, and ticks write nothing.\<close>

definition drains :: "'a bus_scheme chip \<Rightarrow> bool" where
  "drains chip \<longleftrightarrow> (\<forall>s. \<exists>n. read_dword 0x4000C014 ((tick chip ^^ n) s) AND 0x20 \<noteq> 0) \<and>
     (\<forall>s. io_log (tick chip s) = io_log s)"

lemma ticks_log: "drains chip \<Longrightarrow> io_log ((tick chip ^^ n) s) = io_log s"
  by (induction n) (auto simp: drains_def)

lemma printc_drains:
  assumes "drains chip"
  shows "\<exists>s'. printc chip c s = Some (OK, s') \<and> io_log s' = (0x4000C000, of_char c) # io_log s"
proof -
  obtain n where "read_dword 0x4000C014 ((tick chip ^^ n) s) AND 0x20 \<noteq> 0" using assms by (auto simp: drains_def)
  from poll_ends [OF this] obtain k where "poll (tick chip) 0x4000C014 0x20 s = Some ((tick chip ^^ k) s)" by blast
  then show ?thesis
    by (simp add: printc_def uart0_send_def uart_send_def uart0_info_def Let_def ticks_log [OF assms])
qed

lemma prints_loop_drains:
  "drains chip \<Longrightarrow> \<exists>s'. prints_loop chip cs s = Some s' \<and> io_log s' = map (\<lambda>c. (0x4000C000, of_char c)) (rev cs) @ io_log s"
proof (induction cs arbitrary: s)
  case (Cons c cs)
  obtain s1 where s1: "printc chip c s = Some (OK, s1)" "io_log s1 = (0x4000C000, of_char c) # io_log s"
    using printc_drains [OF Cons.prems] by blast
  obtain s2 where "prints_loop chip cs s1 = Some s2" "io_log s2 = map (\<lambda>c. (0x4000C000, of_char c)) (rev cs) @ io_log s1"
    using Cons by blast
  then show ?case using s1 by simp
qed simp

section \<open>Properties\<close>


text \<open>A chip whose transmitter is empty after one tick.\<close>

definition quick_chip :: "'a bus_scheme chip" where
  "quick_chip = \<lparr>tick = \<lambda>s. s\<lparr>io := (io s)(0x4000C014 := 0x20)\<rparr>, after_read = \<lambda>_ s. s\<rparr>"

lemma quick_chip_drains: "drains quick_chip"
proof -
  have "read_dword 0x4000C014 (tick quick_chip s) AND 0x20 \<noteq> 0" for s :: "'a bus_scheme"
  proof -
    have "bit (0x20 :: u8) 5" by code_simp
    then have "bit (read_dword 0x4000C014 (tick quick_chip s)) 5"
      by (simp add: quick_chip_def read_dword_def bit_dword_of)
    then show ?thesis by (simp add: flag_bits)
  qed
  then have "\<exists>n. read_dword 0x4000C014 ((tick quick_chip ^^ n) s) AND 0x20 \<noteq> 0" for s :: "'a bus_scheme"
    by (intro exI [of _ 1]) simp
  then show ?thesis by (simp add: drains_def) (simp add: quick_chip_def)
qed


end
