(* ===== verification/Console.thy ===== *)
theory Console
  imports Uart
begin

text \<open>
  library/console: the command interpreter of the serial console (console.c) and its built-in commands
  (commmand.c).  The linker merges the commands and the devices of all files into two tables; both are
  parameters.  \<open>chars\<close> is the byte memory in which names and the command buffer lie; the addresses of
  string literals are parameters as well.  String constants are spelled in the encoding of the source (GBK).
\<close>

section \<open>State\<close>

record console = mallocor +
  chars :: "addr \<Rightarrow> char"

record 's command_t =
  command_name :: addr
  command_description :: addr
  command_function :: "addr \<Rightarrow> 's \<Rightarrow> (int outcome \<times> 's) option"

record 's device_t =
  device_name :: addr
  device_description :: addr
  device_setup_fn :: "'s \<Rightarrow> (int outcome \<times> 's) option"

definition aCmdBuffer :: addr where "aCmdBuffer = 0x2007f198"

abbreviation (input) CMD_LINE_SIZE :: u32 where "CMD_LINE_SIZE \<equiv> 50"

text \<open>\<open>strlen\<close>, and \<open>memcmp\<close> as used here, for equality.\<close>

definition strlen :: "(addr \<Rightarrow> char) \<Rightarrow> addr \<Rightarrow> nat" where
  "strlen mem p = strnlen (- 1) (\<lambda>i. mem (p + of_nat i))"

definition memcmp_equal :: "(addr \<Rightarrow> char) \<Rightarrow> addr \<Rightarrow> addr \<Rightarrow> nat \<Rightarrow> bool" where
  "memcmp_equal mem a b n \<longleftrightarrow> list_all (\<lambda>i. mem (a + of_nat i) = mem (b + of_nat i)) [0..<n]"

definition set_char :: "addr \<Rightarrow> char \<Rightarrow> 'a console_scheme \<Rightarrow> 'a console_scheme" where
  "set_char a c s = s\<lparr>chars := (chars s)(a := c)\<rparr>"

section \<open>The interpreter\<close>

text \<open>The loop that counts the characters of the command and cuts it at its first space.\<close>

partial_function (option) cmd_split :: "addr \<Rightarrow> nat \<Rightarrow> 'a console_scheme \<Rightarrow> (nat \<times> 'a console_scheme) option" where
  "cmd_split pCmdName CmdSize s =
     (if chars s (pCmdName + of_nat CmdSize) \<noteq> CHR 0x00 then
        if CHR '' '' = chars s (pCmdName + of_nat CmdSize) then
          Some (CmdSize, set_char (pCmdName + of_nat CmdSize) (CHR 0x00) s)
        else cmd_split pCmdName (CmdSize + 1) s
      else Some (CmdSize, s))"

fun find_service :: "(addr \<Rightarrow> char) \<Rightarrow> 's command_t list \<Rightarrow> addr \<Rightarrow> nat \<Rightarrow> 's command_t option" where
  "find_service mem [] pCmdName CmdSize = None"
| "find_service mem (pItem # items) pCmdName CmdSize =
     (if CmdSize \<noteq> strlen mem (command_name pItem) then find_service mem items pCmdName CmdSize
      else if memcmp_equal mem pCmdName (command_name pItem) CmdSize then Some pItem
      else find_service mem items pCmdName CmdSize)"

definition status_format :: string where
  "status_format =
     ''%s'' @ [CHR 0xC3, CHR 0xFC, CHR 0xC1, CHR 0xEE, CHR 0xD6, CHR 0xB4, CHR 0xD0, CHR 0xD0, CHR 0xD7, CHR 0xB4,
     CHR 0xCC, CHR 0xAC] @ '': %d, %s'' @ [CHR 0x0D, CHR 0x0A, CHR 0x0A]"

definition undefined_format :: string where
  "undefined_format = [CHR 0x27] @ ''%s'' @ [CHR 0x27] @ '' command is not defined!'' @ [CHR 0x0D, CHR 0x0A]"

text \<open>\<open>aStatus i\<close> is the address of the text of the status \<open>- i\<close>.\<close>

definition service :: "'a console_scheme chip \<Rightarrow> (int \<Rightarrow> addr) \<Rightarrow> 'a console_scheme command_t list \<Rightarrow> addr \<Rightarrow>
    'a console_scheme \<Rightarrow> (unit outcome \<times> 'a console_scheme) option" where
  "service chip aStatus services pCmdName s =
     (case cmd_split pCmdName 0 s of
        None \<Rightarrow> None
      | Some (CmdSize, s) \<Rightarrow>
          (case find_service (chars s) services pCmdName CmdSize of
             Some pItem \<Rightarrow>
               after (command_function pItem (pCmdName + of_nat CmdSize + 1) s)
                 (\<lambda>Status s.
                    if OK \<noteq> Status then
                      map_option (\<lambda>(_, s). (Returned (), s))
                        (printk chip (chars s) status_format [pCmdName, of_int Status, aStatus (- Status)] s)
                    else Some (Returned (), s))
           | None \<Rightarrow>
               map_option (\<lambda>(_, s). (Returned (), s)) (printk chip (chars s) undefined_format [pCmdName] s)))"

text \<open>
  The \<open>do\<close> loop of \<open>command\<close> that reads one line: the number of characters and whether the line goes to
  \<open>service\<close> (an empty line goes to \<open>end\<close>).
\<close>

partial_function (option) read_line :: "'a console_scheme chip \<Rightarrow> u32 \<Rightarrow> 'a console_scheme \<Rightarrow>
    (u32 \<times> bool \<times> 'a console_scheme) option" where
  "read_line chip n s =
     (case scanc chip s of
        None \<Rightarrow> None
      | Some (c, s) \<Rightarrow>
          if CHR 0x7F = c \<or> CHR 0x08 = c then
            if n \<noteq> 0 then
              (case printc chip c s of
                 None \<Rightarrow> None
               | Some (_, s) \<Rightarrow>
                   if n - 1 < CMD_LINE_SIZE - 1 then read_line chip (n - 1) s else Some (n - 1, True, s))
            else if n < CMD_LINE_SIZE - 1 then read_line chip n s else Some (n, True, s)
          else if CHR 0x20 = c \<and> (0 = n \<or> CHR '' '' = chars s (aCmdBuffer + (n - 1))) then
            if n < CMD_LINE_SIZE - 1 then read_line chip n s else Some (n, True, s)
          else if CHR 0x0D = c then
            (case printc chip (CHR 0x0D) s of
               None \<Rightarrow> None
             | Some (_, s) \<Rightarrow>
                 (case printc chip (CHR 0x0A) s of
                    None \<Rightarrow> None
                  | Some (_, s) \<Rightarrow> if n \<noteq> 0 then Some (n, True, s) else Some (n, False, s)))
          else
            (case printc chip c s of
               None \<Rightarrow> None
             | Some (_, s) \<Rightarrow>
                 let s = set_char (aCmdBuffer + n) c s in
                 if n + 1 < CMD_LINE_SIZE - 1 then read_line chip (n + 1) s else Some (n + 1, True, s)))"

definition aCmdPrompt :: string where "aCmdPrompt = ''[ChinaOS]# ''"

text \<open>One turn of the endless loop of \<open>command\<close>.\<close>

definition command :: "'a console_scheme chip \<Rightarrow> (int \<Rightarrow> addr) \<Rightarrow> 'a console_scheme command_t list \<Rightarrow>
    'a console_scheme \<Rightarrow> (unit outcome \<times> 'a console_scheme) option" where
  "command chip aStatus services s =
     (let s = set_char (aCmdBuffer + (CMD_LINE_SIZE - 1)) (CHR 0x00) s in
      case read_line chip 0 s of
        None \<Rightarrow> None
      | Some (CharCounter, complete, s) \<Rightarrow>
          after (if complete then service chip aStatus services aCmdBuffer (set_char (aCmdBuffer + CharCounter) (CHR 0x00) s)
                 else Some (Returned (), s))
            (\<lambda>_ s. map_option (\<lambda>(_, s). (Returned (), s)) (prints chip (Some aCmdPrompt) s)))"

definition console_setup :: "'a console_scheme \<Rightarrow> int \<times> 'a console_scheme" where
  "console_setup s = (OK, s)"

section \<open>The commands of commmand.c\<close>

definition aVersionInfo :: string where
  "aVersionInfo =
     ''China Operating System ['' @ [CHR 0xB0, CHR 0xE6, CHR 0xB1, CHR 0xBE] @ '': 1.1]'' @ [CHR 0x0D, CHR 0x0A] @
     ''(C)'' @ [CHR 0xB0, CHR 0xE6, CHR 0xC8, CHR 0xA8, CHR 0xCB, CHR 0xF9, CHR 0xD3, CHR 0xD0] @
     '' 2009-2012 Fengliang And His Friends Corporation.'' @ [CHR 0x0D, CHR 0x0A]"

text \<open>A command that prints and returns \<open>result\<close>.\<close>

definition returning :: "int \<Rightarrow> ('r \<times> 's) option \<Rightarrow> (int outcome \<times> 's) option" where
  "returning result r = map_option (\<lambda>(_, s). (Returned result, s)) r"

definition version :: "'a console_scheme chip \<Rightarrow> addr \<Rightarrow> 'a console_scheme \<Rightarrow> (int outcome \<times> 'a console_scheme) option" where
  "version chip Option' s = returning OK (prints chip (Some aVersionInfo) s)"

text \<open>\<open>Time\<close> is never set: its fields are whatever the stack holds.\<close>

definition time_format :: string where
  "time_format =
     [CHR 0xB5, CHR 0xB1, CHR 0xC7, CHR 0xB0, CHR 0xCA, CHR 0xB1, CHR 0xBC, CHR 0xE4] @ '': %2d:%2d:%2d'' @ [CHR 0x0D, CHR 0x0A]"

definition time' :: "u8 \<times> u8 \<times> u8 \<Rightarrow> 'a console_scheme chip \<Rightarrow> addr \<Rightarrow> 'a console_scheme \<Rightarrow>
    (int outcome \<times> 'a console_scheme) option" where
  "time' Time' chip Option' s =
     (case Time' of (Hour, Minute, Second) \<Rightarrow>
        returning OK (printk chip (chars s) time_format [ucast Hour, ucast Minute, ucast Second] s))"

definition clear :: "'a console_scheme chip \<Rightarrow> addr \<Rightarrow> 'a console_scheme \<Rightarrow> (int outcome \<times> 'a console_scheme) option" where
  "clear chip Option' s = returning OK (printc chip (char_of (12 :: nat)) s)"

definition pair_format :: string where
  "pair_format = ''%-16s:%-16s'' @ [CHR 0x0D, CHR 0x0A]"

fun help_loop :: "'a console_scheme chip \<Rightarrow> 'a console_scheme command_t list \<Rightarrow> 'a console_scheme \<Rightarrow> 'a console_scheme option" where
  "help_loop chip [] s = Some s"
| "help_loop chip (pService # services) s =
     (case printk chip (chars s) pair_format [command_name pService, command_description pService] s of
        None \<Rightarrow> None
      | Some (_, s) \<Rightarrow> help_loop chip services s)"

definition help' :: "'a console_scheme chip \<Rightarrow> 'a console_scheme command_t list \<Rightarrow> addr \<Rightarrow> 'a console_scheme \<Rightarrow>
    (int outcome \<times> 'a console_scheme) option" where
  "help' chip services Option' s = map_option (Pair (Returned OK)) (help_loop chip services s)"

partial_function (option) count_used_stack_size :: "addr \<Rightarrow> addr \<Rightarrow> 'a os_scheme \<Rightarrow> u32 option" where
  "count_used_stack_size Top Bottom s =
     (if 0 = stack_mem s Top then count_used_stack_size (Top + 4) Bottom s else Some (Bottom - Top))"

definition rule_line :: string where
  "rule_line = ''--------------------------------------'' @ [CHR 0x0D, CHR 0x0A]"

definition thread_title :: string where
  "thread_title =
     '' '' @ [CHR 0xCF, CHR 0xDF, CHR 0xB3, CHR 0xCC, CHR 0xBA, CHR 0xC5] @ ''   '' @
     [CHR 0xCF, CHR 0xDF, CHR 0xB3, CHR 0xCC, CHR 0xC3, CHR 0xFB, CHR 0xB3, CHR 0xC6] @ ''   '' @
     [CHR 0xD3, CHR 0xC5, CHR 0xCF, CHR 0xC8, CHR 0xBC, CHR 0xB6] @ ''   '' @
     [CHR 0xD4, CHR 0xCB, CHR 0xD0, CHR 0xD0, CHR 0xBF, CHR 0xD5, CHR 0xBC, CHR 0xE4, CHR 0x0D, CHR 0x0A] @ rule_line"

definition thread_format :: string where
  "thread_format = ''%8X  %-10s %6d  %4d/%-5d'' @ [CHR 0x0D, CHR 0x0A]"

partial_function (option) thread_loop :: "'a console_scheme chip \<Rightarrow> addr \<Rightarrow> 'a console_scheme \<Rightarrow> 'a console_scheme option" where
  "thread_loop chip pThread s =
     (if NULL \<noteq> pThread then
        (case count_used_stack_size (pThread + 52) (pStackBottom s pThread) s of
           None \<Rightarrow> None
         | Some used \<Rightarrow>
             (case printk chip (chars s) thread_format
                [pThread, pName s pThread, Priority s pThread, used, pStackBottom s pThread - pThread - 52 + 4] s of
                None \<Rightarrow> None
              | Some (_, s) \<Rightarrow> thread_loop chip (pLive s pThread) s))
      else Some s)"

definition thread :: "'a console_scheme chip \<Rightarrow> addr \<Rightarrow> 'a console_scheme \<Rightarrow> (int outcome \<times> 'a console_scheme) option" where
  "thread chip Option' s =
     (case printk chip (chars s) thread_title [] s of
        None \<Rightarrow> None
      | Some (_, s) \<Rightarrow> map_option (Pair (Returned OK)) (thread_loop chip (OS_LiveList s) s))"

definition kill_format :: string where
  "kill_format = [CHR 0xC9, CHR 0xB1, CHR 0xB3, CHR 0xFD, CHR 0xCF, CHR 0xDF, CHR 0xB3, CHR 0xCC] @ '':%s'' @ [CHR 0x0D, CHR 0x0A]"

definition do_kill :: "'a console_scheme chip \<Rightarrow> addr \<Rightarrow> 'a console_scheme \<Rightarrow> (int outcome \<times> 'a console_scheme) option" where
  "do_kill chip Option' s = returning ERR_BAD_PARAM (printk chip (chars s) kill_format [Option'] s)"

definition device_title :: string where
  "device_title =
     '' '' @ [CHR 0xC9, CHR 0xE8, CHR 0xB1, CHR 0xB8, CHR 0xB6, CHR 0xD4, CHR 0xCF, CHR 0xF3] @ ''       '' @
     [CHR 0xB9, CHR 0xA6, CHR 0xC4, CHR 0xDC, CHR 0xC3, CHR 0xE8, CHR 0xCA, CHR 0xF6, CHR 0x0D, CHR 0x0A] @ rule_line"

fun device_loop :: "'a console_scheme chip \<Rightarrow> 'a console_scheme device_t list \<Rightarrow> 'a console_scheme \<Rightarrow> 'a console_scheme option" where
  "device_loop chip [] s = Some s"
| "device_loop chip (pDevice # devices) s =
     (case printk chip (chars s) pair_format [device_name pDevice, device_description pDevice] s of
        None \<Rightarrow> None
      | Some (_, s) \<Rightarrow> device_loop chip devices s)"

definition do_device :: "'a console_scheme chip \<Rightarrow> 'a console_scheme device_t list \<Rightarrow> addr \<Rightarrow> 'a console_scheme \<Rightarrow>
    (int outcome \<times> 'a console_scheme) option" where
  "do_device chip devices pOption s =
     (case printk chip (chars s) device_title [] s of
        None \<Rightarrow> None
      | Some (_, s) \<Rightarrow> map_option (Pair (Returned OK)) (device_loop chip devices s))"

section \<open>Editing a line\<close>

text \<open>
  What the interpreter expects of its terminal: the characters typed (\<open>inp\<close>) arrive one by one, and
  neither reading nor echoing touches the memory.
\<close>

definition terminal :: "'a console_scheme chip \<Rightarrow> ('a console_scheme \<Rightarrow> string) \<Rightarrow> bool" where
  "terminal chip inp \<longleftrightarrow>
     (\<forall>s c cs. inp s = c # cs \<longrightarrow> (\<exists>s'. scanc chip s = Some (c, s') \<and> inp s' = cs \<and> chars s' = chars s)) \<and>
     (\<forall>s c. \<exists>s'. printc chip c s = Some (OK, s') \<and> inp s' = inp s \<and> chars s' = chars s) \<and>
     (\<forall>s a c. inp (set_char a c s) = inp s)"

text \<open>The line that the typed characters make, whether it is a command, and what is typed ahead.\<close>

fun edit :: "string \<Rightarrow> string \<Rightarrow> (string \<times> bool \<times> string) option" where
  "edit ln [] = None"
| "edit ln (c # cs) =
     (if c = CHR 0x7F \<or> c = CHR 0x08 then edit (butlast ln) cs
      else if c = CHR '' '' \<and> (ln = [] \<or> last ln = CHR '' '') then edit ln cs
      else if c = CHR 0x0D then Some (ln, ln \<noteq> [], cs)
      else if length ln < 48 then edit (ln @ [c]) cs
      else Some (ln @ [c], True, cs))"

definition holds_line :: "(addr \<Rightarrow> char) \<Rightarrow> string \<Rightarrow> bool" where
  "holds_line m ln \<longleftrightarrow> (\<forall>i<length ln. m (aCmdBuffer + of_nat i) = ln ! i)"

lemma holds_butlast: "holds_line m ln \<Longrightarrow> holds_line m (butlast ln)"
  by (auto simp: holds_line_def nth_butlast)

lemma buffer_inj: "i < 49 \<Longrightarrow> j < 49 \<Longrightarrow> aCmdBuffer + of_nat i = aCmdBuffer + of_nat j \<longleftrightarrow> i = j"
  using of_nat_inj32 [of i j] by simp

lemma holds_snoc: "holds_line m ln \<Longrightarrow> length ln < 49 \<Longrightarrow> holds_line (m(aCmdBuffer + of_nat (length ln) := c)) (ln @ [c])"
  by (auto simp: holds_line_def nth_append less_Suc_eq of_nat_inj32)

lemma read_line_edits:
  assumes t: "terminal chip inp"
  shows "edit ln (inp s) = Some (ln', fin, rest) \<Longrightarrow> length ln < 49 \<Longrightarrow> holds_line (chars s) ln \<Longrightarrow>
    \<exists>s'. read_line chip (of_nat (length ln)) s = Some (of_nat (length ln'), fin, s') \<and> inp s' = rest \<and>
      holds_line (chars s') ln' \<and> length ln' \<le> 49 \<and>
      (\<forall>a. (\<forall>i<49. a \<noteq> aCmdBuffer + of_nat i) \<longrightarrow> chars s' a = chars s a)"
proof (induction "inp s" arbitrary: ln s)
  case Nil
  then show ?case by (metis edit.simps(1) option.distinct(1))
next
  case (Cons c cs)
  obtain s1 where s1: "scanc chip s = Some (c, s1)" "inp s1 = cs" "chars s1 = chars s"
    using t Cons.hyps(2) by (metis terminal_def)
  have put: "\<exists>s'. printc chip d u = Some (OK, s') \<and> inp s' = inp u \<and> chars s' = chars u" for d u
    using t by (simp add: terminal_def)
  have e: "edit ln (c # cs) = Some (ln', fin, rest)" using Cons.prems(1) Cons.hyps(2) by simp
  let ?n = "of_nat (length ln) :: u32"
  have n: "unat ?n = length ln" "?n = 0 \<longleftrightarrow> ln = []" "?n < 49"
    using Cons.prems(2) unat_of_nat_small [of "length ln"] by (auto simp: word_less_nat_alt unat_eq_zero [symmetric])
  have b: "of_nat (length (butlast ln)) = ?n - 1" if "ln \<noteq> []"
    using that by (cases ln rule: rev_cases) simp_all
  have IH: "\<exists>s'. read_line chip (of_nat (length l)) u = Some (of_nat (length ln'), fin, s') \<and> inp s' = rest \<and>
      holds_line (chars s') ln' \<and> length ln' \<le> 49 \<and>
      (\<forall>a. (\<forall>i<49. a \<noteq> aCmdBuffer + of_nat i) \<longrightarrow> chars s' a = chars u a)"
    if "inp u = cs" "edit l cs = Some (ln', fin, rest)" "length l < 49" "holds_line (chars u) l" for l u
    using Cons.hyps(1) [of u l] that by simp
  obtain s2 where s2: "printc chip c s1 = Some (OK, s2)" "inp s2 = cs" "chars s2 = chars s"
    using put [of c s1] s1 by auto
  show ?case
  proof (cases "c = CHR 0x7F \<or> c = CHR 0x08")
    case True
    then have ed: "edit (butlast ln) cs = Some (ln', fin, rest)" using e by simp
    show ?thesis
    proof (cases "ln = []")
      case True
      then show ?thesis using IH [of s1 ln] ed s1 n \<open>c = CHR 0x7F \<or> c = CHR 0x08\<close> by (subst read_line.simps) (auto simp: holds_line_def)
    next
      case False
      then have "?n - 1 < 49" using n b [OF False] Cons.prems(2) unat_of_nat_small [of "length (butlast ln)"]
        by (simp add: word_less_nat_alt flip: b)
      moreover have "\<exists>s'. read_line chip (of_nat (length (butlast ln))) s2 = Some (of_nat (length ln'), fin, s') \<and> inp s' = rest \<and>
        holds_line (chars s') ln' \<and> length ln' \<le> 49 \<and> (\<forall>a. (\<forall>i<49. a \<noteq> aCmdBuffer + of_nat i) \<longrightarrow> chars s' a = chars s2 a)"
        using ed s2 Cons.prems(2,3) holds_butlast [of "chars s" ln] by (intro IH) simp_all
      ultimately show ?thesis using False s1 s2 n b [OF False] True by (subst read_line.simps) auto
    qed
  next
    case nb: False
    show ?thesis
    proof (cases "c = CHR '' '' \<and> (ln = [] \<or> last ln = CHR '' '')")
      case True
      have "ln \<noteq> [] \<Longrightarrow> chars s1 (aCmdBuffer + (?n - 1)) = last ln"
        using Cons.prems(3) b s1(3) by (simp add: holds_line_def last_conv_nth flip: b)
      then show ?thesis using IH [of s1 ln] True nb e s1 n Cons.prems(2,3) by (subst read_line.simps) auto
    next
      case ns: False
      have last: "ln \<noteq> [] \<Longrightarrow> chars s1 (aCmdBuffer + (?n - 1)) = last ln"
        using Cons.prems(3) b s1(3) by (simp add: holds_line_def last_conv_nth flip: b)
      show ?thesis
      proof (cases "c = CHR 0x0D")
        case True
        obtain s3 where "printc chip (CHR 0x0A) s2 = Some (OK, s3)" "inp s3 = cs" "chars s3 = chars s"
          using put [of "CHR 0x0A" s2] s2 by auto
        then show ?thesis using True e s1 s2 n Cons.prems(2,3) by (subst read_line.simps) auto
      next
        case False
        let ?s3 = "set_char (aCmdBuffer + ?n) c s2"
        have s3: "inp ?s3 = cs" "chars ?s3 = (chars s)(aCmdBuffer + ?n := c)"
          using t s2 by (simp_all add: terminal_def) (simp add: set_char_def)
        have h: "holds_line (chars ?s3) (ln @ [c])" using holds_snoc Cons.prems(2,3) s3(2) by simp
        have "unat (?n + 1) = length ln + 1" using Cons.prems(2) unat_of_nat_small [of "length ln + 1"] by (simp add: add.commute)
        then have lt: "?n + 1 < 49 \<longleftrightarrow> length ln < 48" by (simp add: word_less_nat_alt)
        have unf: "read_line chip ?n s = (if ?n + 1 < 49 then read_line chip (?n + 1) ?s3 else Some (?n + 1, True, ?s3))"
          using s1 s2 nb ns False last n by (subst read_line.simps) auto
        have outside: "chars ?s3 a = chars s a" if "\<forall>i<49. a \<noteq> aCmdBuffer + of_nat i" for a
          using that Cons.prems(2) s3(2) by auto
        show ?thesis
        proof (cases "length ln < 48")
          case True
          have "\<exists>s'. read_line chip (of_nat (length (ln @ [c]))) ?s3 = Some (of_nat (length ln'), fin, s') \<and> inp s' = rest \<and>
            holds_line (chars s') ln' \<and> length ln' \<le> 49 \<and>
            (\<forall>a. (\<forall>i<49. a \<noteq> aCmdBuffer + of_nat i) \<longrightarrow> chars s' a = chars ?s3 a)"
            using e nb ns False True s3(1) h by (intro IH) simp_all
          then show ?thesis using True lt outside unfolding unf by (simp add: add.commute)
        next
          case long: False
          then have "ln' = ln @ [c]" "fin" "rest = cs" using e nb ns False by auto
          then show ?thesis using long lt s3(1) h outside Cons.prems(2) unfolding unf by (simp add: add.commute)
        qed
      qed
    qed
  qed
qed

section \<open>Dispatching a command\<close>

lemma set_char_chars [simp]: "chars (set_char a c s) = (chars s)(a := c)"
  by (simp add: set_char_def)

lemma c_stringD:
  "c_string m p cs \<Longrightarrow> i < length cs \<Longrightarrow> m (p + of_nat i) = cs ! i"
  "c_string m p cs \<Longrightarrow> m (p + of_nat (length cs)) = CHR 0x00"
  by (simp_all add: c_string_def)

lemma cmd_split_word:
  assumes "c_string (chars s) p (w @ r)" "CHR '' '' \<notin> set w" "r = [] \<or> hd r = CHR '' ''" "us @ vs = w"
  shows "cmd_split p (length us) s = Some (length w, if r = [] then s else set_char (p + of_nat (length w)) (CHR 0x00) s)"
  using assms(4)
proof (induction vs arbitrary: us)
  case Nil
  have "chars s (p + of_nat (length w)) = (if r = [] then CHR 0x00 else hd r)"
    using c_stringD(1) [OF assms(1), of "length w"] c_stringD(2) [OF assms(1)] by (cases r) (simp_all add: nth_append)
  moreover have "us = w" using Nil by simp
  ultimately show ?case using assms(3) by (cases "r = []"; subst cmd_split.simps; simp)
next
  case (Cons v vs)
  have l: "length us < length w" "w ! length us = v" using Cons.prems by (auto simp: nth_append)
  then have v: "chars s (p + of_nat (length us)) = v"
    using c_stringD(1) [OF assms(1), of "length us"] by (simp add: nth_append)
  have "v \<in> set w" using Cons.prems by auto
  then have "v \<noteq> CHR 0x00" "v \<noteq> CHR '' ''" using assms(1,2) by (auto simp: c_string_def)
  then have "cmd_split p (length us) s = cmd_split p (length (us @ [v])) s"
    using v by (subst cmd_split.simps) auto
  then show ?case using Cons.IH [of "us @ [v]"] Cons.prems by simp
qed

lemma strlen_c_string: "c_string mem p cs \<Longrightarrow> length cs < 2 ^ 32 \<Longrightarrow> strlen mem p = length cs"
  unfolding strlen_def
  by (intro strnlen_string) (auto simp: c_string_def unsigned_minus_1_eq_mask mask_eq_exp_minus_1)

lemma memcmp_strings:
  assumes "\<forall>i<length w. mem (p + of_nat i) = w ! i" "c_string mem q v" "length v = length w"
  shows "memcmp_equal mem p q (length w) \<longleftrightarrow> v = w"
proof -
  have "memcmp_equal mem p q (length w) \<longleftrightarrow> (\<forall>i<length w. w ! i = v ! i)"
    unfolding memcmp_equal_def list_all_upt using assms(1,3) c_stringD(1) [OF assms(2)] by metis
  then show ?thesis using assms(3) by (auto intro: nth_equalityI)
qed

text \<open>The table holds commands of which the names are the strings \<open>nm\<close>.\<close>

definition named :: "(addr \<Rightarrow> char) \<Rightarrow> ('s command_t \<Rightarrow> string) \<Rightarrow> 's command_t list \<Rightarrow> bool" where
  "named mem nm items \<longleftrightarrow> (\<forall>i\<in>set items. c_string mem (command_name i) (nm i) \<and> length (nm i) < 2 ^ 32)"

lemma find_service_named:
  assumes "\<forall>i<length w. mem (p + of_nat i) = w ! i"
  shows "named mem nm items \<Longrightarrow> find_service mem items p (length w) = find (\<lambda>i. nm i = w) items"
proof (induction items)
  case (Cons i items)
  have i: "c_string mem (command_name i) (nm i)" "length (nm i) < 2 ^ 32" using Cons.prems by (auto simp: named_def)
  have IH: "find_service mem items p (length w) = find (\<lambda>i. nm i = w) items"
    using Cons by (simp add: named_def)
  show ?case
    using strlen_c_string [OF i] memcmp_strings [OF assms i(1)] IH by auto
qed simp

section \<open>A keyboard\<close>

text \<open>
  A serial line with a queue of typed characters: the chip frees the transmitter, then offers the next
  character; reading the receive buffer takes it.
\<close>

record serial_line = console +
  typed :: string

definition keyboard :: "'a serial_line_scheme chip" where
  "keyboard = \<lparr>tick = \<lambda>s.
       (if \<not> bit (io s 0x4000C014) 5 then s\<lparr>io := (io s)(0x4000C014 := io s 0x4000C014 OR 0x20)\<rparr>
        else if typed s \<noteq> [] then
          s\<lparr>io := (io s)(0x4000C014 := 0x21, 0x4000C000 := of_char (hd (typed s)), 0x4000C001 := 0, 0x4000C002 := 0, 0x4000C003 := 0)\<rparr>
        else s),
     after_read = \<lambda>a s. s\<lparr>io := (io s)(0x4000C014 := 0x20), typed := tl (typed s)\<rparr>\<rparr>"

definition waiting :: "'a serial_line_scheme \<Rightarrow> string" where
  "waiting s = (if bit (io s 0x4000C014) 0 then [] else typed s)"

lemma read_bits:
  "read_dword 0x4000C014 s AND 1 = 0 \<longleftrightarrow> \<not> bit (io s 0x4000C014) 0"
  "read_dword 0x4000C014 s AND 0x20 = 0 \<longleftrightarrow> \<not> bit (io s 0x4000C014) 5"
  by (simp_all add: flag_bits read_dword_def bit_dword_of)

lemma bytes_20: "bit (0x20 :: u8) 5" "\<not> bit (0x20 :: u8) 0" "bit (0x21 :: u8) 5" "bit (0x21 :: u8) 0"
  by code_simp+

lemma char_of_byte: "char_of (unat (ucast (of_char c :: u8) :: u32)) = c"
proof -
  have "unat (of_nat (of_char c) :: u8) = of_char c"
    by (simp add: unat_of_nat take_bit_nat_def)
  then have "unat (of_char c :: u8) = of_char c" by (simp only: of_nat_of_char)
  then show ?thesis using nat_of_char_less_256 [of c]
    by (simp add: unsigned_ucast_eq take_bit_nat_def del: nat_of_char_less_256)
qed

lemma keyboard_offers:
  assumes "typed s = c # cs" "\<not> bit (io s 0x4000C014) 0" "bit (io s 0x4000C014) 5"
  shows "scanc keyboard s = Some (c, s\<lparr>io := (io s)(0x4000C014 := 0x20, 0x4000C000 := of_char c, 0x4000C001 := 0, 0x4000C002 := 0,
    0x4000C003 := 0), typed := cs\<rparr>)"
proof -
  let ?s = "s\<lparr>io := (io s)(0x4000C014 := 0x21, 0x4000C000 := of_char c, 0x4000C001 := 0, 0x4000C002 := 0, 0x4000C003 := 0)\<rparr>"
  have t: "tick keyboard s = ?s" using assms by (simp add: keyboard_def)
  have "poll (tick keyboard) 0x4000C014 1 ?s = Some ?s"
    by (subst poll.simps) (simp add: read_bits bytes_20)
  then have p: "poll (tick keyboard) 0x4000C014 1 s = Some ?s"
    using assms(2) t by (subst poll.simps) (simp add: read_bits)
  have "read_dword 0x4000C000 ?s = ucast (of_char c :: u8)"
    by (simp add: read_dword_def dword_of_def)
  then have "char_of (unat (read_dword 0x4000C000 ?s)) = c"
    by (simp only: char_of_byte)
  then show ?thesis using assms
    by (simp add: scanc_def uart0_recv_def uart_recv_def uart0_info_def p Let_def) (simp add: keyboard_def fun_upd_twist)
qed

lemma keyboard_frees:
  assumes "\<not> bit (io s 0x4000C014) 5"
  defines "t \<equiv> s\<lparr>io := (io s)(0x4000C014 := io s 0x4000C014 OR 0x20)\<rparr>"
  shows "tick keyboard s = t" "bit (io t 0x4000C014) 5" "bit (io t 0x4000C014) 0 = bit (io s 0x4000C014) 0"
  using assms by (simp_all add: keyboard_def bit_or_iff bytes_20)

lemma keyboard_write:
  "io (write_dword 0x4000C000 d u) 0x4000C014 = io u 0x4000C014"
  "typed (write_dword a d v) = typed v" "chars (write_dword a d v) = chars v"
  by (simp_all add: write_dword_def io_store_def)

lemma keyboard_terminal: "terminal keyboard (waiting :: 'a serial_line_scheme \<Rightarrow> string)"
proof -
  have scan: "\<exists>s'. scanc keyboard s = Some (c, s') \<and> waiting s' = cs \<and> chars s' = chars s" if w: "waiting s = c # cs" for s c cs
  proof -
    have s: "typed s = c # cs" "\<not> bit (io s 0x4000C014) 0" using w by (auto simp: waiting_def split: if_splits)
    show ?thesis
    proof (cases "bit (io s 0x4000C014) 5")
      case True
      then show ?thesis using keyboard_offers [OF s True] by (simp add: waiting_def bytes_20)
    next
      case False
      let ?t = "s\<lparr>io := (io s)(0x4000C014 := io s 0x4000C014 OR 0x20)\<rparr>"
      note f = keyboard_frees [OF False]
      have "poll (tick keyboard) 0x4000C014 1 s = poll (tick keyboard) 0x4000C014 1 ?t"
        using s(2) f(1) by (subst poll.simps) (simp add: read_bits)
      then have "scanc keyboard s = scanc keyboard ?t"
        by (simp add: scanc_def uart0_recv_def uart_recv_def uart0_info_def Let_def)
      moreover have "typed ?t = c # cs" "\<not> bit (io ?t 0x4000C014) 0" using s f by simp_all
      ultimately show ?thesis using keyboard_offers [of ?t c cs] f(2) by (simp add: waiting_def bytes_20)
    qed
  qed
  have put: "\<exists>s'. printc keyboard c s = Some (OK, s') \<and> waiting s' = waiting s \<and> chars s' = chars s" for s c
  proof -
    show ?thesis
    proof (cases "bit (io s 0x4000C014) 5")
      case True
      then have "poll (tick keyboard) 0x4000C014 0x20 s = Some s" by (subst poll.simps) (simp add: read_bits)
      then show ?thesis
        by (simp add: printc_def uart0_send_def uart_send_def uart0_info_def waiting_def keyboard_write Let_def)
    next
      case False
      let ?t = "s\<lparr>io := (io s)(0x4000C014 := io s 0x4000C014 OR 0x20)\<rparr>"
      note f = keyboard_frees [OF False]
      have "poll (tick keyboard) 0x4000C014 0x20 ?t = Some ?t" using f(2) by (subst poll.simps) (simp add: read_bits)
      then have "poll (tick keyboard) 0x4000C014 0x20 s = Some ?t"
        using False f(1) by (subst poll.simps) (simp add: read_bits)
      then show ?thesis using f(3)
        by (simp add: printc_def uart0_send_def uart_send_def uart0_info_def waiting_def keyboard_write Let_def)
    qed
  qed
  have "waiting (set_char a c s) = waiting s" for s a c by (simp add: waiting_def set_char_def)
  then show ?thesis unfolding terminal_def using scan put by blast
qed

section \<open>Properties\<close>

lemma holds_line_c_string:
  "holds_line m ln \<Longrightarrow> length ln \<le> 49 \<Longrightarrow> CHR 0x00 \<notin> set ln \<Longrightarrow>
    c_string (m(aCmdBuffer + of_nat (length ln) := CHR 0x00)) aCmdBuffer ln"
  by (auto simp: holds_line_def c_string_def of_nat_inj32)

text \<open>C18: One turn of the console hands exactly the edited line to the interpreter: back space and delete take
  back a character, leading and repeated spaces are dropped, carriage return ends the line, and a line that
  fills the buffer ends by itself; an empty line runs nothing.  The command lies as a string in the command
  buffer, what was typed ahead is kept, and no byte outside the 50 of the buffer changes.\<close>

theorem console_reads_line:
  assumes "terminal chip inp" "edit [] (inp s) = Some (ln, fin, rest)"
  shows "\<exists>s'. command chip aStatus services s =
      after (if fin then service chip aStatus services aCmdBuffer s' else Some (Returned (), s'))
        (\<lambda>_ s. map_option (\<lambda>(_, s). (Returned (), s)) (prints chip (Some aCmdPrompt) s)) \<and>
    inp s' = rest \<and> length ln \<le> 49 \<and>
    (fin \<and> CHR 0x00 \<notin> set ln \<longrightarrow> c_string (chars s') aCmdBuffer ln) \<and>
    (\<forall>a. (\<forall>i<50. a \<noteq> aCmdBuffer + of_nat i) \<longrightarrow> chars s' a = chars s a)"
proof -
  let ?s = "set_char (aCmdBuffer + (50 - 1)) (CHR 0x00) s"
  have i: "inp (set_char a c u) = inp u" for a c u using assms(1) by (simp add: terminal_def)
  have last: "aCmdBuffer + (50 - 1) = aCmdBuffer + of_nat 49" by simp
  obtain s1 where s1: "read_line chip 0 ?s = Some (of_nat (length ln), fin, s1)" "inp s1 = rest"
    "holds_line (chars s1) ln" "length ln \<le> 49" "\<forall>a. (\<forall>i<49. a \<noteq> aCmdBuffer + of_nat i) \<longrightarrow> chars s1 a = chars ?s a"
    using read_line_edits [OF assms(1), of "[]" ?s] assms(2) i by (auto simp: holds_line_def)
  have keep: "chars s1 a = chars s a" if "\<forall>i<50. a \<noteq> aCmdBuffer + of_nat i" for a
    using s1(5) that [rule_format, of 49] that by simp
  show ?thesis
  proof (cases fin)
    case True
    let ?t = "set_char (aCmdBuffer + of_nat (length ln)) (CHR 0x00) s1"
    have "command chip aStatus services s = after (service chip aStatus services aCmdBuffer ?t)
        (\<lambda>_ s. map_option (\<lambda>(_, s). (Returned (), s)) (prints chip (Some aCmdPrompt) s))"
      using s1(1) True by (simp add: command_def)
    then show ?thesis using True s1 i keep holds_line_c_string [OF s1(3,4)] by (intro exI [of _ ?t]) auto
  next
    case False
    then have "command chip aStatus services s = after (Some (Returned (), s1))
        (\<lambda>_ s. map_option (\<lambda>(_, s). (Returned (), s)) (prints chip (Some aCmdPrompt) s))"
      using s1(1) by (simp add: command_def)
    then show ?thesis using False s1 keep by (intro exI [of _ s1]) simp
  qed
qed

text \<open>The interpreter takes the word up to the first space as the name of the command, cuts the line behind it,
  and calls the first command of the table of exactly that name with the rest of the line as its option; a
  failing command is reported with its status, and a name that no command has is reported as undefined.\<close>

theorem service_dispatches:
  assumes line: "c_string (chars s) p (w @ r)" "CHR '' '' \<notin> set w" "r = [] \<or> hd r = CHR '' ''" "length (w @ r) < 2 ^ 32"
    and table: "named (chars s) nm items" "\<And>i k. i \<in> set items \<Longrightarrow> k \<le> length (nm i) \<Longrightarrow>
      command_name i + of_nat k \<noteq> p + of_nat (length w)"
  shows "\<exists>s'. service chip aStatus items p s =
      (case find (\<lambda>i. nm i = w) items of
         None \<Rightarrow> map_option (\<lambda>(_, s). (Returned (), s)) (printk chip (chars s') undefined_format [p] s')
       | Some i \<Rightarrow> after (command_function i (p + of_nat (length w) + 1) s')
           (\<lambda>Status s. if Status = OK then Some (Returned (), s) else
              map_option (\<lambda>(_, s). (Returned (), s))
                (printk chip (chars s) status_format [p, of_int Status, aStatus (- Status)] s))) \<and>
    c_string (chars s') p w \<and>
    (r \<noteq> [] \<longrightarrow> c_string (chars s') (p + of_nat (length w) + 1) (tl r))"
proof -
  define t where t: "t = (if r = [] then s else set_char (p + of_nat (length w)) (CHR 0x00) s)"
  let ?s = t
  have n: "named (chars ?s) nm items"
    using table by (auto simp: t named_def c_string_def set_char_def)
  have w: "\<forall>i<length w. chars ?s (p + of_nat i) = w ! i"
    using c_stringD(1) [OF line(1)] line(4) by (auto simp: t nth_append of_nat_inj32)
  have "service chip aStatus items p s = (case find (\<lambda>i. nm i = w) items of
         None \<Rightarrow> map_option (\<lambda>(_, s). (Returned (), s)) (printk chip (chars ?s) undefined_format [p] ?s)
       | Some i \<Rightarrow> after (command_function i (p + of_nat (length w) + 1) ?s)
           (\<lambda>Status s. if Status = OK then Some (Returned (), s) else
              map_option (\<lambda>(_, s). (Returned (), s))
                (printk chip (chars s) status_format [p, of_int Status, aStatus (- Status)] s)))"
    using cmd_split_word [OF line(1-3), of "[]" w] find_service_named [OF w n]
    by (cases "find (\<lambda>i. nm i = w) items") (auto simp: service_def t [symmetric] eq_commute [of OK] intro!: arg_cong [of _ _ "after _"] ext)
  moreover have "c_string (chars ?s) p w" using w line(1) c_stringD(2) [OF line(1)] by (auto simp: t c_string_def)
  moreover have "c_string (chars ?s) (p + of_nat (length w) + 1) (tl r)" if nr: "r \<noteq> []"
  proof -
    obtain c o' where r: "r = c # o'" using nr by (meson neq_Nil_conv)
    have e: "p + of_nat (length w) + 1 + of_nat k = p + of_nat (length w + 1 + k)" for k by (simp add: algebra_simps)
    have ne: "p + of_nat (length w + 1 + k) \<noteq> p + of_nat (length w)" if "k \<le> length o'" for k
      using of_nat_inj32 [of "length w + 1 + k" "length w"] that line(4) r by simp
    have same: "chars ?s a = chars s a" if "a \<noteq> p + of_nat (length w)" for a using that by (simp add: t)
    have rest: "chars ?s (p + of_nat (length w + 1 + k)) = o' ! k" if "k < length o'" for k
      using c_stringD(1) [OF line(1), of "length w + 1 + k"] same [OF ne, of k] that r by (simp add: nth_append del: of_nat_add of_nat_Suc)
    have "chars ?s (p + of_nat (length w + 1 + length o')) = CHR 0x00"
      using c_stringD(2) [OF line(1)] same [OF ne, of "length o'"] r by (simp del: of_nat_add of_nat_Suc)
    then show ?thesis using line(1) r rest unfolding c_string_def e by simp
  qed
  ultimately show ?thesis by blast
qed


text \<open>The applied instances: a line with a correction, and a command with an option.\<close>

definition desk :: "string \<Rightarrow> serial_line" where
  "desk cs = two_threads (semaphore_ext (\<lambda>_. 1) (mailbox_ext (\<lambda>_. 0) (\<lambda>_. 0) (\<lambda>_. 0) (\<lambda>_. 0) (\<lambda>_ _. 0)
     (pipe_ext (\<lambda>_. 0) (\<lambda>_. 0) (\<lambda>_. 0) (\<lambda>_. 0) (\<lambda>_. 0) (\<lambda>_. 0) (\<lambda>_. 0) (mallocor_ext (\<lambda>_. 0)
     (console_ext (\<lambda>_. CHR 0x00) (serial_line_ext cs ()))))))"

lemma desk_waiting: "waiting (desk cs) = cs"
  by (simp add: waiting_def desk_def two_threads_def activate_thread_def list_add_def list_add_between_def
      set_next_def set_prev_def sample_def)

theorem console_reads_line_witness:
  "\<exists>s'. command keyboard (\<lambda>_. 0) [] (desk ([CHR '' '', CHR ''h'', CHR ''x'', CHR 0x08, CHR ''i'', CHR 0x0D])) =
      after (service keyboard (\<lambda>_. 0) [] aCmdBuffer s')
        (\<lambda>_ s. map_option (\<lambda>(_, s). (Returned (), s)) (prints keyboard (Some aCmdPrompt) s)) \<and>
    c_string (chars s') aCmdBuffer ''hi''"
proof -
  have "edit [] (waiting (desk [CHR '' '', CHR ''h'', CHR ''x'', CHR 0x08, CHR ''i'', CHR 0x0D])) = Some (''hi'', True, [])"
    unfolding desk_waiting by code_simp
  note console_reads_line [OF keyboard_terminal this, of "\<lambda>_. 0" "[]"]
  then show ?thesis by auto
qed

definition help_table :: "'s command_t list" where
  "help_table = [\<lparr>command_name = 0x500, command_description = 0x510, command_function = \<lambda>_ s. Some (Returned OK, s)\<rparr>]"

definition help_chars :: "addr \<Rightarrow> char" where
  "help_chars = (\<lambda>_. CHR 0x00)(0x500 := CHR ''l'', 0x501 := CHR ''s'',
     0x600 := CHR ''l'', 0x601 := CHR ''s'', 0x602 := CHR '' '', 0x603 := CHR ''a'')"

theorem service_dispatches_witness:
  "\<exists>s'. service keyboard (\<lambda>_. 0) help_table 0x600 ((desk [])\<lparr>chars := help_chars\<rparr>) = Some (Returned (), s') \<and>
    c_string (chars s') 0x600 ''ls'' \<and> c_string (chars s') 0x603 ''a''"
proof -
  let ?s = "(desk [])\<lparr>chars := help_chars\<rparr>"
  have l: "c_string (chars ?s) 0x600 (''ls'' @ '' a'')" by (auto simp: c_string_def help_chars_def less_Suc_eq)
  have t: "named (chars ?s) (\<lambda>_. ''ls'') help_table"
    by (auto simp: named_def help_table_def c_string_def help_chars_def less_Suc_eq)
  have d: "command_name i + of_nat k \<noteq> 0x600 + of_nat (length ''ls'')" if "i \<in> set help_table" "k \<le> length ''ls''" for i and k :: nat
    using that by (auto simp: help_table_def le_Suc_eq)
  show ?thesis
    using service_dispatches [OF l _ _ _ t d, of "keyboard" "\<lambda>_. 0"]
    by (simp add: help_table_def after_def)
qed

end
