(* ===== verification/Board.thy ===== *)
theory Board
  imports Console
begin

text \<open>
  lpc1766/can_repeater and the parts of lpc1766 it uses: the memory commands (memory.c), the indicator
  (led2.c), the millisecond counter (timer.c, millisecond.c), the clocks (system\_init.c), the list of devices
  (device.c), what \<open>idle\<close> does before its loop (kernel.c), and the threads of project/hello.
  Addresses of string literals are parameters; \<open>atoi\<close> is the function of the C library.
\<close>

section \<open>The memory commands\<close>

text \<open>\<open>atoi\<close>: white space, a sign, digits.\<close>

definition atoi_string :: "string \<Rightarrow> int" where
  "atoi_string cs =
     (let cs = dropWhile (\<lambda>c. c \<in> {CHR '' '', CHR 0x09, CHR 0x0A, CHR 0x0B, CHR 0x0C, CHR 0x0D}) cs;
          minus = (cs \<noteq> [] \<and> hd cs = CHR ''-'');
          cs = (if cs \<noteq> [] \<and> (hd cs = CHR ''-'' \<or> hd cs = CHR ''+'') then tl cs else cs);
          n = foldl (\<lambda>n c. 10 * n + (of_char c - 48)) 0 (takeWhile is_digit cs)
      in if minus then - n else n)"

definition atoi :: "(addr \<Rightarrow> char) \<Rightarrow> addr \<Rightarrow> int" where
  "atoi mem p = atoi_string (map (\<lambda>i. mem (p + of_nat i)) [0..<strlen mem p])"

definition heap_format :: string where
  "heap_format =
     [CHR 0xC4, CHR 0xDA, CHR 0xB4, CHR 0xE6, CHR 0xBF, CHR 0xD5, CHR 0xBC, CHR 0xE4] @ ''%d:[0x%X,0x%X) '' @
     [CHR 0xB9, CHR 0xB2] @ ''%dK'' @ [CHR 0xD7, CHR 0xD6, CHR 0xBD, CHR 0xDA, CHR 0x0D, CHR 0x0A]"

fun heap_loop :: "'a console_scheme chip \<Rightarrow> u32 \<Rightarrow> (addr \<times> addr) list \<Rightarrow> 'a console_scheme \<Rightarrow> 'a console_scheme option" where
  "heap_loop chip i [] s = Some s"
| "heap_loop chip i ((StartAddr, EndAddr) # banks) s =
     (case printk chip (chars s) heap_format [i, StartAddr, EndAddr, drop_bit 10 (EndAddr - StartAddr)] s of
        None \<Rightarrow> None
      | Some (_, s) \<Rightarrow> heap_loop chip (i + 1) banks s)"

definition heap_command :: "'a console_scheme chip \<Rightarrow> addr \<Rightarrow> 'a console_scheme \<Rightarrow> (int outcome \<times> 'a console_scheme) option" where
  "heap_command chip Option' s = map_option (Pair (Returned OK)) (heap_loop chip 0 aRamBanks s)"

definition memory_format :: string where
  "memory_format =
     [CHR 0xC4, CHR 0xDA, CHR 0xB4, CHR 0xE6, CHR 0xBF, CHR 0xD5, CHR 0xBC, CHR 0xE4] @
     '': [0x%8X, 0x%8X, 0x%8X] : %s : %6d'' @ [CHR 0x0D, CHR 0x0A]"

text \<open>The walk of one bank; \<open>sizeof (struct chunk_head)\<close> is 8.\<close>

partial_function (option) memory_bank :: "'a console_scheme chip \<Rightarrow> addr \<Rightarrow> addr \<Rightarrow> addr \<Rightarrow> 'a console_scheme \<Rightarrow>
    'a console_scheme option" where
  "memory_bank chip aUsed aFree pChunk s =
     (if USED \<noteq> hmem s (ThisInfo pChunk) then
        let End = pChunk + (hmem s (ThisInfo pChunk) AND NOT USED);
            pStatus = (if hmem s (ThisInfo pChunk) AND USED \<noteq> 0 then aUsed else aFree)
        in (case printk chip (chars s) memory_format
               [pChunk, pChunk + 8, End - 1, pStatus, hmem s (ThisInfo pChunk) AND NOT USED] s of
              None \<Rightarrow> None
            | Some (_, s) \<Rightarrow> memory_bank chip aUsed aFree End s)
      else Some s)"

fun memory_loop :: "'a console_scheme chip \<Rightarrow> addr \<Rightarrow> addr \<Rightarrow> (addr \<times> addr) list \<Rightarrow> 'a console_scheme \<Rightarrow> 'a console_scheme option" where
  "memory_loop chip aUsed aFree [] s = Some s"
| "memory_loop chip aUsed aFree ((StartAddr, _) # banks) s =
     (case memory_bank chip aUsed aFree StartAddr s of
        None \<Rightarrow> None
      | Some s \<Rightarrow> memory_loop chip aUsed aFree banks s)"

definition memory_command :: "'a console_scheme chip \<Rightarrow> addr \<Rightarrow> addr \<Rightarrow> addr \<Rightarrow> 'a console_scheme \<Rightarrow>
    (int outcome \<times> 'a console_scheme) option" where
  "memory_command chip aUsed aFree Option' s = map_option (Pair (Returned OK)) (memory_loop chip aUsed aFree aRamBanks s)"

definition malloc_format :: string where
  "malloc_format =
     [CHR 0xB7, CHR 0xD6, CHR 0xC5, CHR 0xE4, CHR 0xC4, CHR 0xDA, CHR 0xB4, CHR 0xE6, CHR 0xBF, CHR 0xD5, CHR 0xBC, CHR 0xE4] @
     '':0x%X'' @ [CHR 0x0D, CHR 0x0A]"

definition free_format :: string where
  "free_format =
     [CHR 0xCA, CHR 0xCD, CHR 0xB7, CHR 0xC5, CHR 0xC4, CHR 0xDA, CHR 0xB4, CHR 0xE6, CHR 0xBF, CHR 0xD5, CHR 0xBC, CHR 0xE4] @
     '':0x%X'' @ [CHR 0x0D, CHR 0x0A]"

definition do_malloc_print :: "'a console_scheme chip \<Rightarrow> addr \<Rightarrow> 'a console_scheme \<Rightarrow> (int outcome \<times> 'a console_scheme) option" where
  "do_malloc_print chip pMemory s =
     (if pMemory = NULL then Some (Returned ERR_NO_MEMERY, s)
      else returning OK (printk chip (chars s) malloc_format [pMemory] s))"

definition do_malloc :: "'a console_scheme chip \<Rightarrow> addr \<Rightarrow> 'a console_scheme \<Rightarrow> (int outcome \<times> 'a console_scheme) option" where
  "do_malloc chip Option' s =
     (let Size' = atoi (chars s) Option'
      in after (malloc (of_int Size') s) (do_malloc_print chip))"

definition do_malloc_resume :: "'a console_scheme chip \<Rightarrow> u32 \<Rightarrow> addr \<Rightarrow> 'a console_scheme \<Rightarrow> (int outcome \<times> 'a console_scheme) option" where
  "do_malloc_resume chip Size' pThread s = after (malloc_resume Size' pThread s) (do_malloc_print chip)"

definition do_free :: "'a console_scheme chip \<Rightarrow> addr \<Rightarrow> 'a console_scheme \<Rightarrow> (int outcome \<times> 'a console_scheme) option" where
  "do_free chip Option' s =
     (let pMemory = of_int (atoi (chars s) Option')
      in case printk chip (chars s) free_format [pMemory] s of
           None \<Rightarrow> None
         | Some (_, s) \<Rightarrow> after (free pMemory s) (\<lambda>_ s. Some (Returned OK, s)))"

section \<open>Devices\<close>

definition FIO0DIR :: addr where "FIO0DIR = 0x2009C000"
definition FIO0SET :: addr where "FIO0SET = 0x2009C018"
definition FIO0CLR :: addr where "FIO0CLR = 0x2009C01C"

definition led2_setup :: "'a bus_scheme \<Rightarrow> int \<times> 'a bus_scheme" where
  "led2_setup s =
     (let s = dword_clear_bits PINSEL0 (push_bit 30 3) s;
          s = dword_set_bits FIO0DIR (push_bit 15 1) s
      in (OK, s))"

definition led2_on :: "'a bus_scheme \<Rightarrow> 'a bus_scheme" where
  "led2_on s = write_dword FIO0CLR (push_bit 15 1) s"

definition led2_off :: "'a bus_scheme \<Rightarrow> 'a bus_scheme" where
  "led2_off s = write_dword FIO0SET (push_bit 15 1) s"

record timer_feature =
  timer_BaseAddress :: addr
  Prescale :: u32

definition timer_setup :: "timer_feature \<Rightarrow> 'a bus_scheme \<Rightarrow> int \<times> 'a bus_scheme" where
  "timer_setup This s =
     (let Base = timer_BaseAddress This;
          Pre = Prescale This;
          s = write_dword (Base + 0x04) 0x00 s;
          s = write_dword (Base + 0x00) 0xFF s;
          s = write_dword (Base + 0x0C) Pre s;
          s = write_dword (Base + 0x70) 0x00 s;
          s = write_dword (Base + 0x04) (push_bit 1 0x01) s;
          s = write_dword (Base + 0x04) 0x01 s
      in (OK, s))"

definition timer_cleanup :: "timer_feature \<Rightarrow> 'a bus_scheme \<Rightarrow> int \<times> 'a bus_scheme" where
  "timer_cleanup This s = (OK, s)"

definition timer_count :: "timer_feature \<Rightarrow> 'a bus_scheme \<Rightarrow> u32" where
  "timer_count This s = (let Base = timer_BaseAddress This in read_dword (Base + 0x08) s)"

definition mtimer_features :: timer_feature where
  "mtimer_features = \<lparr>timer_BaseAddress = 0x40008000, Prescale = 12499\<rparr>"

definition mtimer_setup :: "'a bus_scheme \<Rightarrow> int \<times> 'a bus_scheme" where
  "mtimer_setup s =
     (let s = dword_set_bits PCONP (push_bit 2 1) s;
          (_, s) = timer_setup mtimer_features s
      in (OK, s))"

definition mtimer_cleanup :: "'a bus_scheme \<Rightarrow> int \<times> 'a bus_scheme" where
  "mtimer_cleanup s =
     (let (_, s) = timer_cleanup mtimer_features s;
          s = dword_clear_bits PCONP (push_bit 2 1) s
      in (OK, s))"

definition mtimer_gettick :: "'a bus_scheme \<Rightarrow> u32" where
  "mtimer_gettick s = timer_count mtimer_features s"

definition warn_format :: string where
  "warn_format = ''Warn: '' @ [CHR 0xB0, CHR 0xB2, CHR 0xD7, CHR 0xB0] @ ''%s'' @
     [CHR 0xC9, CHR 0xE8, CHR 0xB1, CHR 0xB8, CHR 0xCA, CHR 0xA7, CHR 0xB0, CHR 0xDC] @ '': %d'' @ [CHR 0x0D, CHR 0x0A]"

text \<open>\<open>DBG_WARN\<close> prints the place first; \<open>file\<close> is what the compiler gives for \<open>__FILE__\<close>.\<close>

definition device_warn :: "'a console_scheme chip \<Rightarrow> string \<Rightarrow> addr \<Rightarrow> int \<Rightarrow> 'a console_scheme \<Rightarrow>
    (unit outcome \<times> 'a console_scheme) option" where
  "device_warn chip file name Status' s =
     (case printk chip (chars s) (''File: '' @ file @ [CHR 0x0D, CHR 0x0A] @ ''Line: 73'' @ [CHR 0x0D, CHR 0x0A]) [] s of
        None \<Rightarrow> None
      | Some (_, s) \<Rightarrow>
          map_option (\<lambda>(_, s). (Returned (), s)) (printk chip (chars s) warn_format [name, of_int Status'] s))"

fun device_setup :: "'a console_scheme chip \<Rightarrow> string \<Rightarrow> 'a console_scheme device_t list \<Rightarrow> 'a console_scheme \<Rightarrow>
    (int outcome \<times> 'a console_scheme) option" where
  "device_setup chip file [] s = Some (Returned OK, s)"
| "device_setup chip file (pDevice # devices) s =
     after (device_setup_fn pDevice s)
       (\<lambda>Status' s.
          after (if OK \<noteq> Status' then device_warn chip file (device_name pDevice) Status' s else Some (Returned (), s))
            (\<lambda>_ s. device_setup chip file devices s))"

section \<open>Clocks\<close>

definition SCS :: addr where "SCS = 0x400FC1A0"
definition CLKSRCSEL :: addr where "CLKSRCSEL = 0x400FC10C"
definition PLL0CON :: addr where "PLL0CON = 0x400FC080"
definition PLL0CFG :: addr where "PLL0CFG = 0x400FC084"
definition PLL0STAT :: addr where "PLL0STAT = 0x400FC088"
definition PLL0FEED :: addr where "PLL0FEED = 0x400FC08C"
definition CCLKCFG :: addr where "CCLKCFG = 0x400FC104"
definition USBCLKCFG :: addr where "USBCLKCFG = 0x400FC108"
definition PCLKSEL0 :: addr where "PCLKSEL0 = 0x400FC1A8"
definition PCLKSEL1 :: addr where "PCLKSEL1 = 0x400FC1AC"

abbreviation (input) Fcpu :: nat where "Fcpu \<equiv> 100000000"
abbreviation (input) Fusb :: nat where "Fusb \<equiv> 48000000"
abbreviation (input) Fcco :: nat where "Fcco \<equiv> 300000000"
abbreviation (input) PLL_M :: u32 where "PLL_M \<equiv> 25"
abbreviation (input) PLL_N :: u32 where "PLL_N \<equiv> 2"

text \<open>The pair of writes, four times in the code, that makes a change of the PLL take effect.\<close>

definition pll_feed :: "'a bus_scheme \<Rightarrow> 'a bus_scheme" where
  "pll_feed s = (let s = write_dword PLL0FEED 0xAA s in write_dword PLL0FEED 0x55 s)"

definition system_clock_init :: "('a bus_scheme \<Rightarrow> 'a bus_scheme) \<Rightarrow> 'a bus_scheme \<Rightarrow> 'a bus_scheme option" where
  "system_clock_init tk s =
     (let s = dword_modify SCS (push_bit 4 1) (push_bit 5 1) s in
      case poll tk SCS (push_bit 6 1) s of
        None \<Rightarrow> None
      | Some s \<Rightarrow>
          let s = write_dword PLL0CON (push_bit 1 0 OR push_bit 0 0) s;
              s = pll_feed s;
              s = write_dword CLKSRCSEL 0x01 s;
              s = write_dword PLL0CFG (push_bit 16 (PLL_N - 1) OR push_bit 0 (PLL_M - 1)) s;
              s = pll_feed s;
              s = dword_set_bits PLL0CON (push_bit 0 1) s;
              s = pll_feed s;
              s = write_dword CCLKCFG (of_nat (Fcco div Fcpu - 1)) s
          in (case poll tk PLL0STAT (push_bit 26 1) s of
                None \<Rightarrow> None
              | Some s \<Rightarrow>
                  let s = dword_set_bits PLL0CON (push_bit 1 1) s;
                      s = pll_feed s;
                      s = write_dword PCLKSEL0 (push_bit 2 3 OR push_bit 4 3 OR push_bit 6 3) s;
                      s = write_dword PCLKSEL1 0 s;
                      s = write_dword USBCLKCFG (of_nat (Fcco div Fusb - 1)) s
                  in Some s))"

definition cpu_init :: "('a nvic_scheme \<Rightarrow> 'a nvic_scheme) \<Rightarrow> 'a nvic_scheme \<Rightarrow> 'a nvic_scheme option" where
  "cpu_init tk s =
     (case system_clock_init tk s of
        None \<Rightarrow> None
      | Some s \<Rightarrow> let (_, s) = vic_setup s in Some s)"

section \<open>The idle thread before its loop\<close>

text \<open>
  \<open>main_fn\<close> and \<open>command_fn\<close> are the addresses in hello.map; \<open>isr\<close> is the address of \<open>systimer_exception\<close>;
  the debug output of kernel.c is switched off.
\<close>

definition main_fn :: addr where "main_fn = 0x0000234b"
definition command_fn :: addr where "command_fn = 0x00002113"

definition idle_setup :: "'a console_scheme chip \<Rightarrow> string \<Rightarrow> 'a console_scheme device_t list \<Rightarrow> addr \<Rightarrow> addr \<Rightarrow> addr \<Rightarrow>
    'a console_scheme \<Rightarrow> (unit outcome \<times> 'a console_scheme) option" where
  "idle_setup chip file devices isr main_name console_name s =
     (case mallocor_setup s of
        None \<Rightarrow> None
      | Some (_, s) \<Rightarrow>
          let (_, s) = console_setup s;
              (_, s) = systicker_setup isr s
          in after (device_setup chip file devices s)
               (\<lambda>_ s. after (labour main_name main_fn NULL 2040 1 s)
               (\<lambda>_ s. after (labour console_name command_fn NULL 2040 31 s)
               (\<lambda>_ s. Some (Returned (), s)))))"


text \<open>The two devices that hello.map keeps, in the order of the merged section.\<close>

definition board_devices :: "addr \<Rightarrow> addr \<Rightarrow> addr \<Rightarrow> addr \<Rightarrow> 'a console_scheme device_t list" where
  "board_devices uart0_name uart0_text led2_name led2_text =
     [\<lparr>device_name = uart0_name, device_description = uart0_text,
        device_setup_fn = \<lambda>s. let (r, s) = uart0_setup s in Some (Returned r, s)\<rparr>,
      \<lparr>device_name = led2_name, device_description = led2_text,
        device_setup_fn = \<lambda>s. let (r, s) = led2_setup s in Some (Returned r, s)\<rparr>]"

section \<open>The threads of project/hello\<close>

definition tabs :: string where "tabs = replicate 4 (CHR 0x09)"
definition crlf :: string where "crlf = [CHR 0x0D, CHR 0x0A]"

definition Welcome :: string where
  "Welcome =
     tabs @ ''++++++++++++++++++++++++++++++++++'' @ crlf @
     tabs @ '' ++++++++++++++++++++++++++++++++++'' @ crlf @
     tabs @ ''  ++++++++++++++++++++++++++++++++++'' @ crlf @
     tabs @ ''                                 +++'' @ crlf @
     tabs @ ''    +++++++++++++++++++++++++++  +++'' @ crlf @
     tabs @ ''    +++++++++++++++++++++++++++  +++'' @ crlf @
     tabs @ ''    +++                          +++'' @ crlf @
     tabs @ ''    +++          ++++++++++++++++++'' @ crlf @
     tabs @ ''    +++          +++++++++++++++++'' @ crlf @
     tabs @ ''    +++          ++++++++++++++++'' @ crlf @
     tabs @ ''    +++'' @ crlf @
     tabs @ ''    ++++++++++++++++++++++++++++++++++'' @ crlf @
     tabs @ ''    +++++++++++++++++++++++++++++++++++'' @ crlf @
     tabs @ ''    ++++++++++++++++++++++++++++++++++++'' @ crlf @
     crlf @
     tabs @ ''      '' @ [CHR 0xB5, CHR 0xA8, CHR 0xC7, CHR 0xD3, CHR 0xCA, CHR 0xC7, CHR 0xD7, CHR 0xE8, CHR 0xD6, CHR 0xB9, CHR 0xD2, CHR 0xBB, CHR 0xC7, CHR 0xD0, CHR 0xBF, CHR 0xC9, CHR 0xC4, CHR 0xDC, CHR 0xB5, CHR 0xC4, CHR 0xB8, CHR 0xF9, CHR 0xB1, CHR 0xBE, CHR 0xD4, CHR 0xB5, CHR 0xD3, CHR 0xC9] @ ''!'' @ crlf"

definition welcome' :: "'a console_scheme chip \<Rightarrow> 'a console_scheme \<Rightarrow> (int \<times> 'a console_scheme) option" where
  "welcome' chip s =
     (case printc chip (char_of (12 :: nat)) s of
        None \<Rightarrow> None
      | Some (_, s) \<Rightarrow> map_option (\<lambda>(_, s). (OK, s)) (prints chip (Some Welcome) s))"

text \<open>\<open>main\<close> up to its loop, and the two halves of one turn of it, each ending in a \<open>sleep\<close>.\<close>

definition main_start :: "'a console_scheme chip \<Rightarrow> addr \<Rightarrow> addr \<Rightarrow> addr \<Rightarrow> addr \<Rightarrow> 'a console_scheme \<Rightarrow>
    (unit outcome \<times> 'a console_scheme) option" where
  "main_start chip name1 thread_1 name2 thread_2 s =
     (case welcome' chip s of
        None \<Rightarrow> None
      | Some (_, s) \<Rightarrow>
          after (labour name1 thread_1 NULL 1000 8 s)
            (\<lambda>_ s. after (labour name2 thread_2 NULL 1000 9 s) (\<lambda>_ s. Some (Returned (), s))))"

definition main_on :: "'a console_scheme \<Rightarrow> (int outcome \<times> 'a console_scheme) option" where
  "main_on s = (let s = led2_on s in sleep 500 s)"

definition main_off :: "'a console_scheme \<Rightarrow> (int outcome \<times> 'a console_scheme) option" where
  "main_off s = (let (_, s) = sleep_resume s; s = led2_off s in sleep 500 s)"

text \<open>One turn of the loops of the two other threads.\<close>

definition thread_1_turn :: "'a os_scheme \<Rightarrow> (int outcome \<times> 'a os_scheme) option" where
  "thread_1_turn s = sleep 1000 s"

definition thread_2_turn :: "'a os_scheme \<Rightarrow> (int outcome \<times> 'a os_scheme) option" where
  "thread_2_turn s = sleep 500 s"

section \<open>Printing changes no other memory\<close>

definition steady :: "'a console_scheme chip \<Rightarrow> bool" where
  "steady chip \<longleftrightarrow> drains chip \<and> (\<forall>s. hmem (tick chip s) = hmem s \<and> chars (tick chip s) = chars s)"

lemma ticks_steady: "steady chip \<Longrightarrow> hmem ((tick chip ^^ n) s) = hmem s \<and> chars ((tick chip ^^ n) s) = chars s"
  by (induction n) (auto simp: steady_def)

lemma write_dword_steady: "hmem (write_dword a d s) = hmem s" "chars (write_dword a d s') = chars s'"
  by (simp_all add: write_dword_def)

lemma printc_steady:
  assumes "steady chip"
  shows "\<exists>s'. printc chip c s = Some (OK, s') \<and> io_log s' = (0x4000C000, of_char c) # io_log s \<and> hmem s' = hmem s \<and> chars s' = chars s"
proof -
  have d: "drains chip" using assms by (simp add: steady_def)
  obtain n where "read_dword 0x4000C014 ((tick chip ^^ n) s) AND 0x20 \<noteq> 0" using d by (auto simp: drains_def)
  from poll_ends [OF this] obtain k where "poll (tick chip) 0x4000C014 0x20 s = Some ((tick chip ^^ k) s)" by blast
  then show ?thesis
    by (simp add: printc_def uart0_send_def uart_send_def uart0_info_def Let_def ticks_log [OF d] ticks_steady [OF assms] write_dword_steady)
qed

lemma prints_loop_steady:
  "steady chip \<Longrightarrow> \<exists>s'. prints_loop chip cs s = Some s' \<and>
    io_log s' = map (\<lambda>c. (0x4000C000, of_char c)) (rev cs) @ io_log s \<and> hmem s' = hmem s \<and> chars s' = chars s"
proof (induction cs arbitrary: s)
  case (Cons c cs)
  obtain s1 where s1: "printc chip c s = Some (OK, s1)" "io_log s1 = (0x4000C000, of_char c) # io_log s" "hmem s1 = hmem s" "chars s1 = chars s"
    using printc_steady [OF Cons.prems] by blast
  obtain s2 where "prints_loop chip cs s1 = Some s2" "io_log s2 = map (\<lambda>c. (0x4000C000, of_char c)) (rev cs) @ io_log s1"
    "hmem s2 = hmem s1" "chars s2 = chars s1"
    using Cons by blast
  then show ?case using s1 by simp
qed simp

lemma printk_steady:
  assumes "steady chip" "vsprintf mem fmt args = Some (n, out, ws)"
  shows "\<exists>s'. printk chip mem fmt args s = Some (n, s') \<and>
    io_log s' = map (\<lambda>c. (0x4000C000, of_char c)) (rev (takeWhile (\<lambda>c. c \<noteq> CHR 0x00) out)) @ io_log s \<and>
    hmem s' = hmem s \<and> chars s' = chars s"
  using prints_loop_steady [OF assms(1), of "takeWhile (\<lambda>c. c \<noteq> CHR 0x00) out" s] assms(2)
  by (auto simp: printk_def prints_def)

section \<open>The list of the chunks\<close>

lemma directive_8X: "directive mem out ws (CHR ''8'' # CHR ''X'' # fmt) (w # args) =
    Some (out @ layout w 16 8 (- 1) LARGE, ws, fmt, args)"
proof -
  have "is_digit (CHR ''8'')" "\<not> is_digit (CHR ''X'')" "of_char (CHR ''8'') = (56 :: int)" by code_simp+
  then show ?thesis
    by (simp add: directive_def get_width_def starts_def get_precision_def get_qualifier_def convert_def convert_number_def
        va_arg_def get_number_def number_layout)
qed

lemma directive_6d: "directive mem out ws (CHR ''6'' # CHR ''d'' # fmt) (w # args) =
    Some (out @ layout w 10 6 (- 1) SIGN, ws, fmt, args)"
proof -
  have "is_digit (CHR ''6'')" "\<not> is_digit (CHR ''d'')" "of_char (CHR ''6'') = (54 :: int)" by code_simp+
  then show ?thesis
    by (simp add: directive_def get_width_def starts_def get_precision_def get_qualifier_def convert_def convert_number_def
        va_arg_def get_number_def number_layout)
qed

text \<open>The line for the chunk of size \<open>n\<close> at \<open>p\<close>.\<close>

definition chunk_text :: "(addr \<Rightarrow> char) \<Rightarrow> addr \<Rightarrow> addr \<Rightarrow> u32 \<Rightarrow> string" where
  "chunk_text mem status p n =
     takeWhile (\<lambda>c. c \<noteq> CHR 0x00)
      (take 8 memory_format @ '': [0x'' @ layout p 16 8 (- 1) LARGE @ '', 0x'' @ layout (p + 8) 16 8 (- 1) LARGE @
       '', 0x'' @ layout (p + n - 1) 16 8 (- 1) LARGE @ ''] : '' @ convert_string mem 0 (- 1) (- 1) status @
       '' : '' @ layout n 10 6 (- 1) SIGN @ [CHR 0x0D, CHR 0x0A])"

lemma memory_line:
  "\<exists>k out. vsprintf mem memory_format [p, p + 8, p + n - 1, status, n] = Some (k, out, []) \<and>
    takeWhile (\<lambda>c. c \<noteq> CHR 0x00) out = chunk_text mem status p n"
  by (simp add: vsprintf_def memory_format_def directive_8X directive_6d directive_s chunk_text_def Let_def)

fun placed :: "addr \<Rightarrow> chunk list \<Rightarrow> (addr \<times> chunk) list" where
  "placed p [] = []"
| "placed p (c # cs) = (p, c) # placed (p + fst c) cs"


lemma info_bits:
  assumes "16 \<le> fst c" "\<not> bit (fst c) 0"
  shows "info c \<noteq> USED" "info c AND NOT USED = fst c" "info c AND USED \<noteq> 0 \<longleftrightarrow> snd c"
proof -
  show e: "info c AND NOT USED = fst c"
    using assms(2) by (intro bit_word_eqI) (auto simp: info_def bit_simps bit_1_iff of_bool_def intro!: gr0I)
  show "info c \<noteq> USED" using e assms(1) by auto
  show "info c AND USED \<noteq> 0 \<longleftrightarrow> snd c" using assms(2) by (simp add: flag_bits) (simp add: info_def bit_simps)
qed


lemma quick_chip_steady: "steady quick_chip"
  using quick_chip_drains by (simp add: steady_def) (simp add: quick_chip_def)

definition two_chunks :: heap where
  "two_chunks = (\<lambda>_. 0)(0x1004 := 0x20, 0x1020 := 0x20, 0x1024 := 0x11, 0x1030 := 0x11, 0x1034 := 1)"


end
