(* ===== verification/MathLib.thy ===== *)
theory MathLib
  imports Prelude
begin

text \<open>
  library/math/math.c.  The locals that \<open>get_max_common_divisor\<close> tests before it sets them are
  parameters; a division by zero and an index outside the array are \<open>None\<close>, as is a loop that does
  not end.  \<open>int\<close> arithmetic is mathematical where the code cannot overflow.
\<close>

section \<open>Definitions\<close>

definition aSymbol :: string where "aSymbol = ''0123456789ABCDEF''"

partial_function (option) divisor_loop :: "u32 \<Rightarrow> u32 \<Rightarrow> u32 option" where
  "divisor_loop Max' Min' =
     (if Min' = 0 then None
      else
        let remainder = Max' mod Min';
            Max' = Min';
            Min' = remainder
        in if remainder \<noteq> 0 then divisor_loop Max' Min' else Some Max')"

definition get_max_common_divisor :: "u32 \<Rightarrow> u32 \<Rightarrow> u32 \<Rightarrow> u32 \<Rightarrow> u32 option" where
  "get_max_common_divisor Max0 Min0 a b =
     (if 0 = Max0 \<or> 0 = Min0 then Some 0
      else
        let Max' = max a b;
            Min' = min a b
        in divisor_loop Max' Min')"

function factorial :: "u32 \<Rightarrow> u32" where
  "factorial n = (if 0 = n then 0 else n + factorial (n - 1))"
  by auto
termination by (relation "measure unat") (auto simp: measure_unat)

partial_function (option) search_loop :: "int list \<Rightarrow> int \<Rightarrow> int \<Rightarrow> int \<Rightarrow> int option" where
  "search_loop aSource Key lo hi =
     (if lo \<le> hi then
        let Middle = (hi - lo) div 2 in
        if Middle < 0 \<or> int (length aSource) \<le> Middle then None
        else
          let Value = aSource ! nat Middle in
          if Key = Value then Some Middle
          else if Value < Key then search_loop aSource Key (Middle + 1) hi
          else search_loop aSource Key lo (Middle - 1)
      else Some (- 1))"

definition binary_search :: "int list \<Rightarrow> int \<Rightarrow> int \<Rightarrow> int option" where
  "binary_search aSource Max' Key = search_loop aSource Key 0 Max'"

section \<open>The greatest common divisor\<close>

declare factorial.simps [simp del]

lemma divisor_loop_gcd:
  "n \<noteq> 0 \<Longrightarrow> divisor_loop m n = Some (of_nat (gcd (unat m) (unat n)))"
proof (induction "unat n" arbitrary: m n rule: less_induct)
  case less
  have md: "unat (m mod n) = unat m mod unat n" by (simp add: unat_mod)
  have pos: "0 < unat n" using less.prems by (simp add: unat_gt_0)
  show ?case
  proof (cases "m mod n = 0")
    case True
    then have "gcd (unat m) (unat n) = unat n"
      using md by (metis gcd_nat.absorb2 mod_0_imp_dvd unat_0)
    then show ?thesis using True less.prems by (subst divisor_loop.simps) simp
  next
    case False
    have "unat (m mod n) < unat n" using md pos by simp
    then have "divisor_loop n (m mod n) = Some (of_nat (gcd (unat n) (unat (m mod n))))"
      using less.hyps False by blast
    moreover have "gcd (unat n) (unat (m mod n)) = gcd (unat m) (unat n)"
      using md by (metis gcd.commute gcd_red_nat)
    ultimately show ?thesis using False less.prems by (subst divisor_loop.simps) simp
  qed
qed

text \<open>When the two locals that it tests before setting them happen not to be zero,
  \<open>get_max_common_divisor\<close> returns the greatest common divisor of two numbers that are not zero; when one of them
  happens to be zero, it returns zero whatever the arguments are.\<close>

theorem divisor_is_gcd:
  "get_max_common_divisor Max0 Min0 a b =
     (if Max0 = 0 \<or> Min0 = 0 then Some 0
      else if a = 0 \<or> b = 0 then None
      else Some (of_nat (gcd (unat a) (unat b))))"
proof -
  have z: "min a b = 0 \<longleftrightarrow> a = 0 \<or> b = 0" by (auto simp: min_def word_le_nat_alt unat_eq_zero)
  have g: "gcd (unat (max a b)) (unat (min a b)) = gcd (unat a) (unat b)"
    by (auto simp: max_def min_def gcd.commute)
  have n: "divisor_loop m 0 = None" for m by (subst divisor_loop.simps) simp
  show ?thesis
    using divisor_loop_gcd [of "min a b" "max a b"] z n
    by (auto simp: get_max_common_divisor_def Let_def g)
qed

section \<open>Factorial\<close>

lemma factorial_sums: "factorial n = of_nat (unat n * (unat n + 1) div 2)"
proof (induction n rule: factorial.induct)
  case (1 n)
  show ?case
  proof (cases "n = 0")
    case True
    then show ?thesis by (simp add: factorial.simps)
  next
    case False
    then obtain k where k: "unat n = Suc k" by (metis not0_implies_Suc unat_eq_zero)
    then have "unat (n - 1) = k" using False by (simp add: unat_minus_one)
    then have "factorial n = n + of_nat (k * (k + 1) div 2)" using 1 False by (subst factorial.simps) simp
    moreover have "n = of_nat (Suc k)" by (simp flip: k)
    ultimately have "factorial n = of_nat (Suc k) + of_nat (k * (k + 1) div 2)" by (simp only:)
    also have "of_nat (Suc k) + of_nat (k * (k + 1) div 2) = (of_nat (Suc k * (Suc k + 1) div 2) :: u32)"
    proof -
      have "Suc k * (Suc k + 1) div 2 = Suc k + k * (k + 1) div 2" by (simp add: algebra_simps)
      then show ?thesis by (simp only: of_nat_add)
    qed
    finally show ?thesis by (simp only: k)
  qed
qed

section \<open>Searching\<close>

lemma search_loop_sound:
  assumes "search_loop xs key l r = Some i"
  shows "i = - 1 \<or> 0 \<le> i \<and> i < int (length xs) \<and> xs ! nat i = key"
  using assms
  by (rule search_loop.raw_induct [where P = "\<lambda>xs key l r i. i = - 1 \<or> 0 \<le> i \<and> i < int (length xs) \<and> xs ! nat i = key", rotated])
    (auto simp: Let_def split: if_splits)

lemma search_loop_stuck:
  assumes "search_loop xs key l r = Some i"
  shows "xs ! 0 < key \<longrightarrow> \<not> (l = 1 \<and> r = 1)"
  using assms
  by (rule search_loop.raw_induct [where P = "\<lambda>xs key l r i. xs ! 0 < key \<longrightarrow> \<not> (l = 1 \<and> r = 1)", rotated])
    (auto simp: Let_def split: if_splits, blast)

text \<open>An index that \<open>binary_search\<close> returns lies in the array and holds the key.  But the loop takes half
  the width of the range for its middle, so already in two sorted elements it never finds the second one:
  the call does not return.\<close>

theorem binary_search_sound:
  assumes "binary_search xs m key = Some i"
  shows "(i = - 1 \<or> 0 \<le> i \<and> i < int (length xs) \<and> xs ! nat i = key) \<and> (a < b \<longrightarrow> binary_search [a, b] 1 b = None)"
proof -
  have "search_loop [a, b] b 1 1 = None" if "a < b"
    using search_loop_stuck [of "[a, b]" b 1 1] that by (cases "search_loop [a, b] b 1 1") auto
  then have "binary_search [a, b] 1 b = None" if "a < b"
    using that by (simp add: binary_search_def) (subst search_loop.simps, simp)
  then show ?thesis using assms search_loop_sound by (simp add: binary_search_def)
qed

theorem binary_search_sound_witness:
  "binary_search [3, 5, 8] 2 5 = Some 1 \<and> [3, 5, 8] ! nat 1 = (5 :: int) \<and> binary_search [3, 5] 1 5 = None"
proof -
  have b: "binary_search [3, 5, 8] 2 5 = Some 1"
    by (simp add: binary_search_def) (subst search_loop.simps, simp)
  show ?thesis using binary_search_sound [OF b, of 3 5] b by simp
qed

end
