(* ===== verification/Can.thy ===== *)
theory Can
  imports Board
begin

text \<open>
  lpc1766/can: the CAN controllers.  The fields of \<open>CAN_FEATURE\<close> are maps from the address of the
  structure; messages and the buffers of the interrupt and of \<open>can_recv\<close> lie in the byte memory of the pipes,
  at addresses that are parameters.  \<open>chip\<close> is the controller: \<open>tick\<close> between two polls of the
  mode register, \<open>after_read\<close> when the interrupt register has been read.
\<close>

section \<open>State\<close>

record can = console +
  can_BaseAddress :: "addr \<Rightarrow> addr"
  can_Priority :: "addr \<Rightarrow> u32"
  can_Irq :: "addr \<Rightarrow> u32"
  SendMailBox :: "addr \<Rightarrow> addr"
  pRecvPipe :: "addr \<Rightarrow> addr"
  SJW :: "addr \<Rightarrow> u8"
  PBS1 :: "addr \<Rightarrow> u8"
  PBS2 :: "addr \<Rightarrow> u8"
  InitCounter :: u32

abbreviation (input) MOD :: u32 where "MOD \<equiv> 0x00"
abbreviation (input) CMR :: u32 where "CMR \<equiv> 0x04"
abbreviation (input) GSR :: u32 where "GSR \<equiv> 0x08"
abbreviation (input) ICR :: u32 where "ICR \<equiv> 0x0C"
abbreviation (input) IER :: u32 where "IER \<equiv> 0x10"
abbreviation (input) BTR :: u32 where "BTR \<equiv> 0x14"
abbreviation (input) RFS :: u32 where "RFS \<equiv> 0x20"
abbreviation (input) TFI1 :: u32 where "TFI1 \<equiv> 0x30"
abbreviation (input) TID1 :: u32 where "TID1 \<equiv> 0x34"
abbreviation (input) TDA1 :: u32 where "TDA1 \<equiv> 0x38"
abbreviation (input) TDB1 :: u32 where "TDB1 \<equiv> 0x3C"

text \<open>\<open>struct __can_message\<close>: ID at 0, aData at 4, Size at 12.\<close>

definition load_dword :: "(addr \<Rightarrow> u8) \<Rightarrow> addr \<Rightarrow> u32" where
  "load_dword m a = dword_of (m a) (m (a + 1)) (m (a + 2)) (m (a + 3))"

definition store_dword :: "addr \<Rightarrow> u32 \<Rightarrow> (addr \<Rightarrow> u8) \<Rightarrow> addr \<Rightarrow> u8" where
  "store_dword a d m = m(a := ucast d, a + 1 := ucast (drop_bit 8 d), a + 2 := ucast (drop_bit 16 d), a + 3 := ucast (drop_bit 24 d))"

section \<open>The acceptance filter\<close>

definition AFMR :: addr where "AFMR = 0x4003C000"
definition SFF_SA :: addr where "SFF_SA = 0x4003C004"
definition SFF_GRP_SA :: addr where "SFF_GRP_SA = 0x4003C008"
definition EFF_SA :: addr where "EFF_SA = 0x4003C00C"
definition EFF_GRP_SA :: addr where "EFF_GRP_SA = 0x4003C010"
definition ENDOFTABLE :: addr where "ENDOFTABLE = 0x4003C014"
definition FILTER_RAM :: addr where "FILTER_RAM = 0x40038000"

abbreviation (input) CAN2 :: u16 where "CAN2 \<equiv> 1"

definition aStandardID :: "u16 list" where
  "aStandardID = [push_bit 13 CAN2 OR 0x000, push_bit 13 CAN2 OR 0x555, push_bit 13 CAN2 OR 0x701, push_bit 13 CAN2 OR 0x7F5]"

fun filter_loop :: "addr \<Rightarrow> u16 list \<Rightarrow> 'a bus_scheme \<Rightarrow> 'a bus_scheme" where
  "filter_loop Address (a # b # ids) s =
     (let s = write_dword Address (push_bit 16 (ucast a) OR ucast b) s in filter_loop (Address + 4) ids s)"
| "filter_loop Address _ s = s"

definition can_filter_setup :: "'a can_scheme \<Rightarrow> int \<times> 'a can_scheme" where
  "can_filter_setup s =
     (if 0 \<noteq> InitCounter s then (OK, s)
      else
        let s = s\<lparr>InitCounter := InitCounter s + 1\<rparr>;
            s = write_dword AFMR 0x01 s;
            s = filter_loop FILTER_RAM aStandardID s;
            sz = of_nat (2 * length aStandardID);
            s = write_dword SFF_SA 0 s;
            s = write_dword SFF_GRP_SA sz s;
            s = write_dword EFF_SA sz s;
            s = write_dword EFF_GRP_SA sz s;
            s = write_dword ENDOFTABLE sz s;
            s = write_dword AFMR 0x00 s
        in (OK, s))"

section \<open>The driver\<close>

text \<open>The loop that waits until a status bit is gone.\<close>

partial_function (option) poll_clear :: "('a bus_scheme \<Rightarrow> 'a bus_scheme) \<Rightarrow> addr \<Rightarrow> u32 \<Rightarrow> 'a bus_scheme \<Rightarrow> 'a bus_scheme option" where
  "poll_clear tk a m s = (if read_dword a s AND m \<noteq> 0 then poll_clear tk a m (tk s) else Some s)"

definition can_ctrl_mode :: "'a can_scheme chip \<Rightarrow> addr \<Rightarrow> int \<Rightarrow> 'a can_scheme \<Rightarrow> 'a can_scheme option" where
  "can_ctrl_mode chip pThis Mode s =
     (let Base = can_BaseAddress s pThis in
      if 0 = Mode then Some (dword_set_bits (Base + MOD) 0x01 s)
      else
        let s = dword_clear_bits (Base + MOD) 0x01 s
        in poll_clear (tick chip) (Base + MOD) 0x01 s)"

definition can_handle :: "'a can_scheme chip \<Rightarrow> addr \<Rightarrow> addr \<Rightarrow> 'a can_scheme \<Rightarrow> 'a can_scheme" where
  "can_handle chip aMessage pThis s =
     (let Base = can_BaseAddress s pThis;
          Status' = read_dword (Base + ICR) s;
          s = after_read chip (Base + ICR) s;
          s = (if push_bit 0 1 AND Status' \<noteq> 0 then
                 let s = s\<lparr>bytes := (\<lambda>a. if a - aMessage < 16 then io s (Base + RFS + (a - aMessage)) else bytes s a)\<rparr>;
                     s = write_dword (Base + CMR) (push_bit 2 1) s;
                     (_, s) = pipe_write (pRecvPipe s pThis) aMessage 1 s
                 in s
               else s)
      in if push_bit 1 1 AND Status' \<noteq> 0 then
           let (_, s) = mail_post (SendMailBox s pThis) 0 s in s
         else s)"

text \<open>
  The interrupt handles the controllers whose \<open>DEVICE_CANn_ENABLE\<close> is set.  Nothing in the sources of
  lpc1766 sets one: in the program as built the list is empty, and hello.map has 2 bytes of code for it.
\<close>

fun can_exception :: "'a can_scheme chip \<Rightarrow> addr \<Rightarrow> addr list \<Rightarrow> 'a can_scheme \<Rightarrow> 'a can_scheme" where
  "can_exception chip aMessage [] s = s"
| "can_exception chip aMessage (pThis # enabled) s = can_exception chip aMessage enabled (can_handle chip aMessage pThis s)"

definition can_exception_fn :: addr where "can_exception_fn = 0x00000871"

definition can_setup_start :: "'a can_scheme chip \<Rightarrow> addr \<Rightarrow> 'a can_scheme \<Rightarrow> (int outcome \<times> 'a can_scheme) option" where
  "can_setup_start chip pThis s =
     (let (_, s) = irq_register (can_Irq s pThis) (can_Priority s pThis) can_exception_fn s
      in map_option (Pair (Returned OK)) (can_ctrl_mode chip pThis 1 s))"

definition can_setup :: "'a can_scheme chip \<Rightarrow> addr \<Rightarrow> 'a can_scheme \<Rightarrow> (int outcome \<times> 'a can_scheme) option" where
  "can_setup chip pThis s =
     (let (_, s) = can_filter_setup s;
          Base = can_BaseAddress s pThis
      in case can_ctrl_mode chip pThis 0 s of
           None \<Rightarrow> None
         | Some s \<Rightarrow>
             let s = dword_set_bits (Base + MOD) (push_bit 2 1) s;
                 s = write_dword (Base + IER) (push_bit 0 1 OR push_bit 1 1 OR push_bit 2 1 OR push_bit 3 1) s;
                 s = write_dword (Base + GSR) 0x00 s;
                 s = write_dword (Base + BTR) (push_bit 0 0x04 OR push_bit 14 (ucast (SJW s pThis)) OR
                       push_bit 16 (ucast (PBS1 s pThis)) OR push_bit 20 (ucast (PBS2 s pThis)) OR push_bit 23 0) s
             in after (pipe_new 16 8 s)
                  (\<lambda>Pipe s.
                     if NULL = Pipe then Some (Returned ERR_SOFTWARE, s)
                     else
                       let s = s\<lparr>pRecvPipe := (pRecvPipe s)(pThis := Pipe)\<rparr>
                       in after (mailbox_new 1 s)
                            (\<lambda>Mailbox s.
                               if NULL = Mailbox then
                                 after (pipe_free (pRecvPipe s pThis) s) (\<lambda>_ s. Some (Returned ERR_NO_MEMERY, s))
                               else
                                 let s = s\<lparr>SendMailBox := (SendMailBox s)(pThis := Mailbox)\<rparr>
                                 in can_setup_start chip pThis s)))"

text \<open>The frame of a message goes to the first transmit buffer; the command is self reception.\<close>

definition can_transmit :: "addr \<Rightarrow> addr \<Rightarrow> 'a can_scheme \<Rightarrow> 'a can_scheme" where
  "can_transmit pThis pMessage s =
     (let Base = can_BaseAddress s pThis;
          s = write_dword (Base + MOD) 0 s;
          s = write_dword (Base + TFI1) (push_bit 16 (ucast (bytes s (pMessage + 12))) OR (0xC0000000 AND load_dword (bytes s) pMessage)) s;
          s = write_dword (Base + TID1) (load_dword (bytes s) pMessage AND 0x3FFFFFFF) s;
          s = write_dword (Base + TDA1) (load_dword (bytes s) (pMessage + 4)) s;
          s = write_dword (Base + TDB1) (load_dword (bytes s) (pMessage + 8)) s
      in write_dword (Base + CMR) (push_bit 4 1) s)"

text \<open>\<open>pMail\<close> is the address of the local \<open>Mail\<close>.\<close>

definition can_send :: "addr \<Rightarrow> addr \<Rightarrow> addr \<Rightarrow> int \<Rightarrow> 'a can_scheme \<Rightarrow> (int outcome \<times> 'a can_scheme) option" where
  "can_send pMail pThis pMessage Timeout s =
     (if NULL = pMessage then Some (Returned ERR_BAD_PARAM, s)
      else if NOT 0x0F AND bytes s (pMessage + 12) \<noteq> 0 then Some (Returned ERR_SOFTWARE, s)
      else
        let s = can_transmit pThis pMessage s
        in mail_wait (SendMailBox s pThis) pMail (of_int Timeout) s)"

definition can_send_resume :: "addr \<Rightarrow> addr \<Rightarrow> int \<Rightarrow> addr \<Rightarrow> 'a can_scheme \<Rightarrow> int \<times> 'a can_scheme" where
  "can_send_resume pMail pThis Timeout pThread s = mail_wait_resume (SendMailBox s pThis) pMail (of_int Timeout) pThread s"

text \<open>What \<open>can_recv\<close> does with the frame; the last copy has 16 bytes, as in the code.\<close>

definition can_decode :: "addr \<Rightarrow> addr \<Rightarrow> int \<Rightarrow> 'a can_scheme \<Rightarrow> int \<times> 'a can_scheme" where
  "can_decode aMessage pMessage Status' s =
     (if Status' < 0 then (ERR, s)
      else
        let m = bytes s;
            m = m(pMessage + 12 := ucast (0x0F AND drop_bit 16 (load_dword m aMessage)));
            m = store_dword aMessage (load_dword m aMessage AND push_bit 30 3) m;
            m = store_dword pMessage (load_dword m aMessage OR load_dword m (aMessage + 4)) m;
            m = memcpy (pMessage + 4) (aMessage + 8) 16 m
        in (OK, s\<lparr>bytes := m\<rparr>))"

definition can_recv :: "addr \<Rightarrow> addr \<Rightarrow> addr \<Rightarrow> int \<Rightarrow> 'a can_scheme \<Rightarrow> (int outcome \<times> 'a can_scheme) option" where
  "can_recv aMessage pThis pMessage Timeout s =
     after (pipe_read (pRecvPipe s pThis) aMessage 1 (of_int Timeout) s)
       (\<lambda>Status' s. let (r, s) = can_decode aMessage pMessage Status' s in Some (Returned r, s))"

definition can_recv_resume :: "addr \<Rightarrow> addr \<Rightarrow> addr \<Rightarrow> int \<Rightarrow> addr \<Rightarrow> 'a can_scheme \<Rightarrow> int \<times> 'a can_scheme" where
  "can_recv_resume aMessage pThis pMessage Timeout pThread s =
     (let (Status', s) = pipe_read_resume (pRecvPipe s pThis) aMessage 1 (of_int Timeout) pThread s
      in can_decode aMessage pMessage Status' s)"

definition can_cleanup :: "addr \<Rightarrow> 'a can_scheme \<Rightarrow> (int outcome \<times> 'a can_scheme) option" where
  "can_cleanup pThis s =
     after (pipe_free (pRecvPipe s pThis) s)
       (\<lambda>_ s. after (mailbox_free (SendMailBox s pThis) s)
          (\<lambda>_ s. let (_, s) = irq_unregister (can_Irq s pThis) s in Some (Returned OK, s)))"


section \<open>The two controllers\<close>

text \<open>The initial values of a feature structure; the two differ in the address of the registers only.  The linker
  drops both from project/hello, so their addresses are parameters.\<close>

definition CAN_IRQn :: u32 where "CAN_IRQn = 25"

definition can_feature :: "addr \<Rightarrow> addr \<Rightarrow> 'a can_scheme \<Rightarrow> 'a can_scheme" where
  "can_feature pThis Base s =
     s\<lparr>can_BaseAddress := (can_BaseAddress s)(pThis := Base), can_Priority := (can_Priority s)(pThis := 14),
       can_Irq := (can_Irq s)(pThis := CAN_IRQn), SendMailBox := (SendMailBox s)(pThis := NULL),
       pRecvPipe := (pRecvPipe s)(pThis := NULL), SJW := (SJW s)(pThis := 1), PBS1 := (PBS1 s)(pThis := 5),
       PBS2 := (PBS2 s)(pThis := 2)\<rparr>"

definition can0_init :: "addr \<Rightarrow> 'a can_scheme \<Rightarrow> 'a can_scheme" where
  "can0_init can0_feature s = can_feature can0_feature 0x40044000 s"

definition can1_init :: "addr \<Rightarrow> 'a can_scheme \<Rightarrow> 'a can_scheme" where
  "can1_init can1_feature s = can_feature can1_feature 0x40048000 s"

definition can0_setup :: "'a can_scheme chip \<Rightarrow> addr \<Rightarrow> 'a can_scheme \<Rightarrow> (int outcome \<times> 'a can_scheme) option" where
  "can0_setup chip can0_feature s =
     (let s = dword_set_bits PCONP (push_bit 13 1) s;
          s = dword_modify PINSEL0 0x0A 0x05 s
      in after (can_setup chip can0_feature s) (\<lambda>_ s. Some (Returned OK, s)))"

definition can0_send :: "addr \<Rightarrow> addr \<Rightarrow> addr \<Rightarrow> int \<Rightarrow> 'a can_scheme \<Rightarrow> (int outcome \<times> 'a can_scheme) option" where
  "can0_send can0_feature pMail pMessage Timeout s = can_send pMail can0_feature pMessage Timeout s"

definition can0_recv :: "addr \<Rightarrow> addr \<Rightarrow> addr \<Rightarrow> int \<Rightarrow> 'a can_scheme \<Rightarrow> (int outcome \<times> 'a can_scheme) option" where
  "can0_recv can0_feature aMessage pMessage Timeout s = can_recv aMessage can0_feature pMessage Timeout s"

definition can0_cleanup :: "addr \<Rightarrow> 'a can_scheme \<Rightarrow> (int outcome \<times> 'a can_scheme) option" where
  "can0_cleanup can0_feature s =
     after (can_cleanup can0_feature s)
       (\<lambda>_ s. let s = dword_clear_bits PCONP (push_bit 13 1) s in Some (Returned OK, s))"

definition can1_setup :: "'a can_scheme chip \<Rightarrow> addr \<Rightarrow> 'a can_scheme \<Rightarrow> (int outcome \<times> 'a can_scheme) option" where
  "can1_setup chip can1_feature s =
     (let s = dword_set_bits PCONP (push_bit 14 1) s;
          s = dword_modify PINSEL0 (push_bit 10 1 OR push_bit 8 1) (push_bit 11 1 OR push_bit 9 1) s
      in after (can_setup chip can1_feature s) (\<lambda>_ s. Some (Returned OK, s)))"

definition can1_send :: "addr \<Rightarrow> addr \<Rightarrow> addr \<Rightarrow> int \<Rightarrow> 'a can_scheme \<Rightarrow> (int outcome \<times> 'a can_scheme) option" where
  "can1_send can1_feature pMail pMessage Timeout s = can_send pMail can1_feature pMessage Timeout s"

definition can1_recv :: "addr \<Rightarrow> addr \<Rightarrow> addr \<Rightarrow> int \<Rightarrow> 'a can_scheme \<Rightarrow> (int outcome \<times> 'a can_scheme) option" where
  "can1_recv can1_feature aMessage pMessage Timeout s = can_recv aMessage can1_feature pMessage Timeout s"

definition can1_cleanup :: "addr \<Rightarrow> 'a can_scheme \<Rightarrow> (int outcome \<times> 'a can_scheme) option" where
  "can1_cleanup can1_feature s =
     after (can_cleanup can1_feature s)
       (\<lambda>_ s. let s = dword_clear_bits PCONP (push_bit 14 1) s in Some (Returned OK, s))"

section \<open>Frames\<close>

text \<open>The four words of a frame, as \<open>can_send\<close> writes them and as the controller gives them back.\<close>

definition frame_words :: "u32 \<Rightarrow> u8 \<Rightarrow> u32 \<Rightarrow> u32 \<Rightarrow> u32 list" where
  "frame_words ident sz d0 d1 = [push_bit 16 (ucast sz) OR (0xC0000000 AND ident), ident AND 0x3FFFFFFF, d0, d1]"

lemma load_store: "load_dword (store_dword a d m) a = d"
  by (simp add: load_dword_def store_dword_def dword_of_split)

lemma load_store_apart: "apart a b \<Longrightarrow> load_dword (store_dword b d m) a = load_dword m a"
  by (simp add: apart_def load_dword_def store_dword_def)

lemma frame_masks: "list_all (\<lambda>n. (bit (0xC0000000 :: u32) n \<longleftrightarrow> n = 30 \<or> n = 31) \<and>
    (bit (0x3FFFFFFF :: u32) n \<longleftrightarrow> n < 30)) [0..<32]"
  by code_simp

lemma frame_ident: "(frame_words ident sz d0 d1 ! 0 AND 0xC0000000) OR frame_words ident sz d0 d1 ! 1 = ident"
proof (rule bit_word_eqI)
  fix n :: nat assume "n < LENGTH(32)"
  then have n: "n < 32" by simp
  then have m: "bit (0xC0000000 :: u32) n \<longleftrightarrow> n = 30 \<or> n = 31" "bit (0x3FFFFFFF :: u32) n \<longleftrightarrow> n < 30"
    using frame_masks by (simp_all add: list_all_upt)
  have sz: "\<not> bit sz (n - 16)" if "n = 30 \<or> n = 31"
    using that bit_imp_le_length [of sz "n - 16"] by auto
  show "bit ((frame_words ident sz d0 d1 ! 0 AND 0xC0000000) OR frame_words ident sz d0 d1 ! 1) n = bit ident n"
    using n sz m by (auto simp: frame_words_def bit_and_iff bit_or_iff bit_push_bit_iff bit_unsigned_iff)
qed

lemma load_dword_upd:
  "a \<noteq> x \<Longrightarrow> a + 1 \<noteq> x \<Longrightarrow> a + 2 \<noteq> x \<Longrightarrow> a + 3 \<noteq> x \<Longrightarrow> load_dword (m(x := v)) a = load_dword m a"
  by (simp add: load_dword_def)

lemma can_decode_effect:
  fixes t :: "'a can_scheme"
  assumes "0 \<le> st" "\<forall>i<20. \<forall>j<24. q + of_nat i \<noteq> a + of_nat j"
  defines "m \<equiv> bytes t" and "m' \<equiv> bytes (snd (can_decode a q st t))"
  shows "fst (can_decode a q st t) = OK"
    "load_dword m' q = (load_dword m a AND 0xC0000000) OR load_dword m (a + 4)"
    "j < 16 \<Longrightarrow> m' (q + 4 + of_nat j) = m (a + 8 + of_nat j)"
proof -
  have ne: "q + of_nat i \<noteq> a + of_nat j" if "i < 20" "j < 24" for i j using assms(2) that by blast
  have n: "q + 12 \<noteq> a + of_nat j" if "j < 24" for j using ne [of 12 j] that by simp
  define m1 where "m1 = m(q + 12 := ucast (0x0F AND drop_bit 16 (load_dword m a)))"
  define v where "v = load_dword m a AND 0xC0000000"
  define m2 where "m2 = store_dword a v m1"
  define m3 where "m3 = store_dword q (v OR load_dword m (a + 4)) m2"
  have l1: "load_dword m1 a = load_dword m a"
    unfolding m1_def using n [of 0] n [of 1] n [of 2] n [of 3] by (intro load_dword_upd) simp_all
  have l2: "load_dword m2 (a + 4) = load_dword m (a + 4)"
    using n [of 4] n [of 5] n [of 6] n [of 7] by (simp add: m2_def store_dword_def m1_def load_dword_def add.assoc)
  have m': "m' = memcpy (q + 4) (a + 8) 16 m3"
    using assms(1) l1 l2 by (simp add: m'_def can_decode_def Let_def m3_def m2_def load_store v_def m1_def m_def)
  show "fst (can_decode a q st t) = OK" using assms(1) by (simp add: can_decode_def Let_def)
  have keep: "m' (q + of_nat i) = m3 (q + of_nat i)" if "i < 4" for i
  proof -
    have "q + of_nat i \<noteq> q + 4 + of_nat k" if "k < 16" for k
      using of_nat_inj32 [of i "4 + k"] \<open>i < 4\<close> that by (simp add: add.assoc)
    then show ?thesis unfolding m' by (rule memcpy_other)
  qed
  have "load_dword m' q = load_dword m3 q"
    using keep [of 0] keep [of 1] keep [of 2] keep [of 3] by (simp add: load_dword_def)
  then show "load_dword m' q = (load_dword m a AND 0xC0000000) OR load_dword m (a + 4)"
    by (simp add: m3_def load_store v_def)
  show "m' (q + 4 + of_nat j) = m (a + 8 + of_nat j)" if "j < 16"
  proof -
    have "a + 8 + of_nat i \<noteq> q + 4 + of_nat k" if "i < 16" "k < 16" for i k
      using ne [of "4 + k" "8 + i"] that by (simp add: add.assoc)
    then have "m' (q + 4 + of_nat j) = m3 (a + 8 + of_nat j)"
      unfolding m' using \<open>j < 16\<close> by (intro memcpy_at) simp_all
    also have "\<dots> = m (a + of_nat (8 + j))"
      using ne [of 0 "8 + j"] ne [of 1 "8 + j"] ne [of 2 "8 + j"] ne [of 3 "8 + j"] n [of "8 + j"] that
        of_nat_inj32 [of "8 + j" 0] of_nat_inj32 [of "8 + j" 1] of_nat_inj32 [of "8 + j" 2] of_nat_inj32 [of "8 + j" 3]
      by (simp add: m3_def m2_def m1_def store_dword_def add.assoc)
    finally show ?thesis by (simp add: add.assoc)
  qed
qed

section \<open>Properties\<close>

lemma can_transmit_log:
  "io_log (can_transmit this p s) =
    (let ws = frame_words (load_dword (bytes s) p) (bytes s (p + 12)) (load_dword (bytes s) (p + 4)) (load_dword (bytes s) (p + 8));
         Base = can_BaseAddress s this
     in [(Base + CMR, 0x10), (Base + TDB1, ws ! 3), (Base + TDA1, ws ! 2), (Base + TID1, ws ! 1), (Base + TFI1, ws ! 0), (Base + MOD, 0)]) @ io_log s"
proof -
  have b: "bytes (write_dword a d u) = bytes u" for a d and u :: "'a can_scheme" by (simp add: write_dword_def)
  show ?thesis by (simp add: can_transmit_def Let_def b frame_words_def)
qed

text \<open>C20: A frame keeps the message: \<open>can_send\<close> writes the four words of the frame to the transmit buffer and then the
  command, and where \<open>can_recv\<close> finds these four words it gives back the same identifier, type and format and the
  same eight bytes of data.  The size is lost: the last copy is 8 bytes too long, and the
  size is the byte that lies behind the frame in memory.\<close>

theorem can_frame_roundtrip:
  fixes s :: "'a can_scheme" and t :: "'b can_scheme"
  assumes "0 \<le> st" "\<forall>i<20. \<forall>j<24. q + of_nat i \<noteq> a + of_nat j"
    and "\<forall>i<4. load_dword (bytes t) (a + 4 * of_nat i) =
      frame_words (load_dword (bytes s) p) (bytes s (p + 12)) (load_dword (bytes s) (p + 4)) (load_dword (bytes s) (p + 8)) ! i"
  shows "(let ws = frame_words (load_dword (bytes s) p) (bytes s (p + 12)) (load_dword (bytes s) (p + 4)) (load_dword (bytes s) (p + 8));
         Base = can_BaseAddress s this
     in io_log (can_transmit this p s) =
       [(Base + CMR, 0x10), (Base + TDB1, ws ! 3), (Base + TDA1, ws ! 2), (Base + TID1, ws ! 1), (Base + TFI1, ws ! 0), (Base + MOD, 0)] @ io_log s) \<and>
    (let (r, t') = can_decode a q st t
     in r = OK \<and> load_dword (bytes t') q = load_dword (bytes s) p \<and>
        load_dword (bytes t') (q + 4) = load_dword (bytes s) (p + 4) \<and>
        load_dword (bytes t') (q + 8) = load_dword (bytes s) (p + 8) \<and>
        bytes t' (q + 12) = bytes t (a + 16))"
proof -
  note d = can_decode_effect [OF assms(1,2)]
  have w: "load_dword (bytes t) (a + 4 * of_nat i) =
      frame_words (load_dword (bytes s) p) (bytes s (p + 12)) (load_dword (bytes s) (p + 4)) (load_dword (bytes s) (p + 8)) ! i" if "i < 4" for i
    using assms(3) that by blast
  have data: "load_dword (bytes (snd (can_decode a q st t))) (q + 4 + of_nat k) = load_dword (bytes t) (a + 8 + of_nat k)" if "k \<le> 12" for k
    using that d(3) [of k t] d(3) [of "k + 1" t] d(3) [of "k + 2" t] d(3) [of "k + 3" t] by (simp add: load_dword_def add.assoc)
  have "load_dword (bytes (snd (can_decode a q st t))) q = load_dword (bytes s) p"
    using d(2) [of t] w [of 0] w [of 1] by (simp add: frame_ident [unfolded One_nat_def])
  moreover have "load_dword (bytes (snd (can_decode a q st t))) (q + 4) = load_dword (bytes s) (p + 4)"
    using data [of 0] w [of 2] by (simp add: frame_words_def)
  moreover have "load_dword (bytes (snd (can_decode a q st t))) (q + 8) = load_dword (bytes s) (p + 8)"
    using data [of 4] w [of 3] by (simp add: frame_words_def add.assoc)
  moreover have "bytes (snd (can_decode a q st t)) (q + 12) = bytes t (a + 16)"
    using d(3) [of 8 t] by (simp add: add.assoc)
  ultimately show ?thesis using d(1) [of t] can_transmit_log [of this p s] by (auto simp: Let_def split: prod.splits)
qed

text \<open>A message of 8 bytes in memory, and its frame in the buffer of the receiver.\<close>

definition can_desk :: "(addr \<Rightarrow> u8) \<Rightarrow> can" where
  "can_desk m = (two_threads (semaphore_ext (\<lambda>_. 1) (mailbox_ext (\<lambda>_. 0) (\<lambda>_. 0) (\<lambda>_. 0) (\<lambda>_. 0) (\<lambda>_ _. 0)
     (pipe_ext (\<lambda>_. 0) (\<lambda>_. 0) (\<lambda>_. 0) (\<lambda>_. 0) (\<lambda>_. 0) (\<lambda>_. 0) m (mallocor_ext (\<lambda>_. 0)
     (console_ext (\<lambda>_. CHR 0x00) (can_ext (\<lambda>_. 0x40044000) (\<lambda>_. 14) (\<lambda>_. 25) (\<lambda>_. 0) (\<lambda>_. 0) (\<lambda>_. 1) (\<lambda>_. 5) (\<lambda>_. 2) 0 ())))))))"

lemma can_desk_bytes: "bytes (can_desk m) = m"
  by (simp add: can_desk_def two_threads_def activate_thread_def list_add_def list_add_between_def
      set_next_def set_prev_def sample_def)

definition message_bytes :: "addr \<Rightarrow> u8" where
  "message_bytes = store_dword 0x100 0x80000123 (store_dword 0x104 0x44332211 (store_dword 0x108 0x88776655 (\<lambda>_. 8)))"

definition frame_bytes :: "addr \<Rightarrow> u8" where
  "frame_bytes = store_dword 0x200 0x80080000 (store_dword 0x204 0x123 (store_dword 0x208 0x44332211
     (store_dword 0x20C 0x88776655 (\<lambda>_. 0x77))))"

theorem can_frame_roundtrip_witness:
  "\<exists>t'. can_decode 0x200 0x300 1 (can_desk frame_bytes) = (OK, t') \<and> load_dword (bytes t') 0x300 = 0x80000123 \<and>
    load_dword (bytes t') 0x304 = 0x44332211 \<and> load_dword (bytes t') 0x308 = 0x88776655 \<and> bytes t' 0x30C = 0x77"
proof -
  have "(0x300 :: addr) + of_nat i \<noteq> 0x200 + of_nat j" if "i < 20" "j < 24" for i j :: nat
    using of_nat_inj32 [of "0x300 + i" "0x200 + j"] that by simp
  then have ap: "\<forall>i<20. \<forall>j<24. (0x300 :: addr) + of_nat i \<noteq> 0x200 + of_nat j" by blast
  have w: "load_dword message_bytes 0x100 = 0x80000123" "message_bytes 0x10C = 8" "load_dword message_bytes 0x104 = 0x44332211"
    "load_dword message_bytes 0x108 = 0x88776655"
    by (simp_all add: message_bytes_def load_store load_store_apart apart_def) (simp add: store_dword_def)
  have g: "frame_bytes 0x210 = 0x77" by (simp add: frame_bytes_def store_dword_def)
  have "load_dword frame_bytes 0x200 = 0x80080000" "load_dword frame_bytes 0x204 = 0x123"
    "load_dword frame_bytes 0x208 = 0x44332211" "load_dword frame_bytes 0x20C = 0x88776655"
    by (simp_all add: frame_bytes_def load_store load_store_apart apart_def)
  moreover have "frame_words 0x80000123 8 0x44332211 0x88776655 = [0x80080000, 0x123, 0x44332211, 0x88776655]"
    by (simp add: frame_words_def)
  moreover have i4: "i = 0 \<or> i = 1 \<or> i = 2 \<or> i = 3" if "i < 4" for i :: nat using that by auto
  ultimately have f: "\<forall>i<4. load_dword (bytes (can_desk frame_bytes)) (0x200 + 4 * of_nat i) =
      frame_words (load_dword (bytes (can_desk message_bytes)) 0x100) (bytes (can_desk message_bytes) (0x100 + 12))
        (load_dword (bytes (can_desk message_bytes)) (0x100 + 4)) (load_dword (bytes (can_desk message_bytes)) (0x100 + 8)) ! i"
    by (auto simp: can_desk_bytes w dest!: i4)
  show ?thesis
    using can_frame_roundtrip [OF _ ap f, of 1] by (auto simp: can_desk_bytes w g Let_def split: prod.splits)
qed

end
