(* ===== verification/SysArch.thy ===== *)
theory SysArch
  imports Board
begin

text \<open>
  lpc1768/ethernet/sys\_arch.c: the calls that the network stack needs from an operating system, on the
  semaphores, the mailboxes, the threads and the millisecond counter.  Handles are words in memory
  (\<open>stack_mem\<close>), given by their address.  \<open>OS_OK\<close> and \<open>OS_ERR_TIMEOUT\<close> are the old names of \<open>OK\<close> and
  \<open>ERR_TIMEOUT\<close> of include/macro.h, as the two versions of millisecond.c show.  A call that waits
  is cut as in the kernel; its \<open>_resume\<close> part gets the time at which it began.
\<close>

section \<open>Constants of the stack\<close>

abbreviation (input) ERR_OK :: int where "ERR_OK \<equiv> 0"
abbreviation (input) ERR_MEM :: int where "ERR_MEM \<equiv> - 1"
abbreviation (input) ERR_ARG :: int where "ERR_ARG \<equiv> - 14"
abbreviation (input) SYS_ARCH_TIMEOUT :: u32 where "SYS_ARCH_TIMEOUT \<equiv> 0xFFFFFFFF"
abbreviation (input) SYS_MBOX_EMPTY :: u32 where "SYS_MBOX_EMPTY \<equiv> SYS_ARCH_TIMEOUT"

section \<open>Semaphores\<close>

definition set_word :: "addr \<Rightarrow> u32 \<Rightarrow> 'a os_scheme \<Rightarrow> 'a os_scheme" where
  "set_word p v s = s\<lparr>stack_mem := (stack_mem s)(p := v)\<rparr>"

definition sys_init :: "'a console_scheme \<Rightarrow> 'a console_scheme" where
  "sys_init s = s"

text \<open>What \<open>sys_sem_new\<close> and \<open>sys_mbox_new\<close> do with the object they get.\<close>

definition sys_keep :: "addr \<Rightarrow> addr \<Rightarrow> 'a console_scheme \<Rightarrow> (int outcome \<times> 'a console_scheme) option" where
  "sys_keep p Object s =
     (let s = set_word p Object s in
      if NULL = stack_mem s p then Some (Returned ERR_MEM, s) else Some (Returned ERR_OK, s))"

definition sys_sem_new :: "addr \<Rightarrow> u8 \<Rightarrow> 'a console_scheme \<Rightarrow> (int outcome \<times> 'a console_scheme) option" where
  "sys_sem_new pSemaphore count s =
     (if NULL = pSemaphore then Some (Returned ERR_ARG, s)
      else after (semaphore_new (ucast count) s) (sys_keep pSemaphore))"

definition sys_sem_new_resume :: "addr \<Rightarrow> u8 \<Rightarrow> addr \<Rightarrow> 'a console_scheme \<Rightarrow> (int outcome \<times> 'a console_scheme) option" where
  "sys_sem_new_resume pSemaphore count pThread s = after (semaphore_new_resume (ucast count) pThread s) (sys_keep pSemaphore)"

definition sys_sem_valid :: "addr \<Rightarrow> 'a console_scheme \<Rightarrow> int" where
  "sys_sem_valid pSemaphore s = (if NULL \<noteq> pSemaphore then if NULL \<noteq> stack_mem s pSemaphore then 1 else 0 else 0)"

definition sys_sem_set_invalid :: "addr \<Rightarrow> 'a console_scheme \<Rightarrow> 'a console_scheme" where
  "sys_sem_set_invalid pSemaphore s = (if NULL \<noteq> pSemaphore then set_word pSemaphore NULL s else s)"

definition sys_sem_free :: "addr \<Rightarrow> 'a console_scheme \<Rightarrow> (unit outcome \<times> 'a console_scheme) option" where
  "sys_sem_free pSemaphore s = after (semaphore_free (stack_mem s pSemaphore) s) (\<lambda>_ s. Some (Returned (), s))"

definition sys_sem_signal :: "addr \<Rightarrow> 'a console_scheme \<Rightarrow> 'a console_scheme" where
  "sys_sem_signal pSemaphore s = (let (_, s) = semaphore_post (stack_mem s pSemaphore) s in s)"

text \<open>The end of the two calls that measure how long they waited.\<close>

definition sys_elapsed :: "u32 \<Rightarrow> int \<Rightarrow> 'a console_scheme \<Rightarrow> u32" where
  "sys_elapsed TimeStart Status' s = (if ERR_TIMEOUT = Status' then SYS_ARCH_TIMEOUT else mtimer_gettick s - TimeStart)"

definition sys_arch_sem_wait :: "addr \<Rightarrow> u32 \<Rightarrow> 'a console_scheme \<Rightarrow> (u32 outcome \<times> 'a console_scheme) option" where
  "sys_arch_sem_wait pSemaphore Timeout s =
     (let TimeStart = mtimer_gettick s
      in after (semaphore_wait (stack_mem s pSemaphore) Timeout s) (\<lambda>r s. Some (Returned (sys_elapsed TimeStart r s), s)))"

definition sys_arch_sem_wait_resume :: "addr \<Rightarrow> u32 \<Rightarrow> u32 \<Rightarrow> addr \<Rightarrow> 'a console_scheme \<Rightarrow> u32 \<times> 'a console_scheme" where
  "sys_arch_sem_wait_resume Semaphore Timeout TimeStart pThread s =
     (let (r, s) = semaphore_wait_resume Semaphore Timeout pThread s in (sys_elapsed TimeStart r s, s))"

section \<open>Mailboxes\<close>

definition sys_mbox_new :: "addr \<Rightarrow> int \<Rightarrow> 'a console_scheme \<Rightarrow> (int outcome \<times> 'a console_scheme) option" where
  "sys_mbox_new pMailbox sz s =
     (if NULL = pMailbox then Some (Returned ERR_ARG, s)
      else after (mailbox_new (of_int sz) s) (sys_keep pMailbox))"

definition sys_mbox_new_resume :: "addr \<Rightarrow> int \<Rightarrow> addr \<Rightarrow> 'a console_scheme \<Rightarrow> (int outcome \<times> 'a console_scheme) option" where
  "sys_mbox_new_resume pMailbox sz pThread s = after (mailbox_new_resume (of_int sz) pThread s) (sys_keep pMailbox)"

definition sys_mbox_valid :: "addr \<Rightarrow> 'a console_scheme \<Rightarrow> int" where
  "sys_mbox_valid pMailbox s = (if NULL \<noteq> pMailbox then if NULL \<noteq> stack_mem s pMailbox then 1 else 0 else 0)"

definition sys_mbox_set_invalid :: "addr \<Rightarrow> 'a console_scheme \<Rightarrow> 'a console_scheme" where
  "sys_mbox_set_invalid pMailbox s = (if NULL \<noteq> pMailbox then set_word pMailbox NULL s else s)"

definition sys_mbox_free :: "addr \<Rightarrow> 'a console_scheme \<Rightarrow> (unit outcome \<times> 'a console_scheme) option" where
  "sys_mbox_free mbox s = after (mailbox_free (stack_mem s mbox) s) (\<lambda>_ s. Some (Returned (), s))"

text \<open>
  \<open>sys_mbox_post\<close> tries again and again without waiting; \<open>env\<close> is what the interrupts and the threads of
  higher priority do between two attempts.
\<close>

partial_function (option) sys_mbox_post :: "('a console_scheme \<Rightarrow> 'a console_scheme) \<Rightarrow> addr \<Rightarrow> u32 \<Rightarrow> 'a console_scheme \<Rightarrow>
    'a console_scheme option" where
  "sys_mbox_post env mbox msg s =
     (let (Status', s) = mail_post (stack_mem s mbox) msg s
      in if OK \<noteq> Status' then sys_mbox_post env mbox msg (env s) else Some s)"

definition sys_mbox_trypost :: "addr \<Rightarrow> u32 \<Rightarrow> 'a console_scheme \<Rightarrow> int \<times> 'a console_scheme" where
  "sys_mbox_trypost mbox msg s =
     (let (r, s) = mail_post (stack_mem s mbox) msg s in if OK = r then (ERR_OK, s) else (ERR_MEM, s))"

text \<open>\<open>pMail\<close> is the address of the local \<open>Mail\<close>.\<close>

definition sys_arch_mbox_fetch :: "addr \<Rightarrow> addr \<Rightarrow> addr \<Rightarrow> u32 \<Rightarrow> 'a console_scheme \<Rightarrow> (u32 outcome \<times> 'a console_scheme) option" where
  "sys_arch_mbox_fetch pMail mbox msg Timeout s =
     (let msg = (if NULL = msg then pMail else msg);
          TimeStart = mtimer_gettick s
      in after (mail_wait (stack_mem s mbox) msg Timeout s) (\<lambda>r s. Some (Returned (sys_elapsed TimeStart r s), s)))"

definition sys_arch_mbox_fetch_resume :: "addr \<Rightarrow> addr \<Rightarrow> u32 \<Rightarrow> u32 \<Rightarrow> addr \<Rightarrow> 'a console_scheme \<Rightarrow> u32 \<times> 'a console_scheme" where
  "sys_arch_mbox_fetch_resume Mailbox msg Timeout TimeStart pThread s =
     (let (r, s) = mail_wait_resume Mailbox msg Timeout pThread s in (sys_elapsed TimeStart r s, s))"

definition sys_arch_mbox_tryfetch :: "addr \<Rightarrow> addr \<Rightarrow> 'a console_scheme \<Rightarrow> u32 \<times> 'a console_scheme" where
  "sys_arch_mbox_tryfetch mbox msg s =
     (let (r, s) = mail_fetch (stack_mem s mbox) msg s in if OK = r then (0, s) else (SYS_MBOX_EMPTY, s))"

section \<open>Threads and protection\<close>

text \<open>\<open>pAttachment\<close> lies at 40 in \<open>THREAD\<close>.\<close>

definition sys_arch_timeouts :: "'a console_scheme \<Rightarrow> addr" where
  "sys_arch_timeouts s = getid s + 40"

definition sys_thread_new :: "addr \<Rightarrow> addr \<Rightarrow> addr \<Rightarrow> int \<Rightarrow> int \<Rightarrow> 'a console_scheme \<Rightarrow> (addr outcome \<times> 'a console_scheme) option" where
  "sys_thread_new name thread_fn arg stacksize prio s = labour name thread_fn arg (of_int stacksize) (of_int prio) s"

definition sys_arch_protect :: "'a console_scheme \<Rightarrow> u32 \<times> 'a console_scheme" where
  "sys_arch_protect s = atom_operate_lock s"

definition sys_arch_unprotect :: "u32 \<Rightarrow> 'a console_scheme \<Rightarrow> 'a console_scheme" where
  "sys_arch_unprotect pval s = atom_operate_unlock pval s"

section \<open>The mailbox of the stack is a queue\<close>

definition box_send :: "addr \<Rightarrow> u32 \<Rightarrow> 'a console_scheme \<Rightarrow> bool \<times> 'a console_scheme" where
  "box_send box m s = (let (r, s) = sys_mbox_trypost box m s in (r = ERR_OK, s))"

definition box_receive :: "addr \<Rightarrow> addr \<Rightarrow> 'a console_scheme \<Rightarrow> u32 option \<times> 'a console_scheme" where
  "box_receive box p s =
     (let (r, s) = sys_arch_mbox_tryfetch box p s in (if r = 0 then Some (stack_mem s p) else None, s))"

text \<open>The handle at \<open>box\<close> names the quiet mailbox \<open>M\<close>.\<close>

definition boxed :: "addr \<Rightarrow> addr \<Rightarrow> 'a console_scheme \<Rightarrow> bool" where
  "boxed box M s \<longleftrightarrow> stack_mem s box = M \<and> quiet_mailbox M s"

lemma box_send_mail: "boxed box M s \<Longrightarrow> box_send box m s = mail_send M m s"
  by (simp add: boxed_def box_send_def sys_mbox_trypost_def mail_send_def Let_def split: prod.splits)

lemma box_receive_mail: "boxed box M s \<Longrightarrow> box_receive box p s = mail_receive M p s"
  by (auto simp: boxed_def box_receive_def sys_arch_mbox_tryfetch_def mail_receive_def Let_def split: prod.splits)

lemma mail_send_handle: "quiet_mailbox M s \<Longrightarrow> stack_mem (snd (mail_send M m s)) = stack_mem s"
  by (simp add: mail_send_quiet mail_put_def Let_def)

lemma mail_receive_handle: "box \<noteq> p \<Longrightarrow> stack_mem (snd (mail_receive M p s)) box = stack_mem s box"
  by (simp add: mail_receive_def mail_fetch_eq mail_read_def Let_def)

lemma box_receive_boxed:
  assumes "boxed box M s" "box \<noteq> p"
  shows "boxed box M (snd (box_receive box p s))"
  using assms mb.get_inv [of M s p] mail_receive_handle [OF assms(2), of M s]
  by (simp add: box_receive_mail [OF assms(1)]) (simp add: boxed_def)

text \<open>The address \<open>p\<close> for the fetched messages is any address but that of the handle.\<close>

definition fetch_address :: "addr \<Rightarrow> addr \<Rightarrow> addr" where
  "fetch_address box p = (if p = box then box + 4 else p)"

lemma fetch_address: "box \<noteq> fetch_address box p" "p \<noteq> box \<Longrightarrow> fetch_address box p = p"
  by (simp_all add: fetch_address_def)

interpretation bx: fifo "boxed box M" "mails M" "\<lambda>s. unat (Size s M)" "box_send box" "box_receive box (fetch_address box p)"
  for box M p :: addr
proof unfold_locales
  fix s :: "'a console_scheme" and m :: u32
  let ?p = "fetch_address box p"
  assume b: "boxed box M s"
  then have q: "quiet_mailbox M s" and h: "stack_mem s box = M" by (simp_all add: boxed_def)
  note ne = fetch_address(1) [of box p]
  note e = box_send_mail [OF b] box_receive_mail [OF b]
  show "boxed box M (snd (box_send box m s))"
    using mb.put_inv [OF q] mail_send_handle [OF q] h by (simp add: e boxed_def)
  show "boxed box M (snd (box_receive box ?p s))"
    by (rule box_receive_boxed [OF b ne])
  show "fst (box_send box m s) \<longleftrightarrow> length (mails M s) < unat (Size s M)" unfolding e by (rule mb.put_ok [OF q])
  show "mails M (snd (box_send box m s)) = (if fst (box_send box m s) then mails M s @ [m] else mails M s)"
    unfolding e by (rule mb.put_contents [OF q])
  show "unat (Size (snd (box_send box m s)) M) = unat (Size s M)" unfolding e by (rule mb.put_capacity [OF q])
  show "fst (box_receive box ?p s) = (case mails M s of [] \<Rightarrow> None | m # _ \<Rightarrow> Some m)" unfolding e by (rule mb.get_value [OF q])
  show "mails M (snd (box_receive box ?p s)) = tl (mails M s)" unfolding e by (rule mb.get_contents [OF q])
  show "unat (Size (snd (box_receive box ?p s)) M) = unat (Size s M)" unfolding e by (rule mb.get_capacity [OF q])
qed

section \<open>Properties\<close>

fun box_drain :: "addr \<Rightarrow> addr \<Rightarrow> nat \<Rightarrow> 'a console_scheme \<Rightarrow> u32 option list \<times> 'a console_scheme" where
  "box_drain box p 0 s = ([], s)"
| "box_drain box p (Suc n) s = (let (m, s) = box_receive box p s; (ms, s) = box_drain box p n s in (m # ms, s))"

lemma box_drain_get_all: "box_drain box (fetch_address box p) n s = bx.get_all box p n s"
  by (induction n arbitrary: s) simp_all

lemma box_fold_put_all: "fold (\<lambda>m s. snd (box_send box m s)) ms s = bx.put_all box ms s"
  by (induction ms arbitrary: s) simp_all

text \<open>C21: Between threads of the network stack a mailbox is a queue: messages given to \<open>sys_mbox_trypost\<close> as long as
  there is room come out of \<open>sys_arch_mbox_tryfetch\<close> in their order; a full box refuses with \<open>ERR_MEM\<close>, an
  empty one answers \<open>SYS_MBOX_EMPTY\<close>, and neither changes anything.\<close>

theorem sys_mbox_queue:
  assumes "boxed box M s" "mails M s = []" "length ms \<le> unat (Size s M)" "p \<noteq> box"
  shows "(let s1 = fold (\<lambda>m s. snd (box_send box m s)) ms s in
    mails M s1 = ms \<and> fst (box_drain box p (length ms) s1) = map Some ms \<and>
    (length ms = unat (Size s M) \<longrightarrow> sys_mbox_trypost box m s1 = (ERR_MEM, s1)) \<and>
    sys_arch_mbox_tryfetch box p s = (SYS_MBOX_EMPTY, s))"
proof -
  let ?s1 = "bx.put_all box ms s"
  have c: "boxed box M ?s1" "mails M ?s1 = ms" "unat (Size ?s1 M) = unat (Size s M)"
    using bx.put_all_contents [OF assms(1), of ms] assms(2,3) by simp_all
  have "fst (box_drain box p (length ms) ?s1) = map Some ms"
    using bx.get_all_contents [OF c(1), of "length ms" p] c(2)
      box_drain_get_all [of box p "length ms" ?s1] fetch_address(2) [OF assms(4)] by simp
  moreover have "sys_mbox_trypost box m ?s1 = (ERR_MEM, ?s1)" if "length ms = unat (Size s M)"
  proof -
    have "\<not> fst (box_send box m ?s1)" using bx.put_ok [OF c(1)] c(2,3) that by simp
    then have "\<not> fst (mail_send M m ?s1)" by (simp add: box_send_mail [OF c(1)])
    then show ?thesis using c(1)
      by (auto simp: boxed_def mail_send_quiet sys_mbox_trypost_def mail_post_eq Let_def quiet_mailbox_def list_empty_def split: if_splits)
  qed
  moreover have "sys_arch_mbox_tryfetch box p s = (SYS_MBOX_EMPTY, s)"
    using assms(1,2) bx.get_value [OF assms(1), of p] fetch_address(2) [OF assms(4)]
    by (auto simp: box_receive_mail boxed_def mail_receive_def mail_fetch_eq sys_arch_mbox_tryfetch_def split: if_splits)
  ultimately show ?thesis using c(2) by (simp add: box_fold_put_all Let_def)
qed

definition box_full :: "addr \<Rightarrow> 'a console_scheme \<Rightarrow> bool" where
  "box_full box s = (let M = stack_mem s box in mail_next (Size s M) (Write s M) = Read s M)"

lemma mail_post_full: "mail_post (stack_mem s box) m s = (ERR, s)" if "box_full box s"
  using that by (simp add: box_full_def Let_def mail_post_eq)

lemma mail_post_room: "fst (mail_post (stack_mem s box) m s) = OK" if "\<not> box_full box s"
  using that by (simp add: box_full_def Let_def mail_post_eq)

text \<open>\<open>sys_mbox_post\<close> returns when the others make room some time, however long this takes: at the first moment with
  room, with the message posted at that moment and no trace of the failed attempts.\<close>

theorem sys_mbox_post_returns:
  assumes "\<not> box_full box ((env ^^ n) s)"
  shows "\<exists>k\<le>n. (\<forall>j<k. box_full box ((env ^^ j) s)) \<and> \<not> box_full box ((env ^^ k) s) \<and>
    sys_mbox_post env box m s = Some (snd (mail_post (stack_mem ((env ^^ k) s) box) m ((env ^^ k) s)))"
  using assms
proof (induction n arbitrary: s)
  case 0
  then show ?case using mail_post_room [of box s m]
    by (intro exI [of _ 0]) (subst sys_mbox_post.simps, simp add: split_beta)
next
  case (Suc n)
  show ?case
  proof (cases "box_full box s")
    case True
    have "\<not> box_full box ((env ^^ n) (env s))" using Suc.prems by (simp add: funpow_swap1)
    from Suc.IH [OF this] obtain k where k: "k \<le> n" "\<forall>j<k. box_full box ((env ^^ j) (env s))" "\<not> box_full box ((env ^^ k) (env s))"
      "sys_mbox_post env box m (env s) = Some (snd (mail_post (stack_mem ((env ^^ k) (env s)) box) m ((env ^^ k) (env s))))" by blast
    have "sys_mbox_post env box m s = sys_mbox_post env box m (env s)"
      using mail_post_full [OF True, of m] by (subst sys_mbox_post.simps) simp
    then show ?thesis using k True
      by (intro exI [of _ "Suc k"]) (auto simp: funpow_swap1 less_Suc_eq_0_disj)
  next
    case False
    then show ?thesis using mail_post_room [OF False, of m]
      by (intro exI [of _ 0]) (subst sys_mbox_post.simps, simp add: split_beta)
  qed
qed

text \<open>A handle at 0x7000 for a fresh mailbox of two slots, and a receiver that takes one message.\<close>

definition stack_desk :: console where
  "stack_desk = two_threads (semaphore_ext (\<lambda>_. 1) (mailbox_ext (\<lambda>_. 0) (\<lambda>_. 0) (\<lambda>_. 0) (\<lambda>_. 0) (\<lambda>_ _. 0)
     (pipe_ext (\<lambda>_. 0) (\<lambda>_. 0) (\<lambda>_. 0) (\<lambda>_. 0) (\<lambda>_. 0) (\<lambda>_. 0) (\<lambda>_. 0) (mallocor_ext (\<lambda>_. 0) (console_ext (\<lambda>_. CHR 0x00) ())))))"

definition stack_box :: console where
  "stack_box = set_word 0x7000 0x3000 (snd (mailbox_create 0x3000 2 stack_desk))"

lemma stack_box_boxed: "boxed 0x7000 0x3000 stack_box" "mails 0x3000 stack_box = []" "Size stack_box 0x3000 = 2"
  by (simp_all add: stack_box_def boxed_def set_word_def mailbox_create_def Let_def quiet_mailbox_def mailbox_inv_def mails_def
      mail_count_def mails_from_def INIT_LIST_HEAD_def list_empty_def set_next_def set_prev_def)

lemma length_56: "length [5, 6 :: u32] = 2"
  by simp

theorem sys_mbox_queue_witness:
  "(let s1 = fold (\<lambda>m s. snd (box_send 0x7000 m s)) [5, 6] stack_box in
    fst (box_drain 0x7000 0x8000 2 s1) = [Some 5, Some 6] \<and> sys_mbox_trypost 0x7000 7 s1 = (ERR_MEM, s1))"
  using sys_mbox_queue [OF stack_box_boxed(1,2), of "[5, 6]" "0x8000" 7]
  by (simp add: Let_def stack_box_boxed(3) length_56 del: list.size(3,4) box_drain.simps)

theorem sys_mbox_post_returns_witness:
  "\<exists>s'. sys_mbox_post (\<lambda>s. snd (mail_fetch 0x3000 0x8000 s)) 0x7000 7
    (stack_box\<lparr>Write := \<lambda>_. 2\<rparr>) = Some s'"
proof -
  let ?s = "stack_box\<lparr>Write := \<lambda>_. 2\<rparr>" and ?env = "\<lambda>s. snd (mail_fetch 0x3000 0x8000 s)"
  have h: "stack_mem ?s 0x7000 = 0x3000" "Size ?s 0x3000 = 2" "Read ?s 0x3000 = 0" "Write ?s 0x3000 = 2"
    by (simp_all add: stack_box_def set_word_def mailbox_create_def Let_def INIT_LIST_HEAD_def set_next_def set_prev_def)
  have "\<not> box_full 0x7000 ((?env ^^ 1) ?s)"
    using h by (simp add: box_full_def Let_def mail_fetch_eq mail_read_def mail_next_def)
  from sys_mbox_post_returns [OF this, of 7] show ?thesis by blast
qed

end
