(* ===== verification/Pbuf.thy ===== *)
theory Pbuf
  imports SysArch
begin

text \<open>
  ethernet/core/pbuf.c and the pools of ethernet/core/memp.c that pbufs come from: packet buffers, which are
  chained, shared by counting references, and carry their bytes in \<open>bytes\<close>.  A free element of a pool
  is linked through its first word, which is also the field \<open>next\<close> of a pbuf: both are \<open>pb_next\<close>.  The
  configuration is that of lwipopts.h and, for what it leaves open, opt.h: no statistics of pools
  (they only count), pbufs with their own release function (\<open>IP_FRAG\<close>), \<open>mem_malloc\<close> and \<open>mem_free\<close> being the
  kernel's \<open>malloc\<close> and \<open>free\<close>.  \<open>LWIP_ASSERT\<close> only prints a message and lets the code go on; the message is left
  out.
\<close>

section \<open>Data\<close>

text \<open>The fields of \<open>struct pbuf\<close>, \<open>struct pbuf_custom\<close> and \<open>struct tcpip_msg\<close>, by the address of the structure.\<close>

datatype memp_t = MEMP_RAW_PCB | MEMP_UDP_PCB | MEMP_TCP_PCB | MEMP_TCP_PCB_LISTEN | MEMP_TCP_SEG | MEMP_REASSDATA |
  MEMP_FRAG_PBUF | MEMP_NETBUF | MEMP_NETCONN | MEMP_TCPIP_MSG_API | MEMP_TCPIP_MSG_INPKT | MEMP_ARP_QUEUE |
  MEMP_IGMP_GROUP | MEMP_SYS_TIMEOUT | MEMP_SNMP_ROOTNODE | MEMP_SNMP_NODE | MEMP_SNMP_VARBIND | MEMP_SNMP_VALUE | MEMP_NETDB |
  MEMP_LOCALHOSTLIST | MEMP_PPPOE_IF | MEMP_PBUF | MEMP_PBUF_POOL

datatype tcpip_msg_type = TCPIP_MSG_API | TCPIP_MSG_INPKT | TCPIP_MSG_NETIFAPI | TCPIP_MSG_TIMEOUT | TCPIP_MSG_UNTIMEOUT |
  TCPIP_MSG_CALLBACK

record pbufs = console +
  pb_next :: "addr \<Rightarrow> addr"
  payload :: "addr \<Rightarrow> addr"
  tot_len :: "addr \<Rightarrow> u16"
  pb_len :: "addr \<Rightarrow> u16"
  pb_type :: "addr \<Rightarrow> u8"
  pb_flags :: "addr \<Rightarrow> u8"
  pb_ref :: "addr \<Rightarrow> u16"
  custom_free_function :: "addr \<Rightarrow> addr"
  memp_tab :: "memp_t \<Rightarrow> addr"
  msg_type :: "addr \<Rightarrow> tcpip_msg_type"
  msg_function :: "addr \<Rightarrow> addr"
  msg_ctx :: "addr \<Rightarrow> addr"
  pbuf_free_ooseq_queued :: u8

text \<open>What the linker and the users of pbufs bring: the address of \<open>pbuf_free_ooseq\<close>, that of the mailbox
  handle of tcpip.c, and what a release function does, given its address and the pbuf.\<close>

record 's stack =
  ooseq_fn :: addr
  tcpip_mbox :: addr
  custom_free :: "addr \<Rightarrow> addr \<Rightarrow> 's \<Rightarrow> (unit outcome \<times> 's) option"

abbreviation (input) PBUF_TRANSPORT_HLEN :: u16 where "PBUF_TRANSPORT_HLEN \<equiv> 20"
abbreviation (input) PBUF_IP_HLEN :: u16 where "PBUF_IP_HLEN \<equiv> 20"
abbreviation (input) PBUF_LINK_HLEN :: u16 where "PBUF_LINK_HLEN \<equiv> 16"
abbreviation (input) PBUF_TRANSPORT :: int where "PBUF_TRANSPORT \<equiv> 0"
abbreviation (input) PBUF_IP :: int where "PBUF_IP \<equiv> 1"
abbreviation (input) PBUF_LINK :: int where "PBUF_LINK \<equiv> 2"
abbreviation (input) PBUF_RAW :: int where "PBUF_RAW \<equiv> 3"
abbreviation (input) PBUF_RAM :: u8 where "PBUF_RAM \<equiv> 0"
abbreviation (input) PBUF_ROM :: u8 where "PBUF_ROM \<equiv> 1"
abbreviation (input) PBUF_REF :: u8 where "PBUF_REF \<equiv> 2"
abbreviation (input) PBUF_POOL :: u8 where "PBUF_POOL \<equiv> 3"
abbreviation (input) PBUF_FLAG_IS_CUSTOM :: u8 where "PBUF_FLAG_IS_CUSTOM \<equiv> 0x02"
abbreviation (input) SIZEOF_STRUCT_PBUF :: u32 where "SIZEOF_STRUCT_PBUF \<equiv> 16"
abbreviation (input) PBUF_POOL_BUFSIZE_ALIGNED :: u16 where "PBUF_POOL_BUFSIZE_ALIGNED \<equiv> 1500"
abbreviation (input) ERR_VAL :: int where "ERR_VAL \<equiv> - 6"

definition LWIP_MEM_ALIGN_SIZE :: "u32 \<Rightarrow> u32" where
  "LWIP_MEM_ALIGN_SIZE sz = (sz + 4 - 1) AND NOT (4 - 1)"

definition LWIP_MEM_ALIGN :: "addr \<Rightarrow> addr" where
  "LWIP_MEM_ALIGN a = (a + 4 - 1) AND NOT (4 - 1)"

section \<open>Pools\<close>

text \<open>\<open>pools\<close> is \<open>memp_num\<close> and \<open>memp_sizes\<close>, in the order of the pools.\<close>

fun memp_carve :: "nat \<Rightarrow> memp_t \<Rightarrow> u16 \<Rightarrow> addr \<Rightarrow> 'a pbufs_scheme \<Rightarrow> addr \<times> 'a pbufs_scheme" where
  "memp_carve 0 t sz memp s = (memp, s)"
| "memp_carve (Suc j) t sz memp s =
     (let s = s\<lparr>pb_next := (pb_next s)(memp := memp_tab s t)\<rparr>;
          s = s\<lparr>memp_tab := (memp_tab s)(t := memp)\<rparr>
      in memp_carve j t sz (memp + ucast sz) s)"

fun memp_pools :: "(memp_t \<times> u16 \<times> u16) list \<Rightarrow> addr \<Rightarrow> 'a pbufs_scheme \<Rightarrow> 'a pbufs_scheme" where
  "memp_pools [] memp s = s"
| "memp_pools ((t, n, sz) # pools) memp s =
     (let s = s\<lparr>memp_tab := (memp_tab s)(t := NULL)\<rparr>;
          (memp, s) = memp_carve (unat n) t sz memp s
      in memp_pools pools memp s)"

definition memp_init :: "(memp_t \<times> u16 \<times> u16) list \<Rightarrow> addr \<Rightarrow> 'a pbufs_scheme \<Rightarrow> 'a pbufs_scheme" where
  "memp_init pools memp_memory s = memp_pools pools (LWIP_MEM_ALIGN memp_memory) s"

definition memp_malloc :: "memp_t \<Rightarrow> 'a pbufs_scheme \<Rightarrow> addr \<times> 'a pbufs_scheme" where
  "memp_malloc t s =
     (let (old_level, s) = sys_arch_protect s;
          memp = memp_tab s t;
          s = (if memp \<noteq> NULL then s\<lparr>memp_tab := (memp_tab s)(t := pb_next s memp)\<rparr> else s);
          s = sys_arch_unprotect old_level s
      in (memp, s))"

definition memp_free :: "memp_t \<Rightarrow> addr \<Rightarrow> 'a pbufs_scheme \<Rightarrow> 'a pbufs_scheme" where
  "memp_free t mem s =
     (if mem = NULL then s
      else
        let memp = mem;
            (old_level, s) = sys_arch_protect s;
            s = s\<lparr>pb_next := (pb_next s)(memp := memp_tab s t)\<rparr>;
            s = s\<lparr>memp_tab := (memp_tab s)(t := memp)\<rparr>
        in sys_arch_unprotect old_level s)"

section \<open>Messages to the thread of the stack\<close>

definition tcpip_callback_nonblock :: "'a pbufs_scheme stack \<Rightarrow> addr \<Rightarrow> addr \<Rightarrow> 'a pbufs_scheme \<Rightarrow> int \<times> 'a pbufs_scheme" where
  "tcpip_callback_nonblock env func ctx s =
     (if sys_mbox_valid (tcpip_mbox env) s \<noteq> 0 then
        let (msg, s) = memp_malloc MEMP_TCPIP_MSG_API s
        in if msg = NULL then (ERR_MEM, s)
           else
             let s = s\<lparr>msg_type := (msg_type s)(msg := TCPIP_MSG_CALLBACK)\<rparr>;
                 s = s\<lparr>msg_function := (msg_function s)(msg := func)\<rparr>;
                 s = s\<lparr>msg_ctx := (msg_ctx s)(msg := ctx)\<rparr>;
                 (r, s) = sys_mbox_trypost (tcpip_mbox env) msg s
             in if r \<noteq> ERR_OK then (ERR_MEM, memp_free MEMP_TCPIP_MSG_API msg s)
                else (ERR_OK, s)
      else (ERR_VAL, s))"

definition pbuf_pool_is_empty :: "'a pbufs_scheme stack \<Rightarrow> 'a pbufs_scheme \<Rightarrow> 'a pbufs_scheme" where
  "pbuf_pool_is_empty env s =
     (let (old_level, s) = sys_arch_protect s;
          queued = pbuf_free_ooseq_queued s;
          s = s\<lparr>pbuf_free_ooseq_queued := 1\<rparr>;
          s = sys_arch_unprotect old_level s
      in if queued = 0 then
           let (r, s) = tcpip_callback_nonblock env (ooseq_fn env) NULL s
           in if r \<noteq> ERR_OK then
                let (old_level, s) = sys_arch_protect s;
                    s = s\<lparr>pbuf_free_ooseq_queued := 0\<rparr>
                in sys_arch_unprotect old_level s
              else s
         else s)"

section \<open>Releasing\<close>

definition pbuf_release :: "'a pbufs_scheme stack \<Rightarrow> addr \<Rightarrow> 'a pbufs_scheme \<Rightarrow> (unit outcome \<times> 'a pbufs_scheme) option" where
  "pbuf_release env p s =
     (if pb_flags s p AND PBUF_FLAG_IS_CUSTOM \<noteq> 0 then custom_free env (custom_free_function s p) p s
      else if pb_type s p = PBUF_POOL then Some (Returned (), memp_free MEMP_PBUF_POOL p s)
      else if pb_type s p = PBUF_ROM \<or> pb_type s p = PBUF_REF then Some (Returned (), memp_free MEMP_PBUF p s)
      else free p s)"

text \<open>The loop of \<open>pbuf_free\<close>; \<open>n\<close> is \<open>count\<close>.\<close>

partial_function (option) pbuf_free_loop ::
  "'a pbufs_scheme stack \<Rightarrow> addr \<Rightarrow> u8 \<Rightarrow> 'a pbufs_scheme \<Rightarrow> (u8 outcome \<times> 'a pbufs_scheme) option" where
  "pbuf_free_loop env p n s =
     (if p \<noteq> NULL then
        let (old_level, s) = sys_arch_protect s;
            s = s\<lparr>pb_ref := (pb_ref s)(p := pb_ref s p - 1)\<rparr>;
            ref = pb_ref s p;
            s = sys_arch_unprotect old_level s
        in if ref = 0 then
             let q = pb_next s p
             in (case pbuf_release env p s of
                   None \<Rightarrow> None
                 | Some (Switched, s) \<Rightarrow> Some (Switched, s)
                 | Some (Returned _, s) \<Rightarrow> pbuf_free_loop env q (n + 1) s)
           else Some (Returned n, s)
      else Some (Returned n, s))"

definition pbuf_free :: "'a pbufs_scheme stack \<Rightarrow> addr \<Rightarrow> 'a pbufs_scheme \<Rightarrow> (u8 outcome \<times> 'a pbufs_scheme) option" where
  "pbuf_free env p s = (if p = NULL then Some (Returned 0, s) else pbuf_free_loop env p 0 s)"

text \<open>Waiting for the allocator's lock inside \<open>pbuf_free\<close> ends here; \<open>q\<close> is the rest of the chain.\<close>

definition pbuf_free_resume ::
  "'a pbufs_scheme stack \<Rightarrow> addr \<Rightarrow> addr \<Rightarrow> u8 \<Rightarrow> addr \<Rightarrow> 'a pbufs_scheme \<Rightarrow> (u8 outcome \<times> 'a pbufs_scheme) option" where
  "pbuf_free_resume env p q n pThread s = after (free_resume p pThread s) (\<lambda>_ s. pbuf_free_loop env q (n + 1) s)"

definition pbuf_reference :: "addr \<Rightarrow> 'a pbufs_scheme \<Rightarrow> 'a pbufs_scheme" where
  "pbuf_reference p s =
     (if p \<noteq> NULL then
        let (old_level, s) = sys_arch_protect s;
            s = s\<lparr>pb_ref := (pb_ref s)(p := pb_ref s p + 1)\<rparr>
        in sys_arch_unprotect old_level s
      else s)"

section \<open>Allocating\<close>

text \<open>The room for headers that a layer asks for.\<close>

definition pbuf_offset :: "int \<Rightarrow> u16 option" where
  "pbuf_offset layer =
     (if layer = PBUF_TRANSPORT then Some (PBUF_TRANSPORT_HLEN + PBUF_IP_HLEN + PBUF_LINK_HLEN)
      else if layer = PBUF_IP then Some (PBUF_IP_HLEN + PBUF_LINK_HLEN)
      else if layer = PBUF_LINK then Some PBUF_LINK_HLEN
      else if layer = PBUF_RAW then Some 0
      else None)"

definition pbuf_pool_head :: "u16 \<Rightarrow> u16 \<Rightarrow> addr \<Rightarrow> 'a pbufs_scheme \<Rightarrow> 'a pbufs_scheme" where
  "pbuf_pool_head offset len p s =
     (let s = s\<lparr>pb_type := (pb_type s)(p := PBUF_POOL)\<rparr>;
          s = s\<lparr>pb_next := (pb_next s)(p := NULL)\<rparr>;
          s = s\<lparr>payload := (payload s)(p := LWIP_MEM_ALIGN (p + (SIZEOF_STRUCT_PBUF + ucast offset)))\<rparr>;
          s = s\<lparr>tot_len := (tot_len s)(p := len)\<rparr>;
          s = s\<lparr>pb_len := (pb_len s)(p := ucast (min (ucast len) (ucast PBUF_POOL_BUFSIZE_ALIGNED - LWIP_MEM_ALIGN_SIZE (ucast offset))))\<rparr>
      in s\<lparr>pb_ref := (pb_ref s)(p := 1)\<rparr>)"

definition pbuf_pool_link :: "addr \<Rightarrow> addr \<Rightarrow> int \<Rightarrow> 'a pbufs_scheme \<Rightarrow> 'a pbufs_scheme" where
  "pbuf_pool_link r q rem_len s =
     (let s = s\<lparr>pb_type := (pb_type s)(q := PBUF_POOL)\<rparr>;
          s = s\<lparr>pb_flags := (pb_flags s)(q := 0)\<rparr>;
          s = s\<lparr>pb_next := (pb_next s)(q := NULL)\<rparr>;
          s = s\<lparr>pb_next := (pb_next s)(r := q)\<rparr>;
          s = s\<lparr>tot_len := (tot_len s)(q := of_int rem_len)\<rparr>;
          s = s\<lparr>pb_len := (pb_len s)(q := min (of_int rem_len) PBUF_POOL_BUFSIZE_ALIGNED)\<rparr>;
          s = s\<lparr>payload := (payload s)(q := q + SIZEOF_STRUCT_PBUF)\<rparr>
      in s\<lparr>pb_ref := (pb_ref s)(q := 1)\<rparr>)"

text \<open>The loop that allocates the tail of a chain from the pool.\<close>

partial_function (option) pbuf_pool_loop ::
  "'a pbufs_scheme stack \<Rightarrow> addr \<Rightarrow> addr \<Rightarrow> int \<Rightarrow> 'a pbufs_scheme \<Rightarrow> (addr outcome \<times> 'a pbufs_scheme) option" where
  "pbuf_pool_loop env p r rem_len s =
     (if 0 < rem_len then
        let (q, s) = memp_malloc MEMP_PBUF_POOL s
        in if q = NULL then
             let s = pbuf_pool_is_empty env s
             in after (pbuf_free env p s) (\<lambda>_ s. Some (Returned NULL, s))
           else
             let s = pbuf_pool_link r q rem_len s
             in pbuf_pool_loop env p q (rem_len - uint (pb_len s q)) s
      else Some (Returned p, s))"

definition pbuf_init_flags :: "addr \<Rightarrow> 'a pbufs_scheme \<Rightarrow> (addr outcome \<times> 'a pbufs_scheme) option" where
  "pbuf_init_flags p s =
     (if p = NULL then Some (Returned NULL, s)
      else
        let s = s\<lparr>pb_ref := (pb_ref s)(p := 1)\<rparr>;
            s = s\<lparr>pb_flags := (pb_flags s)(p := 0)\<rparr>
        in Some (Returned p, s))"

definition pbuf_alloc_pool :: "'a pbufs_scheme stack \<Rightarrow> u16 \<Rightarrow> u16 \<Rightarrow> 'a pbufs_scheme \<Rightarrow> (addr outcome \<times> 'a pbufs_scheme) option" where
  "pbuf_alloc_pool env offset len s =
     (let (p, s) = memp_malloc MEMP_PBUF_POOL s
      in if p = NULL then Some (Returned NULL, pbuf_pool_is_empty env s)
         else
           let s = pbuf_pool_head offset len p s
           in after (pbuf_pool_loop env p p (uint len - uint (pb_len s p)) s) pbuf_init_flags)"

definition pbuf_ram_init :: "u16 \<Rightarrow> u16 \<Rightarrow> addr \<Rightarrow> 'a pbufs_scheme \<Rightarrow> (addr outcome \<times> 'a pbufs_scheme) option" where
  "pbuf_ram_init offset len p s =
     (if p = NULL then Some (Returned NULL, s)
      else
        let s = s\<lparr>payload := (payload s)(p := LWIP_MEM_ALIGN (p + SIZEOF_STRUCT_PBUF + ucast offset))\<rparr>;
            s = s\<lparr>tot_len := (tot_len s)(p := len)\<rparr>;
            s = s\<lparr>pb_len := (pb_len s)(p := len)\<rparr>;
            s = s\<lparr>pb_next := (pb_next s)(p := NULL)\<rparr>;
            s = s\<lparr>pb_type := (pb_type s)(p := PBUF_RAM)\<rparr>
        in pbuf_init_flags p s)"

definition pbuf_ram_bytes :: "u16 \<Rightarrow> u16 \<Rightarrow> u32" where
  "pbuf_ram_bytes offset len = LWIP_MEM_ALIGN_SIZE (SIZEOF_STRUCT_PBUF + ucast offset) + LWIP_MEM_ALIGN_SIZE (ucast len)"

definition pbuf_alloc_ref :: "u16 \<Rightarrow> u8 \<Rightarrow> 'a pbufs_scheme \<Rightarrow> (addr outcome \<times> 'a pbufs_scheme) option" where
  "pbuf_alloc_ref len t s =
     (let (p, s) = memp_malloc MEMP_PBUF s
      in if p = NULL then Some (Returned NULL, s)
         else
           let s = s\<lparr>payload := (payload s)(p := NULL)\<rparr>;
               s = s\<lparr>tot_len := (tot_len s)(p := len)\<rparr>;
               s = s\<lparr>pb_len := (pb_len s)(p := len)\<rparr>;
               s = s\<lparr>pb_next := (pb_next s)(p := NULL)\<rparr>;
               s = s\<lparr>pb_type := (pb_type s)(p := t)\<rparr>
           in pbuf_init_flags p s)"

definition pbuf_alloc :: "'a pbufs_scheme stack \<Rightarrow> int \<Rightarrow> u16 \<Rightarrow> u8 \<Rightarrow> 'a pbufs_scheme \<Rightarrow> (addr outcome \<times> 'a pbufs_scheme) option" where
  "pbuf_alloc env layer len t s =
     (case pbuf_offset layer of
        None \<Rightarrow> Some (Returned NULL, s)
      | Some offset \<Rightarrow>
          if t = PBUF_POOL then pbuf_alloc_pool env offset len s
          else if t = PBUF_RAM then after (malloc (pbuf_ram_bytes offset len) s) (pbuf_ram_init offset len)
          else if t = PBUF_ROM \<or> t = PBUF_REF then pbuf_alloc_ref len t s
          else Some (Returned NULL, s))"

text \<open>\<open>pbuf_alloc\<close> of a pbuf in RAM after waiting for the allocator.\<close>

definition pbuf_alloc_resume :: "int \<Rightarrow> u16 \<Rightarrow> addr \<Rightarrow> 'a pbufs_scheme \<Rightarrow> (addr outcome \<times> 'a pbufs_scheme) option" where
  "pbuf_alloc_resume layer len pThread s =
     (case pbuf_offset layer of
        None \<Rightarrow> Some (Returned NULL, s)
      | Some offset \<Rightarrow> after (malloc_resume (pbuf_ram_bytes offset len) pThread s) (pbuf_ram_init offset len))"

definition pbuf_alloced_custom :: "int \<Rightarrow> u16 \<Rightarrow> u8 \<Rightarrow> addr \<Rightarrow> addr \<Rightarrow> u16 \<Rightarrow> 'a pbufs_scheme \<Rightarrow> addr \<times> 'a pbufs_scheme" where
  "pbuf_alloced_custom l len t p payload_mem payload_mem_len s =
     (case pbuf_offset l of
        None \<Rightarrow> (NULL, s)
      | Some offset \<Rightarrow>
          if LWIP_MEM_ALIGN_SIZE (ucast offset) + ucast len < ucast payload_mem_len then (NULL, s)
          else
            let s = s\<lparr>pb_next := (pb_next s)(p := NULL)\<rparr>;
                s = (if payload_mem \<noteq> NULL then s\<lparr>payload := (payload s)(p := LWIP_MEM_ALIGN (payload_mem + ucast offset))\<rparr>
                     else s\<lparr>payload := (payload s)(p := NULL)\<rparr>);
                s = s\<lparr>pb_flags := (pb_flags s)(p := PBUF_FLAG_IS_CUSTOM)\<rparr>;
                s = s\<lparr>tot_len := (tot_len s)(p := len)\<rparr>;
                s = s\<lparr>pb_len := (pb_len s)(p := len)\<rparr>;
                s = s\<lparr>pb_type := (pb_type s)(p := t)\<rparr>;
                s = s\<lparr>pb_ref := (pb_ref s)(p := 1)\<rparr>
            in (p, s))"

section \<open>Resizing and chaining\<close>

text \<open>The loop of \<open>pbuf_realloc\<close> over the pbufs that stay: the new last one and what is left for it.\<close>

partial_function (option) realloc_loop :: "int \<Rightarrow> u16 \<Rightarrow> addr \<Rightarrow> 'a pbufs_scheme \<Rightarrow> (u16 \<times> addr \<times> 'a pbufs_scheme) option" where
  "realloc_loop grow rem_len q s =
     (if rem_len > pb_len s q then
        let rem_len = rem_len - pb_len s q;
            s = s\<lparr>tot_len := (tot_len s)(q := tot_len s q + of_int grow)\<rparr>;
            q = pb_next s q
        in realloc_loop grow rem_len q s
      else Some (rem_len, q, s))"

definition pbuf_realloc :: "'a pbufs_scheme stack \<Rightarrow> addr \<Rightarrow> u16 \<Rightarrow> 'a pbufs_scheme \<Rightarrow> (unit outcome \<times> 'a pbufs_scheme) option" where
  "pbuf_realloc env p new_len s =
     (if new_len \<ge> tot_len s p then Some (Returned (), s)
      else
        let grow = uint new_len - uint (tot_len s p) in
        case realloc_loop grow new_len p s of
          None \<Rightarrow> None
        | Some (rem_len, q, s) \<Rightarrow>
            let s = s\<lparr>pb_len := (pb_len s)(q := rem_len)\<rparr>;
                s = s\<lparr>tot_len := (tot_len s)(q := pb_len s q)\<rparr>
            in after (if pb_next s q \<noteq> NULL then pbuf_free env (pb_next s q) s else Some (Returned 0, s))
                 (\<lambda>_ s. Some (Returned (), s\<lparr>pb_next := (pb_next s)(q := NULL)\<rparr>)))"

definition pbuf_header :: "addr \<Rightarrow> int \<Rightarrow> 'a pbufs_scheme \<Rightarrow> u8 \<times> 'a pbufs_scheme" where
  "pbuf_header p header_size_increment s =
     (if header_size_increment = 0 \<or> p = NULL then (0, s)
      else
        let increment_magnitude = of_int (if header_size_increment < 0 then - header_size_increment else header_size_increment)
        in if header_size_increment < 0 \<and> \<not> increment_magnitude \<le> pb_len s p then (1, s)
           else
             let t = pb_type s p;
                 old = payload s p;
                 resize = (\<lambda>s.
                   let s = s\<lparr>pb_len := (pb_len s)(p := pb_len s p + of_int header_size_increment)\<rparr>
                   in (0, s\<lparr>tot_len := (tot_len s)(p := tot_len s p + of_int header_size_increment)\<rparr>))
             in if t = PBUF_RAM \<or> t = PBUF_POOL then
                  let s = s\<lparr>payload := (payload s)(p := payload s p - of_int header_size_increment)\<rparr>
                  in if payload s p < p + SIZEOF_STRUCT_PBUF then (1, s\<lparr>payload := (payload s)(p := old)\<rparr>)
                     else resize s
                else if t = PBUF_REF \<or> t = PBUF_ROM then
                  if header_size_increment < 0 \<and> increment_magnitude \<le> pb_len s p then
                    resize (s\<lparr>payload := (payload s)(p := payload s p - of_int header_size_increment)\<rparr>)
                  else (1, s)
                else (1, s))"

partial_function (option) clen_loop :: "'a pbufs_scheme \<Rightarrow> addr \<Rightarrow> u8 \<Rightarrow> u8 option" where
  "clen_loop s p n = (if p \<noteq> NULL then clen_loop s (pb_next s p) (n + 1) else Some n)"

definition pbuf_clen :: "addr \<Rightarrow> 'a pbufs_scheme \<Rightarrow> u8 option" where
  "pbuf_clen p s = clen_loop s p 0"

partial_function (option) cat_loop :: "addr \<Rightarrow> addr \<Rightarrow> 'a pbufs_scheme \<Rightarrow> (addr \<times> 'a pbufs_scheme) option" where
  "cat_loop t p s =
     (if pb_next s p \<noteq> NULL then
        let s = s\<lparr>tot_len := (tot_len s)(p := tot_len s p + tot_len s t)\<rparr>
        in cat_loop t (pb_next s p) s
      else Some (p, s))"

definition pbuf_cat :: "addr \<Rightarrow> addr \<Rightarrow> 'a pbufs_scheme \<Rightarrow> 'a pbufs_scheme option" where
  "pbuf_cat h t s =
     (if \<not> (h \<noteq> NULL \<and> t \<noteq> NULL) then Some s
      else
        case cat_loop t h s of
          None \<Rightarrow> None
        | Some (p, s) \<Rightarrow>
            let s = s\<lparr>tot_len := (tot_len s)(p := tot_len s p + tot_len s t)\<rparr>
            in Some (s\<lparr>pb_next := (pb_next s)(p := t)\<rparr>))"

definition pbuf_chain :: "addr \<Rightarrow> addr \<Rightarrow> 'a pbufs_scheme \<Rightarrow> 'a pbufs_scheme option" where
  "pbuf_chain h t s = map_option (pbuf_reference t) (pbuf_cat h t s)"

definition pbuf_dechain :: "'a pbufs_scheme stack \<Rightarrow> addr \<Rightarrow> 'a pbufs_scheme \<Rightarrow> (addr outcome \<times> 'a pbufs_scheme) option" where
  "pbuf_dechain env p s =
     (let q = pb_next s p in
      if q \<noteq> NULL then
        let s = s\<lparr>tot_len := (tot_len s)(q := tot_len s p - pb_len s p)\<rparr>;
            s = s\<lparr>pb_next := (pb_next s)(p := NULL)\<rparr>;
            s = s\<lparr>tot_len := (tot_len s)(p := pb_len s p)\<rparr>
        in after (pbuf_free env q s) (\<lambda>tail_gone s. Some (Returned (if tail_gone > 0 then NULL else q), s))
      else Some (Returned NULL, s))"

section \<open>Copying and searching\<close>

definition copy_bytes :: "addr \<Rightarrow> addr \<Rightarrow> u16 \<Rightarrow> 'a pbufs_scheme \<Rightarrow> 'a pbufs_scheme" where
  "copy_bytes dst src n s = s\<lparr>bytes := memcpy dst src (unat n) (bytes s)\<rparr>"

partial_function (option) copy_loop :: "addr \<Rightarrow> addr \<Rightarrow> u16 \<Rightarrow> u16 \<Rightarrow> 'a pbufs_scheme \<Rightarrow> (int \<times> 'a pbufs_scheme) option" where
  "copy_loop p_to p_from offset_to offset_from s =
     (let len = (if uint (pb_len s p_to) - uint offset_to \<ge> uint (pb_len s p_from) - uint offset_from
                 then pb_len s p_from - offset_from else pb_len s p_to - offset_to);
          s = copy_bytes (payload s p_to + ucast offset_to) (payload s p_from + ucast offset_from) len s;
          offset_to = offset_to + len;
          offset_from = offset_from + len;
          (offset_to, p_to) = (if offset_to = pb_len s p_to then (0, pb_next s p_to) else (offset_to, p_to));
          (offset_from, p_from) = (if offset_from \<ge> pb_len s p_from then (0, pb_next s p_from) else (offset_from, p_from))
      in if p_from \<noteq> NULL \<and> pb_len s p_from = tot_len s p_from \<and> pb_next s p_from \<noteq> NULL then Some (ERR_VAL, s)
         else if p_to \<noteq> NULL \<and> pb_len s p_to = tot_len s p_to \<and> pb_next s p_to \<noteq> NULL then Some (ERR_VAL, s)
         else if p_from \<noteq> NULL then copy_loop p_to p_from offset_to offset_from s
         else Some (ERR_OK, s))"

definition pbuf_copy :: "addr \<Rightarrow> addr \<Rightarrow> 'a pbufs_scheme \<Rightarrow> (int \<times> 'a pbufs_scheme) option" where
  "pbuf_copy p_to p_from s =
     (if \<not> (p_to \<noteq> NULL \<and> p_from \<noteq> NULL \<and> tot_len s p_to \<ge> tot_len s p_from) then Some (ERR_ARG, s)
      else copy_loop p_to p_from 0 0 s)"

partial_function (option) copy_partial_loop ::
  "addr \<Rightarrow> addr \<Rightarrow> u16 \<Rightarrow> u16 \<Rightarrow> u16 \<Rightarrow> u16 \<Rightarrow> 'a pbufs_scheme \<Rightarrow> (u16 \<times> 'a pbufs_scheme) option" where
  "copy_partial_loop p dataptr len offset left' copied_total s =
     (if len \<noteq> 0 \<and> p \<noteq> NULL then
        if offset \<noteq> 0 \<and> offset \<ge> pb_len s p then
          copy_partial_loop (pb_next s p) dataptr len (offset - pb_len s p) left' copied_total s
        else
          let buf_copy_len = pb_len s p - offset;
              buf_copy_len = (if buf_copy_len > len then len else buf_copy_len);
              s = copy_bytes (dataptr + ucast left') (payload s p + ucast offset) buf_copy_len s
          in copy_partial_loop (pb_next s p) dataptr (len - buf_copy_len) 0 (left' + buf_copy_len)
               (copied_total + buf_copy_len) s
      else Some (copied_total, s))"

definition pbuf_copy_partial :: "addr \<Rightarrow> addr \<Rightarrow> u16 \<Rightarrow> u16 \<Rightarrow> 'a pbufs_scheme \<Rightarrow> (u16 \<times> 'a pbufs_scheme) option" where
  "pbuf_copy_partial buf dataptr len offset s =
     (if buf = NULL \<or> dataptr = NULL then Some (0, s)
      else copy_partial_loop buf dataptr len offset 0 0 s)"

partial_function (option) take_loop :: "addr \<Rightarrow> addr \<Rightarrow> u16 \<Rightarrow> u16 \<Rightarrow> 'a pbufs_scheme \<Rightarrow> (int \<times> 'a pbufs_scheme) option" where
  "take_loop p dataptr total_copy_len copied_total s =
     (if total_copy_len \<noteq> 0 then
        let buf_copy_len = (if total_copy_len > pb_len s p then pb_len s p else total_copy_len);
            s = copy_bytes (payload s p) (dataptr + ucast copied_total) buf_copy_len s
        in take_loop (pb_next s p) dataptr (total_copy_len - buf_copy_len) (copied_total + buf_copy_len) s
      else Some (ERR_OK, s))"

definition pbuf_take :: "addr \<Rightarrow> addr \<Rightarrow> u16 \<Rightarrow> 'a pbufs_scheme \<Rightarrow> (int \<times> 'a pbufs_scheme) option" where
  "pbuf_take buf dataptr len s =
     (if buf = NULL then Some (0, s)
      else if dataptr = NULL then Some (0, s)
      else if tot_len s buf < len then Some (ERR_ARG, s)
      else take_loop buf dataptr len 0 s)"

definition pbuf_coalesce :: "'a pbufs_scheme stack \<Rightarrow> addr \<Rightarrow> int \<Rightarrow> 'a pbufs_scheme \<Rightarrow> (addr outcome \<times> 'a pbufs_scheme) option" where
  "pbuf_coalesce env p layer s =
     (if pb_next s p = NULL then Some (Returned p, s)
      else after (pbuf_alloc env layer (tot_len s p) PBUF_RAM s)
        (\<lambda>q s. if q = NULL then Some (Returned p, s)
               else case pbuf_copy q p s of
                      None \<Rightarrow> None
                    | Some (err, s) \<Rightarrow> after (pbuf_free env p s) (\<lambda>_ s. Some (Returned q, s))))"

text \<open>The loop with which \<open>pbuf_get_at\<close> and \<open>pbuf_memcmp\<close> find the pbuf that holds an offset.\<close>

partial_function (option) seek :: "'a pbufs_scheme \<Rightarrow> addr \<Rightarrow> u16 \<Rightarrow> (addr \<times> u16) option" where
  "seek s q start = (if q \<noteq> NULL \<and> pb_len s q \<le> start then seek s (pb_next s q) (start - pb_len s q) else Some (q, start))"

definition pbuf_get_at :: "addr \<Rightarrow> u16 \<Rightarrow> 'a pbufs_scheme \<Rightarrow> u8 option" where
  "pbuf_get_at p offset s =
     (case seek s p offset of
        None \<Rightarrow> None
      | Some (q, copy_from) \<Rightarrow>
          Some (if q \<noteq> NULL \<and> pb_len s q > copy_from then bytes s (payload s q + ucast copy_from) else 0))"

partial_function (option) memcmp_loop :: "'a pbufs_scheme \<Rightarrow> addr \<Rightarrow> u16 \<Rightarrow> addr \<Rightarrow> u16 \<Rightarrow> u16 \<Rightarrow> u16 option" where
  "memcmp_loop s q start s2 n i =
     (if i < n then
        case pbuf_get_at q (start + i) s of
          None \<Rightarrow> None
        | Some a \<Rightarrow> if a \<noteq> bytes s (s2 + ucast i) then Some (i + 1) else memcmp_loop s q start s2 n (i + 1)
      else Some 0)"

definition pbuf_memcmp :: "addr \<Rightarrow> u16 \<Rightarrow> addr \<Rightarrow> u16 \<Rightarrow> 'a pbufs_scheme \<Rightarrow> u16 option" where
  "pbuf_memcmp p offset s2 n s =
     (case seek s p offset of
        None \<Rightarrow> None
      | Some (q, start) \<Rightarrow>
          if q \<noteq> NULL \<and> pb_len s q > start then memcmp_loop s q start s2 n 0 else Some 0xffff)"

partial_function (option) memfind_loop :: "'a pbufs_scheme \<Rightarrow> addr \<Rightarrow> addr \<Rightarrow> u16 \<Rightarrow> u16 \<Rightarrow> u16 \<Rightarrow> u16 option" where
  "memfind_loop s p mem mem_len max' i =
     (if i \<le> max' then
        case pbuf_memcmp p i mem mem_len s of
          None \<Rightarrow> None
        | Some d \<Rightarrow> if d = 0 then Some i else memfind_loop s p mem mem_len max' (i + d)
      else Some 0xFFFF)"

definition pbuf_memfind :: "addr \<Rightarrow> addr \<Rightarrow> u16 \<Rightarrow> u16 \<Rightarrow> 'a pbufs_scheme \<Rightarrow> u16 option" where
  "pbuf_memfind p mem mem_len start_offset s =
     (let max' = tot_len s p - mem_len in
      if uint (tot_len s p) \<ge> uint mem_len + uint start_offset then memfind_loop s p mem mem_len max' start_offset
      else Some 0xFFFF)"

partial_function (option) string_length :: "(addr \<Rightarrow> u8) \<Rightarrow> addr \<Rightarrow> u32 \<Rightarrow> u32 option" where
  "string_length m a n = (if m a = 0 then Some n else string_length m (a + 1) (n + 1))"

definition pbuf_strstr :: "addr \<Rightarrow> addr \<Rightarrow> 'a pbufs_scheme \<Rightarrow> u16 option" where
  "pbuf_strstr p substr s =
     (if substr = NULL \<or> bytes s substr = 0 \<or> tot_len s p = 0xFFFF then Some 0xFFFF
      else
        case string_length (bytes s) substr 0 of
          None \<Rightarrow> None
        | Some substr_len \<Rightarrow> if substr_len \<ge> 0xFFFF then Some 0xFFFF else pbuf_memfind p substr (ucast substr_len) 0 s)"

end
