(* ===== verification/Packets.thy ===== *)
theory Packets
  imports Pbuf
begin

text \<open>
  What the readers and writers of ethernet/core/pbuf.c do with the bytes of a packet: a packet is the list of its pbufs,
  linked through \<open>pb_next\<close>, and its contents the concatenation of their payloads (\<open>chain_bytes\<close>).
\<close>

section \<open>Chains\<close>

fun pchain :: "(addr \<Rightarrow> addr) \<Rightarrow> addr \<Rightarrow> addr list \<Rightarrow> bool" where
  "pchain nx p [] \<longleftrightarrow> p = NULL"
| "pchain nx p (q # qs) \<longleftrightarrow> p = q \<and> q \<noteq> NULL \<and> pchain nx (nx q) qs"

definition block :: "(addr \<Rightarrow> u8) \<Rightarrow> addr \<Rightarrow> nat \<Rightarrow> u8 list" where
  "block m a n = map (\<lambda>i. m (a + of_nat i)) [0..<n]"

definition pb_data :: "'a pbufs_scheme \<Rightarrow> addr \<Rightarrow> u8 list" where
  "pb_data s q = block (bytes s) (payload s q) (unat (pb_len s q))"

text \<open>The bytes of a packet: those of its pbufs one after the other.\<close>

definition chain_bytes :: "'a pbufs_scheme \<Rightarrow> addr list \<Rightarrow> u8 list" where
  "chain_bytes s qs = concat (map (pb_data s) qs)"

lemma pchain_null [simp]: "pchain nx 0 qs \<longleftrightarrow> qs = []"
  by (cases qs) auto

lemma pchain_nonnull: "p \<noteq> 0 \<Longrightarrow> pchain nx p qs \<Longrightarrow> \<exists>vs. qs = p # vs \<and> pchain nx (nx p) vs"
  by (cases qs) auto

lemma pchain_append: "pchain nx p (us @ vs) \<Longrightarrow> \<exists>q. pchain nx q vs"
  by (induction us arbitrary: p) auto

lemma pchain_cong: "(\<And>q. q \<in> set qs \<Longrightarrow> nx' q = nx q) \<Longrightarrow> pchain nx' p qs = pchain nx p qs"
  by (induction qs arbitrary: p) auto

lemma pchain_upd [simp]: "a \<notin> set qs \<Longrightarrow> pchain (nx(a := b)) p qs = pchain nx p qs"
  by (rule pchain_cong) auto

lemma pchain_zero: "pchain nx p qs \<Longrightarrow> 0 \<notin> set qs"
  by (induction qs arbitrary: p) auto

lemma pchain_functional: "pchain nx p us \<Longrightarrow> pchain nx p vs \<Longrightarrow> us = vs"
  by (induction us arbitrary: p vs) (auto dest: pchain_nonnull)

lemma length_block [simp]: "length (block m a n) = n"
  by (simp add: block_def)

lemma nth_block [simp]: "i < n \<Longrightarrow> block m a n ! i = m (a + of_nat i)"
  by (simp add: block_def)

lemma length_pb_data [simp]: "length (pb_data s q) = unat (pb_len s q)"
  by (simp add: pb_data_def)

lemma chain_bytes_simps [simp]:
  "chain_bytes s [] = []"
  "chain_bytes s (q # qs) = pb_data s q @ chain_bytes s qs"
  by (simp_all add: chain_bytes_def)

lemma chain_bytes_append: "chain_bytes s (us @ vs) = chain_bytes s us @ chain_bytes s vs"
  by (simp add: chain_bytes_def)

section \<open>Finding a byte\<close>

lemma unat16_sub: "b \<le> (a::u16) \<Longrightarrow> unat (a - b) = unat a - unat b"
  by (simp add: unat_sub word_le_nat_alt)

lemma seek_chain:
  "pchain (pb_next s) p ps \<Longrightarrow>
   \<exists>us vs q st. ps = us @ vs \<and> seek s p n = Some (q, st) \<and> pchain (pb_next s) q vs \<and>
     unat n = length (chain_bytes s us) + unat st \<and> (vs = [] \<or> st < pb_len s (hd vs))"
proof (induction ps arbitrary: p n)
  case Nil
  then show ?case by (auto simp: seek.simps)
next
  case (Cons q qs)
  then have q: "p = q" "q \<noteq> 0" and rest: "pchain (pb_next s) (pb_next s q) qs" by simp_all
  show ?case
  proof (cases "pb_len s q \<le> n")
    case True
    obtain us vs r st where h: "qs = us @ vs" "seek s (pb_next s q) (n - pb_len s q) = Some (r, st)"
      "pchain (pb_next s) r vs" "unat (n - pb_len s q) = length (chain_bytes s us) + unat st" "vs = [] \<or> st < pb_len s (hd vs)"
      using Cons.IH [OF rest, of "n - pb_len s q"] by blast
    have "unat (pb_len s q) \<le> unat n" using True by (simp add: word_le_nat_alt)
    then have "unat n = length (chain_bytes s (q # us)) + unat st" using h(4) True by (simp add: unat16_sub)
    moreover have "seek s p n = Some (r, st)" using True q h(2) by (simp add: seek.simps [of s q n])
    ultimately show ?thesis using h by (metis append_Cons)
  next
    case False
    then have "seek s p n = Some (q, n)" using q by (simp add: seek.simps [of s q n])
    then show ?thesis using q rest False
      by (intro exI [of _ "[]"] exI [of _ "q # qs"] exI [of _ q] exI [of _ n]) (auto simp: not_le)
  qed
qed

lemma pbuf_get_at_nth:
  assumes "pchain (pb_next s) p ps"
  shows "pbuf_get_at p n s = Some (if unat n < length (chain_bytes s ps) then chain_bytes s ps ! unat n else 0)"
proof -
  obtain us vs q st where h: "ps = us @ vs" "seek s p n = Some (q, st)" "pchain (pb_next s) q vs"
    "unat n = length (chain_bytes s us) + unat st" "vs = [] \<or> st < pb_len s (hd vs)"
    using seek_chain [OF assms] by blast
  show ?thesis
  proof (cases vs)
    case Nil
    then show ?thesis using h by (simp add: pbuf_get_at_def)
  next
    case (Cons v ws)
    then have v: "q = v" "v \<noteq> 0" "st < pb_len s v" using h by auto
    have "unat st < unat (pb_len s v)" using v by (simp add: word_less_nat_alt)
    then show ?thesis using h v Cons
      by (simp add: pbuf_get_at_def chain_bytes_append nth_append pb_data_def)
  qed
qed

section \<open>Comparing and searching\<close>

lemma unat16_less: "unat (x :: u16) < 65536"
  using unsigned_less [of x] by simp

lemma unat16_add: "unat a + unat b < 65536 \<Longrightarrow> unat (a + b :: u16) = unat a + unat b"
  by (simp add: unat_word_ariths)

lemma unat16_suc: "i < (n :: u16) \<Longrightarrow> unat (i + 1) = Suc (unat i)"
  using unat16_less [of n] by (simp add: unat_word_ariths word_less_nat_alt)

lemma memcmp_loop_result:
  assumes "pchain (pb_next s) q vs" and "unat start + unat n \<le> length (chain_bytes s vs)" and "length (chain_bytes s vs) < 65536"
    and "i \<le> n"
  shows "\<exists>r. memcmp_loop s q start s2 n i = Some r \<and>
     (r = 0 \<and> (\<forall>k. unat i \<le> k \<and> k < unat n \<longrightarrow> chain_bytes s vs ! (unat start + k) = bytes s (s2 + of_nat k)) \<or>
      (\<exists>k. unat i \<le> k \<and> k < unat n \<and> unat r = Suc k \<and> chain_bytes s vs ! (unat start + k) \<noteq> bytes s (s2 + of_nat k) \<and>
         (\<forall>j. unat i \<le> j \<and> j < k \<longrightarrow> chain_bytes s vs ! (unat start + j) = bytes s (s2 + of_nat j))))"
  using assms(4)
proof (induction "unat n - unat i" arbitrary: i)
  case 0
  then show ?case by (auto simp: memcmp_loop.simps [of s q start s2 n i] word_le_nat_alt word_less_nat_alt)
next
  case (Suc d)
  then have i: "i < n" by (simp add: word_less_nat_alt)
  have si: "unat (i + 1) = Suc (unat i)" by (rule unat16_suc [OF i])
  have u: "unat (start + i) = unat start + unat i"
    using assms(2,3) i by (intro unat16_add) (simp add: word_less_nat_alt)
  have at: "pbuf_get_at q (start + i) s = Some (chain_bytes s vs ! (unat start + unat i))"
    using assms(2) i by (simp add: pbuf_get_at_nth [OF assms(1)] u word_less_nat_alt)
  have s2: "s2 + ucast i = s2 + of_nat (unat i)" by simp
  show ?case
  proof (cases "chain_bytes s vs ! (unat start + unat i) = bytes s (s2 + of_nat (unat i))")
    case False
    then have "memcmp_loop s q start s2 n i = Some (i + 1)"
      using i by (subst memcmp_loop.simps) (simp add: at)
    then show ?thesis using False i si
      by (intro exI [of _ "i + 1"] conjI disjI2 exI [of _ "unat i"]) (auto simp: word_less_nat_alt)
  next
    case True
    then have e: "memcmp_loop s q start s2 n i = memcmp_loop s q start s2 n (i + 1)"
      using i by (subst memcmp_loop.simps) (simp add: at)
    have "d = unat n - unat (i + 1)" "i + 1 \<le> n" using Suc.hyps(2) i si by (simp_all add: word_le_nat_alt word_less_nat_alt)
    note ih = Suc.hyps(1) [OF this]
    have step: "unat (i + 1) \<le> k \<or> k = unat i" if "unat i \<le> k" for k using that si by linarith
    from ih obtain r where r: "memcmp_loop s q start s2 n (i + 1) = Some r" and
      c: "r = 0 \<and> (\<forall>k. unat (i + 1) \<le> k \<and> k < unat n \<longrightarrow> chain_bytes s vs ! (unat start + k) = bytes s (s2 + of_nat k)) \<or>
      (\<exists>k. unat (i + 1) \<le> k \<and> k < unat n \<and> unat r = Suc k \<and> chain_bytes s vs ! (unat start + k) \<noteq> bytes s (s2 + of_nat k) \<and>
         (\<forall>j. unat (i + 1) \<le> j \<and> j < k \<longrightarrow> chain_bytes s vs ! (unat start + j) = bytes s (s2 + of_nat j)))" by blast
    from c show ?thesis
    proof (elim disjE)
      assume "r = 0 \<and> (\<forall>k. unat (i + 1) \<le> k \<and> k < unat n \<longrightarrow> chain_bytes s vs ! (unat start + k) = bytes s (s2 + of_nat k))"
      then show ?thesis using r e True step by metis
    next
      assume "\<exists>k. unat (i + 1) \<le> k \<and> k < unat n \<and> unat r = Suc k \<and> chain_bytes s vs ! (unat start + k) \<noteq> bytes s (s2 + of_nat k) \<and>
         (\<forall>j. unat (i + 1) \<le> j \<and> j < k \<longrightarrow> chain_bytes s vs ! (unat start + j) = bytes s (s2 + of_nat j))"
      then obtain k where k: "unat (i + 1) \<le> k" "k < unat n" "unat r = Suc k" "chain_bytes s vs ! (unat start + k) \<noteq> bytes s (s2 + of_nat k)"
         "\<forall>j. unat (i + 1) \<le> j \<and> j < k \<longrightarrow> chain_bytes s vs ! (unat start + j) = bytes s (s2 + of_nat j)" by blast
      have "\<forall>j. unat i \<le> j \<and> j < k \<longrightarrow> chain_bytes s vs ! (unat start + j) = bytes s (s2 + of_nat j)" using k(5) step True by metis
      moreover have "unat i \<le> k" using k(1) si by linarith
      ultimately show ?thesis using r e k by metis
    qed
  qed
qed

text \<open>The bytes of a packet from an offset on are those of a pattern.\<close>

definition found_at :: "'a pbufs_scheme \<Rightarrow> addr list \<Rightarrow> nat \<Rightarrow> addr \<Rightarrow> nat \<Rightarrow> bool" where
  "found_at s ps i mem n \<longleftrightarrow> (\<forall>k<n. chain_bytes s ps ! (i + k) = bytes s (mem + of_nat k))"

lemma pbuf_memcmp_result:
  assumes "pchain (pb_next s) p ps" and "unat offset + unat n \<le> length (chain_bytes s ps)" and "length (chain_bytes s ps) < 65536"
    and "unat offset < length (chain_bytes s ps)"
  shows "\<exists>r. pbuf_memcmp p offset s2 n s = Some r \<and>
     (r = 0 \<and> found_at s ps (unat offset) s2 (unat n) \<or>
      (\<exists>k<unat n. unat r = Suc k \<and> chain_bytes s ps ! (unat offset + k) \<noteq> bytes s (s2 + of_nat k) \<and> found_at s ps (unat offset) s2 k))"
proof -
  obtain us vs q st where h: "ps = us @ vs" "seek s p offset = Some (q, st)" "pchain (pb_next s) q vs"
    "unat offset = length (chain_bytes s us) + unat st" "vs = [] \<or> st < pb_len s (hd vs)"
    using seek_chain [OF assms(1)] by blast
  have ne: "vs \<noteq> []" using h(1,4) assms(4) by auto
  then have "q = hd vs" "q \<noteq> 0" using h(3) by (cases vs; simp)+
  then have e: "pbuf_memcmp p offset s2 n s = memcmp_loop s q st s2 n 0"
    using h(2,5) ne by (simp add: pbuf_memcmp_def)
  have at: "chain_bytes s ps ! (unat offset + k) = chain_bytes s vs ! (unat st + k)" for k
    by (simp add: h(1,4) chain_bytes_append nth_append)
  have "unat st + unat n \<le> length (chain_bytes s vs)" "length (chain_bytes s vs) < 65536"
    using assms(2,3) h(1,4) by (simp_all add: chain_bytes_append)
  from memcmp_loop_result [OF h(3) this, of 0 s2] show ?thesis
    unfolding e at found_at_def by auto
qed

lemma memfind_loop_result:
  assumes "pchain (pb_next s) p ps" and "length (chain_bytes s ps) < 65536" and "mem_len \<noteq> 0"
    and "unat mem_len \<le> length (chain_bytes s ps)" and "unat max' = length (chain_bytes s ps) - unat mem_len"
  shows "\<exists>r. memfind_loop s p mem mem_len max' i = Some r \<and>
     (r = 0xFFFF \<or> i \<le> r \<and> unat r + unat mem_len \<le> length (chain_bytes s ps) \<and> found_at s ps (unat r) mem (unat mem_len))"
proof (induction "65536 - unat i" arbitrary: i rule: less_induct)
  case less
  have m0: "0 < unat mem_len" using assms(3) by (simp add: unat_gt_0)
  show ?case
  proof (cases "i \<le> max'")
    case False
    then show ?thesis by (simp add: memfind_loop.simps [of s p mem mem_len max' i])
  next
    case True
    then have le: "unat i + unat mem_len \<le> length (chain_bytes s ps)" using assms(4,5) by (simp add: word_le_nat_alt)
    then have lt: "unat i < length (chain_bytes s ps)" using m0 by linarith
    obtain r where r: "pbuf_memcmp p i mem mem_len s = Some r" and
      c: "r = 0 \<and> found_at s ps (unat i) mem (unat mem_len) \<or>
      (\<exists>k<unat mem_len. unat r = Suc k \<and> chain_bytes s ps ! (unat i + k) \<noteq> bytes s (mem + of_nat k) \<and> found_at s ps (unat i) mem k)"
      using pbuf_memcmp_result [OF assms(1) le assms(2) lt] by blast
    show ?thesis
    proof (cases "r = 0")
      case True
      then have "memfind_loop s p mem mem_len max' i = Some i" using \<open>i \<le> max'\<close> r by (subst memfind_loop.simps) simp
      then show ?thesis using c True le by auto
    next
      case False
      then obtain k where k: "k < unat mem_len" "unat r = Suc k" using c by blast
      have u: "unat (i + r) = unat i + Suc k" using le k assms(2) by (subst unat16_add) linarith+
      have "65536 - unat (i + r) < 65536 - unat i" using u unat16_less [of "i + r"] by linarith
      from less [OF this] obtain x where x: "memfind_loop s p mem mem_len max' (i + r) = Some x"
        "x = 0xFFFF \<or> i + r \<le> x \<and> unat x + unat mem_len \<le> length (chain_bytes s ps) \<and> found_at s ps (unat x) mem (unat mem_len)"
        by blast
      moreover have "memfind_loop s p mem mem_len max' i = memfind_loop s p mem mem_len max' (i + r)"
        using True False r by (subst memfind_loop.simps) simp
      moreover have "i \<le> x" if "i + r \<le> x" using that u by (simp add: word_le_nat_alt)
      ultimately show ?thesis by auto
    qed
  qed
qed

text \<open>\<open>pbuf_memfind\<close> always returns, and a position it returns holds the pattern.  It can miss one: after a
  mismatch it goes on behind the byte that differed, so a match that begins inside the part that agreed, or at
  the byte that differed, is skipped.  In the packet \<open>aab\<close> it does not find \<open>ab\<close>.\<close>

definition small_packet :: "pbufs \<Rightarrow> pbufs" where
  "small_packet s = s\<lparr>pb_next := (\<lambda>_. 0), payload := (\<lambda>_. 0x1000), pb_len := (\<lambda>_. 3), tot_len := (\<lambda>_. 3),
     bytes := (\<lambda>_. 0)(0x1000 := 97, 0x1001 := 97, 0x1002 := 98, 0x2000 := 97, 0x2001 := 98)\<rparr>"

lemma small_packet_simps [simp]:
  "pb_next (small_packet s) q = 0" "payload (small_packet s) q = 0x1000" "pb_len (small_packet s) q = 3" "tot_len (small_packet s) q = 3"
  "bytes (small_packet s) 0x1000 = 97" "bytes (small_packet s) 0x1001 = 97" "bytes (small_packet s) 0x1002 = 98"
  "bytes (small_packet s) 0x2000 = 97" "bytes (small_packet s) 0x2001 = 98"
  by (simp_all add: small_packet_def)

lemma small_packet_has: "pchain (pb_next (small_packet s)) 0x500 [0x500]" "chain_bytes (small_packet s) [0x500] = [97, 97, 98]"
  by (simp_all add: pb_data_def block_def upt_rec)

lemma small_packet_get: "pbuf_get_at 0x500 n (small_packet s) = Some (if unat n < 3 then [97, 97, 98] ! unat n else 0)"
  using pbuf_get_at_nth [OF small_packet_has(1)] unfolding small_packet_has(2) by simp

lemma small_packet_seek: "n < 3 \<Longrightarrow> seek (small_packet s) 0x500 n = Some (0x500, n)"
  by (subst seek.simps) (auto simp: not_le)

lemma small_packet_misses: "pbuf_memfind 0x500 0x2000 2 0 (small_packet s) = Some 0xFFFF"
proof -
  let ?s = "small_packet s"
  have "memcmp_loop ?s 0x500 0 0x2000 2 1 = Some 2" by (subst memcmp_loop.simps) (simp add: small_packet_get)
  then have "memcmp_loop ?s 0x500 0 0x2000 2 0 = Some 2" by (subst memcmp_loop.simps) (simp add: small_packet_get)
  then have "pbuf_memcmp 0x500 0 0x2000 2 ?s = Some 2" by (simp add: pbuf_memcmp_def small_packet_seek)
  moreover have "memfind_loop ?s 0x500 0x2000 2 1 2 = Some 0xFFFF" by (subst memfind_loop.simps) (simp add: word_le_nat_alt)
  ultimately have "memfind_loop ?s 0x500 0x2000 2 1 0 = Some 0xFFFF" by (subst memfind_loop.simps) simp
  then show ?thesis by (simp add: pbuf_memfind_def)
qed

lemma small_packet_found: "found_at (small_packet s) [0x500] 1 0x2000 2"
  unfolding found_at_def small_packet_has(2) by (simp add: numeral_2_eq_2 less_Suc_eq)

section \<open>Copying\<close>

text \<open>What \<open>memcpy\<close> writes, when source and destination do not overlap.\<close>

definition disjoint_blocks :: "addr \<Rightarrow> nat \<Rightarrow> addr \<Rightarrow> nat \<Rightarrow> bool" where
  "disjoint_blocks a n d k \<longleftrightarrow> (\<forall>i<n. \<forall>j<k. a + of_nat i \<noteq> d + of_nat j)"

lemma disjoint_blocks_sym: "disjoint_blocks a n d k \<longleftrightarrow> disjoint_blocks d k a n"
  unfolding disjoint_blocks_def by metis

lemma disjoint_blocks_mono: "disjoint_blocks a n d k \<Longrightarrow> n' \<le> n \<Longrightarrow> k' \<le> k \<Longrightarrow> disjoint_blocks a n' d k'"
  by (auto simp: disjoint_blocks_def)

lemma disjoint_blocks_shift:
  assumes "disjoint_blocks a n d k" and "i + n' \<le> n" and "j + k' \<le> k"
  shows "disjoint_blocks (a + of_nat i) n' (d + of_nat j) k'"
  unfolding disjoint_blocks_def
proof (intro allI impI)
  fix x y assume "x < n'" "y < k'"
  then have "i + x < n" "j + y < k" using assms(2,3) by auto
  then have "a + of_nat (i + x) \<noteq> d + of_nat (j + y)" using assms(1) unfolding disjoint_blocks_def by blast
  then show "a + of_nat i + of_nat x \<noteq> d + of_nat j + of_nat y" by (simp add: add.assoc)
qed

lemma store_block_append: "store_block a (xs @ ys) m = store_block (a + of_nat (length xs)) ys (store_block a xs m)"
  by (induction xs arbitrary: a m) (simp_all add: add.assoc)

lemma block_Suc: "block m a (Suc n) = m a # block m (a + 1) n"
  by (simp add: block_def upt_conv_Cons map_Suc_upt [symmetric] add.assoc del: upt_Suc)

lemma block_cong: "(\<And>i. i < n \<Longrightarrow> m' (a + of_nat i) = m (a + of_nat i)) \<Longrightarrow> block m' a n = block m a n"
  by (simp add: block_def)

lemma memcpy_store_block: "disjoint_blocks a n d n \<Longrightarrow> memcpy d a n m = store_block d (block m a n) m"
proof (induction n arbitrary: a d m)
  case (Suc n)
  have "block (m(d := m a)) (a + 1) n = block m (a + 1) n"
  proof (rule block_cong)
    fix i assume "i < n"
    then have "a + of_nat (Suc i) \<noteq> d + of_nat 0" using Suc.prems unfolding disjoint_blocks_def by blast
    then show "(m(d := m a)) (a + 1 + of_nat i) = m (a + 1 + of_nat i)" by (simp add: add.assoc)
  qed
  moreover have "disjoint_blocks (a + 1) n (d + 1) n"
    using disjoint_blocks_shift [OF Suc.prems, of 1 n 1 n] by simp
  then have "memcpy (d + 1) (a + 1) n (m(d := m a)) = store_block (d + 1) (block (m(d := m a)) (a + 1) n) (m(d := m a))"
    by (rule Suc.IH)
  ultimately show ?case unfolding memcpy.simps block_Suc store_block.simps by simp
qed (simp add: block_def)

lemma take_block: "k \<le> n \<Longrightarrow> take k (block m a n) = block m a k"
  by (simp add: block_def take_map)

lemma drop_block: "drop k (block m a n) = block m (a + of_nat k) (n - k)"
  by (rule nth_equalityI) (simp_all add: add.assoc)

lemma block_store_other: "disjoint_blocks a n d (length bs) \<Longrightarrow> block (store_block d bs m) a n = block m a n"
  by (rule block_cong) (simp add: disjoint_blocks_def store_block_other)

lemma block_store_same: "length bs \<le> 2 ^ 32 \<Longrightarrow> block (store_block d bs m) d (length bs) = bs"
  by (rule nth_equalityI) (simp_all add: store_block_at)

text \<open>No payload of the chain overlaps the \<open>n\<close> bytes at \<open>d\<close>.\<close>

definition clear_of :: "'a pbufs_scheme \<Rightarrow> addr list \<Rightarrow> addr \<Rightarrow> nat \<Rightarrow> bool" where
  "clear_of s ps d n \<longleftrightarrow> (\<forall>q\<in>set ps. disjoint_blocks (payload s q) (unat (pb_len s q)) d n)"

lemma clear_of_Cons [simp]:
  "clear_of s (q # qs) d n \<longleftrightarrow> disjoint_blocks (payload s q) (unat (pb_len s q)) d n \<and> clear_of s qs d n"
  by (simp add: clear_of_def)

lemma chain_bytes_store: "clear_of s qs d (length bs) \<Longrightarrow> chain_bytes (s\<lparr>bytes := store_block d bs (bytes s)\<rparr>) qs = chain_bytes s qs"
  by (induction qs) (simp_all add: clear_of_def pb_data_def block_store_other chain_bytes_def)

lemma chain_bytes_cong:
  "bytes s' = bytes s \<Longrightarrow> payload s' = payload s \<Longrightarrow> pb_len s' = pb_len s \<Longrightarrow> chain_bytes s' qs = chain_bytes s qs"
  by (simp add: chain_bytes_def pb_data_def [abs_def])

lemma clear_of_store: "clear_of (s\<lparr>bytes := m\<rparr>) qs d n = clear_of s qs d n"
  by (simp add: clear_of_def)

lemma clear_of_shift: "clear_of s qs d n \<Longrightarrow> j + k \<le> n \<Longrightarrow> clear_of s qs (d + of_nat j) k"
  using disjoint_blocks_shift [of _ _ d n 0 _ j k] by (auto simp: clear_of_def)

lemma copy_bytes_simps [simp]:
  "pb_next (copy_bytes d a n s) = pb_next s" "payload (copy_bytes d a n s) = payload s" "pb_len (copy_bytes d a n s) = pb_len s"
  "tot_len (copy_bytes d a n s) = tot_len s"
  by (simp_all add: copy_bytes_def)

lemma copy_partial_loop_store:
  assumes "pchain (pb_next s) p ps" and "clear_of s ps (dataptr + of_nat (unat done')) (unat len)"
    and "unat done' + unat len < 65536"
  shows "\<exists>n. copy_partial_loop p dataptr len offset done' done' s =
      Some (done' + n, s\<lparr>bytes := store_block (dataptr + of_nat (unat done')) (take (unat len) (drop (unat offset) (chain_bytes s ps))) (bytes s)\<rparr>)
      \<and> unat n = min (unat len) (length (chain_bytes s ps) - unat offset)"
  using assms
proof (induction ps arbitrary: p len offset done' s)
  case Nil
  then have "copy_partial_loop p dataptr len offset done' done' s = Some (done', s)" by (simp add: copy_partial_loop.simps)
  then show ?case by (intro exI [of _ 0]) simp
next
  case (Cons q qs)
  have q: "p = q" "q \<noteq> 0" and rest: "pchain (pb_next s) (pb_next s q) qs" using Cons.prems(1) by simp_all
  let ?l = "unat (pb_len s q)"
  have dq: "length (pb_data s q) = ?l" by simp
  show ?case
  proof (cases "len = 0")
    case True
    then have "copy_partial_loop p dataptr len offset done' done' s = Some (done', s)" by (simp add: copy_partial_loop.simps)
    then show ?thesis using True by (intro exI [of _ 0]) simp
  next
    case False
    show ?thesis
    proof (cases "offset \<noteq> 0 \<and> pb_len s q \<le> offset")
      case True
      then have e: "copy_partial_loop p dataptr len offset done' done' s =
          copy_partial_loop (pb_next s q) dataptr len (offset - pb_len s q) done' done' s"
        using False q by (simp add: copy_partial_loop.simps [of q])
      have u: "unat (offset - pb_len s q) = unat offset - ?l" and le: "?l \<le> unat offset"
        using True by (simp_all add: unat16_sub word_le_nat_alt)
      have c: "clear_of s qs (dataptr + of_nat (unat done')) (unat len)" using Cons.prems(2) by simp
      have d: "drop (unat offset) (chain_bytes s (q # qs)) = drop (unat offset - ?l) (chain_bytes s qs)"
        using le by simp
      have n: "length (chain_bytes s qs) - (unat offset - ?l) = length (chain_bytes s (q # qs)) - unat offset" using le by simp
      from Cons.IH [OF rest c Cons.prems(3), of "offset - pb_len s q"] show ?thesis
        unfolding e d u n by blast
    next
      case skip: False
      then have ol: "unat offset \<le> ?l" by (auto simp: word_le_nat_alt)
      define b where "b = (if pb_len s q - offset > len then len else pb_len s q - offset)"
      have ub: "unat b = min (unat len) (?l - unat offset)"
        using ol by (auto simp: b_def unat16_sub word_le_nat_alt word_less_nat_alt not_less min_def)
      have bl: "unat b \<le> unat len" using ub by simp
      have ulb: "unat (len - b) = unat len - unat b" using bl by (simp add: unat16_sub word_le_nat_alt)
      have udb: "unat (done' + b) = unat done' + unat b" using Cons.prems(3) bl by (intro unat16_add) linarith
      define D where "D = dataptr + of_nat (unat done')"
      define s1 where "s1 = copy_bytes (dataptr + ucast done') (payload s q + ucast offset) b s"
      have e: "copy_partial_loop p dataptr len offset done' done' s =
          copy_partial_loop (pb_next s q) dataptr (len - b) 0 (done' + b) (done' + b) s1"
        using False q skip by (subst copy_partial_loop.simps) (auto simp: b_def s1_def Let_def)
      have dj: "disjoint_blocks (payload s q + of_nat (unat offset)) (unat b) D (unat b)"
        using disjoint_blocks_shift [of "payload s q" ?l D "unat len" "unat offset" "unat b" 0 "unat b"] Cons.prems(2) ol ub
        by (simp add: D_def)
      let ?B = "block (bytes s) (payload s q + of_nat (unat offset)) (unat b)"
      have s1: "s1 = s\<lparr>bytes := store_block D ?B (bytes s)\<rparr>"
        using memcpy_store_block [OF dj] by (simp add: s1_def copy_bytes_def D_def)
      have cl: "clear_of s qs D (unat len)" using Cons.prems(2) by (simp add: D_def)
      have cb: "chain_bytes s1 qs = chain_bytes s qs"
        unfolding s1 using clear_of_shift [OF cl, of 0 "unat b"] bl by (intro chain_bytes_store) simp
      have nx: "pb_next s1 = pb_next s" by (simp add: s1)
      have r1: "pchain (pb_next s1) (pb_next s q) qs" using rest by (simp add: nx)
      have D': "dataptr + of_nat (unat (done' + b)) = D + of_nat (unat b)" by (simp only: D_def udb of_nat_add add.assoc)
      have c1: "clear_of s1 qs (dataptr + of_nat (unat (done' + b))) (unat (len - b))"
        unfolding D' s1 clear_of_store ulb using clear_of_shift [OF cl, of "unat b" "unat len - unat b"] bl by simp
      have "unat (done' + b) + unat (len - b) < 65536" using Cons.prems(3) bl by (simp only: udb ulb)
      from Cons.IH [OF r1 c1 this, of 0] obtain n where
        n: "copy_partial_loop (pb_next s q) dataptr (len - b) 0 (done' + b) (done' + b) s1 =
          Some (done' + b + n, s1\<lparr>bytes := store_block (D + of_nat (unat b)) (take (unat len - unat b) (chain_bytes s qs)) (bytes s1)\<rparr>)"
        "unat n = min (unat len - unat b) (length (chain_bytes s qs))"
        unfolding D' cb ulb by auto
      have len_b: "length ?B = unat b" by simp
      have dr: "take (unat len) (drop (unat offset) (chain_bytes s (q # qs))) = ?B @ take (unat len - unat b) (chain_bytes s qs)"
        using ol ub by (auto simp: pb_data_def drop_block take_block min_def)
      have st: "store_block D (take (unat len) (drop (unat offset) (chain_bytes s (q # qs)))) (bytes s) =
          store_block (D + of_nat (unat b)) (take (unat len - unat b) (chain_bytes s qs)) (bytes s1)"
        unfolding dr store_block_append len_b by (simp add: s1)
      have "unat (b + n) = unat b + unat n" using bl n(2) unat16_less [of len] by (intro unat16_add) linarith
      then have "unat (b + n) = min (unat len) (length (chain_bytes s (q # qs)) - unat offset)"
        using ol ub n(2) by (simp add: min_def) linarith
      moreover have "s1\<lparr>bytes := M\<rparr> = s\<lparr>bytes := M\<rparr>" for M by (simp add: s1)
      ultimately show ?thesis
        unfolding e n(1) D_def [symmetric] st by (intro exI [of _ "b + n"]) (simp add: add.assoc)
    qed
  qed
qed

text \<open>The payloads of a chain do not overlap each other.\<close>

fun separate :: "'a pbufs_scheme \<Rightarrow> addr list \<Rightarrow> bool" where
  "separate s [] \<longleftrightarrow> True"
| "separate s (q # qs) \<longleftrightarrow> clear_of s qs (payload s q) (unat (pb_len s q)) \<and> separate s qs"

lemma separate_bytes [simp]: "separate (s\<lparr>bytes := m\<rparr>) qs = separate s qs"
  by (induction qs) (simp_all add: clear_of_store)

lemma clear_of_mono: "clear_of s qs d n \<Longrightarrow> k \<le> n \<Longrightarrow> clear_of s qs d k"
  using clear_of_shift [of s qs d n 0 k] by simp

lemma block_store_append:
  assumes "length bs \<le> n" and "n < 2 ^ 32"
  shows "block (store_block d bs m) d n = bs @ drop (length bs) (block m d n)"
proof (rule nth_equalityI)
  show "length (block (store_block d bs m) d n) = length (bs @ drop (length bs) (block m d n))" using assms by simp
next
  fix i assume "i < length (block (store_block d bs m) d n)"
  then have i: "i < n" by simp
  show "block (store_block d bs m) d n ! i = (bs @ drop (length bs) (block m d n)) ! i"
  proof (cases "i < length bs")
    case True
    then show ?thesis using i assms by (simp add: nth_append store_block_at)
  next
    case False
    have "d + of_nat i \<noteq> d + of_nat j" if "j < length bs" for j
      using that False i assms by (simp add: of_nat_inj32)
    then show ?thesis using i False by (simp add: nth_append store_block_other)
  qed
qed

lemma take_loop_store:
  assumes "pchain (pb_next s) p ps" and "separate s ps" and "unat n \<le> length (chain_bytes s ps)"
    and "clear_of s ps (dataptr + of_nat (unat done')) (unat n)" and "unat done' + unat n < 65536"
  shows "\<exists>m. take_loop p dataptr n done' s = Some (ERR_OK, s\<lparr>bytes := m\<rparr>) \<and>
     (\<forall>a k. clear_of s ps a k \<longrightarrow> block m a k = block (bytes s) a k) \<and>
     chain_bytes (s\<lparr>bytes := m\<rparr>) ps =
       block (bytes s) (dataptr + of_nat (unat done')) (unat n) @ drop (unat n) (chain_bytes s ps)"
  using assms
proof (induction ps arbitrary: p n done' s)
  case Nil
  then have "n = 0" by (simp add: unat_eq_zero)
  then show ?case by (intro exI [of _ "bytes s"]) (simp add: take_loop.simps block_def)
next
  case (Cons q qs)
  have q: "p = q" "q \<noteq> 0" and rest: "pchain (pb_next s) (pb_next s q) qs" using Cons.prems(1) by simp_all
  let ?l = "unat (pb_len s q)"
  show ?case
  proof (cases "n = 0")
    case True
    then show ?thesis by (intro exI [of _ "bytes s"]) (simp add: take_loop.simps block_def)
  next
    case False
    define b where "b = (if n > pb_len s q then pb_len s q else n)"
    have ub: "unat b = min (unat n) ?l" by (auto simp: b_def word_less_nat_alt min_def)
    have bn: "unat b \<le> unat n" "unat b \<le> ?l" using ub by simp_all
    define D where "D = dataptr + of_nat (unat done')"
    define s1 where "s1 = copy_bytes (payload s q) (dataptr + ucast done') b s"
    have e: "take_loop p dataptr n done' s = take_loop (pb_next s q) dataptr (n - b) (done' + b) s1"
      using False q by (subst take_loop.simps) (auto simp: b_def s1_def Let_def)
    have unb: "unat (n - b) = unat n - unat b" using bn by (simp add: unat16_sub word_le_nat_alt)
    have udb: "unat (done' + b) = unat done' + unat b" using Cons.prems(5) bn by (intro unat16_add) linarith
    have dj0: "disjoint_blocks (payload s q) ?l D (unat n)" using Cons.prems(4) by (simp add: D_def)
    have dj: "disjoint_blocks D (unat b) (payload s q) (unat b)"
      using disjoint_blocks_mono [OF dj0 bn(2,1)] by (simp add: disjoint_blocks_sym)
    let ?B = "block (bytes s) D (unat b)"
    have s1: "s1 = s\<lparr>bytes := store_block (payload s q) ?B (bytes s)\<rparr>"
      using memcpy_store_block [OF dj] by (simp add: s1_def copy_bytes_def D_def)
    have clq: "clear_of s qs (payload s q) ?l" using Cons.prems(2) by simp
    have cb: "chain_bytes s1 qs = chain_bytes s qs"
      unfolding s1 using clear_of_mono [OF clq bn(2)] by (intro chain_bytes_store) simp
    have D': "dataptr + of_nat (unat (done' + b)) = D + of_nat (unat b)" by (simp only: D_def udb of_nat_add add.assoc)
    have r1: "pchain (pb_next s1) (pb_next s q) qs" "separate s1 qs" using rest Cons.prems(2) by (simp_all add: s1)
    have l1: "unat (n - b) \<le> length (chain_bytes s1 qs)" using Cons.prems(3) ub by (auto simp: unb cb min_def split: if_splits)
    have cl: "clear_of s qs D (unat n)" using Cons.prems(4) by (simp add: D_def)
    have c1: "clear_of s1 qs (dataptr + of_nat (unat (done' + b))) (unat (n - b))"
      unfolding D' s1 clear_of_store unb using clear_of_shift [OF cl, of "unat b" "unat n - unat b"] bn by simp
    have "unat (done' + b) + unat (n - b) < 65536" using Cons.prems(5) bn by (simp only: udb unb)
    from Cons.IH [OF r1 l1 c1 this] obtain m where
      m: "take_loop (pb_next s q) dataptr (n - b) (done' + b) s1 = Some (ERR_OK, s1\<lparr>bytes := m\<rparr>)"
      and fr: "\<And>a k. clear_of s1 qs a k \<Longrightarrow> block m a k = block (bytes s1) a k"
      and cm: "chain_bytes (s1\<lparr>bytes := m\<rparr>) qs = block (bytes s1) (D + of_nat (unat b)) (unat n - unat b) @ drop (unat n - unat b) (chain_bytes s qs)"
      unfolding D' unb cb by blast
    have s1m: "s1\<lparr>bytes := m\<rparr> = s\<lparr>bytes := m\<rparr>" by (simp add: s1)
    have other: "block (bytes s1) a k = block (bytes s) a k" if "disjoint_blocks (payload s q) ?l a k" for a k
      unfolding s1 using disjoint_blocks_mono [OF that bn(2) order_refl] by (simp add: block_store_other disjoint_blocks_sym)
    have frame: "block m a k = block (bytes s) a k" if "clear_of s (q # qs) a k" for a k
      using fr [of a k] other [of a k] that by (simp add: s1 clear_of_store)
    have "pb_data (s\<lparr>bytes := m\<rparr>) q = block (bytes s1) (payload s q) ?l"
      using fr [of "payload s q" ?l] clq by (simp add: pb_data_def s1 clear_of_store)
    also have "\<dots> = ?B @ drop (unat b) (pb_data s q)"
      using block_store_append [of ?B ?l "payload s q" "bytes s"] bn unat16_less [of "pb_len s q"] by (simp add: s1 pb_data_def)
    finally have dq: "pb_data (s\<lparr>bytes := m\<rparr>) q = ?B @ drop (unat b) (pb_data s q)" .
    have src: "block (bytes s1) (D + of_nat (unat b)) (unat n - unat b) = drop (unat b) (block (bytes s) D (unat n))"
      unfolding drop_block using disjoint_blocks_shift [OF dj0, of 0 ?l "unat b" "unat n - unat b"] bn by (intro other) simp
    have "chain_bytes (s\<lparr>bytes := m\<rparr>) (q # qs) = block (bytes s) D (unat n) @ drop (unat n) (chain_bytes s (q # qs))"
    proof (cases "unat n \<le> ?l")
      case True
      then show ?thesis using dq cm ub unfolding s1m src by (simp add: drop_block block_def)
    next
      case False
      then have "unat b = ?l" using ub by simp
      then show ?thesis using dq cm False unfolding s1m src
        by (simp add: append_take_drop_id take_block [symmetric, of ?l "unat n"])
    qed
    then show ?thesis using e m frame s1m unfolding D_def by (intro exI [of _ m]) simp
  qed
qed

section \<open>Properties\<close>

text \<open>C23: Data put into a packet comes out again: \<open>pbuf_take\<close> spreads the bytes over the pbufs of a chain with room for
  them and leaves the bytes behind them alone, and \<open>pbuf_copy_partial\<close> then collects them, from any offset, wherever
  the chain is cut.  It returns how many bytes there were.\<close>

theorem pbuf_take_copy:
  assumes "pchain (pb_next s) p ps" and "separate s ps" and "p \<noteq> NULL" and "src \<noteq> NULL" and "dst \<noteq> NULL"
    and "unat n \<le> length (chain_bytes s ps)" and "n \<le> tot_len s p"
    and "clear_of s ps src (unat n)" and "clear_of s ps dst (unat k)"
  shows "\<exists>s1 s2 r. pbuf_take p src n s = Some (ERR_OK, s1) \<and>
     chain_bytes s1 ps = block (bytes s) src (unat n) @ drop (unat n) (chain_bytes s ps) \<and>
     pbuf_copy_partial p dst k offset s1 = Some (r, s2) \<and>
     unat r = min (unat k) (length (chain_bytes s ps) - unat offset) \<and>
     block (bytes s2) dst (unat r) = take (unat r) (drop (unat offset) (chain_bytes s1 ps))"
proof -
  have "unat (0 :: u16) + unat n < 65536" using unat16_less [of n] by simp
  with take_loop_store [OF assms(1,2,6), of src 0] assms(8) obtain m where
    m: "take_loop p src n 0 s = Some (ERR_OK, s\<lparr>bytes := m\<rparr>)"
    "chain_bytes (s\<lparr>bytes := m\<rparr>) ps = block (bytes s) src (unat n) @ drop (unat n) (chain_bytes s ps)" by auto
  define s1 where "s1 = s\<lparr>bytes := m\<rparr>"
  have t: "pbuf_take p src n s = Some (ERR_OK, s1)" using m(1) assms(3,4,7) by (simp add: pbuf_take_def s1_def not_less)
  have len: "length (chain_bytes s1 ps) = length (chain_bytes s ps)" using m(2) assms(6) by (simp add: s1_def)
  have "pchain (pb_next s1) p ps" "clear_of s1 ps (dst + of_nat (unat (0 :: u16))) (unat k)" "unat (0 :: u16) + unat k < 65536"
    using assms(1,9) unat16_less [of k] by (simp_all add: s1_def clear_of_store)
  from copy_partial_loop_store [OF this, of offset] obtain r where
    r: "copy_partial_loop p dst k offset 0 0 s1 = Some (r, s1\<lparr>bytes := store_block dst (take (unat k) (drop (unat offset) (chain_bytes s1 ps))) (bytes s1)\<rparr>)"
    "unat r = min (unat k) (length (chain_bytes s ps) - unat offset)" unfolding len by auto
  let ?C = "take (unat k) (drop (unat offset) (chain_bytes s1 ps))"
  have C: "?C = take (unat r) (drop (unat offset) (chain_bytes s1 ps))" "length ?C = unat r" using r(2) len by (simp_all add: min_def)
  have "length ?C \<le> 2 ^ 32" unfolding C(2) using unat16_less [of r] by simp
  from block_store_same [OF this, of dst "bytes s1"] have "block (store_block dst ?C (bytes s1)) dst (unat r) = ?C" unfolding C(2) .
  then have "block (bytes (s1\<lparr>bytes := store_block dst ?C (bytes s1)\<rparr>)) dst (unat r) = take (unat r) (drop (unat offset) (chain_bytes s1 ps))"
    using C(1) by simp
  moreover have "pbuf_copy_partial p dst k offset s1 = Some (r, s1\<lparr>bytes := store_block dst ?C (bytes s1)\<rparr>)"
    using r(1) assms(3,5) by (simp add: pbuf_copy_partial_def)
  ultimately show ?thesis using t m(2) r(2) unfolding s1_def by blast
qed

text \<open>\<open>pbuf_memfind\<close> always returns, and a position it returns lies in the range asked for and holds the pattern.  It
  can miss one: after a mismatch it goes on behind the byte that differed, so a match that begins inside the part
  that agreed, or at the byte that differed, is skipped.  In the packet \<open>aab\<close> it does not find \<open>ab\<close>.\<close>

theorem pbuf_memfind_sound:
  assumes "pchain (pb_next s) p ps" and "unat (tot_len s p) = length (chain_bytes s ps)" and "mem_len \<noteq> 0"
  shows "(\<exists>r. pbuf_memfind p mem mem_len start_offset s = Some r \<and>
     (r = 0xFFFF \<or> start_offset \<le> r \<and> unat r + unat mem_len \<le> length (chain_bytes s ps) \<and> found_at s ps (unat r) mem (unat mem_len))) \<and>
     pbuf_memfind 0x500 0x2000 2 0 (small_packet s0) = Some 0xFFFF \<and>
     chain_bytes (small_packet s0) [0x500] = [97, 97, 98] \<and> found_at (small_packet s0) [0x500] 1 0x2000 2"
proof (intro conjI)
  show "\<exists>r. pbuf_memfind p mem mem_len start_offset s = Some r \<and>
     (r = 0xFFFF \<or> start_offset \<le> r \<and> unat r + unat mem_len \<le> length (chain_bytes s ps) \<and> found_at s ps (unat r) mem (unat mem_len))"
  proof (cases "uint mem_len + uint start_offset \<le> uint (tot_len s p)")
    case True
    then have "uint mem_len \<le> uint (tot_len s p)" unfolding add.commute [of "uint mem_len"] by (rule order_trans [rotated]) simp
    then have le: "unat mem_len \<le> unat (tot_len s p)" by (simp add: word_le_def [symmetric] word_le_nat_alt)
    then have "unat (tot_len s p - mem_len) = length (chain_bytes s ps) - unat mem_len"
      using assms(2) by (simp add: unat16_sub word_le_nat_alt)
    note max = this
    have "length (chain_bytes s ps) < 65536" "unat mem_len \<le> length (chain_bytes s ps)"
      using le assms(2) unat16_less [of "tot_len s p"] by simp_all
    note r = memfind_loop_result [OF assms(1) this(1) assms(3) this(2) max, of mem start_offset]
    have "pbuf_memfind p mem mem_len start_offset s = memfind_loop s p mem mem_len (tot_len s p - mem_len) start_offset"
      unfolding pbuf_memfind_def Let_def using True by (simp only: if_True)
    then show ?thesis using r by (simp only:)
  qed (simp add: pbuf_memfind_def Let_def)
qed (rule small_packet_misses small_packet_has small_packet_found)+

text \<open>A packet of one pbuf, with room for the other copies.\<close>

definition one_pbuf :: "pbufs \<Rightarrow> pbufs" where
  "one_pbuf s = s\<lparr>pb_next := (\<lambda>_. 0), payload := (\<lambda>_. 0x1000), pb_len := (\<lambda>_. 2), tot_len := (\<lambda>_. 2), bytes := (\<lambda>a. ucast a)\<rparr>"

lemma one_pbuf_apart: "i < 2 \<Longrightarrow> j < 2 \<Longrightarrow> (0x1000 :: u32) + of_nat i \<noteq> 0x2000 + of_nat j \<and> (0x1000 :: u32) + of_nat i \<noteq> 0x3000 + of_nat j"
  by (auto simp: less_2_cases_iff)

theorem pbuf_take_copy_witness:
  "\<forall>s :: pbufs.
   \<exists>s1 s2 r. pbuf_take 0x500 0x2000 2 (one_pbuf s) = Some (ERR_OK, s1) \<and> pbuf_copy_partial 0x500 0x3000 2 0 s1 = Some (r, s2) \<and>
     unat r = 2 \<and> block (bytes s2) 0x3000 2 = [0x00, 0x01]"
proof (intro allI)
  fix s :: pbufs
  let ?s = "one_pbuf s"
  have l: "length (chain_bytes ?s [0x500]) = 2" by (simp add: one_pbuf_def)
  have "pchain (pb_next ?s) 0x500 [0x500]" "separate ?s [0x500]" "clear_of ?s [0x500] 0x2000 (unat (2 :: u16))"
    "clear_of ?s [0x500] 0x3000 (unat (2 :: u16))" "(2 :: u16) \<le> tot_len ?s 0x500" "unat (2 :: u16) \<le> length (chain_bytes ?s [0x500])"
    using one_pbuf_apart by (simp_all add: one_pbuf_def clear_of_def disjoint_blocks_def)
  from pbuf_take_copy [OF this(1,2) _ _ _ this(6,5,3,4), of 0] obtain s1 s2 r where
    r: "pbuf_take 0x500 0x2000 2 ?s = Some (ERR_OK, s1)"
    "chain_bytes s1 [0x500] = block (bytes ?s) 0x2000 2 @ drop 2 (chain_bytes ?s [0x500])"
    "pbuf_copy_partial 0x500 0x3000 2 0 s1 = Some (r, s2)" "unat r = 2"
    "block (bytes s2) 0x3000 (unat r) = take (unat r) (chain_bytes s1 [0x500])" using l by auto
  have "block (bytes ?s) 0x2000 2 = [0x00, 0x01]" by (simp add: one_pbuf_def block_def upt_rec)
  then show "\<exists>s1 s2 r. pbuf_take 0x500 0x2000 2 (one_pbuf s) = Some (ERR_OK, s1) \<and> pbuf_copy_partial 0x500 0x3000 2 0 s1 = Some (r, s2) \<and>
     unat r = 2 \<and> block (bytes s2) 0x3000 2 = [0x00, 0x01]" using r l by (intro exI [of _ s1] exI [of _ s2] exI [of _ r]) simp
qed

theorem pbuf_memfind_sound_witness:
  "\<forall>s :: pbufs.
   \<exists>r. pbuf_memfind 0x500 0x2001 1 0 (small_packet s) = Some r \<and>
     (r = 0xFFFF \<or> unat r + 1 \<le> 3 \<and> found_at (small_packet s) [0x500] (unat r) 0x2001 1)"
proof (intro allI)
  fix s :: pbufs
  have "unat (tot_len (small_packet s) 0x500) = length (chain_bytes (small_packet s) [0x500])"
    unfolding small_packet_has(2) by simp
  from pbuf_memfind_sound [OF small_packet_has(1) this, where mem_len = 1 and mem = "0x2001" and start_offset = 0, THEN conjunct1]
  show "\<exists>r. pbuf_memfind 0x500 0x2001 1 0 (small_packet s) = Some r \<and>
     (r = 0xFFFF \<or> unat r + 1 \<le> 3 \<and> found_at (small_packet s) [0x500] (unat r) 0x2001 1)" unfolding small_packet_has(2) by auto
qed

end
