(* ===== verification/PacketLife.thy ===== *)
theory PacketLife
  imports Packets
begin

text \<open>
  The life of packets: the pools of ethernet/core/memp.c as stacks of free elements, and what \<open>pbuf_alloc\<close>, \<open>pbuf_free\<close>,
  \<open>pbuf_cat\<close>, \<open>pbuf_realloc\<close> and \<open>pbuf_header\<close> of ethernet/core/pbuf.c do to chains of their elements.
\<close>

section \<open>Pools as stacks of free elements\<close>

definition pool :: "'a pbufs_scheme \<Rightarrow> memp_t \<Rightarrow> addr list \<Rightarrow> bool" where
  "pool s t xs \<longleftrightarrow> pchain (pb_next s) (memp_tab s t) xs"

lemma memp_malloc_empty: "pool s t [] \<Longrightarrow> memp_malloc t s = (NULL, s)"
  by (simp add: memp_malloc_def pool_def sys_arch_protect_def sys_arch_unprotect_def atom_operate_lock_def atom_operate_unlock_def)

lemma memp_malloc_pop:
  assumes "pool s t (x # xs)"
  shows "memp_malloc t s = (x, s\<lparr>memp_tab := (memp_tab s)(t := pb_next s x)\<rparr>)"
    and "pool (s\<lparr>memp_tab := (memp_tab s)(t := pb_next s x)\<rparr>) t xs" and "x \<noteq> 0"
  using assms
  by (simp_all add: memp_malloc_def pool_def sys_arch_protect_def sys_arch_unprotect_def atom_operate_lock_def atom_operate_unlock_def)

lemma memp_free_push:
  assumes "pool s t xs" and "x \<notin> set xs" and "x \<noteq> 0"
  shows "memp_free t x s = s\<lparr>pb_next := (pb_next s)(x := memp_tab s t), memp_tab := (memp_tab s)(t := x)\<rparr>"
    and "pool (memp_free t x s) t (x # xs)"
proof -
  show "memp_free t x s = s\<lparr>pb_next := (pb_next s)(x := memp_tab s t), memp_tab := (memp_tab s)(t := x)\<rparr>"
    using assms by (simp add: memp_free_def sys_arch_protect_def sys_arch_unprotect_def atom_operate_lock_def atom_operate_unlock_def)
  then show "pool (memp_free t x s) t (x # xs)" using assms by (simp add: pool_def)
qed

text \<open>\<open>memp_init\<close> cuts the memory into the elements of the pools.\<close>

definition carved :: "nat \<Rightarrow> u16 \<Rightarrow> addr \<Rightarrow> addr list" where
  "carved n sz a = map (\<lambda>i. a + of_nat i * ucast sz) [0..<n]"

lemma carved_Suc: "carved (Suc n) sz a = a # carved n sz (a + ucast sz)"
  by (simp add: carved_def upt_conv_Cons map_Suc_upt [symmetric] algebra_simps del: upt_Suc)

lemma memp_carve_pool:
  assumes "pool s t xs" and "distinct (carved n sz a)" and "0 \<notin> set (carved n sz a)" and "set (carved n sz a) \<inter> set xs = {}"
  shows "\<exists>s'. memp_carve n t sz a s = (a + of_nat n * ucast sz, s') \<and> pool s' t (rev (carved n sz a) @ xs) \<and>
     (\<forall>u. u \<noteq> t \<longrightarrow> memp_tab s' u = memp_tab s u) \<and> (\<forall>q. q \<notin> set (carved n sz a) \<longrightarrow> pb_next s' q = pb_next s q)"
  using assms
proof (induction n arbitrary: a s xs)
  case 0
  then show ?case by (simp add: carved_def)
next
  case (Suc n)
  let ?s = "s\<lparr>pb_next := (pb_next s)(a := memp_tab s t), memp_tab := (memp_tab s)(t := a)\<rparr>"
  have "pool ?s t (a # xs)" using Suc.prems by (simp add: pool_def carved_Suc)
  moreover have "distinct (carved n sz (a + ucast sz))" "0 \<notin> set (carved n sz (a + ucast sz))"
    "set (carved n sz (a + ucast sz)) \<inter> set (a # xs) = {}" using Suc.prems by (auto simp: carved_Suc)
  ultimately obtain s' where s': "memp_carve n t sz (a + ucast sz) ?s = (a + ucast sz + of_nat n * ucast sz, s')"
    "pool s' t (rev (carved n sz (a + ucast sz)) @ a # xs)" "\<forall>u. u \<noteq> t \<longrightarrow> memp_tab s' u = memp_tab ?s u"
    "\<forall>q. q \<notin> set (carved n sz (a + ucast sz)) \<longrightarrow> pb_next s' q = pb_next ?s q"
    using Suc.IH by blast
  then show ?case by (intro exI [of _ s']) (simp add: carved_Suc algebra_simps)
qed

section \<open>Releasing a chain of pool elements\<close>

definition pooled :: "'a pbufs_scheme \<Rightarrow> addr \<Rightarrow> bool" where
  "pooled s q \<longleftrightarrow> pb_type s q = PBUF_POOL \<and> pb_flags s q AND PBUF_FLAG_IS_CUSTOM = 0"

definition same_data :: "'a pbufs_scheme \<Rightarrow> 'a pbufs_scheme \<Rightarrow> bool" where
  "same_data s' s \<longleftrightarrow> bytes s' = bytes s \<and> payload s' = payload s \<and> pb_len s' = pb_len s \<and> tot_len s' = tot_len s \<and>
     pb_type s' = pb_type s \<and> pb_flags s' = pb_flags s"

lemma same_data_trans: "same_data a b \<Longrightarrow> same_data b c \<Longrightarrow> same_data a c"
  by (simp add: same_data_def)

lemma same_data_bytes: "same_data s' s \<Longrightarrow> chain_bytes s' = chain_bytes s"
  by (rule ext) (auto simp: same_data_def intro: chain_bytes_cong)

text \<open>The pbufs that a release gives back: those at the front with one reference.\<close>

definition sole :: "'a pbufs_scheme \<Rightarrow> addr list \<Rightarrow> addr list" where
  "sole s ps = takeWhile (\<lambda>q. pb_ref s q = 1) ps"

definition rest_of :: "'a pbufs_scheme \<Rightarrow> addr list \<Rightarrow> addr list" where
  "rest_of s ps = dropWhile (\<lambda>q. pb_ref s q = 1) ps"

lemma pbuf_free_loop_pool:
  assumes "pchain (pb_next s) p ps" and "pool s MEMP_PBUF_POOL xs" and "distinct (ps @ xs)" and "\<forall>q\<in>set ps. pooled s q"
  shows "\<exists>s'. pbuf_free_loop env p n s = Some (Returned (n + of_nat (length (sole s ps))), s') \<and>
     pool s' MEMP_PBUF_POOL (rev (sole s ps) @ xs) \<and>
     pchain (pb_next s') (case rest_of s ps of [] \<Rightarrow> NULL | q # _ \<Rightarrow> q) (rest_of s ps) \<and>
     same_data s' s \<and>
     (\<forall>q. q \<notin> set (sole s ps) \<longrightarrow> pb_next s' q = pb_next s q) \<and>
     (\<forall>u. u \<noteq> MEMP_PBUF_POOL \<longrightarrow> memp_tab s' u = memp_tab s u) \<and>
     (\<forall>q. q \<notin> set (sole s ps) \<longrightarrow> pb_ref s' q = (if [q] = take 1 (rest_of s ps) then pb_ref s q - 1 else pb_ref s q))"
  using assms
proof (induction ps arbitrary: p n s xs)
  case Nil
  then show ?case by (intro exI [of _ s]) (simp add: pbuf_free_loop.simps sole_def rest_of_def same_data_def)
next
  case (Cons q qs)
  have q: "p = q" "q \<noteq> 0" and rest: "pchain (pb_next s) (pb_next s q) qs" using Cons.prems(1) by simp_all
  let ?s1 = "s\<lparr>pb_ref := (pb_ref s)(q := pb_ref s q - 1)\<rparr>"
  show ?case
  proof (cases "pb_ref s q = 1")
    case False
    then have "pbuf_free_loop env p n s = Some (Returned n, ?s1)"
      using q by (simp add: pbuf_free_loop.simps [of env q] sys_arch_protect_def sys_arch_unprotect_def
        atom_operate_lock_def atom_operate_unlock_def Let_def)
    then show ?thesis using False q rest Cons.prems(2)
      by (intro exI [of _ ?s1]) (simp add: sole_def rest_of_def same_data_def pool_def)
  next
    case True
    let ?s2 = "memp_free MEMP_PBUF_POOL q ?s1"
    have p1: "pool ?s1 MEMP_PBUF_POOL xs" using Cons.prems(2) by (simp add: pool_def)
    have qx: "q \<notin> set xs" "q \<notin> set qs" using Cons.prems(3) by auto
    note push = memp_free_push [OF p1 qx(1) q(2)]
    have e: "pbuf_free_loop env p n s = pbuf_free_loop env (pb_next s q) (n + 1) ?s2"
      using True q Cons.prems(4)
      by (subst pbuf_free_loop.simps) (simp add: sys_arch_protect_def sys_arch_unprotect_def
        atom_operate_lock_def atom_operate_unlock_def Let_def pbuf_release_def pooled_def)
    have r2: "pchain (pb_next ?s2) (pb_next s q) qs" using rest qx(2) by (simp add: push(1))
    have d2: "distinct (qs @ q # xs)" using Cons.prems(3) by auto
    have t2: "\<forall>r\<in>set qs. pooled ?s2 r" using Cons.prems(4) by (simp add: push(1) pooled_def)
    have ref: "pb_ref ?s2 r = pb_ref s r" if "r \<in> set qs" for r using that qx(2) by (auto simp: push(1))
    have sole: "sole ?s2 qs = sole s qs" "rest_of ?s2 qs = rest_of s qs"
      unfolding sole_def rest_of_def using ref by (auto intro!: takeWhile_cong dropWhile_cong)
    have sq: "sole s (q # qs) = q # sole s qs" "rest_of s (q # qs) = rest_of s qs" using True by (simp_all add: sole_def rest_of_def)
    from Cons.IH [OF r2 push(2) d2 t2, of "n + 1"] obtain s' where
      h: "pbuf_free_loop env (pb_next s q) (n + 1) ?s2 = Some (Returned (n + 1 + of_nat (length (sole s qs))), s')"
      "pool s' MEMP_PBUF_POOL (rev (sole s qs) @ q # xs)"
      "pchain (pb_next s') (case rest_of s qs of [] \<Rightarrow> NULL | q # _ \<Rightarrow> q) (rest_of s qs)"
      "same_data s' ?s2" "\<forall>q. q \<notin> set (sole s qs) \<longrightarrow> pb_next s' q = pb_next ?s2 q"
      "\<forall>u. u \<noteq> MEMP_PBUF_POOL \<longrightarrow> memp_tab s' u = memp_tab ?s2 u"
      "\<forall>q. q \<notin> set (sole s qs) \<longrightarrow> pb_ref s' q = (if [q] = take 1 (rest_of s qs) then pb_ref ?s2 q - 1 else pb_ref ?s2 q)"
      unfolding sole by blast
    have "same_data s' s" using h(4) by (rule same_data_trans) (simp add: push(1) same_data_def)
    moreover have "pb_ref s' r = (if [r] = take 1 (rest_of s (q # qs)) then pb_ref s r - 1 else pb_ref s r)"
      if "r \<notin> set (sole s (q # qs))" for r
      using that h(7) sq by (simp add: push(1))
    moreover have "pb_next s' r = pb_next s r" if "r \<notin> set (sole s (q # qs))" for r
      using that h(5) sq by (simp add: push(1))
    ultimately show ?thesis
      unfolding e h(1) using h(2,3,6) sq by (intro exI [of _ s']) (simp add: push(1) add.assoc)
  qed
qed

section \<open>Allocating a chain of pool elements\<close>

lemmas post_defs = sys_mbox_trypost_def mail_post_def activate_thread_def scheduler_def list_add_def list_add_between_def
  set_next_def set_prev_def atom_operate_lock_def atom_operate_unlock_def OS_thread_switch_def write_dword_def

lemma trypost_frame [simp]:
  fixes s :: "'a pbufs_scheme"
  shows "pb_next (snd (sys_mbox_trypost mb msg s)) = pb_next s"
    "memp_tab (snd (sys_mbox_trypost mb msg s)) = memp_tab s"
    "bytes (snd (sys_mbox_trypost mb msg s)) = bytes s"
    "payload (snd (sys_mbox_trypost mb msg s)) = payload s"
    "pb_len (snd (sys_mbox_trypost mb msg s)) = pb_len s"
    "tot_len (snd (sys_mbox_trypost mb msg s)) = tot_len s"
    "pb_type (snd (sys_mbox_trypost mb msg s)) = pb_type s"
    "pb_flags (snd (sys_mbox_trypost mb msg s)) = pb_flags s"
    "pb_ref (snd (sys_mbox_trypost mb msg s)) = pb_ref s"
  by (simp_all add: post_defs Let_def split: prod.splits)

definition links_kept :: "'a pbufs_scheme \<Rightarrow> 'a pbufs_scheme \<Rightarrow> bool" where
  "links_kept s' s \<longleftrightarrow> bytes s' = bytes s \<and> payload s' = payload s \<and> pb_len s' = pb_len s \<and> tot_len s' = tot_len s \<and>
     pb_type s' = pb_type s \<and> pb_flags s' = pb_flags s \<and> pb_ref s' = pb_ref s"

lemma pool_is_empty_kept:
  assumes "pool s MEMP_TCPIP_MSG_API ms"
  shows "links_kept (pbuf_pool_is_empty env s) s \<and> (\<forall>q. q \<notin> set ms \<longrightarrow> pb_next (pbuf_pool_is_empty env s) q = pb_next s q) \<and>
     (\<forall>u. u \<noteq> MEMP_TCPIP_MSG_API \<longrightarrow> memp_tab (pbuf_pool_is_empty env s) u = memp_tab s u)"
proof (cases ms)
  case Nil
  then have "memp_tab s MEMP_TCPIP_MSG_API = 0" using assms by (simp add: pool_def)
  then show ?thesis
    by (simp add: pbuf_pool_is_empty_def tcpip_callback_nonblock_def links_kept_def Let_def memp_malloc_def
        sys_arch_protect_def sys_arch_unprotect_def atom_operate_lock_def atom_operate_unlock_def)
next
  case (Cons m ms')
  then have "memp_tab s MEMP_TCPIP_MSG_API = m" "m \<noteq> 0" using assms by (simp_all add: pool_def)
  then show ?thesis using Cons
    by (simp add: pbuf_pool_is_empty_def tcpip_callback_nonblock_def links_kept_def Let_def memp_malloc_def memp_free_def split_beta
        sys_arch_protect_def sys_arch_unprotect_def atom_operate_lock_def atom_operate_unlock_def)
qed

text \<open>The lengths of the pbufs that hold \<open>n\<close> bytes.\<close>

fun chunks :: "nat \<Rightarrow> nat list" where
  "chunks n = (if n = 0 then [] else min n 1500 # chunks (n - 1500))"

declare chunks.simps [simp del]

lemma chunks_0 [simp]: "chunks 0 = []"
  by (simp add: chunks.simps)

lemma chunks_pos: "0 < n \<Longrightarrow> chunks n = min n 1500 # chunks (n - 1500)"
  by (subst chunks.simps) simp

lemma sum_chunks [simp]: "sum_list (chunks n) = n"
  by (induction n rule: chunks.induct) (subst chunks.simps, simp add: min_def)

text \<open>\<open>tot_len\<close> counts the bytes from a pbuf on.\<close>

fun tot_ok :: "'a pbufs_scheme \<Rightarrow> addr list \<Rightarrow> bool" where
  "tot_ok s [] \<longleftrightarrow> True"
| "tot_ok s (q # qs) \<longleftrightarrow> unat (tot_len s q) = length (chain_bytes s (q # qs)) \<and> tot_ok s qs"

lemma chunks_le: "x \<in> set (chunks n) \<Longrightarrow> x \<le> 1500"
  proof (induction n rule: chunks.induct)
  case (1 n)
  then show ?case by (cases "n = 0") (auto simp: chunks_pos)
qed

lemma length_chain_bytes: "length (chain_bytes s qs) = sum_list (map (\<lambda>q. unat (pb_len s q)) qs)"
  by (induction qs) simp_all

definition fields_kept :: "'a pbufs_scheme \<Rightarrow> 'a pbufs_scheme \<Rightarrow> addr \<Rightarrow> bool" where
  "fields_kept s' s q \<longleftrightarrow> payload s' q = payload s q \<and> pb_len s' q = pb_len s q \<and> tot_len s' q = tot_len s q \<and>
     pb_type s' q = pb_type s q \<and> pb_flags s' q = pb_flags s q \<and> pb_ref s' q = pb_ref s q"

definition fresh :: "'a pbufs_scheme \<Rightarrow> addr \<Rightarrow> bool" where
  "fresh s q \<longleftrightarrow> pb_ref s q = 1 \<and> pb_type s q = PBUF_POOL \<and> pb_flags s q = 0 \<and> payload s q = q + SIZEOF_STRUCT_PBUF"

lemma fresh_pooled: "fresh s q \<Longrightarrow> pooled s q"
  by (simp add: fresh_def pooled_def)

lemma tot_ok_cong: "(\<And>q. q \<in> set qs \<Longrightarrow> fields_kept s' s q) \<Longrightarrow> tot_ok s' qs = tot_ok s qs"
  by (induction qs) (auto simp: fields_kept_def length_chain_bytes cong: map_cong)

lemma tot_ok_fields: "pb_len s' = pb_len s \<Longrightarrow> tot_len s' = tot_len s \<Longrightarrow> tot_ok s' qs = tot_ok s qs"
  by (induction qs) (simp_all add: length_chain_bytes)

lemma pchain_snoc:
  "pchain nx p (us @ [r]) \<Longrightarrow> x \<noteq> 0 \<Longrightarrow> distinct (us @ [r, x]) \<Longrightarrow> pchain (nx(x := 0, r := x)) p (us @ [r, x])"
  by (induction us arbitrary: p) auto

lemma pool_link_fields:
  "n < 65536 \<Longrightarrow> pb_len (pbuf_pool_link r x (int n) s) x = of_nat (min n 1500) \<and> tot_len (pbuf_pool_link r x (int n) s) x = of_nat n"
  by (simp add: pbuf_pool_link_def min_def word_le_nat_alt unsigned_of_nat take_bit_nat_eq_self)

lemma unat16_of_nat: "n < 65536 \<Longrightarrow> unat (of_nat n :: u16) = n"
  by (simp add: unsigned_of_nat take_bit_nat_eq_self)

text \<open>Only what belongs to pbufs and their pools has changed.\<close>

definition pb_only :: "'a pbufs_scheme \<Rightarrow> 'a pbufs_scheme \<Rightarrow> bool" where
  "pb_only s' s \<longleftrightarrow> (\<exists>nx pl tt ln ty fl rf mt. s' = s\<lparr>pb_next := nx, payload := pl, tot_len := tt, pb_len := ln, pb_type := ty,
     pb_flags := fl, pb_ref := rf, memp_tab := mt\<rparr>)"

lemma pb_only_trans: "pb_only a b \<Longrightarrow> pb_only b c \<Longrightarrow> pb_only a c"
  unfolding pb_only_def by (elim exE) (simp, blast)

lemma pb_only_upd:
  "pb_only (s\<lparr>pb_next := nx\<rparr>) s" "pb_only (s\<lparr>payload := pl\<rparr>) s" "pb_only (s\<lparr>tot_len := tt\<rparr>) s" "pb_only (s\<lparr>pb_len := ln\<rparr>) s"
  "pb_only (s\<lparr>pb_type := ty\<rparr>) s" "pb_only (s\<lparr>pb_flags := fl\<rparr>) s" "pb_only (s\<lparr>pb_ref := rf\<rparr>) s" "pb_only (s\<lparr>memp_tab := mt\<rparr>) s"
  unfolding pb_only_def by (cases s; simp; blast?)+

lemma pb_only_refl: "pb_only s s"
  unfolding pb_only_def by (cases s) simp

lemma pb_only_link: "pb_only (pbuf_pool_link r x n (s\<lparr>memp_tab := mt\<rparr>)) s"
  unfolding pbuf_pool_link_def Let_def by ((rule pb_only_trans, rule pb_only_upd)+, rule pb_only_refl)

lemma pb_only_head: "pb_only (pbuf_pool_head offset len x (s\<lparr>memp_tab := mt\<rparr>)) s"
  unfolding pbuf_pool_head_def Let_def by ((rule pb_only_trans, rule pb_only_upd)+, rule pb_only_refl)

lemma pb_only_bytes: "pb_only s' s \<Longrightarrow> bytes s' = bytes s"
  by (auto simp: pb_only_def)

lemma pool_loop_step:
  assumes "pchain (pb_next s) p (us @ [r])" and "pool s MEMP_PBUF_POOL (x # xs)" and "distinct (us @ [r] @ x # xs)"
    and "0 < n" and "n < 65536"
  defines "s' \<equiv> pbuf_pool_link r x (int n) (s\<lparr>memp_tab := (memp_tab s)(MEMP_PBUF_POOL := pb_next s x)\<rparr>)"
  shows "pbuf_pool_loop env p r (int n) s = pbuf_pool_loop env p x (int (n - 1500)) s'"
    and "pchain (pb_next s') p ((us @ [r]) @ [x])" and "pool s' MEMP_PBUF_POOL xs" and "fresh s' x"
    and "unat (pb_len s' x) = min n 1500" and "unat (tot_len s' x) = n"
    and "\<forall>q. q \<noteq> x \<longrightarrow> fields_kept s' s q" and "pb_only s' s"
    and "\<forall>u. u \<noteq> MEMP_PBUF_POOL \<longrightarrow> memp_tab s' u = memp_tab s u"
    and "\<forall>q. q \<notin> {r, x} \<longrightarrow> pb_next s' q = pb_next s q"
proof -
  note pop = memp_malloc_pop [OF assms(2)]
  have len: "pb_len s' x = of_nat (min n 1500)" and tot: "tot_len s' x = of_nat n"
    using pool_link_fields [OF assms(5)] unfolding s'_def by blast+
  show ul: "unat (pb_len s' x) = min n 1500" using assms(5) by (simp add: len unat16_of_nat)
  show "unat (tot_len s' x) = n" using assms(5) by (simp add: tot unat16_of_nat)
  have "uint (pb_len s' x) = int (min n 1500)" using ul by (simp only: uint_nat)
  then have "int n - uint (pb_len s' x) = int (n - 1500)" by (simp add: min_def)
  then show "pbuf_pool_loop env p r (int n) s = pbuf_pool_loop env p x (int (n - 1500)) s'"
    using pop(1,3) assms(4) by (subst pbuf_pool_loop.simps) (simp add: s'_def)
  have "pb_next s' = (pb_next s)(x := 0, r := x)" by (simp add: s'_def pbuf_pool_link_def)
  then show "pchain (pb_next s') p ((us @ [r]) @ [x])" using pchain_snoc [OF assms(1) pop(3)] assms(3) by simp
  show "pool s' MEMP_PBUF_POOL xs" using assms(2,3) by (simp add: pool_def s'_def pbuf_pool_link_def)
  show "fresh s' x" by (simp add: fresh_def s'_def pbuf_pool_link_def)
  show "\<forall>q. q \<noteq> x \<longrightarrow> fields_kept s' s q" by (simp add: fields_kept_def s'_def pbuf_pool_link_def)
  show "pb_only s' s" unfolding s'_def by (rule pb_only_link)
  show "\<forall>u. u \<noteq> MEMP_PBUF_POOL \<longrightarrow> memp_tab s' u = memp_tab s u" by (simp add: s'_def pbuf_pool_link_def)
  show "\<forall>q. q \<notin> {r, x} \<longrightarrow> pb_next s' q = pb_next s q" by (simp add: s'_def pbuf_pool_link_def)
qed

lemma fields_kept_trans: "fields_kept a b q \<Longrightarrow> fields_kept b c q \<Longrightarrow> fields_kept a c q"
  by (simp add: fields_kept_def)

lemma fresh_kept: "fields_kept s' s q \<Longrightarrow> fresh s q \<Longrightarrow> fresh s' q"
  by (simp add: fields_kept_def fresh_def)

lemma pool_loop_enough:
  assumes "pchain (pb_next s) p (us @ [r])" and "pool s MEMP_PBUF_POOL xs" and "distinct (us @ [r] @ xs)"
    and "n < 65536" and "length (chunks n) \<le> length xs"
  shows "\<exists>s'. pbuf_pool_loop env p r (int n) s = Some (Returned p, s') \<and>
     pchain (pb_next s') p (us @ [r] @ take (length (chunks n)) xs) \<and> pool s' MEMP_PBUF_POOL (drop (length (chunks n)) xs) \<and>
     map (\<lambda>q. unat (pb_len s' q)) (take (length (chunks n)) xs) = chunks n \<and> tot_ok s' (take (length (chunks n)) xs) \<and>
     (\<forall>q\<in>set (take (length (chunks n)) xs). fresh s' q) \<and> pb_only s' s \<and>
     (\<forall>q. q \<notin> set (take (length (chunks n)) xs) \<longrightarrow> fields_kept s' s q) \<and>
     (\<forall>u. u \<noteq> MEMP_PBUF_POOL \<longrightarrow> memp_tab s' u = memp_tab s u)"
  using assms
proof (induction n arbitrary: s us r xs rule: chunks.induct)
  case (1 n)
  show ?case
  proof (cases "n = 0")
    case True
    then show ?thesis using 1(2,3) by (intro exI [of _ s]) (simp add: pbuf_pool_loop.simps fields_kept_def pb_only_refl)
  next
    case False
    have ch: "chunks n = min n 1500 # chunks (n - 1500)" using False by (simp add: chunks_pos)
    obtain x ys where xs: "xs = x # ys" using 1(6) ch by (cases xs) auto
    have n: "0 < n" using False by simp
    define s1 where "s1 = pbuf_pool_link r x (int n) (s\<lparr>memp_tab := (memp_tab s)(MEMP_PBUF_POOL := pb_next s x)\<rparr>)"
    note st = pool_loop_step [OF 1(2) 1(3) [unfolded xs] 1(4) [unfolded xs] n 1(5), folded s1_def]
    have d: "distinct ((us @ [r]) @ [x] @ ys)" "n - 1500 < 65536" "length (chunks (n - 1500)) \<le> length ys"
      using 1(4,5,6) xs ch by auto
    let ?y = "take (length (chunks (n - 1500))) ys"
    from 1(1) [OF False st(2,3) d] obtain s' where
      h: "pbuf_pool_loop env p x (int (n - 1500)) s1 = Some (Returned p, s')"
      "pchain (pb_next s') p ((us @ [r]) @ [x] @ ?y)" "pool s' MEMP_PBUF_POOL (drop (length (chunks (n - 1500))) ys)"
      "map (\<lambda>q. unat (pb_len s' q)) ?y = chunks (n - 1500)" "tot_ok s' ?y" "\<forall>q\<in>set ?y. fresh s' q" "pb_only s' s1"
      "\<forall>q. q \<notin> set ?y \<longrightarrow> fields_kept s' s1 q" "\<forall>u. u \<noteq> MEMP_PBUF_POOL \<longrightarrow> memp_tab s' u = memp_tab s1 u"
      by blast
    have "x \<notin> set ?y" using d(1) by (auto dest: in_set_takeD)
    then have kx: "fields_kept s' s1 x" using h(8) by blast
    have lx: "unat (pb_len s' x) = min n 1500" "unat (tot_len s' x) = n" using kx st(5,6) by (simp_all add: fields_kept_def)
    have "tot_ok s' (x # ?y)" using h(4,5) lx by (simp add: length_chain_bytes min_def)
    moreover have "fields_kept s' s q" if "q \<notin> set (x # ?y)" for q
      using that h(8) st(7) by (auto intro: fields_kept_trans)
    moreover have "fresh s' q" if "q \<in> set (x # ?y)" for q
      using that h(6) fresh_kept [OF kx st(4)] by auto
    ultimately show ?thesis
      using h st(1,9) pb_only_trans [OF h(7) st(8)] lx unfolding ch xs by (intro exI [of _ s']) simp
  qed
qed

lemma sole_all: "(\<And>q. q \<in> set ps \<Longrightarrow> pb_ref s q = 1) \<Longrightarrow> sole s ps = ps \<and> rest_of s ps = []"
  by (auto simp: sole_def rest_of_def takeWhile_eq_all_conv dropWhile_eq_Nil_conv)

lemma pool_loop_short:
  assumes "pchain (pb_next s) p (us @ [r])" and "pool s MEMP_PBUF_POOL xs" and "distinct (us @ [r] @ xs)"
    and "n < 65536" and "length xs < length (chunks n)" and "\<forall>q\<in>set (us @ [r]). pooled s q \<and> pb_ref s q = 1"
    and "pool s MEMP_TCPIP_MSG_API ms" and "set ms \<inter> set (us @ [r] @ xs) = {}"
  shows "\<exists>s'. pbuf_pool_loop env p r (int n) s = Some (Returned NULL, s') \<and>
     pool s' MEMP_PBUF_POOL (rev (us @ [r] @ xs)) \<and> bytes s' = bytes s"
  using assms
proof (induction n arbitrary: s us r xs rule: chunks.induct)
  case (1 n)
  have n: "n \<noteq> 0" using 1(6) by (cases "n = 0") auto
  then have ch: "chunks n = min n 1500 # chunks (n - 1500)" by (simp add: chunks_pos)
  show ?case
  proof (cases xs)
    case Nil
    let ?s = "pbuf_pool_is_empty env s"
    have k: "links_kept ?s s" "\<And>q. q \<in> set (us @ [r]) \<Longrightarrow> pb_next ?s q = pb_next s q" "memp_tab ?s MEMP_PBUF_POOL = memp_tab s MEMP_PBUF_POOL"
      using pool_is_empty_kept [OF 1(8), of env] 1(9) by auto
    have c: "pchain (pb_next ?s) p (us @ [r])" using 1(2) k(2) by (subst pchain_cong)
    have po: "pool ?s MEMP_PBUF_POOL []" using 1(3) Nil k(3) by (simp add: pool_def)
    have ty: "\<forall>q\<in>set (us @ [r]). pooled ?s q" using 1(7) k(1) by (simp add: pooled_def links_kept_def)
    have "pb_ref ?s q = 1" if "q \<in> set (us @ [r])" for q using that 1(7) k(1) by (auto simp: links_kept_def)
    then have "sole ?s (us @ [r]) = us @ [r]" using sole_all by blast
    then obtain s' where s': "pbuf_free_loop env p 0 ?s = Some (Returned (of_nat (length (us @ [r]))), s')"
      "pool s' MEMP_PBUF_POOL (rev (us @ [r]))" "same_data s' ?s"
      using pbuf_free_loop_pool [OF c po _ ty, of env 0] 1(4) by auto
    have "p \<noteq> 0" using 1(2) by (cases us) auto
    then have "pbuf_pool_loop env p r (int n) s = Some (Returned NULL, s')"
      using n s'(1) memp_malloc_empty [OF 1(3) [unfolded Nil]]
      by (subst pbuf_pool_loop.simps) (simp add: after_def pbuf_free_def Let_def)
    then show ?thesis using s' k(1) Nil by (auto simp: same_data_def links_kept_def)
  next
    case (Cons x ys)
    define s1 where "s1 = pbuf_pool_link r x (int n) (s\<lparr>memp_tab := (memp_tab s)(MEMP_PBUF_POOL := pb_next s x)\<rparr>)"
    note st = pool_loop_step [OF 1(2) 1(3) [unfolded Cons] 1(4) [unfolded Cons] _ 1(5), folded s1_def]
    have n0: "0 < n" using n by simp
    have d: "distinct ((us @ [r]) @ [x] @ ys)" "n - 1500 < 65536" "length ys < length (chunks (n - 1500))"
      using 1(4,5,6) Cons ch by auto
    have "pooled s1 q \<and> pb_ref s1 q = 1" if "q \<in> set ((us @ [r]) @ [x])" for q
    proof (cases "q = x")
      case True
      then show ?thesis using st(4) [OF n0] fresh_pooled [of s1 x] by (simp add: fresh_def)
    next
      case False
      then have "fields_kept s1 s q" using st(7) [OF n0] by blast
      moreover have "pooled s q \<and> pb_ref s q = 1" using that False 1(7) by auto
      ultimately show ?thesis by (simp add: fields_kept_def pooled_def)
    qed
    moreover have "pool s1 MEMP_TCPIP_MSG_API ms"
    proof -
      have nx: "pb_next s1 q = pb_next s q" if "q \<in> set ms" for q using that 1(9) st(10) [OF n0] Cons by auto
      have mt: "memp_tab s1 MEMP_TCPIP_MSG_API = memp_tab s MEMP_TCPIP_MSG_API" using st(9) [OF n0] by simp
      have "pchain (pb_next s1) a ms = pchain (pb_next s) a ms" for a by (rule pchain_cong) (rule nx)
      then show ?thesis using 1(8) mt unfolding pool_def by (simp only:)
    qed
    moreover have "set ms \<inter> set ((us @ [r]) @ [x] @ ys) = {}" using 1(9) Cons by auto
    ultimately obtain s' where "pbuf_pool_loop env p x (int (n - 1500)) s1 = Some (Returned NULL, s')"
      "pool s' MEMP_PBUF_POOL (rev ((us @ [r]) @ [x] @ ys))" "bytes s' = bytes s1"
      using 1(1) [OF n st(2,3) [OF n0] d] by blast
    then show ?thesis unfolding st(1) [OF n0] pb_only_bytes [OF st(8) [OF n0]] Cons by (intro exI [of _ s']) simp
  qed
qed

text \<open>The length of the first pbuf and the number of elements that a packet needs.\<close>

definition head_len :: "u16 \<Rightarrow> u16 \<Rightarrow> nat" where
  "head_len offset len = min (unat len) (1500 - unat offset)"

definition tail_count :: "u16 \<Rightarrow> u16 \<Rightarrow> nat" where
  "tail_count offset len = length (chunks (unat len - head_len offset len))"

lemma pbuf_offset_cases: "pbuf_offset layer = Some offset \<Longrightarrow> offset = 56 \<or> offset = 36 \<or> offset = 16 \<or> offset = 0"
  by (auto simp: pbuf_offset_def split: if_splits)

lemma pool_head_len:
  assumes "pbuf_offset layer = Some offset"
  shows "unat (pb_len (pbuf_pool_head offset len p s) p) = head_len offset len"
proof -
  have u: "unat (ucast len :: u32) = unat len"
    using unat16_less [of len] by (simp add: unsigned_ucast_eq take_bit_nat_eq_self)
  have "unat (ucast (min (ucast len :: u32) c) :: u16) = min (unat len) (unat c)" for c :: u32
  proof -
    have "min (unat len) (unat c) < 65536" using unat16_less [of len] by simp
    then have "unat (min (ucast len :: u32) c) < 65536" using u by (simp add: min_def word_le_nat_alt split: if_splits)
    then have "unat (ucast (min (ucast len :: u32) c) :: u16) = unat (min (ucast len :: u32) c)"
      by (simp add: unsigned_ucast_eq take_bit_nat_eq_self)
    then show ?thesis using u by (simp add: min_def word_le_nat_alt)
  qed
  note min = this
  from pbuf_offset_cases [OF assms] show ?thesis
    by (elim disjE) (simp_all add: pbuf_pool_head_def min head_len_def LWIP_MEM_ALIGN_SIZE_def)
qed

lemma alloc_pool_start:
  fixes len :: u16
  assumes "pbuf_offset layer = Some offset" and "pool s MEMP_PBUF_POOL (x # xs)" and "distinct (x # xs)"
  defines "s1 \<equiv> pbuf_pool_head offset len x (s\<lparr>memp_tab := (memp_tab s)(MEMP_PBUF_POOL := pb_next s x)\<rparr>)"
  shows "pbuf_alloc env layer len PBUF_POOL s = after (pbuf_pool_loop env x x (int (unat len - head_len offset len)) s1) pbuf_init_flags"
    and "pchain (pb_next s1) x ([] @ [x])" and "pool s1 MEMP_PBUF_POOL xs"
    and "unat (pb_len s1 x) = head_len offset len" and "x \<noteq> 0"
proof -
  note pop = memp_malloc_pop [OF assms(2)]
  show hl: "unat (pb_len s1 x) = head_len offset len" using pool_head_len [OF assms(1)] by (simp add: s1_def)
  have "head_len offset len \<le> unat len" by (simp add: head_len_def)
  moreover have "uint len = int (unat len)" "uint (pb_len s1 x) = int (unat (pb_len s1 x))" by (simp_all only: uint_nat)
  ultimately have rem: "uint len - uint (pb_len s1 x) = int (unat len - head_len offset len)" using hl by simp
  show "pbuf_alloc env layer len PBUF_POOL s = after (pbuf_pool_loop env x x (int (unat len - head_len offset len)) s1) pbuf_init_flags"
    using assms(1) pop(1,3) by (simp add: pbuf_alloc_def pbuf_alloc_pool_def s1_def [symmetric] rem)
  show "pchain (pb_next s1) x ([] @ [x])" using pop(3) by (simp add: s1_def pbuf_pool_head_def)
  show "pool s1 MEMP_PBUF_POOL xs" using assms(2,3) by (simp add: s1_def pbuf_pool_head_def pool_def)
  show "x \<noteq> 0" by (rule pop(3))
qed

lemma alloc_pool_enough:
  fixes len :: u16
  assumes "pbuf_offset layer = Some offset" and "pool s MEMP_PBUF_POOL (x # xs)" and "distinct (x # xs)"
    and "tail_count offset len \<le> length xs"
  defines "k \<equiv> tail_count offset len"
  shows "\<exists>s'. pbuf_alloc env layer len PBUF_POOL s = Some (Returned x, s') \<and>
       pchain (pb_next s') x (x # take k xs) \<and> pool s' MEMP_PBUF_POOL (drop k xs) \<and>
       length (chain_bytes s' (x # take k xs)) = unat len \<and> tot_ok s' (x # take k xs) \<and>
       (\<forall>q\<in>set (x # take k xs). pooled s' q \<and> pb_ref s' q = 1) \<and> pb_only s' s \<and>
       payload s' x = LWIP_MEM_ALIGN (x + (SIZEOF_STRUCT_PBUF + ucast offset)) \<and>
       unat (pb_len s' x) = head_len offset len \<and>
       (\<forall>q\<in>set (take k xs). payload s' q = q + SIZEOF_STRUCT_PBUF \<and> unat (pb_len s' q) \<le> 1500)"
proof -
  define s1 where "s1 = pbuf_pool_head offset len x (s\<lparr>memp_tab := (memp_tab s)(MEMP_PBUF_POOL := pb_next s x)\<rparr>)"
  note st = alloc_pool_start(1) [OF assms(1-3), of env len, folded s1_def] alloc_pool_start(2-4) [OF assms(1-3), of len, folded s1_def]
    alloc_pool_start(5) [OF assms(1-3)]
  let ?n = "unat len - head_len offset len"
  have kn: "k = length (chunks ?n)" by (simp add: k_def tail_count_def)
  have hle: "head_len offset len \<le> unat len" by (simp add: head_len_def)
  have d: "distinct ([] @ [x] @ xs)" using assms(3) by simp
  have n: "?n < 65536" using unat16_less [of len] by simp
  have px: "pb_type s1 x = PBUF_POOL" "unat (tot_len s1 x) = unat len" "payload s1 x = LWIP_MEM_ALIGN (x + (SIZEOF_STRUCT_PBUF + ucast offset))"
    by (simp_all add: s1_def pbuf_pool_head_def)
  obtain s' where h: "pbuf_pool_loop env x x (int ?n) s1 = Some (Returned x, s')"
    "pchain (pb_next s') x ([] @ [x] @ take k xs)" "pool s' MEMP_PBUF_POOL (drop k xs)"
    "map (\<lambda>q. unat (pb_len s' q)) (take k xs) = chunks ?n" "tot_ok s' (take k xs)"
    "\<forall>q\<in>set (take k xs). fresh s' q" "pb_only s' s1" "\<forall>q. q \<notin> set (take k xs) \<longrightarrow> fields_kept s' s1 q"
    using pool_loop_enough [OF st(2,3) d n, of env] assms(4) unfolding kn k_def [symmetric] by blast
  define s2 where "s2 = s'\<lparr>pb_ref := (pb_ref s')(x := 1), pb_flags := (pb_flags s')(x := 0)\<rparr>"
  have "x \<notin> set (take k xs)" using d by (auto dest: in_set_takeD)
  then have kx: "fields_kept s' s1 x" using h(8) by blast
  have eq: "pb_next s2 = pb_next s'" "pool s2 MEMP_PBUF_POOL (drop k xs) = pool s' MEMP_PBUF_POOL (drop k xs)"
    "chain_bytes s2 = chain_bytes s'" "payload s2 = payload s'" "pb_len s2 = pb_len s'"
    by (simp_all add: s2_def pool_def fun_eq_iff chain_bytes_cong)
  have to: "tot_ok s2 (take k xs)" using tot_ok_fields [of s2 s'] h(5) by (simp add: s2_def)
  have len: "length (chain_bytes s2 (x # take k xs)) = unat len"
    using kx st(4) h(4) hle by (simp add: eq length_chain_bytes fields_kept_def)
  have "unat (pb_len s' q) \<le> 1500" if "q \<in> set (take k xs)" for q
  proof -
    have "unat (pb_len s' q) \<in> set (chunks ?n)" unfolding h(4) [symmetric] using that by simp
    then show ?thesis by (rule chunks_le)
  qed
  moreover have "payload s' q = q + SIZEOF_STRUCT_PBUF" if "q \<in> set (take k xs)" for q using that h(6) by (auto simp: fresh_def)
  moreover have "unat (tot_len s2 x) = unat len" using kx px(2) by (simp add: s2_def fields_kept_def)
  moreover have "pooled s2 q \<and> pb_ref s2 q = 1" if "q \<in> set (x # take k xs)" for q
  proof (cases "q = x")
    case True
    then show ?thesis using kx px(1) by (simp add: s2_def pooled_def fields_kept_def)
  next
    case False
    then have "fresh s' q" using that h(6) by simp
    then show ?thesis using False by (simp add: s2_def pooled_def fresh_def)
  qed
  moreover have "pbuf_alloc env layer len PBUF_POOL s = Some (Returned x, s2)"
    unfolding st(1) h(1) using st(5) by (simp add: after_def pbuf_init_flags_def s2_def)
  moreover have "pb_only s2 s"
  proof -
    have "pb_only s2 s'" unfolding s2_def by ((rule pb_only_trans, rule pb_only_upd)+, rule pb_only_refl)
    moreover have "pb_only s1 s" unfolding s1_def by (rule pb_only_head)
    ultimately show ?thesis using h(7) pb_only_trans by blast
  qed
  ultimately show ?thesis using h(2,3) kx st(4) px(3) to eq len
    by (intro exI [of _ s2]) (simp add: fields_kept_def del: chain_bytes_simps)
qed

section \<open>Properties\<close>

text \<open>C24: A packet from the pool is all or nothing.  When the pool has elements enough, \<open>pbuf_alloc\<close> returns the first of
  a chain of them that has exactly the bytes asked for, with consistent total lengths and one reference to each.
  When it has too few, \<open>pbuf_alloc\<close> returns \<open>NULL\<close> and every element is back in the pool.  The second part
  needs that the flags the element happened to have when it was last released do not mark it as custom, since
  they are only cleared at the end.\<close>

theorem pbuf_alloc_pool_result:
  assumes "pbuf_offset layer = Some offset" and "pool s MEMP_PBUF_POOL (x # xs)" and "distinct (x # xs)"
    and "pool s MEMP_TCPIP_MSG_API ms" and "set ms \<inter> set (x # xs) = {}" and "pb_flags s x AND PBUF_FLAG_IS_CUSTOM = 0"
  shows "let k = tail_count offset len in
     if k \<le> length xs
     then \<exists>s'. pbuf_alloc env layer len PBUF_POOL s = Some (Returned x, s') \<and>
       pchain (pb_next s') x (x # take k xs) \<and> pool s' MEMP_PBUF_POOL (drop k xs) \<and>
       length (chain_bytes s' (x # take k xs)) = unat len \<and> tot_ok s' (x # take k xs) \<and>
       (\<forall>q\<in>set (x # take k xs). pooled s' q \<and> pb_ref s' q = 1)
     else \<exists>s'. pbuf_alloc env layer len PBUF_POOL s = Some (Returned NULL, s') \<and> pool s' MEMP_PBUF_POOL (rev (x # xs))"
proof -
  define s1 where "s1 = pbuf_pool_head offset len x (s\<lparr>memp_tab := (memp_tab s)(MEMP_PBUF_POOL := pb_next s x)\<rparr>)"
  note st = alloc_pool_start(1) [OF assms(1-3), of env len, folded s1_def] alloc_pool_start(2-4) [OF assms(1-3), of len, folded s1_def]
    alloc_pool_start(5) [OF assms(1-3)]
  let ?n = "unat len - head_len offset len"
  define k where "k = tail_count offset len"
  have kn: "k = length (chunks ?n)" by (simp add: k_def tail_count_def)
  show ?thesis
  proof (cases "k \<le> length xs")
    case True
    then show ?thesis using alloc_pool_enough [OF assms(1-3), of len env] unfolding Let_def k_def [symmetric] by auto
  next
    case False
    have d: "distinct ([] @ [x] @ xs)" using assms(3) by simp
    have n: "?n < 65536" using unat16_less [of len] by simp
    have px: "pooled s1 x \<and> pb_ref s1 x = 1" using assms(6) by (simp_all add: s1_def pbuf_pool_head_def pooled_def)
    have "pool s1 MEMP_TCPIP_MSG_API ms" using assms(4,5) by (simp add: s1_def pbuf_pool_head_def pool_def)
    then obtain s' where "pbuf_pool_loop env x x (int ?n) s1 = Some (Returned NULL, s')" "pool s' MEMP_PBUF_POOL (rev ([] @ [x] @ xs))"
      using pool_loop_short [OF st(2,3) d n, of ms env] False px assms(5) unfolding kn by auto
    then show ?thesis unfolding Let_def k_def [symmetric] st(1) using False by (simp add: after_def pbuf_init_flags_def)
  qed
qed

text \<open>C25: \<open>pbuf_free\<close> on a chain of pool elements gives back exactly the pbufs at its front that nobody else refers to,
  takes one reference from the first that stays, and returns how many it gave back.  The rest of the chain stays as it
  is.\<close>

theorem pbuf_free_gives_back:
  assumes "pchain (pb_next s) p ps" and "pool s MEMP_PBUF_POOL xs" and "distinct (ps @ xs)" and "\<forall>q\<in>set ps. pooled s q"
  shows "\<exists>s'. pbuf_free env p s = Some (Returned (of_nat (length (sole s ps))), s') \<and>
     pool s' MEMP_PBUF_POOL (rev (sole s ps) @ xs) \<and>
     pchain (pb_next s') (case rest_of s ps of [] \<Rightarrow> NULL | q # _ \<Rightarrow> q) (rest_of s ps) \<and>
     chain_bytes s' (rest_of s ps) = chain_bytes s (rest_of s ps) \<and>
     (\<forall>q\<in>set (rest_of s ps). pb_ref s' q = (if [q] = take 1 (rest_of s ps) then pb_ref s q - 1 else pb_ref s q))"
proof -
  obtain s' where h: "pbuf_free_loop env p 0 s = Some (Returned (of_nat (length (sole s ps))), s')"
     "pool s' MEMP_PBUF_POOL (rev (sole s ps) @ xs)"
     "pchain (pb_next s') (case rest_of s ps of [] \<Rightarrow> NULL | q # _ \<Rightarrow> q) (rest_of s ps)" "same_data s' s"
     "\<forall>q. q \<notin> set (sole s ps) \<longrightarrow> pb_ref s' q = (if [q] = take 1 (rest_of s ps) then pb_ref s q - 1 else pb_ref s q)"
    using pbuf_free_loop_pool [OF assms, of env 0] by auto
  have "distinct (sole s ps @ rest_of s ps)" using assms(3) by (simp add: sole_def rest_of_def)
  then have "q \<notin> set (sole s ps)" if "q \<in> set (rest_of s ps)" for q using that by auto
  moreover have "pbuf_free env p s = pbuf_free_loop env p 0 s"
    by (simp add: pbuf_free_def pbuf_free_loop.simps)
  ultimately show ?thesis using h same_data_bytes [OF h(4)] by auto
qed

section \<open>Joining and cutting\<close>

lemma cat_loop_end:
  assumes "pchain (pb_next s) h (us @ [r])" and "distinct (us @ [r])" and "t \<notin> set (us @ [r])"
  shows "cat_loop t h s = Some (r, s\<lparr>tot_len := (\<lambda>a. if a \<in> set us then tot_len s a + tot_len s t else tot_len s a)\<rparr>)"
  using assms
proof (induction us arbitrary: h s)
  case Nil
  then show ?case by (subst cat_loop.simps) simp
next
  case (Cons u us)
  have h: "h = u" "pchain (pb_next s) (pb_next s u) (us @ [r])" using Cons.prems(1) by simp_all
  then have "pb_next s u \<noteq> 0" by (cases us) auto
  let ?s = "s\<lparr>tot_len := (tot_len s)(u := tot_len s u + tot_len s t)\<rparr>"
  have "cat_loop t h s = cat_loop t (pb_next s u) ?s"
    using h(1) \<open>pb_next s u \<noteq> 0\<close> by (subst cat_loop.simps) simp
  also have "\<dots> = Some (r, ?s\<lparr>tot_len := (\<lambda>a. if a \<in> set us then tot_len ?s a + tot_len ?s t else tot_len ?s a)\<rparr>)"
    using Cons.prems h by (intro Cons.IH) auto
  also have "(\<lambda>a. if a \<in> set us then tot_len ?s a + tot_len ?s t else tot_len ?s a) =
      (\<lambda>a. if a \<in> set (u # us) then tot_len s a + tot_len s t else tot_len s a)"
    using Cons.prems by (auto simp: fun_eq_iff)
  finally show ?case by simp
qed

lemma pchain_join:
  "pchain nx h (us @ [r]) \<Longrightarrow> distinct (us @ [r]) \<Longrightarrow> pchain nx t ts \<Longrightarrow> r \<notin> set ts \<Longrightarrow> pchain (nx(r := t)) h (us @ r # ts)"
  by (induction us arbitrary: h) auto

lemma tot_ok_join:
  assumes "tot_ok s us" and "tot_ok s ts" and "length (chain_bytes s us) + length (chain_bytes s ts) < 65536"
    and "unat n = length (chain_bytes s ts)" and "pb_len s' = pb_len s"
    and "\<forall>a\<in>set us. tot_len s' a = tot_len s a + n" and "\<forall>a\<in>set ts. tot_len s' a = tot_len s a"
  shows "tot_ok s' (us @ ts)"
  using assms(1,3,6)
proof (induction us)
  case Nil
  have "tot_ok s' ts = tot_ok s ts"
    using assms(5,7) by (induction ts) (simp_all add: length_chain_bytes)
  then show ?case using assms(2) by simp
next
  case (Cons u us)
  then have "tot_ok s' (us @ ts)" by simp
  moreover have "unat (tot_len s u) + unat n < 65536" using Cons.prems assms(4) by simp
  then have "unat (tot_len s' u) = unat (tot_len s u) + unat n" using Cons.prems by (simp add: unat16_add)
  ultimately show ?case using Cons.prems assms(4,5) by (simp add: length_chain_bytes)
qed

text \<open>\<open>pbuf_cat\<close> makes one packet of two: the bytes of the second follow those of the first, and the total lengths
  are those of the joined packet.\<close>

theorem pbuf_cat_joins:
  assumes "pchain (pb_next s) h hs" and "pchain (pb_next s) t ts" and "hs \<noteq> []" and "ts \<noteq> []" and "distinct (hs @ ts)"
    and "tot_ok s hs" and "tot_ok s ts" and "length (chain_bytes s hs) + length (chain_bytes s ts) < 65536"
  shows "\<exists>s'. pbuf_cat h t s = Some s' \<and> pchain (pb_next s') h (hs @ ts) \<and>
     chain_bytes s' (hs @ ts) = chain_bytes s hs @ chain_bytes s ts \<and> tot_ok s' (hs @ ts)"
proof -
  obtain us r where hs: "hs = us @ [r]" using assms(3) by (metis rev_exhaust)
  obtain w ws where ts: "ts = w # ws" using assms(4) by (cases ts) auto
  have t: "t = w" "t \<noteq> 0" using assms(2) ts by simp_all
  have h0: "h \<noteq> 0" using assms(1) hs by (cases us) auto
  let ?T = "\<lambda>a. if a \<in> set us then tot_len s a + tot_len s t else tot_len s a"
  define s' where "s' = s\<lparr>tot_len := ?T(r := ?T r + ?T t), pb_next := (pb_next s)(r := t)\<rparr>"
  have d: "distinct (us @ [r])" "t \<notin> set (us @ [r])" "r \<notin> set ts" using assms(5) hs ts t by auto
  have "cat_loop t h s = Some (r, s\<lparr>tot_len := ?T\<rparr>)"
    using cat_loop_end [OF assms(1) [unfolded hs] d(1,2)] .
  then have "pbuf_cat h t s = Some s'" using h0 t by (simp add: pbuf_cat_def s'_def)
  moreover have "pchain (pb_next s') h (hs @ ts)"
    using pchain_join [OF assms(1) [unfolded hs] d(1) assms(2) d(3)] hs by (simp add: s'_def)
  moreover have "chain_bytes s' (hs @ ts) = chain_bytes s hs @ chain_bytes s ts"
    by (simp add: chain_bytes_append s'_def chain_bytes_cong [of "s\<lparr>tot_len := M, pb_next := N\<rparr>" s for M N])
  moreover have "tot_ok s' (hs @ ts)"
  proof (rule tot_ok_join [OF assms(6,7,8)])
    show "unat (tot_len s t) = length (chain_bytes s ts)" using assms(7) ts t by simp
    show "pb_len s' = pb_len s" by (simp add: s'_def)
    show "\<forall>a\<in>set hs. tot_len s' a = tot_len s a + tot_len s t" using d hs by (auto simp: s'_def)
    show "\<forall>a\<in>set ts. tot_len s' a = tot_len s a" using assms(5) hs by (auto simp: s'_def)
  qed
  ultimately show ?thesis by blast
qed

text \<open>The loop of \<open>pbuf_realloc\<close> stops at the pbuf in which the new length ends; the totals before it shrink.\<close>

lemma realloc_loop_end:
  assumes "pchain (pb_next s) p ps" and "ps \<noteq> []" and "distinct ps" and "unat rem_len \<le> length (chain_bytes s ps)"
  shows "\<exists>us v vs r. ps = us @ v # vs \<and>
     realloc_loop grow rem_len p s = Some (r, v, s\<lparr>tot_len := (\<lambda>a. if a \<in> set us then tot_len s a + of_int grow else tot_len s a)\<rparr>) \<and>
     unat rem_len = length (chain_bytes s us) + unat r \<and> r \<le> pb_len s v"
  using assms
proof (induction ps arbitrary: p s rem_len)
  case (Cons q qs)
  have q: "p = q" "q \<noteq> 0" and rest: "pchain (pb_next s) (pb_next s q) qs" using Cons.prems(1) by simp_all
  show ?case
  proof (cases "rem_len \<le> pb_len s q")
    case True
    then have "realloc_loop grow rem_len p s = Some (rem_len, q, s)" using q by (subst realloc_loop.simps) (auto simp: not_less)
    then show ?thesis using True
      by (intro exI [of _ "[]"] exI [of _ q] exI [of _ qs] exI [of _ rem_len]) simp
  next
    case False
    let ?s = "s\<lparr>tot_len := (tot_len s)(q := tot_len s q + of_int grow)\<rparr>"
    have le: "pb_len s q \<le> rem_len" using False by simp
    then have u: "unat (rem_len - pb_len s q) = unat rem_len - unat (pb_len s q)" "unat (pb_len s q) \<le> unat rem_len"
      "unat (pb_len s q) \<noteq> unat rem_len"
      using False by (auto simp: unat16_sub word_le_nat_alt)
    have e: "realloc_loop grow rem_len p s = realloc_loop grow (rem_len - pb_len s q) (pb_next s q) ?s"
      using False q by (subst realloc_loop.simps) (simp add: not_le)
    have cb: "chain_bytes ?s us = chain_bytes s us" for us by (rule chain_bytes_cong) simp_all
    have ne: "qs \<noteq> []" using Cons.prems(4) u by auto
    have pc: "pchain (pb_next ?s) (pb_next s q) qs" "distinct qs" using rest Cons.prems(3) by simp_all
    have le2: "unat (rem_len - pb_len s q) \<le> length (chain_bytes ?s qs)" using Cons.prems(4) u cb by simp
    obtain us v vs r where h: "qs = us @ v # vs"
      "realloc_loop grow (rem_len - pb_len s q) (pb_next s q) ?s =
        Some (r, v, ?s\<lparr>tot_len := (\<lambda>a. if a \<in> set us then tot_len ?s a + of_int grow else tot_len ?s a)\<rparr>)"
      "unat (rem_len - pb_len s q) = length (chain_bytes ?s us) + unat r" "r \<le> pb_len ?s v"
      using Cons.IH [OF pc(1) ne pc(2) le2] by blast
    have "(\<lambda>a. if a \<in> set us then tot_len ?s a + of_int grow else tot_len ?s a) =
        (\<lambda>a. if a \<in> set (q # us) then tot_len s a + of_int grow else tot_len s a)"
      using Cons.prems(3) h(1) by (auto simp: fun_eq_iff)
    then show ?thesis using h e cb u
      by (intro exI [of _ "q # us"] exI [of _ v] exI [of _ vs] exI [of _ r]) simp
  qed
qed simp

lemma tot_ok_cut:
  assumes "tot_ok s (us @ v # vs)" and "length (chain_bytes s (us @ v # vs)) = n + d" and "n = length (chain_bytes s us) + unat r"
    and "\<forall>a\<in>set us. pb_len s' a = pb_len s a \<and> tot_len s' a = tot_len s a - of_nat d" and "pb_len s' v = r" and "tot_len s' v = r"
  shows "tot_ok s' (us @ [v]) \<and> length (chain_bytes s' (us @ [v])) = n"
  using assms
proof (induction us arbitrary: n)
  case (Cons u us)
  have a: "length (chain_bytes s (us @ v # vs)) = (n - unat (pb_len s u)) + d" "n - unat (pb_len s u) = length (chain_bytes s us) + unat r"
    using Cons.prems(2,3) by simp_all
  have ih: "tot_ok s' (us @ [v]) \<and> length (chain_bytes s' (us @ [v])) = n - unat (pb_len s u)"
    using Cons.prems a by (intro Cons.IH) auto
  have "unat (tot_len s u) = n + d" using Cons.prems(1,2) by simp
  moreover have d: "d < 65536" using calculation unat16_less [of "tot_len s u"] by linarith
  ultimately have "unat (tot_len s u - of_nat d) = n"
    using unat16_sub [of "of_nat d" "tot_len s u"] by (simp add: word_le_nat_alt unat16_of_nat)
  then show ?case using ih Cons.prems(3,4) by simp
qed simp

lemma pchain_cut: "pchain nx p (us @ v # vs) \<Longrightarrow> v \<notin> set us \<Longrightarrow> pchain (nx(v := 0)) p (us @ [v])"
  by (induction us arbitrary: p) auto

lemma pb_data_take: "r \<le> pb_len s v \<Longrightarrow> pb_len s' v = r \<Longrightarrow> payload s' v = payload s v \<Longrightarrow> bytes s' = bytes s \<Longrightarrow>
    pb_data s' v = take (unat r) (pb_data s v)"
  by (simp add: pb_data_def take_block word_le_nat_alt)

lemma chain_bytes_on: "(\<And>q. q \<in> set qs \<Longrightarrow> pb_data s' q = pb_data s q) \<Longrightarrow> chain_bytes s' qs = chain_bytes s qs"
  by (simp add: chain_bytes_def cong: map_cong)

text \<open>\<open>pbuf_realloc\<close> to a smaller length keeps exactly the first bytes of a packet, with the total lengths of what is
  left, and gives the pbufs that held only other bytes back to the pool, up to the first that is still in use.\<close>

theorem pbuf_realloc_truncates:
  assumes "pchain (pb_next s) p ps" and "ps \<noteq> []" and "distinct (ps @ xs)" and "tot_ok s ps" and "\<forall>q\<in>set ps. pooled s q"
    and "pool s MEMP_PBUF_POOL xs" and "new_len < tot_len s p"
  shows "\<exists>s' us v vs. ps = us @ v # vs \<and> pbuf_realloc env p new_len s = Some (Returned (), s') \<and>
     pchain (pb_next s') p (us @ [v]) \<and> chain_bytes s' (us @ [v]) = take (unat new_len) (chain_bytes s ps) \<and>
     tot_ok s' (us @ [v]) \<and> pool s' MEMP_PBUF_POOL (rev (sole s vs) @ xs)"
proof -
  have tot: "unat (tot_len s p) = length (chain_bytes s ps)" using assms(1,2,4) by (cases ps) auto
  have lt: "unat new_len < length (chain_bytes s ps)" using assms(7) tot by (simp add: word_less_nat_alt)
  define d where "d = length (chain_bytes s ps) - unat new_len"
  have "uint new_len = int (unat new_len)" "uint (tot_len s p) = int (unat (tot_len s p))" by (simp_all only: uint_nat)
  then have grow: "uint new_len - uint (tot_len s p) = - int d" using tot lt by (simp add: d_def)
  obtain us v vs r where h: "ps = us @ v # vs"
    "realloc_loop (- int d) new_len p s = Some (r, v, s\<lparr>tot_len := (\<lambda>a. if a \<in> set us then tot_len s a + of_int (- int d) else tot_len s a)\<rparr>)"
    "unat new_len = length (chain_bytes s us) + unat r" "r \<le> pb_len s v"
    using realloc_loop_end [OF assms(1,2), of new_len "- int d"] assms(3) lt by auto
  let ?T = "\<lambda>a. if a \<in> set us then tot_len s a + of_int (- int d) else tot_len s a"
  define s2 where "s2 = s\<lparr>pb_len := (pb_len s)(v := r), tot_len := ?T(v := r)\<rparr>"
  have s2v: "pb_next s2 v = pb_next s v" by (simp add: s2_def)
  have v: "v \<notin> set us" "v \<notin> set vs" "v \<notin> set xs" "set us \<inter> set vs = {}" "set us \<inter> set xs = {}" "distinct (vs @ xs)"
    using assms(3) h(1) by auto
  let ?q = "pb_next s v"
  have cv: "pchain (pb_next s) ?q vs"
    using assms(1) unfolding h(1) by (induction us arbitrary: p) auto
  have c2: "pchain (pb_next s2) ?q vs" and po2: "pool s2 MEMP_PBUF_POOL xs" and ty2: "\<forall>q\<in>set vs. pooled s2 q"
    using cv assms(5,6) h(1) by (simp_all add: s2_def pool_def pooled_def)
  have sole2: "sole s2 vs = sole s vs" by (simp add: sole_def s2_def)
  obtain s3 n where f: "(if ?q \<noteq> NULL then pbuf_free env ?q s2 else Some (Returned 0, s2)) = Some (Returned n, s3)"
    "pool s3 MEMP_PBUF_POOL (rev (sole s vs) @ xs)" "same_data s3 s2"
    "\<forall>q. q \<notin> set (sole s vs) \<longrightarrow> pb_next s3 q = pb_next s2 q"
  proof (cases "?q = 0")
    case True
    then have "vs = []" using cv by simp
    then show ?thesis using True that [of 0 s2] po2 by (simp add: sole_def same_data_def)
  next
    case False
    then show ?thesis
      using pbuf_free_loop_pool [OF c2 po2 v(6) ty2, of env 0] that unfolding sole2 by (auto simp: pbuf_free_def)
  qed
  define s' where "s' = s3\<lparr>pb_next := (pb_next s3)(v := NULL)\<rparr>"
  have res: "pbuf_realloc env p new_len s = Some (Returned (), s')"
    using assms(7) h(2) f(1) unfolding pbuf_realloc_def grow Let_def
    by (simp add: s2_def [symmetric] s2v s'_def after_def not_le split: if_splits)
  have sv: "set (sole s vs) \<subseteq> set vs" by (auto simp: sole_def dest: set_takeWhileD)
  have nx: "pb_next s3 q = pb_next s q" if "q \<in> set (us @ [v])" for q
    using f(4) that v sv by (auto simp: s2_def)
  have chain: "pchain (pb_next s') p (us @ [v])"
    using pchain_cut [OF assms(1) [unfolded h(1)] v(1)] nx
    by (subst pchain_cong [of _ _ "(pb_next s)(v := 0)"]) (auto simp: s'_def)
  have dat: "bytes s' = bytes s" "payload s' = payload s" "pb_len s' = (pb_len s)(v := r)" "tot_len s' = ?T(v := r)"
    using f(3) by (simp_all add: s'_def same_data_def s2_def)
  have "chain_bytes s' us = chain_bytes s us" by (rule chain_bytes_on) (use v(1) in \<open>auto simp: pb_data_def dat\<close>)
  moreover have "pb_data s' v = take (unat r) (pb_data s v)" by (rule pb_data_take [OF h(4)]) (simp_all add: dat)
  ultimately have "chain_bytes s' (us @ [v]) = chain_bytes s us @ take (unat r) (pb_data s v)" by (simp add: chain_bytes_append)
  then have data: "chain_bytes s' (us @ [v]) = take (unat new_len) (chain_bytes s ps)"
    using h(1,3,4) by (simp add: chain_bytes_append word_le_nat_alt)
  have tok: "tot_ok s' (us @ [v])"
  proof (rule conjunct1 [OF tot_ok_cut])
    show "tot_ok s (us @ v # vs)" using assms(4) h(1) by simp
    show "length (chain_bytes s (us @ v # vs)) = unat new_len + d" using lt h(1) by (simp add: d_def)
    show "\<forall>a\<in>set us. pb_len s' a = pb_len s a \<and> tot_len s' a = tot_len s a - of_nat d"
      using v(1) by (auto simp: dat)
  qed (use h(3) dat in simp_all)
  have "v \<notin> set (rev (sole s vs) @ xs)" using v(2,3) sv by auto
  then have "pool s' MEMP_PBUF_POOL (rev (sole s vs) @ xs)" using f(2) unfolding pool_def s'_def by (simp del: set_append)
  then show ?thesis using h(1) res chain data tok by blast
qed

text \<open>Hiding a header and revealing it again: \<open>pbuf_header\<close> with a negative increment drops the first bytes of a pbuf,
  and with the same positive increment it restores the pbuf.\<close>

theorem pbuf_header_hides_and_reveals:
  assumes "p \<noteq> NULL" and "pb_type s p = PBUF_RAM \<or> pb_type s p = PBUF_POOL" and "0 < n" and "n \<le> unat (pb_len s p)"
    and "p + SIZEOF_STRUCT_PBUF \<le> payload s p" and "unat (payload s p) + n < 2 ^ 32"
  shows "\<exists>s'. pbuf_header p (- int n) s = (0, s') \<and> pb_data s' p = drop n (pb_data s p) \<and> pbuf_header p (int n) s' = (0, s)"
proof -
  have n16: "n < 65536" using assms(4) unat16_less [of "pb_len s p"] by linarith
  let ?s' = "s\<lparr>payload := (payload s)(p := payload s p + of_nat n), pb_len := (pb_len s)(p := pb_len s p - of_nat n),
      tot_len := (tot_len s)(p := tot_len s p - of_nat n)\<rparr>"
  have up: "unat (payload s p + of_nat n) = unat (payload s p) + n"
    using assms(6) n16 by (simp add: unat_word_ariths unat_of_nat_small)
  then have ge: "p + SIZEOF_STRUCT_PBUF \<le> payload s p + of_nat n" using assms(5) by (simp add: word_le_nat_alt)
  have le: "of_nat n \<le> pb_len s p" using assms(4) n16 by (simp add: word_le_nat_alt unat16_of_nat)
  have lt: "\<not> payload s p < p + 16" "\<not> payload s p + of_nat n < p + 16" using assms(5) ge by (simp_all add: not_less)
  have "pbuf_header p (- int n) s = (0, ?s')"
    using assms(1,2,3) le lt by (auto simp: pbuf_header_def Let_def)
  moreover have "pb_data ?s' p = drop n (pb_data s p)"
    using le n16 by (simp add: pb_data_def drop_block unat16_sub unat16_of_nat)
  moreover have "pbuf_header p (int n) ?s' = (0, s)"
    using assms(1,2,3) lt by (auto simp: pbuf_header_def Let_def)
  ultimately show ?thesis by blast
qed

text \<open>\<open>pbuf_alloced_custom\<close> has its test the wrong way round: it refuses every buffer larger than the packet and its
  headers need, and accepts every buffer that is too small.\<close>

theorem pbuf_alloced_custom_inverted:
  assumes "pbuf_offset layer = Some offset"
  shows "(unat offset + unat len < unat payload_mem_len \<longrightarrow>
       pbuf_alloced_custom layer len t p payload_mem payload_mem_len s = (NULL, s)) \<and>
     (unat payload_mem_len < unat offset + unat len \<longrightarrow>
       (\<exists>s'. pbuf_alloced_custom layer len t p payload_mem payload_mem_len s = (p, s') \<and> pb_len s' p = len))"
proof -
  have u: "unat (ucast x :: u32) = unat x" for x :: u16
    using unat16_less [of x] by (simp add: unsigned_ucast_eq take_bit_nat_eq_self)
  have al: "LWIP_MEM_ALIGN_SIZE (ucast offset) = ucast offset"
    using pbuf_offset_cases [OF assms] by (elim disjE) (simp_all add: LWIP_MEM_ALIGN_SIZE_def)
  have "unat (ucast offset + ucast len :: u32) = unat offset + unat len"
    using unat16_less [of offset] unat16_less [of len] by (simp add: unat_word_ariths u)
  then have "LWIP_MEM_ALIGN_SIZE (ucast offset) + ucast len < (ucast payload_mem_len :: u32) \<longleftrightarrow>
      unat offset + unat len < unat payload_mem_len"
    by (simp add: word_less_nat_alt u al)
  then show ?thesis using assms by (simp add: pbuf_alloced_custom_def Let_def)
qed

section \<open>Witnesses\<close>

text \<open>Two free elements; and a packet of two pbufs of three bytes, the second of which has another user.\<close>

definition two_free :: "pbufs \<Rightarrow> pbufs" where
  "two_free s = s\<lparr>pb_next := (\<lambda>_. 0)(0x500 := 0x600), memp_tab := (\<lambda>_. 0)(MEMP_PBUF_POOL := 0x500), pb_flags := (\<lambda>_. 0)\<rparr>"

definition two_pbufs :: "pbufs \<Rightarrow> pbufs" where
  "two_pbufs s = s\<lparr>pb_next := (\<lambda>_. 0)(0x500 := 0x600), memp_tab := (\<lambda>_. 0), pb_flags := (\<lambda>_. 0), pb_type := (\<lambda>_. PBUF_POOL),
     pb_len := (\<lambda>_. 3), tot_len := (\<lambda>_. 3)(0x500 := 6), pb_ref := (\<lambda>_. 1)(0x600 := 2), payload := (\<lambda>q. q + 16)\<rparr>"

lemma two_pbufs_chain: "pchain (pb_next (two_pbufs s)) 0x500 [0x500, 0x600]" "pool (two_pbufs s) MEMP_PBUF_POOL []"
  "tot_ok (two_pbufs s) [0x500, 0x600]" "\<forall>q\<in>set [0x500, 0x600]. pooled (two_pbufs s) q"
  by (simp_all add: two_pbufs_def pool_def pooled_def length_chain_bytes)

theorem pbuf_alloc_pool_result_witness:
  "\<forall>(env :: pbufs stack) (s :: pbufs).
   \<exists>s'. pbuf_alloc env PBUF_RAW 1600 PBUF_POOL (two_free s) = Some (Returned 0x500, s') \<and>
     length (chain_bytes s' [0x500, 0x600]) = 1600 \<and> pool s' MEMP_PBUF_POOL []"
proof (intro allI)
  fix env :: "pbufs stack" and s :: pbufs
  have c: "pool (two_free s) MEMP_PBUF_POOL [0x500, 0x600]" "pool (two_free s) MEMP_TCPIP_MSG_API []"
    by (simp_all add: two_free_def pool_def)
  have k: "tail_count 0 1600 = 1" by (simp add: tail_count_def head_len_def chunks_pos)
  have o: "pbuf_offset PBUF_RAW = Some 0" by (simp add: pbuf_offset_def)
  have "pb_flags (two_free s) 0x500 AND PBUF_FLAG_IS_CUSTOM = 0" by (simp add: two_free_def)
  from pbuf_alloc_pool_result [OF o c(1) _ c(2) _ this, of 1600 env] k show "\<exists>s'. pbuf_alloc env PBUF_RAW 1600 PBUF_POOL (two_free s) = Some (Returned 0x500, s') \<and>
     length (chain_bytes s' [0x500, 0x600]) = 1600 \<and> pool s' MEMP_PBUF_POOL []"
    by (auto simp: Let_def simp del: chain_bytes_simps)
qed

theorem pbuf_free_gives_back_witness:
  "\<forall>(env :: pbufs stack) (s :: pbufs).
   \<exists>s'. pbuf_free env 0x500 (two_pbufs s) = Some (Returned 1, s') \<and> pool s' MEMP_PBUF_POOL [0x500] \<and>
     pchain (pb_next s') 0x600 [0x600] \<and> pb_ref s' 0x600 = 1"
proof (intro allI)
  fix env :: "pbufs stack" and s :: pbufs
  have r: "sole (two_pbufs s) [0x500, 0x600] = [0x500]" "rest_of (two_pbufs s) [0x500, 0x600] = [0x600]" "pb_ref (two_pbufs s) 0x600 = 2"
    by (simp_all add: sole_def rest_of_def two_pbufs_def)
  from pbuf_free_gives_back [OF two_pbufs_chain(1,2) _ two_pbufs_chain(4), of env s] r show "\<exists>s'. pbuf_free env 0x500 (two_pbufs s) = Some (Returned 1, s') \<and> pool s' MEMP_PBUF_POOL [0x500] \<and>
     pchain (pb_next s') 0x600 [0x600] \<and> pb_ref s' 0x600 = 1" by auto
qed

theorem pbuf_realloc_truncates_witness:
  "\<forall>(env :: pbufs stack) (s :: pbufs).
   \<exists>s' us v vs. [0x500, 0x600] = us @ v # vs \<and> pbuf_realloc env 0x500 4 (two_pbufs s) = Some (Returned (), s') \<and>
     chain_bytes s' (us @ [v]) = take 4 (chain_bytes (two_pbufs s) [0x500, 0x600])"
proof (intro allI)
  fix env :: "pbufs stack" and s :: pbufs
  have "(4 :: u16) < tot_len (two_pbufs s) 0x500" by (simp add: two_pbufs_def)
  from pbuf_realloc_truncates [OF two_pbufs_chain(1) _ _ two_pbufs_chain(3,4,2) this, of env] show "\<exists>s' us v vs. [0x500, 0x600] = us @ v # vs \<and> pbuf_realloc env 0x500 4 (two_pbufs s) = Some (Returned (), s') \<and>
     chain_bytes s' (us @ [v]) = take 4 (chain_bytes (two_pbufs s) [0x500, 0x600])" by auto
qed

theorem pbuf_cat_joins_witness:
  "\<forall>s :: pbufs.
   \<exists>s'. pbuf_cat 0x600 0x700 (two_pbufs s) = Some s' \<and> pchain (pb_next s') 0x600 [0x600, 0x700] \<and> tot_ok s' [0x600, 0x700]"
proof (intro allI)
  fix s :: pbufs
  have "pchain (pb_next (two_pbufs s)) 0x600 [0x600]" "pchain (pb_next (two_pbufs s)) 0x700 [0x700]"
    "tot_ok (two_pbufs s) [0x600]" "tot_ok (two_pbufs s) [0x700]"
    "length (chain_bytes (two_pbufs s) [0x600]) + length (chain_bytes (two_pbufs s) [0x700]) < 65536"
    by (simp_all add: two_pbufs_def length_chain_bytes)
  from pbuf_cat_joins [OF this(1,2) _ _ _ this(3-5)] show "\<exists>s'. pbuf_cat 0x600 0x700 (two_pbufs s) = Some s' \<and> pchain (pb_next s') 0x600 [0x600, 0x700] \<and> tot_ok s' [0x600, 0x700]" by auto
qed

theorem pbuf_header_hides_and_reveals_witness:
  "\<forall>s :: pbufs.
   \<exists>s'. pbuf_header 0x500 (- 2) (two_pbufs s) = (0, s') \<and> pbuf_header 0x500 2 s' = (0, two_pbufs s)"
proof (intro allI)
  fix s :: pbufs
  have "pb_type (two_pbufs s) 0x500 = PBUF_RAM \<or> pb_type (two_pbufs s) 0x500 = PBUF_POOL" "2 \<le> unat (pb_len (two_pbufs s) 0x500)"
    "0x500 + SIZEOF_STRUCT_PBUF \<le> payload (two_pbufs s) 0x500" "unat (payload (two_pbufs s) 0x500) + 2 < 2 ^ 32"
    by (simp_all add: two_pbufs_def)
  from pbuf_header_hides_and_reveals [OF _ this(1) _ this(2-4)] show "\<exists>s'. pbuf_header 0x500 (- 2) (two_pbufs s) = (0, s') \<and> pbuf_header 0x500 2 s' = (0, two_pbufs s)" by auto
qed

theorem pbuf_alloced_custom_inverted_witness:
  "\<forall>s :: pbufs.
   pbuf_alloced_custom PBUF_RAW 100 PBUF_RAM 0x500 0x1000 200 s = (NULL, s) \<and>
   (\<exists>s'. pbuf_alloced_custom PBUF_RAW 100 PBUF_RAM 0x500 0x1000 50 s = (0x500, s'))"
proof (intro allI)
  fix s :: pbufs
  have "pbuf_offset PBUF_RAW = Some 0" by (simp add: pbuf_offset_def)
  note h = pbuf_alloced_custom_inverted [OF this]
  show "pbuf_alloced_custom PBUF_RAW 100 PBUF_RAM 0x500 0x1000 200 s = (NULL, s) \<and>
   (\<exists>s'. pbuf_alloced_custom PBUF_RAW 100 PBUF_RAM 0x500 0x1000 50 s = (0x500, s'))"
    using h [where len = 100 and payload_mem_len = 200 and t = PBUF_RAM and p = "0x500" and payload_mem = "0x1000" and s = s, THEN conjunct1]
      h [where len = 100 and payload_mem_len = 50 and t = PBUF_RAM and p = "0x500" and payload_mem = "0x1000" and s = s, THEN conjunct2]
    by auto
qed

end
