(* ===== verification/Chksum.thy ===== *)
theory Chksum
  imports Packets
begin

text \<open>
  The Internet checksum: ethernet/core/ipv4/inet\_chksum.c with the byte swaps of core/def.c.  The three versions
  of \<open>lwip_standard_chksum\<close> that the configuration chooses from are \<open>lwip_standard_chksum_1\<close> to \<open>_3\<close>; without a choice
  it is the second.  The machine is little-endian.  Addresses of the internet are words in network order.
\<close>

section \<open>Byte order\<close>

definition lwip_htons :: "u16 \<Rightarrow> u16" where
  "lwip_htons n = push_bit 8 (n AND 0xff) OR drop_bit 8 (n AND 0xff00)"

definition lwip_ntohs :: "u16 \<Rightarrow> u16" where
  "lwip_ntohs n = lwip_htons n"

definition lwip_htonl :: "u32 \<Rightarrow> u32" where
  "lwip_htonl n = push_bit 24 (n AND 0xff) OR push_bit 8 (n AND 0xff00) OR drop_bit 8 (n AND 0xff0000) OR drop_bit 24 (n AND 0xff000000)"

definition lwip_ntohl :: "u32 \<Rightarrow> u32" where
  "lwip_ntohl n = lwip_htonl n"

definition SWAP_BYTES_IN_WORD :: "u32 \<Rightarrow> u32" where
  "SWAP_BYTES_IN_WORD w = push_bit 8 (w AND 0xff) OR drop_bit 8 (w AND 0xff00)"

definition FOLD_U32T :: "u32 \<Rightarrow> u32" where
  "FOLD_U32T u = drop_bit 16 u + (u AND 0x0000ffff)"

section \<open>The checksum of a block\<close>

text \<open>The words that the code reads through \<open>u16_t *\<close> and \<open>u32_t *\<close>.\<close>

definition load16 :: "(addr \<Rightarrow> u8) \<Rightarrow> addr \<Rightarrow> u32" where
  "load16 m a = ucast (m a) OR push_bit 8 (ucast (m (a + 1)))"

definition load32 :: "(addr \<Rightarrow> u8) \<Rightarrow> addr \<Rightarrow> u32" where
  "load32 m a = load16 m a OR push_bit 16 (load16 m (a + 2))"

text \<open>Version 1.  The length is a \<open>u16_t\<close>.\<close>

fun octets_loop :: "(addr \<Rightarrow> u8) \<Rightarrow> addr \<Rightarrow> nat \<Rightarrow> u32 \<Rightarrow> u32" where
  "octets_loop m octetptr len acc =
     (if len > 1 then
        let src = push_bit 8 (ucast (m octetptr)) :: u16;
            src = src OR ucast (m (octetptr + 1))
        in octets_loop m (octetptr + 1 + 1) (len - 2) (acc + ucast src)
      else if len > 0 then
        let src = push_bit 8 (ucast (m octetptr)) :: u16
        in acc + ucast src
      else acc)"

definition lwip_standard_chksum_1 :: "(addr \<Rightarrow> u8) \<Rightarrow> addr \<Rightarrow> u16 \<Rightarrow> u16" where
  "lwip_standard_chksum_1 m dataptr len =
     (let acc = octets_loop m dataptr (unat len) 0;
          acc = drop_bit 16 acc + (acc AND 0x0000ffff);
          acc = (if acc AND 0xffff0000 \<noteq> 0 then drop_bit 16 acc + (acc AND 0x0000ffff) else acc)
      in lwip_htons (ucast acc))"

text \<open>The loop over 16-bit words of versions 2 and 3: the sum, the place and the number of bytes left.\<close>

fun words_loop :: "(addr \<Rightarrow> u8) \<Rightarrow> addr \<Rightarrow> nat \<Rightarrow> u32 \<Rightarrow> u32 \<times> addr \<times> nat" where
  "words_loop m ps len tot =
     (if len > 1 then words_loop m (ps + 2) (len - 2) (tot + load16 m ps) else (tot, ps, len))"

text \<open>The two bytes of \<open>t\<close> are set on their own.\<close>

definition set_byte0 :: "u32 \<Rightarrow> u8 \<Rightarrow> u32" where
  "set_byte0 t b = (t AND NOT 0xff) OR ucast b"

definition set_byte1 :: "u32 \<Rightarrow> u8 \<Rightarrow> u32" where
  "set_byte1 t b = (t AND NOT 0xff00) OR push_bit 8 (ucast b)"

definition chksum_finish :: "(addr \<Rightarrow> u8) \<Rightarrow> bool \<Rightarrow> u32 \<Rightarrow> u32 \<times> addr \<times> nat \<Rightarrow> u16" where
  "chksum_finish m odd' t r =
     (let (tot, ps, len) = r;
          t = (if len > 0 then set_byte0 t (m ps) else t);
          tot = tot + t;
          tot = FOLD_U32T tot;
          tot = FOLD_U32T tot;
          tot = (if odd' then SWAP_BYTES_IN_WORD tot else tot)
      in ucast tot)"

definition lwip_standard_chksum_2 :: "(addr \<Rightarrow> u8) \<Rightarrow> addr \<Rightarrow> nat \<Rightarrow> u16" where
  "lwip_standard_chksum_2 m dataptr len =
     (let pb = dataptr;
          t = 0;
          odd' = (pb AND 1 \<noteq> 0);
          (t, pb, len) = (if odd' \<and> len > 0 then (set_byte1 t (m pb), pb + 1, len - 1) else (t, pb, len))
      in chksum_finish m odd' t (words_loop m pb len 0))"

text \<open>The unrolled loop of version 3.\<close>

fun pairs_loop :: "(addr \<Rightarrow> u8) \<Rightarrow> addr \<Rightarrow> nat \<Rightarrow> u32 \<Rightarrow> u32 \<times> addr \<times> nat" where
  "pairs_loop m pl len tot =
     (if len > 7 then
        let tmp = tot + load32 m pl;
            tmp = (if tmp < tot then tmp + 1 else tmp);
            tot = tmp + load32 m (pl + 4);
            tot = (if tot < tmp then tot + 1 else tot)
        in pairs_loop m (pl + 8) (len - 8) tot
      else (tot, pl, len))"

definition lwip_standard_chksum_3 :: "(addr \<Rightarrow> u8) \<Rightarrow> addr \<Rightarrow> nat \<Rightarrow> u16" where
  "lwip_standard_chksum_3 m dataptr len =
     (let pb = dataptr;
          t = 0;
          tot = 0;
          odd' = (pb AND 1 \<noteq> 0);
          (t, pb, len) = (if odd' \<and> len > 0 then (set_byte1 t (m pb), pb + 1, len - 1) else (t, pb, len));
          ps = pb;
          (tot, ps, len) = (if ps AND 3 \<noteq> 0 \<and> len > 1 then (tot + load16 m ps, ps + 2, len - 2) else (tot, ps, len));
          (tot, pl, len) = pairs_loop m ps len tot;
          tot = FOLD_U32T tot
      in chksum_finish m odd' t (words_loop m pl len tot))"

abbreviation (input) LWIP_CHKSUM :: "(addr \<Rightarrow> u8) \<Rightarrow> addr \<Rightarrow> nat \<Rightarrow> u16" where
  "LWIP_CHKSUM \<equiv> lwip_standard_chksum_2"

definition inet_chksum :: "addr \<Rightarrow> u16 \<Rightarrow> 'a pbufs_scheme \<Rightarrow> u16" where
  "inet_chksum dataptr len s = NOT (LWIP_CHKSUM (bytes s) dataptr (unat len))"

section \<open>The checksum of a packet\<close>

text \<open>The loop over the pbufs of \<open>inet_chksum_pbuf\<close> and \<open>inet_chksum_pseudo\<close>: \<open>acc\<close> and \<open>swapped\<close>.\<close>

partial_function (option) chain_sum :: "'a pbufs_scheme \<Rightarrow> addr \<Rightarrow> u32 \<Rightarrow> u8 \<Rightarrow> (u32 \<times> u8) option" where
  "chain_sum s q acc swapped =
     (if q \<noteq> NULL then
        let acc = acc + ucast (LWIP_CHKSUM (bytes s) (payload s q) (unat (pb_len s q)));
            acc = FOLD_U32T acc;
            (swapped, acc) = (if pb_len s q mod 2 \<noteq> 0 then (1 - swapped, SWAP_BYTES_IN_WORD acc) else (swapped, acc))
        in chain_sum s (pb_next s q) acc swapped
      else Some (acc, swapped))"

definition inet_chksum_pbuf :: "addr \<Rightarrow> 'a pbufs_scheme \<Rightarrow> u16 option" where
  "inet_chksum_pbuf p s =
     (case chain_sum s p 0 0 of
        None \<Rightarrow> None
      | Some (acc, swapped) \<Rightarrow>
          let acc = (if swapped \<noteq> 0 then SWAP_BYTES_IN_WORD acc else acc)
          in Some (ucast (NOT (acc AND 0xffff))))"

text \<open>The end of \<open>inet_chksum_pseudo\<close> and \<open>inet_chksum_pseudo_partial\<close>, with the addresses, the protocol and the length.\<close>

definition pseudo_finish :: "u32 \<Rightarrow> u32 \<Rightarrow> u8 \<Rightarrow> u16 \<Rightarrow> u32 \<times> u8 \<Rightarrow> u16" where
  "pseudo_finish src dest proto proto_len r =
     (let (acc, swapped) = r;
          acc = (if swapped \<noteq> 0 then SWAP_BYTES_IN_WORD acc else acc);
          acc = acc + (src AND 0xffff);
          acc = acc + (drop_bit 16 src AND 0xffff);
          acc = acc + (dest AND 0xffff);
          acc = acc + (drop_bit 16 dest AND 0xffff);
          acc = acc + ucast (lwip_htons (ucast proto));
          acc = acc + ucast (lwip_htons proto_len);
          acc = FOLD_U32T acc;
          acc = FOLD_U32T acc
      in ucast (NOT (acc AND 0xffff)))"

definition inet_chksum_pseudo :: "addr \<Rightarrow> u32 \<Rightarrow> u32 \<Rightarrow> u8 \<Rightarrow> u16 \<Rightarrow> 'a pbufs_scheme \<Rightarrow> u16 option" where
  "inet_chksum_pseudo p src dest proto proto_len s =
     map_option (pseudo_finish src dest proto proto_len) (chain_sum s p 0 0)"

partial_function (option) partial_sum :: "'a pbufs_scheme \<Rightarrow> addr \<Rightarrow> u16 \<Rightarrow> u32 \<Rightarrow> u8 \<Rightarrow> (u32 \<times> u8) option" where
  "partial_sum s q chksum_len acc swapped =
     (if q \<noteq> NULL \<and> chksum_len > 0 then
        let chklen = pb_len s q;
            chklen = (if chklen > chksum_len then chksum_len else chklen);
            acc = acc + ucast (LWIP_CHKSUM (bytes s) (payload s q) (unat chklen));
            chksum_len = chksum_len - chklen;
            acc = FOLD_U32T acc;
            (swapped, acc) = (if pb_len s q mod 2 \<noteq> 0 then (1 - swapped, SWAP_BYTES_IN_WORD acc) else (swapped, acc))
        in partial_sum s (pb_next s q) chksum_len acc swapped
      else Some (acc, swapped))"

definition inet_chksum_pseudo_partial :: "addr \<Rightarrow> u32 \<Rightarrow> u32 \<Rightarrow> u8 \<Rightarrow> u16 \<Rightarrow> u16 \<Rightarrow> 'a pbufs_scheme \<Rightarrow> u16 option" where
  "inet_chksum_pseudo_partial p src dest proto proto_len chksum_len s =
     map_option (pseudo_finish src dest proto proto_len) (partial_sum s p chksum_len 0 0)"

definition lwip_chksum_copy :: "addr \<Rightarrow> addr \<Rightarrow> u16 \<Rightarrow> 'a pbufs_scheme \<Rightarrow> u16 \<times> 'a pbufs_scheme" where
  "lwip_chksum_copy dst src len s =
     (let s = copy_bytes dst src len s in (LWIP_CHKSUM (bytes s) dst (unat len), s))"

definition pbuf_fill_chksum :: "addr \<Rightarrow> u16 \<Rightarrow> addr \<Rightarrow> u16 \<Rightarrow> u16 \<Rightarrow> 'a pbufs_scheme \<Rightarrow> int \<times> u16 \<times> 'a pbufs_scheme" where
  "pbuf_fill_chksum p start_offset dataptr len chksum s =
     (if start_offset \<ge> pb_len s p \<or> unat start_offset + unat len > unat (pb_len s p) then (ERR_ARG, chksum, s)
      else
        let dst_ptr = payload s p + ucast start_offset;
            (copy_chksum, s) = lwip_chksum_copy dst_ptr dataptr len s;
            copy_chksum = (if start_offset AND 1 \<noteq> 0 then ucast (SWAP_BYTES_IN_WORD (ucast copy_chksum)) else copy_chksum);
            acc = ucast chksum :: u32;
            acc = acc + ucast copy_chksum
        in (ERR_OK, ucast (FOLD_U32T acc), s))"

section \<open>The reference: one's complement sums\<close>

text \<open>The sum of the 16-bit words of a block, as a little-endian machine reads them and in network order.\<close>

fun le_sum :: "u8 list \<Rightarrow> nat" where
  "le_sum [] = 0"
| "le_sum [b] = unat b"
| "le_sum (b # c # bs) = unat b + 256 * unat c + le_sum bs"

fun be_sum :: "u8 list \<Rightarrow> nat" where
  "be_sum [] = 0"
| "be_sum [b] = 256 * unat b"
| "be_sum (b # c # bs) = 256 * unat b + unat c + be_sum bs"

text \<open>The number in one's complement that a sum with end-around carry gives.\<close>

definition ones :: "nat \<Rightarrow> nat" where
  "ones n = (if n = 0 then 0 else (n - 1) mod 65535 + 1)"

lemma ones_le: "ones n \<le> 65535"
proof (cases "n = 0")
  case False
  then have "ones n = (n - 1) mod 65535 + 1" by (simp add: ones_def)
  moreover have "(n - 1) mod 65535 < 65535" by simp
  ultimately show ?thesis by linarith
qed (simp add: ones_def)

lemma ones_mod: "ones n mod 65535 = n mod 65535"
proof (cases n)
  case (Suc k)
  have "(k mod 65535 + 1) mod 65535 = (k + 1) mod 65535" by (rule mod_add_left_eq)
  then show ?thesis using Suc by (simp add: ones_def)
qed (simp add: ones_def)

lemma ones_0_iff [simp]: "ones n = 0 \<longleftrightarrow> n = 0"
  by (simp add: ones_def)

lemma ones_unique:
  assumes "x \<le> 65535" and "x mod 65535 = n mod 65535" and "x = 0 \<longleftrightarrow> n = 0"
  shows "x = ones n"
proof (cases "n = 0")
  case False
  have o: "ones n \<le> 65535" "ones n \<noteq> 0" "ones n mod 65535 = x mod 65535" using ones_le [of n] ones_mod [of n] False assms(2) by simp_all
  have x: "x \<noteq> 0" using assms(3) False by simp
  show ?thesis
  proof (cases "x = 65535 \<or> ones n = 65535")
    case True
    then show ?thesis
    proof
      assume "x = 65535"
      then have "ones n mod 65535 = 0" using o(3) by simp
      then have "65535 dvd ones n" by (simp only: mod_eq_0_iff_dvd)
      then have "65535 \<le> ones n" using o(2) dvd_imp_le by blast
      then show ?thesis using o(1) \<open>x = 65535\<close> by simp
    next
      assume a: "ones n = 65535"
      then have "x mod 65535 = 0" using o(3) by simp
      then have "65535 dvd x" by (simp only: mod_eq_0_iff_dvd)
      then have "65535 \<le> x" using x dvd_imp_le by blast
      then show ?thesis using assms(1) a by simp
    qed
  next
    case False
    then have "x < 65535" "ones n < 65535" using assms(1) o(1) by simp_all
    then show ?thesis using o(3) by simp
  qed
qed (use assms(3) in simp)

lemma ones_cong: "a mod 65535 = b mod 65535 \<Longrightarrow> (a = 0 \<longleftrightarrow> b = 0) \<Longrightarrow> ones a = ones b"
  using ones_unique [of "ones a" b] ones_le [of a] ones_mod [of a] by simp

lemma ones_idem: "n \<le> 65535 \<Longrightarrow> ones n = n"
  using ones_unique [of n n] by simp

lemma fold_ones:
  assumes "x = n div 65536 + n mod (65536 :: nat)"
  shows "x mod 65535 = n mod 65535" and "x = 0 \<longleftrightarrow> n = 0"
proof -
  define q r where "q = n div 65536" and "r = n mod 65536"
  have n: "n = 65536 * q + r" by (simp add: q_def r_def)
  have x: "x = q + r" using assms by (simp add: q_def r_def)
  have "n = 65535 * q + x" using n x by simp
  then show "x mod 65535 = n mod 65535" by (metis mod_mult_self4)
  show "x = 0 \<longleftrightarrow> n = 0" using n x by auto
qed

section \<open>The word operations as numbers\<close>

lemma or_is_plus: "(a :: 'a::len word) AND b = 0 \<Longrightarrow> a OR b = a + b"
  using disjunctive_add_eq_or [of a b] by simp

lemma and_ffff: "(u :: u32) AND 0xffff = take_bit 16 u"
  by (simp add: take_bit_eq_mask mask_eq_exp_minus_1)

lemma unat_drop_word: "unat (drop_bit n (u :: u32)) = unat u div 2 ^ n"
  using unat_drop_bit_eq [of n u] unfolding drop_bit_eq_div .

lemma unat_take: "unat (take_bit n (u :: u32)) = unat u mod 2 ^ n"
  using unsigned_take_bit_eq [of n u, where ?'a = nat] unfolding take_bit_eq_mod .

lemma unat8_less: "unat (b :: u8) < 256"
  using unsigned_less [of b] by simp

lemma unat_FOLD: "unat (FOLD_U32T u) = unat u div 65536 + unat u mod 65536"
proof -
  have "unat (drop_bit 16 u) = unat u div 65536" using unat_drop_word [of 16 u] by simp
  moreover have "unat (take_bit 16 u) = unat u mod 65536" using unat_take [of 16 u] by simp
  moreover have "unat u div 65536 < 65536" using unat_less_2p32 [of u] by (simp add: less_mult_imp_div_less)
  ultimately show ?thesis unfolding FOLD_U32T_def and_ffff by (simp add: unat_word_ariths)
qed

lemma unat_u8: "unat (ucast (b :: u8) :: u32) = unat b" "unat (ucast (b :: u8) :: u16) = unat b"
  using unat8_less [of b] by (simp_all add: unsigned_ucast_eq take_bit_nat_eq_self)

lemma bit_u8: "bit (b :: u8) n \<Longrightarrow> n < 8"
  using bit_imp_le_length [of b n] by simp

lemma unat_load16: "unat (load16 m a) = unat (m a) + 256 * unat (m (a + 1))"
proof -
  have "(ucast (m a) :: u32) AND push_bit 8 (ucast (m (a + 1))) = 0"
    by (rule bit_eqI) (auto simp: bit_simps dest: bit_u8)
  then have "load16 m a = ucast (m a) + 256 * ucast (m (a + 1))"
    by (simp add: load16_def or_is_plus push_bit_eq_mult)
  moreover have "unat (m a) + 256 * unat (m (a + 1)) < 65536" using unat8_less [of "m a"] unat8_less [of "m (a + 1)"] by linarith
  ultimately show ?thesis by (simp add: unat_word_ariths unat_u8)
qed

lemma unat_load32: "unat (load32 m a) = unat (load16 m a) + 65536 * unat (load16 m (a + 2))"
proof -
  have lt: "unat (load16 m a) < 2 ^ 16" for a
    using unat8_less [of "m a"] unat8_less [of "m (a + 1)"] by (simp add: unat_load16)
  have "take_bit 16 (load16 m a) = load16 m a" for a
    unfolding word_unat_eq_iff unat_take using lt [of a] by simp
  then have "\<not> bit (load16 m a) n" if "16 \<le> n" for a n
    using that by (metis bit_take_bit_iff not_le)
  then have "load16 m a AND push_bit 16 (load16 m (a + 2)) = 0"
    by (intro bit_eqI) (auto simp: bit_simps not_le)
  then have "load32 m a = load16 m a + 65536 * load16 m (a + 2)"
    by (simp add: load32_def or_is_plus push_bit_eq_mult)
  then show ?thesis using lt [of a] lt [of "a + 2"] by (simp add: unat_word_ariths)
qed

lemma unat_SWAP:
  assumes "unat x \<le> 65535"
  shows "unat (SWAP_BYTES_IN_WORD x) = 256 * (unat x mod 256) + unat x div 256"
proof -
  have a: "x AND 0xff = take_bit 8 x" by (simp add: take_bit_eq_mask mask_eq_exp_minus_1)
  have b: "drop_bit 8 (x AND 0xff00) = drop_bit 8 x"
  proof (rule bit_eqI)
    fix n
    have ff: "(0xff00 :: u32) = push_bit 8 (mask 8)" by (simp add: mask_eq_exp_minus_1 push_bit_eq_mult)
    have "take_bit 16 x = x" unfolding word_unat_eq_iff unat_take using assms by simp
    then have "bit x (8 + n) \<Longrightarrow> 8 + n < 16" by (metis bit_take_bit_iff)
    then show "bit (drop_bit 8 (x AND 0xff00)) n = bit (drop_bit 8 x) n"
      unfolding ff by (auto simp: bit_drop_bit_eq bit_and_iff bit_push_bit_iff bit_mask_iff dest: bit_imp_le_length)
  qed
  have d: "unat x div 256 < 256" using assms by (simp add: less_mult_imp_div_less)
  have ud: "unat (drop_bit 8 x) = unat x div 256" using unat_drop_word [of 8 x] by simp
  have "push_bit 8 (take_bit 8 x) AND drop_bit 8 x = 0"
  proof (rule bit_eqI)
    fix n
    have "take_bit 8 (drop_bit 8 x) = drop_bit 8 x"
      unfolding word_unat_eq_iff unat_take ud using d by simp
    then have "bit (drop_bit 8 x) n \<longleftrightarrow> n < 8 \<and> bit (drop_bit 8 x) n" by (metis bit_take_bit_iff)
    then show "bit (push_bit 8 (take_bit 8 x) AND drop_bit 8 x) n = bit (0 :: u32) n"
      by (auto simp: bit_push_bit_iff bit_and_iff)
  qed
  then have "SWAP_BYTES_IN_WORD x = 256 * take_bit 8 x + drop_bit 8 x"
    unfolding SWAP_BYTES_IN_WORD_def a b by (simp only: or_is_plus push_bit_eq_mult mult.commute) simp
  moreover have "unat (take_bit 8 x) = unat x mod 256" using unat_take [of 8 x] by simp
  moreover have "unat x mod 256 < 256" by simp
  ultimately show ?thesis using d ud by (simp add: unat_word_ariths)
qed

lemma SWAP_ones:
  assumes "unat x \<le> 65535"
  shows "unat (SWAP_BYTES_IN_WORD x) = ones (256 * unat x)"
proof (rule ones_unique)
  let ?n = "unat x"
  have n: "?n = 256 * (?n div 256) + ?n mod 256" by simp
  have d: "?n div 256 < 256" using assms by (simp add: less_mult_imp_div_less)
  then show "unat (SWAP_BYTES_IN_WORD x) \<le> 65535" using pos_mod_bound [of 256] by (simp add: unat_SWAP [OF assms])
  define a b where "a = ?n div 256" and "b = ?n mod 256"
  have ab: "?n = 256 * a + b" using n by (simp add: a_def b_def)
  have "256 * ?n = 256 * b + a + 65535 * a" unfolding ab by simp
  then have "256 * ?n = 256 * (?n mod 256) + ?n div 256 + 65535 * (?n div 256)" by (simp only: a_def b_def)
  then show "unat (SWAP_BYTES_IN_WORD x) mod 65535 = 256 * ?n mod 65535" unfolding unat_SWAP [OF assms] by (metis mod_mult_self2)
  show "(unat (SWAP_BYTES_IN_WORD x) = 0) = (256 * ?n = 0)" unfolding unat_SWAP [OF assms] using n by auto
qed

lemma FOLD_ones:
  "unat (FOLD_U32T (FOLD_U32T u)) = ones (unat u)"
  "unat u \<le> 131070 \<Longrightarrow> unat (FOLD_U32T u) = ones (unat u)"
proof -
  note m = fold_ones [OF unat_FOLD]
  have bound: "unat (FOLD_U32T u) \<le> 131070" for u
  proof -
    have "unat u div 65536 < 65536" using unat_less_2p32 [of u] by (simp add: less_mult_imp_div_less)
    moreover have "unat u mod 65536 < 65536" by simp
    ultimately show ?thesis unfolding unat_FOLD by linarith
  qed
  have small: "unat (FOLD_U32T u) \<le> 65535" if "unat u \<le> 131070" for u
  proof -
    define q r where "q = unat u div 65536" and "r = unat u mod 65536"
    have "unat u = 65536 * q + r" "r < 65536" by (simp_all add: q_def r_def)
    then have "q + r \<le> 65535" using that by (cases "q = 0") linarith+
    then show ?thesis by (simp add: unat_FOLD q_def r_def)
  qed
  show "unat u \<le> 131070 \<Longrightarrow> unat (FOLD_U32T u) = ones (unat u)"
    using ones_unique [OF small m] by simp
  show "unat (FOLD_U32T (FOLD_U32T u)) = ones (unat u)"
    using ones_unique [OF small [OF bound]] m [of "FOLD_U32T u"] m [of u] by simp
qed

section \<open>Sums of words\<close>

lemma mod_add_cong_right: "a mod n = b mod (n :: nat) \<Longrightarrow> (c + a) mod n = (c + b) mod n"
  by (metis mod_add_right_eq)

lemma le_sum_Cons: "le_sum (b # bs) mod 65535 = (unat b + 256 * le_sum bs) mod 65535 \<and> (le_sum (b # bs) = 0 \<longleftrightarrow> unat b + le_sum bs = 0)"
proof (induction bs arbitrary: b rule: le_sum.induct)
  case (3 c d bs)
  have "le_sum (b # c # d # bs) mod 65535 = (unat b + 256 * unat c + le_sum (d # bs)) mod 65535" by simp
  also have "\<dots> = (unat b + 256 * unat c + (unat d + 256 * le_sum bs)) mod 65535" using 3 by (intro mod_add_cong_right) blast
  also have "\<dots> = (unat b + 256 * (unat c + 256 * unat d + le_sum bs)) mod 65535"
  proof -
    have "unat b + 256 * (unat c + 256 * unat d + le_sum bs) =
        unat b + 256 * unat c + (unat d + 256 * le_sum bs) + 65535 * unat d" by simp
    then show ?thesis by (metis mod_mult_self2)
  qed
  finally show ?case using 3 by simp
qed auto

lemma be_sum_le_sum: "be_sum bs mod 65535 = 256 * le_sum bs mod 65535 \<and> (be_sum bs = 0 \<longleftrightarrow> le_sum bs = 0)"
proof (induction bs rule: be_sum.induct)
  case (3 b c bs)
  have "be_sum (b # c # bs) mod 65535 = (256 * unat b + unat c + 256 * le_sum bs) mod 65535"
    unfolding be_sum.simps using 3 by (intro mod_add_cong_right) blast
  also have "256 * unat b + unat c + 256 * le_sum bs + 65535 * unat c = 256 * le_sum (b # c # bs)" by simp
  then have "(256 * unat b + unat c + 256 * le_sum bs) mod 65535 = 256 * le_sum (b # c # bs) mod 65535" by (metis mod_mult_self2)
  finally show ?case using 3 by auto
qed simp_all

lemma le_sum_bound: "le_sum bs \<le> 65535 * ((length bs + 1) div 2)"
proof (induction bs rule: le_sum.induct)
  case (2 b)
  then show ?case using unat8_less [of b] by simp
next
  case (3 b c bs)
  then show ?case using unat8_less [of b] unat8_less [of c] by simp
qed simp

lemma be_sum_bound: "be_sum bs \<le> 65535 * ((length bs + 1) div 2)"
proof (induction bs rule: be_sum.induct)
  case (2 b)
  then show ?case using unat8_less [of b] by simp
next
  case (3 b c bs)
  then show ?case using unat8_less [of b] unat8_less [of c] by simp
qed simp

declare octets_loop.simps [simp del] words_loop.simps [simp del] pairs_loop.simps [simp del]

lemma block_2: "2 \<le> n \<Longrightarrow> block m a n = m a # m (a + 1) # block m (a + 2) (n - 2)"
proof -
  assume "2 \<le> n"
  then obtain k where "n = Suc (Suc k)" by (metis add_2_eq_Suc le_Suc_ex)
  then show ?thesis by (simp add: block_Suc add.assoc)
qed

lemma words_loop_sum:
  "unat tot + le_sum (block m ps len) < 2 ^ 32 \<Longrightarrow>
   \<exists>tot'. words_loop m ps len tot = (tot', ps + of_nat (len - len mod 2), len mod 2) \<and>
     unat tot' + (if len mod 2 = 1 then unat (m (ps + of_nat (len - len mod 2))) else 0) = unat tot + le_sum (block m ps len)"
proof (induction m ps len tot rule: words_loop.induct)
  case (1 m ps len tot)
  show ?case
  proof (cases "len > 1")
    case True
    then have b: "block m ps len = m ps # m (ps + 1) # block m (ps + 2) (len - 2)" by (intro block_2) simp
    have u: "unat (tot + load16 m ps) = unat tot + (unat (m ps) + 256 * unat (m (ps + 1)))"
      using 1(2) unfolding b by (simp add: unat_word_ariths unat_load16)
    have p: "(len - 2) mod 2 = len mod 2" using le_mod_geq [of 2 len] True by simp
    have q: "ps + 2 + of_nat (len - 2 - len mod 2) = ps + of_nat (len - len mod 2)"
    proof -
      have "len - len mod 2 = 2 + (len - 2 - len mod 2)" using True mod_less_eq_dividend [of "len - 2" 2] unfolding p by linarith
      then show ?thesis by (simp add: add.assoc)
    qed
    have w: "words_loop m ps len tot = words_loop m (ps + 2) (len - 2) (tot + load16 m ps)"
      using True by (subst words_loop.simps) simp
    from 1(1) [OF True] 1(2) obtain tot' where t: "words_loop m (ps + 2) (len - 2) (tot + load16 m ps) = (tot', ps + of_nat (len - len mod 2), len mod 2)"
      "unat tot' + (if len mod 2 = 1 then unat (m (ps + of_nat (len - len mod 2))) else 0) =
        unat tot + (unat (m ps) + 256 * unat (m (ps + 1))) + le_sum (block m (ps + 2) (len - 2))"
      unfolding b u p q by auto
    show ?thesis unfolding w t(1) b le_sum.simps by (intro exI [of _ tot'] conjI refl) (use t(2) in linarith)
  next
    case False
    then have "len = 0 \<or> len = 1" by auto
    then show ?thesis by (subst words_loop.simps) (auto simp: block_def)
  qed
qed

lemma unat_set_bytes:
  "unat (set_byte1 0 b) = 256 * unat b"
  "unat (set_byte0 (set_byte1 0 b) c) = unat c + 256 * unat b"
proof -
  have s1: "set_byte1 0 b = push_bit 8 (ucast b)" by (simp add: set_byte1_def)
  then show u: "unat (set_byte1 0 b) = 256 * unat b"
    using unat8_less [of b] by (simp add: push_bit_eq_mult unat_word_ariths unat_u8)
  have "push_bit 8 (ucast b) AND NOT (0xff :: u32) = push_bit 8 (ucast b)"
  proof (rule bit_eqI)
    fix n
    have ff: "(0xff :: u32) = mask 8" by (simp add: mask_eq_exp_minus_1)
    show "bit (push_bit 8 (ucast b) AND NOT (0xff :: u32)) n = bit (push_bit 8 (ucast b) :: u32) n"
      unfolding ff by (auto simp: bit_simps)
  qed
  moreover have "(push_bit 8 (ucast b) :: u32) AND ucast c = 0"
    by (rule bit_eqI) (auto simp: bit_simps dest: bit_u8)
  ultimately have "set_byte0 (set_byte1 0 b) c = set_byte1 0 b + ucast c"
    unfolding set_byte0_def s1 by (simp only: or_is_plus)
  then show "unat (set_byte0 (set_byte1 0 b) c) = unat c + 256 * unat b"
    using unat8_less [of b] unat8_less [of c] by (simp add: unat_word_ariths u unat_u8)
qed

lemma set_byte1_0 [simp]: "set_byte1 0 0 = 0"
  by (simp add: set_byte1_def)

lemma unat_ucast16: "unat x \<le> 65535 \<Longrightarrow> unat (ucast (x :: u32) :: u16) = unat x"
  by (simp add: unsigned_ucast_eq take_bit_nat_eq_self)

lemma chksum_finish_ones:
  assumes "t = set_byte1 0 b" and "S = unat tot + (if 0 < len then unat (m ps) else 0) + 256 * unat b" and "S < 2 ^ 32"
  shows "unat (chksum_finish m odd' t (tot, ps, len)) = ones (if odd' then 256 * S else S)"
proof -
  define t2 where "t2 = (if len > 0 then set_byte0 t (m ps) else t)"
  have "unat t2 = (if 0 < len then unat (m ps) else 0) + 256 * unat b"
    using assms(1) by (simp add: t2_def unat_set_bytes)
  then have "unat (tot + t2) = S" using assms(2,3) by (simp add: unat_word_ariths)
  then have f: "unat (FOLD_U32T (FOLD_U32T (tot + t2))) = ones S" by (simp add: FOLD_ones)
  have "unat (SWAP_BYTES_IN_WORD (FOLD_U32T (FOLD_U32T (tot + t2)))) = ones (256 * ones S)"
    using SWAP_ones [of "FOLD_U32T (FOLD_U32T (tot + t2))"] f ones_le [of S] by simp
  also have "\<dots> = ones (256 * S)"
    by (rule ones_cong) (metis mod_mult_right_eq ones_mod, simp)
  finally show ?thesis using f ones_le [of S] ones_le [of "256 * S"]
    by (simp add: chksum_finish_def t2_def [symmetric] Let_def unat_ucast16)
qed

lemma swapped_sum: "ones (256 * (le_sum bs + 256 * unat b)) = ones (le_sum (b # bs))"
proof (rule ones_cong)
  have "256 * (le_sum bs + 256 * unat b) = unat b + 256 * le_sum bs + 65535 * unat b" by simp
  then show "256 * (le_sum bs + 256 * unat b) mod 65535 = le_sum (b # bs) mod 65535"
    using le_sum_Cons [of b bs] by (metis mod_mult_self2)
  show "(256 * (le_sum bs + 256 * unat b) = 0) = (le_sum (b # bs) = 0)" using le_sum_Cons [of b bs] by auto
qed

lemma mod2_cases: "(if 0 < (len :: nat) mod 2 then x else y) = (if len mod 2 = 1 then x else (y :: nat))"
  by (simp add: mod_2_eq_odd)

lemma chksum_2_ones:
  assumes "n \<le> 0x20000"
  shows "unat (lwip_standard_chksum_2 m a n) = ones (le_sum (block m a n))"
proof (cases "a AND 1 \<noteq> 0 \<and> n > 0")
  case True
  then obtain k where n: "n = Suc k" by (cases n) auto
  have "(k + 1) div 2 \<le> 65536" using assms n by simp
  then have lt: "le_sum (block m (a + 1) k) + 256 * unat (m a) < 2 ^ 32"
    using le_sum_bound [of "block m (a + 1) k"] unat8_less [of "m a"] by simp
  obtain tot' where w: "words_loop m (a + 1) k 0 = (tot', a + 1 + of_nat (k - k mod 2), k mod 2)"
    "unat tot' + (if k mod 2 = 1 then unat (m (a + 1 + of_nat (k - k mod 2))) else 0) = le_sum (block m (a + 1) k)"
    using words_loop_sum [of 0 m "a + 1" k] lt by auto
  have "lwip_standard_chksum_2 m a n = chksum_finish m True (set_byte1 0 (m a)) (tot', a + 1 + of_nat (k - k mod 2), k mod 2)"
    using True n w(1) by (simp add: lwip_standard_chksum_2_def Let_def)
  moreover have "unat (chksum_finish m True (set_byte1 0 (m a)) (tot', a + 1 + of_nat (k - k mod 2), k mod 2)) =
      ones (if True then 256 * (le_sum (block m (a + 1) k) + 256 * unat (m a)) else le_sum (block m (a + 1) k) + 256 * unat (m a))"
    by (rule chksum_finish_ones [OF refl _ lt]) (simp only: mod2_cases w(2) [symmetric])
  ultimately show ?thesis by (simp only: n block_Suc swapped_sum if_True)
next
  case False
  have "(n + 1) div 2 \<le> 65536" using assms by simp
  then have lt: "le_sum (block m a n) < 2 ^ 32" using le_sum_bound [of "block m a n"] by simp
  obtain tot' where w: "words_loop m a n 0 = (tot', a + of_nat (n - n mod 2), n mod 2)"
    "unat tot' + (if n mod 2 = 1 then unat (m (a + of_nat (n - n mod 2))) else 0) = le_sum (block m a n)"
    using words_loop_sum [of 0 m a n] lt by auto
  have e: "lwip_standard_chksum_2 m a n = chksum_finish m (a AND 1 \<noteq> 0) (set_byte1 0 0) (tot', a + of_nat (n - n mod 2), n mod 2)"
    using False w(1) by (auto simp: lwip_standard_chksum_2_def Let_def)
  have "unat (lwip_standard_chksum_2 m a n) = ones (if a AND 1 \<noteq> 0 then 256 * le_sum (block m a n) else le_sum (block m a n))"
    unfolding e using w(2) lt by (intro chksum_finish_ones [of _ 0]) (simp_all add: mod2_cases)
  moreover have "n = 0" if "a AND 1 \<noteq> 0" using False that by simp
  ultimately show ?thesis by (cases "a AND 1 \<noteq> 0") (simp_all add: block_def)
qed

text \<open>Adding with the carry put back.\<close>

definition add_carry :: "u32 \<Rightarrow> u32 \<Rightarrow> u32" where
  "add_carry x v = (let t = x + v in if t < x then t + 1 else t)"

lemma add_carry_mod:
  "unat (add_carry x v) mod 65535 = (unat x + unat v) mod 65535 \<and> (add_carry x v = 0 \<longleftrightarrow> unat x + unat v = 0)"
proof (cases "unat x + unat v < 2 ^ 32")
  case True
  then have u: "unat (x + v) = unat x + unat v" by (simp add: unat_word_ariths)
  then have "\<not> x + v < x" by (simp add: word_less_nat_alt)
  moreover have "x + v = 0 \<longleftrightarrow> unat x + unat v = 0" using u unat_eq_zero [of "x + v"] by simp
  ultimately show ?thesis using u by (simp add: add_carry_def)
next
  case False
  have lx: "unat x < 2 ^ 32" "unat v < 2 ^ 32" using unat_less_2p32 [of x] unat_less_2p32 [of v] by simp_all
  have u: "unat (x + v) = unat x + unat v - 2 ^ 32"
    using False lx by (simp add: unat_word_ariths le_mod_geq)
  then have "x + v < x" using False lx by (simp add: word_less_nat_alt)
  then have a: "add_carry x v = x + v + 1" by (simp add: add_carry_def)
  have "unat (x + v + 1) = unat x + unat v - 2 ^ 32 + 1" using u lx by (simp add: unat_word_ariths)
  then have u1: "unat (add_carry x v) = unat x + unat v - 2 ^ 32 + 1" unfolding a .
  have "unat x + unat v = unat (add_carry x v) + 65535 * 65537" using u1 False by simp
  then have "unat (add_carry x v) mod 65535 = (unat x + unat v) mod 65535" by (metis mod_mult_self2)
  moreover have "add_carry x v \<noteq> 0" using u1 by (metis Suc_eq_plus1 nat.distinct(1) unat_0)
  ultimately show ?thesis using False by auto
qed

lemma le_sum_append: "length xs mod 2 = 0 \<Longrightarrow> le_sum (xs @ ys) = le_sum xs + le_sum ys"
  by (induction xs rule: le_sum.induct) simp_all

lemma load32_mod: "unat (load32 m a) mod 65535 = le_sum (block m a 4) mod 65535 \<and> (load32 m a = 0 \<longleftrightarrow> le_sum (block m a 4) = 0)"
proof -
  have "unat (load32 m a) = unat (load16 m a) + unat (load16 m (a + 2)) + 65535 * unat (load16 m (a + 2))"
    by (simp add: unat_load32)
  moreover have "block m a 4 = [m a, m (a + 1), m (a + 2), m (a + 3)]" by (simp add: block_def upt_rec)
  then have l: "le_sum (block m a 4) = unat (load16 m a) + unat (load16 m (a + 2))" by (simp add: unat_load16 add.assoc)
  ultimately have "unat (load32 m a) mod 65535 = le_sum (block m a 4) mod 65535" by (metis mod_mult_self2)
  moreover have "load32 m a = 0 \<longleftrightarrow> unat (load32 m a) = 0" by (simp add: unat_eq_zero)
  ultimately show ?thesis using l by (simp add: unat_load32)
qed

lemma block_append: "block m a (i + j) = block m a i @ block m (a + of_nat i) j"
  by (rule nth_equalityI) (auto simp: nth_append add.assoc)

lemma pairs_loop_sum:
  "\<exists>tot'. pairs_loop m pl len tot = (tot', pl + of_nat (len - len mod 8), len mod 8) \<and>
     unat tot' mod 65535 = (unat tot + le_sum (block m pl (len - len mod 8))) mod 65535 \<and>
     (tot' = 0 \<longleftrightarrow> unat tot + le_sum (block m pl (len - len mod 8)) = 0)"
proof (induction m pl len tot rule: pairs_loop.induct)
  case (1 m pl len tot)
  show ?case
  proof (cases "len > 7")
    case False
    then show ?thesis by (subst pairs_loop.simps) (simp add: block_def unat_eq_zero)
  next
    case True
    define t where "t = add_carry tot (load32 m pl)"
    define v where "v = add_carry t (load32 m (pl + 4))"
    have e: "pairs_loop m pl len tot = pairs_loop m (pl + 8) (len - 8) v"
      using True by (subst pairs_loop.simps) (simp add: t_def v_def add_carry_def Let_def)
    have md: "(len - 8) mod 8 = len mod 8" using le_mod_geq [of 8 len] True by simp
    have ls: "len - len mod 8 = 8 + (len - 8 - len mod 8)" using True mod_less_eq_dividend [of "len - 8" 8] unfolding md by linarith
    have ad: "pl + 8 + of_nat (len - 8 - len mod 8) = pl + of_nat (len - len mod 8)" unfolding ls by (simp only: of_nat_add of_nat_numeral add.assoc)
    let ?R = "le_sum (block m (pl + 8) (len - 8 - len mod 8))"
    have b8: "block m pl 8 = block m pl 4 @ block m (pl + 4) 4" using block_append [of m pl 4 4] by simp
    have L: "le_sum (block m pl (len - len mod 8)) = le_sum (block m pl 4) + le_sum (block m (pl + 4) 4) + ?R"
      unfolding ls block_append b8 by (simp add: le_sum_append)
    have tx: "(if tot + load32 m pl < tot then tot + load32 m pl + 1 else tot + load32 m pl) = t"
      by (simp add: t_def add_carry_def Let_def)
    have vx: "(if t + load32 m (pl + 4) < t then t + load32 m (pl + 4) + 1 else t + load32 m (pl + 4)) = v"
      by (simp add: v_def add_carry_def Let_def)
    note ih = 1 [OF True refl refl refl refl, unfolded tx vx md ad]
    obtain tot' where
      t: "pairs_loop m (pl + 8) (len - 8) v = (tot', pl + of_nat (len - len mod 8), len mod 8)"
      "unat tot' mod 65535 = (unat v + ?R) mod 65535" "tot' = 0 \<longleftrightarrow> unat v + ?R = 0"
      using ih by (elim exE conjE) (rule that, assumption+)
    note c1 = add_carry_mod [of tot "load32 m pl", folded t_def] and c2 = add_carry_mod [of t "load32 m (pl + 4)", folded v_def]
    note l1 = load32_mod [of m pl] and l2 = load32_mod [of m "pl + 4"]
    have "unat t mod 65535 = (unat tot + le_sum (block m pl 4)) mod 65535"
      using c1 mod_add_cong_right [OF conjunct1 [OF l1], of "unat tot"] by (simp only:)
    then have "(unat t + unat (load32 m (pl + 4))) mod 65535 =
        (unat tot + le_sum (block m pl 4) + le_sum (block m (pl + 4) 4)) mod 65535"
      by (rule mod_add_cong) (rule conjunct1 [OF l2])
    then have "unat v mod 65535 = (unat tot + le_sum (block m pl 4) + le_sum (block m (pl + 4) 4)) mod 65535"
      using c2 by (simp only:)
    then have "(unat v + ?R) mod 65535 = (unat tot + le_sum (block m pl 4) + le_sum (block m (pl + 4) 4) + ?R) mod 65535"
      by (rule mod_add_cong) (rule refl)
    then have "(unat v + ?R) mod 65535 = (unat tot + le_sum (block m pl (len - len mod 8))) mod 65535"
      unfolding L by (simp only: add.assoc)
    moreover have "unat v + ?R = 0 \<longleftrightarrow> unat tot + le_sum (block m pl (len - len mod 8)) = 0"
    proof -
      have "v = 0 \<longleftrightarrow> t = 0 \<and> load32 m (pl + 4) = 0" using conjunct2 [OF c2] by (simp add: unat_eq_zero)
      moreover have "t = 0 \<longleftrightarrow> tot = 0 \<and> load32 m pl = 0" using conjunct2 [OF c1] by (simp add: unat_eq_zero)
      ultimately show ?thesis using l1 l2 unfolding L by (simp add: unat_eq_zero)
    qed
    ultimately show ?thesis unfolding e t(1) using t(2,3) by simp
  qed
qed

lemma FOLD_bound: "unat (FOLD_U32T u) \<le> 131070"
proof -
  have "unat u div 65536 < 65536" using unat_less_2p32 [of u] by (simp add: less_mult_imp_div_less)
  moreover have "unat u mod 65536 < 65536" by simp
  ultimately show ?thesis unfolding unat_FOLD by linarith
qed

lemma tail_sum:
  "\<exists>tot ps'. (case pairs_loop m ps len tot0 of (tot, pl, len) \<Rightarrow> words_loop m pl len (FOLD_U32T tot)) = (tot, ps', len mod 2) \<and>
     unat tot + (if len mod 2 = 1 then unat (m ps') else 0) < 2 ^ 31 \<and>
     (unat tot + (if len mod 2 = 1 then unat (m ps') else 0)) mod 65535 = (unat tot0 + le_sum (block m ps len)) mod 65535 \<and>
     (unat tot + (if len mod 2 = 1 then unat (m ps') else 0) = 0 \<longleftrightarrow> unat tot0 + le_sum (block m ps len) = 0)"
proof -
  let ?k = "len - len mod 8" and ?l = "len mod 8"
  obtain t1 where p: "pairs_loop m ps len tot0 = (t1, ps + of_nat ?k, ?l)"
    "unat t1 mod 65535 = (unat tot0 + le_sum (block m ps ?k)) mod 65535" "t1 = 0 \<longleftrightarrow> unat tot0 + le_sum (block m ps ?k) = 0"
    using pairs_loop_sum [of m ps len tot0] by (elim exE conjE) (rule that, assumption+)
  have m8: "?l < 8" by simp
  have b: "unat (FOLD_U32T t1) + le_sum (block m (ps + of_nat ?k) ?l) < 2 ^ 31"
    using FOLD_bound [of t1] le_sum_bound [of "block m (ps + of_nat ?k) ?l"] m8 by simp
  have m2: "?l mod 2 = len mod 2" by (simp add: mod_mod_cancel)
  obtain t2 where w: "words_loop m (ps + of_nat ?k) ?l (FOLD_U32T t1) = (t2, ps + of_nat ?k + of_nat (?l - ?l mod 2), ?l mod 2)"
    "unat t2 + (if ?l mod 2 = 1 then unat (m (ps + of_nat ?k + of_nat (?l - ?l mod 2))) else 0) =
       unat (FOLD_U32T t1) + le_sum (block m (ps + of_nat ?k) ?l)"
    using words_loop_sum [of "FOLD_U32T t1" m "ps + of_nat ?k" ?l] b by auto
  have "len = ?k + ?l" by simp
  then have "block m ps len = block m ps ?k @ block m (ps + of_nat ?k) ?l" using block_append [of m ps ?k ?l] by simp
  moreover have "?k mod 2 = 0" by (metis dvd_imp_mod_0 dvd_minus_mod dvd_trans even_numeral mod_mod_trivial numeral_Bit0_eq_double dvd_triv_left)
  ultimately have L: "le_sum (block m ps len) = le_sum (block m ps ?k) + le_sum (block m (ps + of_nat ?k) ?l)"
    by (simp only: le_sum_append length_block)
  note f = fold_ones [OF unat_FOLD [of t1]]
  have md: "(unat (FOLD_U32T t1) + le_sum (block m (ps + of_nat ?k) ?l)) mod 65535 = (unat tot0 + le_sum (block m ps len)) mod 65535"
    unfolding L add.assoc [symmetric] by (rule mod_add_cong [OF trans [OF f(1) p(2)] refl])
  have z: "unat (FOLD_U32T t1) + le_sum (block m (ps + of_nat ?k) ?l) = 0 \<longleftrightarrow> unat tot0 + le_sum (block m ps len) = 0"
    using f(2) p(3) unfolding L by (auto simp: unat_eq_zero)
  show ?thesis
    using b md z unfolding p(1) w(2) [unfolded m2, symmetric] prod.case w(1) [unfolded m2]
    by (intro exI [of _ t2] exI [of _ "ps + of_nat ?k + of_nat (?l - len mod 2)"] conjI refl)
qed

lemma pair_split: "(case if c then (a, b, d) else (a', b', d') of (x, y, z) \<Rightarrow> f x y z) = (if c then f a b d else f a' b' d')"
  by simp

lemma chksum_tail:
  assumes "b = 0 \<or> odd'"
  shows "unat (chksum_finish m odd' (set_byte1 0 b) (case pairs_loop m ps len tot0 of (tot, pl, len) \<Rightarrow> words_loop m pl len (FOLD_U32T tot))) =
     ones (if odd' then 256 * (unat tot0 + le_sum (block m ps len) + 256 * unat b) else unat tot0 + le_sum (block m ps len))"
proof -
  obtain tot ps' where h: "(case pairs_loop m ps len tot0 of (tot, pl, len) \<Rightarrow> words_loop m pl len (FOLD_U32T tot)) = (tot, ps', len mod 2)"
     "unat tot + (if len mod 2 = 1 then unat (m ps') else 0) < 2 ^ 31"
     "(unat tot + (if len mod 2 = 1 then unat (m ps') else 0)) mod 65535 = (unat tot0 + le_sum (block m ps len)) mod 65535"
     "unat tot + (if len mod 2 = 1 then unat (m ps') else 0) = 0 \<longleftrightarrow> unat tot0 + le_sum (block m ps len) = 0"
    using tail_sum [of m ps len tot0] by (elim exE conjE) (rule that, assumption+)
  define S where "S = unat tot + (if len mod 2 = 1 then unat (m ps') else 0) + 256 * unat b"
  have "(2 :: nat) ^ 31 + 65536 \<le> 2 ^ 32" by simp
  then have "S < 2 ^ 32" using h(2) unat8_less [of b] unfolding S_def by linarith
  then have f: "unat (chksum_finish m odd' (set_byte1 0 b) (tot, ps', len mod 2)) = ones (if odd' then 256 * S else S)"
    by (intro chksum_finish_ones [OF refl]) (simp only: mod2_cases S_def)
  have md: "S mod 65535 = (unat tot0 + le_sum (block m ps len) + 256 * unat b) mod 65535"
    unfolding S_def by (rule mod_add_cong [OF h(3) refl])
  have z: "S = 0 \<longleftrightarrow> unat tot0 + le_sum (block m ps len) + 256 * unat b = 0" unfolding S_def using h(4) by auto
  have o1: "ones S = ones (unat tot0 + le_sum (block m ps len) + 256 * unat b)" using ones_cong [OF md z] .
  have o2: "ones (256 * S) = ones (256 * (unat tot0 + le_sum (block m ps len) + 256 * unat b))"
    by (rule ones_cong) (metis md mod_mult_right_eq, use z in auto)
  show ?thesis unfolding h(1) f using o1 o2 assms by (auto simp del: mult_Suc_right)
qed

text \<open>The middle of version 3, from the first even address on.\<close>

lemma aligned_sum:
  "\<exists>t0 ps' len'. (if ps AND 3 \<noteq> 0 \<and> len > 1 then (0 + load16 m ps, ps + 2, len - 2) else (0, ps, len)) = (t0, ps', len') \<and>
     unat t0 + le_sum (block m ps' len') = le_sum (block m ps len)"
proof (cases "ps AND 3 \<noteq> 0 \<and> len > 1")
  case True
  then show ?thesis using block_2 [of len m ps] by (simp add: unat_load16)
next
  case False
  then show ?thesis by auto
qed

lemma chksum_3_ones: "unat (lwip_standard_chksum_3 m a n) = ones (le_sum (block m a n))"
proof (cases "a AND 1 \<noteq> 0 \<and> n > 0")
  case True
  then obtain k where n: "n = Suc k" by (cases n) auto
  obtain t0 ps' len' where h: "(if (a + 1) AND 3 \<noteq> 0 \<and> k > 1 then (0 + load16 m (a + 1), a + 1 + 2, k - 2) else (0, a + 1, k)) = (t0, ps', len')"
    "unat t0 + le_sum (block m ps' len') = le_sum (block m (a + 1) k)"
    using aligned_sum [of "a + 1" k m] by (elim exE conjE) (rule that, assumption+)
  have "lwip_standard_chksum_3 m a n =
      chksum_finish m True (set_byte1 0 (m a)) (case pairs_loop m ps' len' t0 of (tot, pl, len) \<Rightarrow> words_loop m pl len (FOLD_U32T tot))"
    using True h(1) unfolding lwip_standard_chksum_3_def Let_def n by (simp split: prod.split)
  then show ?thesis using chksum_tail [of "m a" True m ps' len' t0, OF disjI2 [OF TrueI]] unfolding h(2) n block_Suc if_True swapped_sum by (rule trans [OF arg_cong])
next
  case False
  obtain t0 ps' len' where h: "(if a AND 3 \<noteq> 0 \<and> n > 1 then (0 + load16 m a, a + 2, n - 2) else (0, a, n)) = (t0, ps', len')"
    "unat t0 + le_sum (block m ps' len') = le_sum (block m a n)"
    using aligned_sum [of a n m] by (elim exE conjE) (rule that, assumption+)
  have "lwip_standard_chksum_3 m a n =
      chksum_finish m (a AND 1 \<noteq> 0) (set_byte1 0 0) (case pairs_loop m ps' len' t0 of (tot, pl, len) \<Rightarrow> words_loop m pl len (FOLD_U32T tot))"
    using False h(1) unfolding lwip_standard_chksum_3_def Let_def by (auto split: prod.split)
  then have "unat (lwip_standard_chksum_3 m a n) = ones (if a AND 1 \<noteq> 0 then 256 * le_sum (block m a n) else le_sum (block m a n))"
    using chksum_tail [of 0 "a AND 1 \<noteq> 0" m ps' len' t0] unfolding h(2) by simp
  moreover have "n = 0" if "a AND 1 \<noteq> 0" using False that by simp
  ultimately show ?thesis by (cases "a AND 1 \<noteq> 0") (simp_all add: block_def)
qed

declare octets_loop.simps [simp del]

lemma unat_octets: "unat (ucast ((push_bit 8 (ucast (b :: u8)) :: u16) OR ucast c) :: u32) = 256 * unat b + unat (c :: u8)"
proof -
  have "(push_bit 8 (ucast b) :: u16) AND ucast c = 0" by (rule bit_eqI) (auto simp: bit_simps dest: bit_u8)
  then have "(push_bit 8 (ucast b) :: u16) OR ucast c = 256 * ucast b + ucast c" by (simp add: or_is_plus push_bit_eq_mult)
  moreover have "256 * unat b + unat c < 65536" using unat8_less [of b] unat8_less [of c] by linarith
  ultimately have "unat ((push_bit 8 (ucast b) :: u16) OR ucast c) = 256 * unat b + unat c" by (simp add: unat_word_ariths unat_u8)
  then show ?thesis using \<open>256 * unat b + unat c < 65536\<close> by (simp add: unsigned_ucast_eq take_bit_nat_eq_self)
qed

lemma octets_loop_sum:
  "unat acc + be_sum (block m p len) < 2 ^ 32 \<Longrightarrow> unat (octets_loop m p len acc) = unat acc + be_sum (block m p len)"
proof (induction m p len acc rule: octets_loop.induct)
  case (1 m p len acc)
  show ?case
  proof (cases "len > 1")
    case True
    then have b: "block m p len = m p # m (p + 1) # block m (p + 2) (len - 2)" by (intro block_2) simp
    let ?w = "ucast ((push_bit 8 (ucast (m p)) :: u16) OR ucast (m (p + 1))) :: u32"
    have u: "unat (acc + ?w) = unat acc + (256 * unat (m p) + unat (m (p + 1)))"
      using 1(2) unfolding b by (simp add: unat_word_ariths unat_octets)
    have e: "octets_loop m p len acc = octets_loop m (p + 1 + 1) (len - 2) (acc + ?w)"
      using True by (subst octets_loop.simps) (simp add: Let_def)
    have q: "p + 1 + 1 = p + 2" by simp
    show ?thesis using 1(1) [OF True refl refl] 1(2) unfolding e u q b by simp
  next
    case False
    then consider "len = 0" | "len = 1" by linarith
    then show ?thesis
    proof cases
      case 2
      have "octets_loop m p len acc = acc + ucast (push_bit 8 (ucast (m p)) :: u16)"
        using 2 by (subst octets_loop.simps) (simp add: Let_def)
      moreover have "unat (ucast (push_bit 8 (ucast (m p)) :: u16) :: u32) = 256 * unat (m p)"
        using unat_octets [of "m p" 0] by simp
      ultimately show ?thesis using 1(2) 2 by (simp add: block_def unat_word_ariths)
    qed (simp add: octets_loop.simps block_def)
  qed
qed

lemma htons_SWAP: "lwip_htons n = ucast (SWAP_BYTES_IN_WORD (ucast n))"
proof (rule bit_eqI)
  fix k
  have "(0xff :: u16) = mask 8" "(0xff00 :: u16) = push_bit 8 (mask 8)" "(0xff :: u32) = mask 8" "(0xff00 :: u32) = push_bit 8 (mask 8)"
    by (simp_all add: mask_eq_exp_minus_1 push_bit_eq_mult)
  note ff = this
  show "bit (lwip_htons n) k = bit (ucast (SWAP_BYTES_IN_WORD (ucast n)) :: u16) k"
    unfolding lwip_htons_def SWAP_BYTES_IN_WORD_def ff by (auto simp: bit_simps)
qed

lemma unat_ucast_up: "unat (ucast (n :: u16) :: u32) = unat n"
  using unat16_less [of n] by (simp add: unsigned_ucast_eq take_bit_nat_eq_self)

lemma htons_ones: "unat (lwip_htons n) = ones (256 * unat n)"
proof -
  have "unat (ucast n :: u32) \<le> 65535" using unat16_less [of n] by (simp add: unat_ucast_up)
  from SWAP_ones [OF this] ones_le [of "256 * unat n"] show ?thesis by (simp add: htons_SWAP unat_ucast16 unat_ucast_up)
qed

lemma chksum_1_ones: "unat (lwip_standard_chksum_1 m a len) = ones (le_sum (block m a (unat len)))"
proof -
  define acc where "acc = octets_loop m a (unat len) 0"
  have "(unat len + 1) div 2 \<le> 32768" using unat16_less [of len] by simp
  then have lt: "be_sum (block m a (unat len)) < 2 ^ 32" using be_sum_bound [of "block m a (unat len)"] by simp
  then have acc: "unat acc = be_sum (block m a (unat len))" using octets_loop_sum [of 0] by (simp add: acc_def)
  have hi: "x AND 0xffff0000 = 0 \<longleftrightarrow> unat x \<le> 65535" for x :: u32
  proof -
    have ff: "(0xffff0000 :: u32) = push_bit 16 (mask 16)" by (simp add: mask_eq_exp_minus_1 push_bit_eq_mult)
    have "x AND 0xffff0000 = 0 \<longleftrightarrow> (\<forall>n. \<not> (bit x n \<and> 16 \<le> n))"
    proof
      assume a: "x AND 0xffff0000 = 0"
      show "\<forall>n. \<not> (bit x n \<and> 16 \<le> n)"
      proof (intro allI notI)
        fix n assume n: "bit x n \<and> 16 \<le> n"
        then have "n < 32" using bit_imp_le_length [of x n] by simp
        then have "bit (push_bit 16 (mask 16) :: u32) n" using n by (simp add: bit_push_bit_iff bit_mask_iff) arith
        then show False using n a unfolding ff by (metis bit_and_iff bit_0_eq bot_apply bot_bool_def)
      qed
    next
      assume "\<forall>n. \<not> (bit x n \<and> 16 \<le> n)"
      then show "x AND 0xffff0000 = 0" unfolding ff by (auto simp: bit_eq_iff bit_simps)
    qed
    also have "\<dots> \<longleftrightarrow> take_bit 16 x = x"
    proof
      assume "\<forall>n. \<not> (bit x n \<and> 16 \<le> n)"
      then show "take_bit 16 x = x" by (auto simp: bit_eq_iff bit_take_bit_iff not_le)
    next
      assume "take_bit 16 x = x"
      then show "\<forall>n. \<not> (bit x n \<and> 16 \<le> n)" by (metis bit_take_bit_iff not_le)
    qed
    also have "\<dots> \<longleftrightarrow> unat x mod 65536 = unat x" unfolding word_unat_eq_iff unat_take by simp
    also have "\<dots> \<longleftrightarrow> unat x < 65536" by (metis mod_less mod_less_divisor zero_less_numeral)
    also have "\<dots> \<longleftrightarrow> unat x \<le> 65535" by linarith
    finally show ?thesis .
  qed
  define y where "y = (if FOLD_U32T acc AND 0xffff0000 \<noteq> 0 then FOLD_U32T (FOLD_U32T acc) else FOLD_U32T acc)"
  have y: "unat y = ones (unat acc)"
  proof (cases "unat (FOLD_U32T acc) \<le> 65535")
    case True
    then show ?thesis using ones_unique [OF True fold_ones [OF unat_FOLD]] by (simp add: y_def hi)
  next
    case False
    then show ?thesis by (simp add: y_def hi FOLD_ones)
  qed
  have v: "lwip_standard_chksum_1 m a len = lwip_htons (ucast y)"
    unfolding lwip_standard_chksum_1_def y_def FOLD_U32T_def acc_def Let_def ..
  have uy: "unat (ucast y :: u16) = ones (unat acc)" using y ones_le [of "unat acc"] by (simp add: unat_ucast16)
  have "ones (256 * ones (unat acc)) = ones (le_sum (block m a (unat len)))"
  proof (rule ones_cong)
    let ?B = "block m a (unat len)"
    have "256 * ones (unat acc) mod 65535 = 256 * be_sum ?B mod 65535"
      unfolding acc by (rule mod_mult_cong [OF refl ones_mod])
    also have "\<dots> = 256 * (256 * le_sum ?B) mod 65535"
      by (rule mod_mult_cong [OF refl]) (rule conjunct1 [OF be_sum_le_sum])
    also have "256 * (256 * le_sum ?B) = le_sum ?B + 65535 * le_sum ?B" by simp
    also have "\<dots> mod 65535 = le_sum ?B mod 65535" by (rule mod_mult_self2)
    finally show "256 * ones (unat acc) mod 65535 = le_sum ?B mod 65535" .
    show "(256 * ones (unat acc) = 0) = (le_sum ?B = 0)" using be_sum_le_sum [of ?B] acc by simp
  qed
  then show ?thesis unfolding v htons_ones uy .
qed

section \<open>Packets\<close>

text \<open>The position of a byte in a packet decides whether it is the low or the high half of a word.  \<open>shift k n\<close> moves a
  sum by \<open>k\<close> bytes.\<close>

definition shift_sum :: "nat \<Rightarrow> nat \<Rightarrow> nat" where
  "shift_sum k n = (if k mod 2 = 1 then 256 * n else n)"

lemma le_sum_concat:
  "le_sum (xs @ ys) mod 65535 = (le_sum xs + shift_sum (length xs) (le_sum ys)) mod 65535 \<and>
   (le_sum (xs @ ys) = 0 \<longleftrightarrow> le_sum xs + le_sum ys = 0)"
proof (induction xs rule: le_sum.induct)
  case (2 b)
  then show ?case using le_sum_Cons [of b ys] by (simp add: shift_sum_def)
next
  case (3 b c bs)
  have "(unat b + 256 * unat c + le_sum (bs @ ys)) mod 65535 =
      (unat b + 256 * unat c + (le_sum bs + shift_sum (length bs) (le_sum ys))) mod 65535"
    using 3 by (intro mod_add_cong_right) blast
  then show ?case using 3 by (simp add: shift_sum_def add.assoc)
qed (simp add: shift_sum_def)

lemma shift_mod: "a mod 65535 = b mod 65535 \<Longrightarrow> shift_sum k a mod 65535 = shift_sum k b mod (65535 :: nat)"
  by (simp add: shift_sum_def mod_mult_cong)

lemma shift_shift: "shift_sum j (shift_sum k n) mod 65535 = shift_sum (j + k) n mod 65535"
proof -
  have "256 * (256 * n) = n + 65535 * n" by simp
  then have "256 * (256 * n) mod 65535 = n mod 65535" by (metis mod_mult_self2)
  moreover have "(j + k) mod 2 = 1 \<longleftrightarrow> (j mod 2 = 1) \<noteq> (k mod 2 = 1)" by presburger
  ultimately show ?thesis by (simp add: shift_sum_def)
qed

lemma shift_lay_add: "shift_sum k (a + b) = shift_sum k a + shift_sum k b"
  by (simp add: shift_sum_def)

lemma shift_0_iff [simp]: "shift_sum k n = 0 \<longleftrightarrow> n = 0"
  by (simp add: shift_sum_def)

text \<open>The loop keeps the sum of what it has passed, moved by the bytes passed, as a number below 65536.\<close>

lemma chain_sum_ones:
  assumes "pchain (pb_next s) q qs" and "unat acc \<le> 65535" and "sw = (if k mod 2 = 1 then 1 else 0)"
    and "unat acc mod 65535 = shift_sum k n mod 65535" and "acc = 0 \<longleftrightarrow> n = 0"
  shows "\<exists>acc' sw'. chain_sum s q acc sw = Some (acc', sw') \<and> unat acc' \<le> 65535 \<and>
     sw' = (if (k + length (chain_bytes s qs)) mod 2 = 1 then 1 else 0) \<and>
     unat acc' mod 65535 = shift_sum (k + length (chain_bytes s qs)) (n + shift_sum k (le_sum (chain_bytes s qs))) mod 65535 \<and>
     (acc' = 0 \<longleftrightarrow> n + le_sum (chain_bytes s qs) = 0)"
  using assms
proof (induction qs arbitrary: q acc sw k n)
  case Nil
  then show ?case by (intro exI [of _ acc] exI [of _ sw]) (simp add: chain_sum.simps shift_sum_def)
next
  case (Cons r rs)
  have q: "q = r" "r \<noteq> 0" and rest: "pchain (pb_next s) (pb_next s r) rs" using Cons.prems(1) by simp_all
  let ?D = "pb_data s r" and ?l = "unat (pb_len s r)"
  define c where "c = LWIP_CHKSUM (bytes s) (payload s r) ?l"
  have c: "unat c = ones (le_sum ?D)"
    using chksum_2_ones [of ?l "bytes s" "payload s r"] unat16_less [of "pb_len s r"] by (simp add: c_def pb_data_def)
  define a1 where "a1 = FOLD_U32T (acc + ucast c)"
  have "unat (acc + ucast c) = unat acc + unat c"
    using Cons.prems(2) unat16_less [of c] by (simp add: unat_word_ariths unat_ucast_up)
  then have ua: "unat a1 = ones (unat acc + unat c)"
    using FOLD_ones(2) [of "acc + ucast c"] Cons.prems(2) unat16_less [of c] by (simp add: a1_def)
  have m1: "(unat acc + unat c) mod 65535 = (shift_sum k n + le_sum ?D) mod 65535"
    using mod_add_cong [OF Cons.prems(4), of "unat c" "le_sum ?D"] c ones_mod by simp
  have z1: "unat acc + unat c = 0 \<longleftrightarrow> n + le_sum ?D = 0" using Cons.prems(5) c by (auto simp: unat_eq_zero)
  define o' where "o' \<longleftrightarrow> pb_len s r mod 2 \<noteq> 0"
  have o': "o' \<longleftrightarrow> ?l mod 2 = 1"
  proof -
    have "unat (pb_len s r mod 2) = ?l mod 2" using unat_mod_distrib [of "pb_len s r" 2] by simp
    then show ?thesis unfolding o'_def unat_eq_zero [symmetric] by (simp only: not_mod_2_eq_0_eq_1)
  qed
  define a2 where "a2 = (if o' then SWAP_BYTES_IN_WORD a1 else a1)"
  have a1le: "unat a1 \<le> 65535" unfolding ua by (rule ones_le)
  have ua2: "unat a2 mod 65535 = shift_sum ?l (shift_sum k n + le_sum ?D) mod 65535 \<and> unat a2 \<le> 65535 \<and> (a2 = 0 \<longleftrightarrow> n + le_sum ?D = 0)"
  proof -
    have "unat a2 = ones (shift_sum ?l (unat a1))"
      unfolding a2_def shift_sum_def o' using SWAP_ones [OF a1le] ones_idem [OF a1le] by simp
    moreover have "shift_sum ?l (unat a1) mod 65535 = shift_sum ?l (shift_sum k n + le_sum ?D) mod 65535"
      using ua m1 ones_mod by (intro shift_mod) simp
    moreover have "a2 = 0 \<longleftrightarrow> unat a2 = 0" by (simp add: unat_eq_zero)
    ultimately show ?thesis using ones_mod ones_le z1 ua by simp
  qed
  define sw1 where "sw1 = (if o' then 1 - sw else sw)"
  have sw1: "sw1 = (if (k + ?l) mod 2 = 1 then 1 else 0)"
    unfolding sw1_def o' Cons.prems(3) by (auto simp: mod_2_eq_odd)
  have m2: "unat a2 mod 65535 = shift_sum (k + ?l) (n + shift_sum k (le_sum ?D)) mod 65535"
  proof -
    have "shift_sum (k + ?l) (n + shift_sum k (le_sum ?D)) mod 65535 =
        (shift_sum (?l + k) n + shift_sum (?l + k + k) (le_sum ?D)) mod 65535"
      unfolding shift_lay_add by (rule mod_add_cong) (simp_all add: add.commute shift_shift)
    also have "\<dots> = (shift_sum ?l (shift_sum k n) + shift_sum ?l (le_sum ?D)) mod 65535"
      by (rule mod_add_cong) (simp_all add: shift_shift, simp add: shift_sum_def mod_2_eq_odd)
    finally show ?thesis using ua2 by (simp add: shift_lay_add)
  qed
  have e: "chain_sum s q acc sw = chain_sum s (pb_next s r) a2 sw1"
    using q by (subst chain_sum.simps) (simp add: a1_def c_def a2_def sw1_def o'_def Let_def)
  have z2: "a2 = 0 \<longleftrightarrow> n + shift_sum k (le_sum ?D) = 0" using ua2 by simp
  note ih = Cons.IH [OF rest conjunct1 [OF conjunct2 [OF ua2]] sw1 m2 z2]
  obtain acc' sw' where h: "chain_sum s (pb_next s r) a2 sw1 = Some (acc', sw')"
    "unat acc' \<le> 65535" "sw' = (if (k + ?l + length (chain_bytes s rs)) mod 2 = 1 then 1 else 0)"
    "unat acc' mod 65535 = shift_sum (k + ?l + length (chain_bytes s rs))
       (n + shift_sum k (le_sum ?D) + shift_sum (k + ?l) (le_sum (chain_bytes s rs))) mod 65535"
    "acc' = 0 \<longleftrightarrow> n + shift_sum k (le_sum ?D) + le_sum (chain_bytes s rs) = 0"
    using ih by (elim exE conjE) (rule that, assumption+)
  have len: "k + length (chain_bytes s (r # rs)) = k + ?l + length (chain_bytes s rs)" by simp
  have "shift_sum k (le_sum (chain_bytes s (r # rs))) mod 65535 =
      (shift_sum k (le_sum ?D) + shift_sum (k + ?l) (le_sum (chain_bytes s rs))) mod 65535"
  proof -
    have "shift_sum k (le_sum (chain_bytes s (r # rs))) mod 65535 =
        shift_sum k (le_sum ?D + shift_sum ?l (le_sum (chain_bytes s rs))) mod 65535"
      using le_sum_concat [of ?D "chain_bytes s rs"] by (intro shift_mod) simp
    also have "\<dots> = (shift_sum k (le_sum ?D) + shift_sum (k + ?l) (le_sum (chain_bytes s rs))) mod 65535"
      unfolding shift_lay_add by (rule mod_add_cong_right) (rule shift_shift)
    finally show ?thesis .
  qed
  then have "(n + shift_sum k (le_sum (chain_bytes s (r # rs)))) mod 65535 =
      (n + shift_sum k (le_sum ?D) + shift_sum (k + ?l) (le_sum (chain_bytes s rs))) mod 65535"
    unfolding add.assoc by (rule mod_add_cong_right)
  then have m3: "unat acc' mod 65535 = shift_sum (k + length (chain_bytes s (r # rs))) (n + shift_sum k (le_sum (chain_bytes s (r # rs)))) mod 65535"
    unfolding h(4) len by (intro shift_mod) simp
  have z3: "acc' = 0 \<longleftrightarrow> n + le_sum (chain_bytes s (r # rs)) = 0"
    using h(5) le_sum_concat [of ?D "chain_bytes s rs"] by simp
  show ?case
    by (intro exI [of _ acc'] exI [of _ sw'] conjI)
      (simp_all only: e h(1), rule h(2), simp only: len h(3), rule m3, rule z3)
qed

text \<open>The sum with the bytes of the packet back in their places.\<close>

lemma chain_sum_result:
  assumes "pchain (pb_next s) p ps"
  shows "\<exists>acc sw. chain_sum s p 0 0 = Some (acc, sw) \<and>
     unat (if sw \<noteq> 0 then SWAP_BYTES_IN_WORD acc else acc) = ones (le_sum (chain_bytes s ps))"
proof -
  let ?n = "length (chain_bytes s ps)" and ?S = "le_sum (chain_bytes s ps)"
  note ih = chain_sum_ones [OF assms, of 0 0 0 0, simplified]
  obtain acc sw where h: "chain_sum s p 0 0 = Some (acc, sw)" "unat acc \<le> 65535" "sw = (if ?n mod 2 = 1 then 1 else 0)"
    "unat acc mod 65535 = shift_sum ?n (shift_sum 0 ?S) mod 65535" "acc = 0 \<longleftrightarrow> ?S = 0"
    using chain_sum_ones [OF assms, of 0 0 0 0] by (auto simp: shift_sum_def)
  have acc: "unat acc = ones (shift_sum ?n ?S)"
    using h(2,4,5) by (intro ones_unique) (simp_all add: shift_sum_def unat_eq_zero)
  have "unat (if sw \<noteq> 0 then SWAP_BYTES_IN_WORD acc else acc) = ones (shift_sum ?n (unat acc))"
    using SWAP_ones [OF h(2)] ones_idem [OF h(2)] by (simp add: h(3) shift_sum_def)
  also have "\<dots> = ones ?S"
  proof (rule ones_cong)
    have "shift_sum ?n (unat acc) mod 65535 = shift_sum ?n (shift_sum ?n ?S) mod 65535"
      unfolding acc by (rule shift_mod) (rule ones_mod)
    also have "\<dots> = shift_sum (?n + ?n) ?S mod 65535" by (rule shift_shift)
    also have "\<dots> = ?S mod 65535" by (simp add: shift_sum_def)
    finally show "shift_sum ?n (unat acc) mod 65535 = ?S mod 65535" .
    show "(shift_sum ?n (unat acc) = 0) = (?S = 0)" using h(5) by (simp add: unat_eq_zero)
  qed
  finally show ?thesis using h(1) by blast
qed

lemma unat_not16: "unat (NOT (x :: u16)) = 65535 - unat x"
proof -
  have "NOT x = - 1 - x" by (simp add: not_eq_complement)
  moreover have "unat (- 1 - x) = unat (- 1 :: u16) - unat x" by (intro unat_sub) simp
  moreover have "unat (- 1 :: u16) = 65535" by (simp add: unsigned_minus_1_eq_mask mask_eq_exp_minus_1)
  ultimately show ?thesis by simp
qed

lemma invert_low: "unat a \<le> 65535 \<Longrightarrow> (ucast (NOT ((a :: u32) AND 0xffff)) :: u16) = NOT (ucast a)"
proof (rule bit_eqI)
  fix n
  have ff: "(0xffff :: u32) = mask 16" by (simp add: mask_eq_exp_minus_1)
  show "bit (ucast (NOT (a AND 0xffff)) :: u16) n = bit (NOT (ucast a) :: u16) n"
    unfolding ff by (auto simp: bit_simps)
qed

lemma htons_be: "unat c = ones (le_sum bs) \<Longrightarrow> unat (lwip_htons c) = ones (be_sum bs)"
proof -
  assume c: "unat c = ones (le_sum bs)"
  have "256 * ones (le_sum bs) mod 65535 = 256 * le_sum bs mod 65535" by (rule mod_mult_cong [OF refl ones_mod])
  also have "\<dots> = be_sum bs mod 65535" using be_sum_le_sum [of bs] by simp
  finally have "256 * ones (le_sum bs) mod 65535 = be_sum bs mod 65535" .
  then show ?thesis unfolding htons_ones c using be_sum_le_sum [of bs] by (intro ones_cong) simp_all
qed

text \<open>C22: The three versions of the checksum compute the same number, the one's complement sum of the 16-bit words of the
  block, wherever it begins and whatever its length: adding bytes, adding words from an odd address with the end
  swapped, and adding 32-bit words with the carry put back.  In network order it is the sum of the words in network
  order.\<close>

theorem chksum_versions_agree:
  "unat (lwip_standard_chksum_2 m a (unat (len :: u16))) = ones (le_sum (block m a (unat len))) \<and>
   lwip_standard_chksum_1 m a len = lwip_standard_chksum_2 m a (unat len) \<and>
   lwip_standard_chksum_3 m a (unat len) = lwip_standard_chksum_2 m a (unat len) \<and>
   unat (lwip_htons (lwip_standard_chksum_2 m a (unat len))) = ones (be_sum (block m a (unat len)))"
proof -
  have c2: "unat (lwip_standard_chksum_2 m a (unat len)) = ones (le_sum (block m a (unat len)))"
    using chksum_2_ones [of "unat len"] unat16_less [of len] by simp
  then show ?thesis
    using chksum_1_ones [of m a len] chksum_3_ones [of m a "unat len"] htons_be [OF c2] by (simp add: word_unat_eq_iff)
qed

text \<open>The bytes of the pseudo header that comes before the data of a packet: the two addresses, a zero, the protocol
  and the length in network order.\<close>

definition word_bytes :: "u32 \<Rightarrow> u8 list" where
  "word_bytes x = [ucast x, ucast (drop_bit 8 x), ucast (drop_bit 16 x), ucast (drop_bit 24 x)]"

definition pseudo_header :: "u32 \<Rightarrow> u32 \<Rightarrow> u8 \<Rightarrow> u16 \<Rightarrow> u8 list" where
  "pseudo_header src dest proto len =
     word_bytes src @ word_bytes dest @ [0, proto, ucast (drop_bit 8 len), ucast len]"

lemma unat_byte32: "unat (ucast (x :: u32) :: u8) = unat x mod 256"
  by (simp add: unsigned_ucast_eq take_bit_eq_mod)

lemma unat_byte16: "unat (ucast (x :: u16) :: u8) = unat x mod 256"
  by (simp add: unsigned_ucast_eq take_bit_eq_mod)

lemma unat_drop16: "unat (drop_bit n (u :: u16)) = unat u div 2 ^ n"
  using unat_drop_bit_eq [of n u] unfolding drop_bit_eq_div .

lemma mod_div_split: "(n :: nat) mod 256 + 256 * (n div 256 mod 256) = n mod 65536"
  using mod_mult2_eq [of n 256 256] by simp

lemma le_sum_word_bytes: "le_sum (word_bytes x) = unat (x AND 0xffff) + unat (drop_bit 16 x AND 0xffff)"
proof -
  have d: "unat (drop_bit 8 x) = unat x div 256" "unat (drop_bit 16 x) = unat x div 65536" "unat (drop_bit 24 x) = unat x div 65536 div 256"
    using unat_drop_word [of 8 x] unat_drop_word [of 16 x] unat_drop_word [of 24 x] by (simp_all add: div_mult2_eq [symmetric])
  have "unat (x AND 0xffff) = unat x mod 65536" "unat (drop_bit 16 x AND 0xffff) = unat x div 65536 mod 65536"
    unfolding and_ffff using unat_take [of 16 x] unat_take [of 16 "drop_bit 16 x"] d(2) by simp_all
  then show ?thesis
    using mod_div_split [of "unat x"] mod_div_split [of "unat x div 65536"]
    unfolding word_bytes_def le_sum.simps unat_byte32 d by linarith
qed

lemma le_sum_pseudo_header:
  "le_sum (pseudo_header src dest proto len) =
   unat (src AND 0xffff) + unat (drop_bit 16 src AND 0xffff) + unat (dest AND 0xffff) + unat (drop_bit 16 dest AND 0xffff) +
   unat (lwip_htons (ucast proto)) + unat (lwip_htons len)"
proof -
  have "unat (lwip_htons n) = 256 * (unat n mod 256) + unat n div 256" for n :: u16
    using unat_SWAP [of "ucast n"] unat16_less [of n] SWAP_ones [of "ucast n"] ones_le
    by (simp add: htons_SWAP unat_ucast16 unat_ucast_up)
  note h = this
  have "unat (lwip_htons (ucast proto)) = 256 * unat proto" using unat8_less [of proto] by (simp add: h unat_u8)
  moreover have "le_sum [0, proto, ucast (drop_bit 8 len), ucast len] = 256 * unat proto + unat (lwip_htons len)"
    using unat16_less [of len] unat_drop16 [of 8 len] by (simp add: h unat_byte16 less_mult_imp_div_less)
  moreover have "length (word_bytes x) mod 2 = 0" for x by (simp add: word_bytes_def)
  ultimately show ?thesis unfolding pseudo_header_def by (simp only: le_sum_append le_sum_word_bytes)
qed

lemma pseudo_finish_ones:
  assumes "unat (if sw \<noteq> 0 then SWAP_BYTES_IN_WORD acc else acc) = ones n"
  shows "pseudo_finish src dest proto len (acc, sw) = NOT (of_nat (ones (n + le_sum (pseudo_header src dest proto len))))"
proof -
  let ?h = "le_sum (pseudo_header src dest proto len)"
  define x where "x = (if sw \<noteq> 0 then SWAP_BYTES_IN_WORD acc else acc)"
  have low: "unat (y AND 0xffff) < 65536" for y :: u32 unfolding and_ffff using unat_take [of 16 y] by simp
  define z where "z = x + (src AND 0xffff) + (drop_bit 16 src AND 0xffff) + (dest AND 0xffff) + (drop_bit 16 dest AND 0xffff)
     + ucast (lwip_htons (ucast proto)) + ucast (lwip_htons len)"
  have "unat z = ones n + ?h"
    using assms ones_le [of n] low [of src] low [of "drop_bit 16 src"] low [of dest] low [of "drop_bit 16 dest"]
      unat16_less [of "lwip_htons (ucast proto)"] unat16_less [of "lwip_htons len"]
    unfolding z_def le_sum_pseudo_header x_def [symmetric] by (simp add: unat_word_ariths unat_ucast_up)
  then have f: "unat (FOLD_U32T (FOLD_U32T z)) = ones (ones n + ?h)" by (simp add: FOLD_ones)
  have "(ones n + ?h) mod 65535 = (n + ?h) mod 65535" by (rule mod_add_cong [OF ones_mod refl])
  then have o: "ones (ones n + ?h) = ones (n + ?h)" by (rule ones_cong) simp
  have le: "unat (FOLD_U32T (FOLD_U32T z)) \<le> 65535" unfolding f by (rule ones_le)
  have "pseudo_finish src dest proto len (acc, sw) = ucast (NOT (FOLD_U32T (FOLD_U32T z) AND 0xffff))"
    unfolding pseudo_finish_def prod.case Let_def z_def x_def ..
  also have "\<dots> = NOT (ucast (FOLD_U32T (FOLD_U32T z)))" by (rule invert_low [OF le])
  also have "ucast (FOLD_U32T (FOLD_U32T z)) = (of_nat (ones (n + ?h)) :: u16)"
    using unat_ucast16 [OF le] f o ones_le [of "n + ?h"]
    by (simp add: word_unat_eq_iff unsigned_of_nat take_bit_nat_eq_self)
  finally show ?thesis .
qed

text \<open>C26: The checksum of a packet is that of its bytes, however they are cut into pbufs: odd pieces swap the halves of the
  words behind them, and the code swaps them back.  With the pseudo header it is the checksum of the pseudo header
  followed by the packet.\<close>

theorem chksum_of_packet:
  assumes "pchain (pb_next s) p ps"
  shows "inet_chksum_pbuf p s = Some (NOT (of_nat (ones (le_sum (chain_bytes s ps))))) \<and>
     inet_chksum_pseudo p src dest proto len s =
       Some (NOT (of_nat (ones (le_sum (pseudo_header src dest proto len @ chain_bytes s ps)))))"
proof -
  obtain acc sw where h: "chain_sum s p 0 0 = Some (acc, sw)"
    "unat (if sw \<noteq> 0 then SWAP_BYTES_IN_WORD acc else acc) = ones (le_sum (chain_bytes s ps))"
    using chain_sum_result [OF assms] by blast
  define x where "x = (if sw \<noteq> 0 then SWAP_BYTES_IN_WORD acc else acc)"
  have le: "unat x \<le> 65535" using h(2) ones_le by (simp add: x_def)
  have "inet_chksum_pbuf p s = Some (ucast (NOT (x AND 0xffff)))" using h(1) by (simp add: inet_chksum_pbuf_def x_def)
  also have "ucast (NOT (x AND 0xffff)) = (NOT (ucast x) :: u16)" by (rule invert_low [OF le])
  also have "ucast x = (of_nat (ones (le_sum (chain_bytes s ps))) :: u16)"
    using unat_ucast16 [OF le] h(2) ones_le [of "le_sum (chain_bytes s ps)"]
    by (simp add: word_unat_eq_iff unsigned_of_nat take_bit_nat_eq_self x_def)
  finally have p: "inet_chksum_pbuf p s = Some (NOT (of_nat (ones (le_sum (chain_bytes s ps)))))" .
  have ev: "length (pseudo_header src dest proto len) mod 2 = 0" by (simp add: pseudo_header_def word_bytes_def)
  have "inet_chksum_pseudo p src dest proto len s =
      Some (NOT (of_nat (ones (le_sum (chain_bytes s ps) + le_sum (pseudo_header src dest proto len)))))"
    using pseudo_finish_ones [OF h(2)] h(1) by (simp add: inet_chksum_pseudo_def)
  then show ?thesis using p by (simp only: le_sum_append [OF ev] add.commute simp_thms)
qed

lemma block_split:
  assumes "2 * i + 1 < n"
  shows "block m a n = block m a (2 * i) @ [m (a + of_nat (2 * i)), m (a + of_nat (2 * i + 1))] @ block m (a + of_nat (2 * i + 2)) (n - (2 * i + 2))"
proof -
  have "n = 2 * i + (2 + (n - (2 * i + 2)))" using assms by simp
  then have "block m a n = block m a (2 * i) @ block m (a + of_nat (2 * i)) (2 + (n - (2 * i + 2)))" by (metis block_append)
  also have "block m (a + of_nat (2 * i)) (2 + (n - (2 * i + 2))) =
      m (a + of_nat (2 * i)) # m (a + of_nat (2 * i) + 1) # block m (a + of_nat (2 * i) + 2) (n - (2 * i + 2))"
    by (subst block_2) simp_all
  finally show ?thesis by (simp add: ac_simps)
qed

lemma le_sum_field:
  assumes "2 * i + 1 < n"
  shows "le_sum (block m a n) = le_sum (block m a (2 * i)) + (unat (m (a + of_nat (2 * i))) + 256 * unat (m (a + of_nat (2 * i + 1)))) +
    le_sum (block m (a + of_nat (2 * i + 2)) (n - (2 * i + 2)))"
  unfolding block_split [OF assms] by (subst le_sum_append) simp_all

text \<open>A block with its checksum in place checks: when a field at an even offset is zero and gets the checksum of the
  block, the checksum of the result is zero.\<close>

theorem chksum_verifies:
  assumes "2 * i + 1 < unat len" and "bytes s (a + of_nat (2 * i)) = 0" and "bytes s (a + of_nat (2 * i + 1)) = 0"
  shows "let c = inet_chksum a len s;
     s' = s\<lparr>bytes := (bytes s)(a + of_nat (2 * i) := ucast c, a + of_nat (2 * i + 1) := ucast (drop_bit 8 c))\<rparr>
   in inet_chksum a len s' = 0"
proof -
  let ?n = "unat len"
  define c where "c = inet_chksum a len s"
  define m where "m = (bytes s)(a + of_nat (2 * i) := ucast c, a + of_nat (2 * i + 1) := ucast (drop_bit 8 c))"
  have n: "?n < 65536" by (rule unat16_less)
  have inj: "(of_nat x :: u32) = of_nat y \<longleftrightarrow> x = y" if "x < ?n" "y < ?n" for x y
    using that n by (intro of_nat_inj32) simp_all
  have "block m a (2 * i) = block (bytes s) a (2 * i)"
    using inj assms(1) by (intro block_cong) (simp add: m_def del: of_nat_mult of_nat_Suc of_nat_add)
  moreover have "block m (a + of_nat (2 * i + 2)) (?n - (2 * i + 2)) = block (bytes s) (a + of_nat (2 * i + 2)) (?n - (2 * i + 2))"
  proof (rule block_cong)
    fix j assume j: "j < ?n - (2 * i + 2)"
    have "a + of_nat (2 * i + 2 + j) \<noteq> a + of_nat (2 * i)" "a + of_nat (2 * i + 2 + j) \<noteq> a + of_nat (2 * i + 1)"
      using j inj [of "2 * i + 2 + j" "2 * i"] inj [of "2 * i + 2 + j" "2 * i + 1"] by (simp_all del: of_nat_mult of_nat_Suc of_nat_add)
    then show "m (a + of_nat (2 * i + 2) + of_nat j) = bytes s (a + of_nat (2 * i + 2) + of_nat j)"
      by (simp add: m_def add.assoc)
  qed
  moreover have "m (a + of_nat (2 * i)) = ucast c" "m (a + of_nat (2 * i + 1)) = ucast (drop_bit 8 c)"
    using inj [of "2 * i" "2 * i + 1"] assms(1) by (simp_all add: m_def)
  moreover have "unat (ucast c :: u8) + 256 * unat (ucast (drop_bit 8 c) :: u8) = unat c"
    using unat16_less [of c] unat_drop16 [of 8 c] mod_div_split [of "unat c"] by (simp add: unat_byte16)
  ultimately have sum: "le_sum (block m a ?n) = le_sum (block (bytes s) a ?n) + unat c"
    using assms(2,3) by (simp add: le_sum_field [OF assms(1)])
  let ?S = "le_sum (block (bytes s) a ?n)"
  have n2: "?n \<le> 0x20000" using n by simp
  have c: "unat c = 65535 - ones ?S"
    using chksum_2_ones [OF n2, of "bytes s" a] by (simp add: c_def inet_chksum_def unat_not16)
  have "ones (?S + unat c) = 65535"
  proof (rule sym, rule ones_unique)
    have "(?S + unat c) mod 65535 = (ones ?S + unat c) mod 65535" by (rule mod_add_cong [OF ones_mod [symmetric] refl])
    also have "ones ?S + unat c = 65535" using c ones_le [of ?S] by simp
    finally show "65535 mod 65535 = (?S + unat c) mod 65535" by simp
    show "(65535 = (0 :: nat)) = (?S + unat c = 0)" using c by (auto simp: ones_def)
  qed simp
  then have "unat (LWIP_CHKSUM m a ?n) = 65535" using chksum_2_ones [OF n2, of m a] sum by simp
  then have "unat (NOT (LWIP_CHKSUM m a ?n)) = 0" by (simp add: unat_not16)
  then have "inet_chksum a len (s\<lparr>bytes := m\<rparr>) = 0" by (simp add: inet_chksum_def unat_eq_zero)
  then show ?thesis by (simp only: Let_def c_def [symmetric] m_def)
qed

section \<open>Witnesses\<close>

theorem chksum_of_packet_witness:
  "\<forall>s :: pbufs.
   inet_chksum_pbuf 0x500 (one_pbuf s) = Some 0xFEFF \<and> inet_chksum_pseudo 0x500 0x0100007F 0x0100007F 17 2 (one_pbuf s) = Some 0xE901"
proof (intro allI)
  fix s :: pbufs
  have c: "pchain (pb_next (one_pbuf s)) 0x500 [0x500]" by (simp add: one_pbuf_def)
  have b: "chain_bytes (one_pbuf s) [0x500] = [0x00, 0x01]" by (simp add: one_pbuf_def pb_data_def block_def upt_rec)
  have h: "pseudo_header 0x0100007F 0x0100007F 17 2 = [0x7F, 0, 0, 1, 0x7F, 0, 0, 1, 0, 17, 0, 2]"
    by (simp add: pseudo_header_def word_bytes_def drop_bit_eq_div ucast_eq)
  show "inet_chksum_pbuf 0x500 (one_pbuf s) = Some 0xFEFF \<and> inet_chksum_pseudo 0x500 0x0100007F 0x0100007F 17 2 (one_pbuf s) = Some 0xE901" using chksum_of_packet [OF c, of "0x0100007F" "0x0100007F" 17 2] unfolding b h by (simp add: ones_def)
qed

theorem chksum_verifies_witness:
  "\<forall>s :: pbufs.
   inet_chksum 0x1000 4 (s\<lparr>bytes := (\<lambda>_. 0)(0x1000 := 1, 0x1002 := 0xFE, 0x1003 := 0xFF)\<rparr>) = 0"
proof (intro allI)
  fix s :: pbufs
  let ?s = "s\<lparr>bytes := (\<lambda>_. 0)(0x1000 := 1)\<rparr>"
  have "block (bytes ?s) 0x1000 4 = [1, 0, 0, 0]" by (simp add: block_def upt_rec)
  then have "unat (inet_chksum 0x1000 4 ?s) = unat (0xFFFE :: u16)"
    using chksum_2_ones [of 4 "bytes ?s" "0x1000"] by (simp add: inet_chksum_def unat_not16 ones_def)
  then have c: "inet_chksum 0x1000 4 ?s = 0xFFFE" by (simp only: word_unat_eq_iff)
  have b: "(ucast (0xFFFE :: u16) :: u8) = 0xFE" "(ucast (drop_bit 8 (0xFFFE :: u16)) :: u8) = 0xFF"
    by (simp_all add: drop_bit_eq_div)
  show "inet_chksum 0x1000 4 (s\<lparr>bytes := (\<lambda>_. 0)(0x1000 := 1, 0x1002 := 0xFE, 0x1003 := 0xFF)\<rparr>) = 0" using chksum_verifies [of 1 4 ?s "0x1000"] unfolding Let_def c b by simp
qed

end
