(* ===== verification/Emac.thy ===== *)
theory Emac
  imports Chksum Can PacketLife
begin

text \<open>
  ethernet/netif/ethernetif.c: the driver between the Ethernet controller of the LPC1768 and the network
  stack.  Descriptors and frames lie in the memory that the controller shares (\<open>bytes\<close>), its registers are on
  the bus.  \<open>tick\<close> of the chip is what the controller does to its registers between two reads.
  \<open>ETH_PAD_SIZE\<close> is 0, and <debug/debug.h> is include/debug.h, whose \<open>DBG_ERR\<close> prints and then
  stays in an endless loop; \<open>OS_OK\<close>, \<open>OS_ERR_HARDWARE\<close> and \<open>dword_clr_bits\<close> are old names of \<open>OK\<close>, \<open>ERR_HARDWARE\<close> and
  \<open>dword_clear_bits\<close>.  Every wait for a semaphore cuts a call in two, as in the kernel.
\<close>

section \<open>Registers, memory and state\<close>

abbreviation (input) MAC1 :: addr where "MAC1 \<equiv> 0x50000000"
abbreviation (input) MAC2 :: addr where "MAC2 \<equiv> 0x50000004"
abbreviation (input) IPGT :: addr where "IPGT \<equiv> 0x50000008"
abbreviation (input) IPGR :: addr where "IPGR \<equiv> 0x5000000C"
abbreviation (input) CLRT :: addr where "CLRT \<equiv> 0x50000010"
abbreviation (input) MAXF :: addr where "MAXF \<equiv> 0x50000014"
abbreviation (input) SUPP :: addr where "SUPP \<equiv> 0x50000018"
abbreviation (input) MCFG :: addr where "MCFG \<equiv> 0x50000020"
abbreviation (input) MCMD :: addr where "MCMD \<equiv> 0x50000024"
abbreviation (input) MADR :: addr where "MADR \<equiv> 0x50000028"
abbreviation (input) MWTD :: addr where "MWTD \<equiv> 0x5000002C"
abbreviation (input) MRDD :: addr where "MRDD \<equiv> 0x50000030"
abbreviation (input) MIND :: addr where "MIND \<equiv> 0x50000034"
abbreviation (input) SA0 :: addr where "SA0 \<equiv> 0x50000040"
abbreviation (input) SA1 :: addr where "SA1 \<equiv> 0x50000044"
abbreviation (input) SA2 :: addr where "SA2 \<equiv> 0x50000048"
abbreviation (input) Command :: addr where "Command \<equiv> 0x50000100"
abbreviation (input) RxDescriptor :: addr where "RxDescriptor \<equiv> 0x50000108"
abbreviation (input) RxStatus :: addr where "RxStatus \<equiv> 0x5000010C"
abbreviation (input) RxDescriptorNumber :: addr where "RxDescriptorNumber \<equiv> 0x50000110"
abbreviation (input) RxProduceIndex :: addr where "RxProduceIndex \<equiv> 0x50000114"
abbreviation (input) RxConsumeIndex :: addr where "RxConsumeIndex \<equiv> 0x50000118"
abbreviation (input) TxDescriptor :: addr where "TxDescriptor \<equiv> 0x5000011C"
abbreviation (input) TxStatus :: addr where "TxStatus \<equiv> 0x50000120"
abbreviation (input) TxDescriptorNumber :: addr where "TxDescriptorNumber \<equiv> 0x50000124"
abbreviation (input) TxProduceIndex :: addr where "TxProduceIndex \<equiv> 0x50000128"
abbreviation (input) TxConsumeIndex :: addr where "TxConsumeIndex \<equiv> 0x5000012C"
abbreviation (input) RxFilterCtrl :: addr where "RxFilterCtrl \<equiv> 0x50000200"
abbreviation (input) IntStatus :: addr where "IntStatus \<equiv> 0x50000FE0"
abbreviation (input) IntEnable :: addr where "IntEnable \<equiv> 0x50000FE4"
abbreviation (input) IntClear :: addr where "IntClear \<equiv> 0x50000FE8"
abbreviation (input) PINSEL2 :: addr where "PINSEL2 \<equiv> 0x4002C008"
abbreviation (input) PINSEL3 :: addr where "PINSEL3 \<equiv> 0x4002C00C"
abbreviation (input) ENET_IRQn :: u32 where "ENET_IRQn \<equiv> 28"

abbreviation (input) NUM_RX_FRAG :: nat where "NUM_RX_FRAG \<equiv> 4"
abbreviation (input) NUM_TX_FRAG :: nat where "NUM_TX_FRAG \<equiv> 3"
abbreviation (input) ETH_FRAG_SIZE :: int where "ETH_FRAG_SIZE \<equiv> 1536"
abbreviation (input) ETH_MAX_FLEN :: u32 where "ETH_MAX_FLEN \<equiv> 1536"
abbreviation (input) RX_DESC_BASE :: addr where "RX_DESC_BASE \<equiv> 0x2007C000"
abbreviation (input) RX_STAT_BASE :: addr where "RX_STAT_BASE \<equiv> RX_DESC_BASE + 4 * 8"
abbreviation (input) TX_DESC_BASE :: addr where "TX_DESC_BASE \<equiv> RX_STAT_BASE + 4 * 8"
abbreviation (input) TX_STAT_BASE :: addr where "TX_STAT_BASE \<equiv> TX_DESC_BASE + 3 * 8"
abbreviation (input) RX_BUF_BASE :: addr where "RX_BUF_BASE \<equiv> TX_STAT_BASE + 3 * 4"
abbreviation (input) TX_BUF_BASE :: addr where "TX_BUF_BASE \<equiv> RX_BUF_BASE + 4 * 1536"

definition RX_DESC_PACKET :: "int \<Rightarrow> addr" where "RX_DESC_PACKET i = RX_DESC_BASE + of_int (8 * i)"
definition RX_DESC_CTRL :: "int \<Rightarrow> addr" where "RX_DESC_CTRL i = RX_DESC_BASE + 4 + of_int (8 * i)"
definition RX_STAT_INFO :: "int \<Rightarrow> addr" where "RX_STAT_INFO i = RX_STAT_BASE + of_int (8 * i)"
definition RX_STAT_HASHCRC :: "int \<Rightarrow> addr" where "RX_STAT_HASHCRC i = RX_STAT_BASE + 4 + of_int (8 * i)"
definition TX_DESC_PACKET :: "int \<Rightarrow> addr" where "TX_DESC_PACKET i = TX_DESC_BASE + of_int (8 * i)"
definition TX_DESC_CTRL :: "int \<Rightarrow> addr" where "TX_DESC_CTRL i = TX_DESC_BASE + 4 + of_int (8 * i)"
definition TX_STAT_INFO :: "int \<Rightarrow> addr" where "TX_STAT_INFO i = TX_STAT_BASE + of_int (4 * i)"
definition RX_BUF :: "int \<Rightarrow> addr" where "RX_BUF i = RX_BUF_BASE + of_int (1536 * i)"
definition TX_BUF :: "int \<Rightarrow> addr" where "TX_BUF i = TX_BUF_BASE + of_int (1536 * i)"

text \<open>The three handles of the driver, the fields of \<open>struct netif\<close> that it uses and \<open>struct ethernetif\<close>.\<close>

record emac = pbufs +
  Access :: addr
  SendDone :: addr
  RecvDone :: addr
  netif_input :: "addr \<Rightarrow> addr"
  netif_output :: "addr \<Rightarrow> addr"
  netif_linkoutput :: "addr \<Rightarrow> addr"
  netif_state :: "addr \<Rightarrow> addr"
  netif_mtu :: "addr \<Rightarrow> u16"
  netif_hwaddr_len :: "addr \<Rightarrow> u8"
  netif_hwaddr :: "addr \<Rightarrow> u8 list"
  netif_flags :: "addr \<Rightarrow> u8"
  netif_name :: "addr \<Rightarrow> string"
  ethaddr :: "addr \<Rightarrow> addr"

text \<open>What the linker and the rest of the system bring: the stack of pbufs, the chip, the name of the source file in
  messages, addresses of functions, the offset of \<open>hwaddr\<close> in \<open>struct netif\<close>, what a call through \<open>input\<close> does, and the
  values that the locals \<open>PhyID\<close> and \<open>status\<close> of \<open>ethernet_setup\<close> have before they are set.\<close>

record 's eth =
  stack_of :: "'s stack"
  chip_of :: "'s chip"
  file_name :: string
  etharp_output_fn :: addr
  low_level_output_fn :: addr
  ethernet_exception_fn :: addr
  hwaddr_offset :: addr
  input_of :: "addr \<Rightarrow> addr \<Rightarrow> addr \<Rightarrow> 's \<Rightarrow> (int outcome \<times> 's) option"
  PhyID_junk :: u32
  status_junk :: u32

section \<open>Messages\<close>

definition DBG_INFO :: "'a emac_scheme eth \<Rightarrow> string \<Rightarrow> 'a emac_scheme \<Rightarrow> 'a emac_scheme option" where
  "DBG_INFO env Format s = map_option snd (printk (chip_of env) (chars s) Format [] s)"

definition DBG_WARN :: "'a emac_scheme eth \<Rightarrow> string \<Rightarrow> string \<Rightarrow> 'a emac_scheme \<Rightarrow> 'a emac_scheme option" where
  "DBG_WARN env line Format s =
     (case DBG_INFO env (''File: '' @ file_name env @ [CHR 0x0D, CHR 0x0A] @ ''Line: '' @ line @ [CHR 0x0D, CHR 0x0A]) s of
        None \<Rightarrow> None
      | Some s \<Rightarrow> DBG_INFO env (''Warn: '' @ Format) s)"

text \<open>The endless loop of \<open>DBG_ERR\<close>: a recursion without an end, and so \<open>None\<close>.\<close>

partial_function (option) forever :: "'s \<Rightarrow> 's option" where
  "forever s = forever s"

definition DBG_ERR :: "'a emac_scheme eth \<Rightarrow> string \<Rightarrow> string \<Rightarrow> 'a emac_scheme \<Rightarrow> 'a emac_scheme option" where
  "DBG_ERR env line Format s =
     (case DBG_INFO env (''File: '' @ file_name env @ [CHR 0x0D, CHR 0x0A] @ ''Line: '' @ line @ [CHR 0x0D, CHR 0x0A]) s of
        None \<Rightarrow> None
      | Some s \<Rightarrow>
          (case DBG_INFO env (''Error: '' @ Format) s of
             None \<Rightarrow> None
           | Some s \<Rightarrow> forever s))"

section \<open>The physical layer\<close>

text \<open>An empty loop of \<open>Time * 256\<close> turns.\<close>

definition delay :: "'a emac_scheme eth \<Rightarrow> u32 \<Rightarrow> 'a emac_scheme \<Rightarrow> 'a emac_scheme" where
  "delay env Time' s = (tick (chip_of env) ^^ unat (Time' * 256)) s"

text \<open>Up to \<open>n\<close> polls of the indicator of the management interface.\<close>

fun mii_wait :: "'a emac_scheme eth \<Rightarrow> nat \<Rightarrow> 'a emac_scheme \<Rightarrow> bool \<times> 'a emac_scheme" where
  "mii_wait env 0 s = (False, s)"
| "mii_wait env (Suc n) s =
     (let s = tick (chip_of env) s
      in if read_dword MIND s AND push_bit 0 1 = 0 then (True, s) else mii_wait env n s)"

text \<open>The second result is what is stored through \<open>pValue\<close>, if anything is.\<close>

definition read_phy :: "'a emac_scheme eth \<Rightarrow> u32 \<Rightarrow> u32 \<Rightarrow> 'a emac_scheme \<Rightarrow> (int \<times> u32 option \<times> 'a emac_scheme) option" where
  "read_phy env PhyAddress RegIndex s =
     (let s = write_dword MADR (push_bit 8 PhyAddress OR RegIndex) s;
          s = write_dword MCMD 0x01 s;
          (ready, s) = mii_wait env 50000 s
      in if ready then
           let s = write_dword MCMD 0x00 s
           in Some (OK, Some (read_dword MRDD s), s)
         else map_option (\<lambda>s. (ERR_HARDWARE, None, s)) (DBG_WARN env ''232'' ''timeout in writing phy'' s))"

definition write_phy :: "'a emac_scheme eth \<Rightarrow> u32 \<Rightarrow> u32 \<Rightarrow> u32 \<Rightarrow> 'a emac_scheme \<Rightarrow> (int \<times> 'a emac_scheme) option" where
  "write_phy env PhyAddress RegIndex Value s =
     (let s = write_dword MCMD 0x00 s;
          s = write_dword MADR (push_bit 8 PhyAddress OR RegIndex) s;
          s = write_dword MWTD Value s;
          (ready, s) = mii_wait env 50000 s
      in if ready then Some (OK, s)
         else map_option (Pair ERR_HARDWARE) (DBG_WARN env ''272'' ''timeout in writing phy'' s))"

section \<open>The descriptors\<close>

definition store_at :: "addr \<Rightarrow> u32 \<Rightarrow> 'a emac_scheme \<Rightarrow> 'a emac_scheme" where
  "store_at a d s = s\<lparr>bytes := store_dword a d (bytes s)\<rparr>"

definition load_at :: "addr \<Rightarrow> 'a emac_scheme \<Rightarrow> u32" where
  "load_at a s = load_dword (bytes s) a"

definition init_recv_description :: "'a emac_scheme \<Rightarrow> 'a emac_scheme" where
  "init_recv_description s =
     (let s = fold (\<lambda>i s.
                let s = store_at (RX_DESC_PACKET i) (RX_BUF i) s;
                    s = store_at (RX_DESC_CTRL i) (push_bit 31 1 OR of_int (ETH_FRAG_SIZE - 1)) s;
                    s = store_at (RX_STAT_INFO i) 0 s
                in store_at (RX_STAT_HASHCRC i) 0 s) (map int [0..<NUM_RX_FRAG]) s;
          s = write_dword RxDescriptor RX_DESC_BASE s;
          s = write_dword RxStatus RX_STAT_BASE s;
          s = write_dword RxDescriptorNumber (of_nat NUM_RX_FRAG - 1) s
      in write_dword RxConsumeIndex 0 s)"

definition init_sent_description :: "'a emac_scheme \<Rightarrow> 'a emac_scheme" where
  "init_sent_description s =
     (let s = fold (\<lambda>i s.
                let s = store_at (TX_DESC_PACKET i) (TX_BUF i) s;
                    s = store_at (TX_DESC_CTRL i) (push_bit 31 1 OR push_bit 30 1 OR push_bit 29 1 OR push_bit 28 1 OR push_bit 26 1 OR of_int (ETH_FRAG_SIZE - 1)) s
                in store_at (TX_STAT_INFO i) 0 s) (map int [0..<NUM_TX_FRAG]) s;
          s = write_dword TxDescriptor TX_DESC_BASE s;
          s = write_dword TxStatus TX_STAT_BASE s;
          s = write_dword TxDescriptorNumber (of_nat NUM_TX_FRAG - 1) s
      in write_dword TxProduceIndex 0 s)"

section \<open>Sending\<close>

text \<open>The wait for room in the ring of descriptors; the controller may have sent frames before each look.\<close>

partial_function (option) output_wait :: "'a emac_scheme eth \<Rightarrow> int \<Rightarrow> 'a emac_scheme \<Rightarrow> (unit outcome \<times> 'a emac_scheme) option" where
  "output_wait env ProduceNext s =
     (let s = tick (chip_of env) s in
      if of_int ProduceNext = read_dword TxConsumeIndex s then
        case semaphore_wait (SendDone s) 0 s of
          None \<Rightarrow> None
        | Some (Switched, s) \<Rightarrow> Some (Switched, s)
        | Some (Returned _, s) \<Rightarrow> output_wait env ProduceNext s
      else Some (Returned (), s))"

partial_function (option) output_copy :: "addr \<Rightarrow> addr \<Rightarrow> 'a emac_scheme \<Rightarrow> 'a emac_scheme option" where
  "output_copy pTarget pNode s =
     (if pNode \<noteq> NULL then
        let s = s\<lparr>bytes := memcpy pTarget (payload s pNode) (unat (pb_len s pNode)) (bytes s)\<rparr>
        in output_copy (pTarget + ucast (pb_len s pNode)) (pb_next s pNode) s
      else Some s)"

definition output_frame :: "'a emac_scheme eth \<Rightarrow> addr \<Rightarrow> int \<Rightarrow> int \<Rightarrow> 'a emac_scheme \<Rightarrow> (int outcome \<times> 'a emac_scheme) option" where
  "output_frame env pHead ProduceIndex ProduceNext s =
     (case output_copy (TX_BUF ProduceIndex) pHead s of
        None \<Rightarrow> None
      | Some s \<Rightarrow>
          let s = store_at (TX_DESC_CTRL ProduceIndex) (load_at (TX_DESC_CTRL ProduceIndex) s AND NOT 0x7FF) s;
              s = store_at (TX_DESC_CTRL ProduceIndex) (load_at (TX_DESC_CTRL ProduceIndex) s OR ((ucast (tot_len s pHead) - 1) AND 0x7FF)) s;
              s = write_dword TxProduceIndex (of_int ProduceNext) s
          in case prints (chip_of env) (Some (''output out'' @ [CHR 0x0D, CHR 0x0A])) s of
               None \<Rightarrow> None
             | Some (_, s) \<Rightarrow>
                 let (_, s) = semaphore_post (Access s) s
                 in Some (Returned ERR_OK, s))"

definition output_locked :: "'a emac_scheme eth \<Rightarrow> addr \<Rightarrow> 'a emac_scheme \<Rightarrow> (int outcome \<times> 'a emac_scheme) option" where
  "output_locked env pHead s =
     (case prints (chip_of env) (Some (''output in'' @ [CHR 0x09])) s of
        None \<Rightarrow> None
      | Some (_, s) \<Rightarrow>
          let ProduceIndex = sint (read_dword TxProduceIndex s);
              MaxIndex = sint (read_dword TxDescriptorNumber s);
              ProduceNext = ProduceIndex + 1;
              ProduceNext = (if MaxIndex < ProduceNext then 0 else ProduceNext)
          in after (output_wait env ProduceNext s) (\<lambda>_ s. output_frame env pHead ProduceIndex ProduceNext s))"

definition low_level_output :: "'a emac_scheme eth \<Rightarrow> addr \<Rightarrow> addr \<Rightarrow> 'a emac_scheme \<Rightarrow> (int outcome \<times> 'a emac_scheme) option" where
  "low_level_output env netif pHead s = after (semaphore_wait (Access s) 0 s) (\<lambda>_ s. output_locked env pHead s)"

definition low_level_output_resume :: "'a emac_scheme eth \<Rightarrow> addr \<Rightarrow> addr \<Rightarrow> addr \<Rightarrow> 'a emac_scheme \<Rightarrow> (int outcome \<times> 'a emac_scheme) option" where
  "low_level_output_resume env Semaphore pThread pHead s =
     (let (_, s) = semaphore_wait_resume Semaphore 0 pThread s in output_locked env pHead s)"

definition output_wait_resume ::
  "'a emac_scheme eth \<Rightarrow> addr \<Rightarrow> addr \<Rightarrow> addr \<Rightarrow> int \<Rightarrow> int \<Rightarrow> 'a emac_scheme \<Rightarrow> (int outcome \<times> 'a emac_scheme) option" where
  "output_wait_resume env Semaphore pThread pHead ProduceIndex ProduceNext s =
     (let (_, s) = semaphore_wait_resume Semaphore 0 pThread s
      in after (output_wait env ProduceNext s) (\<lambda>_ s. output_frame env pHead ProduceIndex ProduceNext s))"

section \<open>Receiving\<close>

partial_function (option) input_copy :: "addr \<Rightarrow> addr \<Rightarrow> 'a emac_scheme \<Rightarrow> 'a emac_scheme option" where
  "input_copy pNode pTarget s =
     (if pNode \<noteq> NULL then
        let s = s\<lparr>bytes := memcpy (payload s pNode) pTarget (unat (pb_len s pNode)) (bytes s)\<rparr>
        in input_copy (pb_next s pNode) (pTarget + ucast (pb_len s pNode)) s
      else Some s)"

definition input_size :: "int \<Rightarrow> 'a emac_scheme \<Rightarrow> int" where
  "input_size ConsumeIndex s =
     (let Size' = uint ((load_at (RX_STAT_INFO ConsumeIndex) s AND 0x7FFF) + 1)
      in if ETH_FRAG_SIZE < Size' then ETH_FRAG_SIZE else Size')"

definition input_release :: "'a emac_scheme eth \<Rightarrow> addr \<Rightarrow> 'a emac_scheme \<Rightarrow> (addr outcome \<times> 'a emac_scheme) option" where
  "input_release env pHead s =
     (case prints (chip_of env) (Some (''scan out'' @ [CHR 0x0D, CHR 0x0A])) s of
        None \<Rightarrow> None
      | Some (_, s) \<Rightarrow>
          let (_, s) = semaphore_post (Access s) s
          in Some (Returned pHead, s))"

definition input_frame :: "'a emac_scheme eth \<Rightarrow> int \<Rightarrow> addr \<Rightarrow> 'a emac_scheme \<Rightarrow> (addr outcome \<times> 'a emac_scheme) option" where
  "input_frame env ConsumeIndex pHead s =
     (case (if NULL \<noteq> pHead then input_copy pHead (RX_BUF ConsumeIndex) s else Some s) of
        None \<Rightarrow> None
      | Some s \<Rightarrow>
          let MaxIndex = sint (read_dword RxDescriptorNumber s);
              ConsumeIndex = ConsumeIndex + 1;
              ConsumeIndex = (if MaxIndex < ConsumeIndex then 0 else ConsumeIndex);
              s = write_dword RxConsumeIndex (of_int ConsumeIndex) s
          in input_release env pHead s)"

definition input_locked :: "'a emac_scheme eth \<Rightarrow> 'a emac_scheme \<Rightarrow> (addr outcome \<times> 'a emac_scheme) option" where
  "input_locked env s =
     (case prints (chip_of env) (Some (''scan in'' @ [CHR 0x09])) s of
        None \<Rightarrow> None
      | Some (_, s) \<Rightarrow>
          let ProduceIndex = sint (read_dword RxProduceIndex s);
              ConsumeIndex = sint (read_dword RxConsumeIndex s)
          in if ConsumeIndex \<noteq> ProduceIndex then
               after (pbuf_alloc (stack_of env) PBUF_RAW (of_int (input_size ConsumeIndex s)) PBUF_POOL s)
                 (input_frame env ConsumeIndex)
             else
               let s = write_dword IntEnable (push_bit 3 1 OR push_bit 7 1) s
               in input_release env NULL s)"

definition low_level_input :: "'a emac_scheme eth \<Rightarrow> addr \<Rightarrow> 'a emac_scheme \<Rightarrow> (addr outcome \<times> 'a emac_scheme) option" where
  "low_level_input env netif s = after (semaphore_wait (Access s) 0 s) (\<lambda>_ s. input_locked env s)"

definition low_level_input_resume :: "'a emac_scheme eth \<Rightarrow> addr \<Rightarrow> addr \<Rightarrow> 'a emac_scheme \<Rightarrow> (addr outcome \<times> 'a emac_scheme) option" where
  "low_level_input_resume env Semaphore pThread s =
     (let (_, s) = semaphore_wait_resume Semaphore 0 pThread s in input_locked env s)"

abbreviation (input) ETHTYPE_ARP :: u16 where "ETHTYPE_ARP \<equiv> 0x0806"
abbreviation (input) ETHTYPE_IP :: u16 where "ETHTYPE_IP \<equiv> 0x0800"

text \<open>\<open>type\<close> lies at 12 in \<open>struct eth_hdr\<close>.\<close>

definition scan_deliver :: "'a emac_scheme eth \<Rightarrow> addr \<Rightarrow> addr \<Rightarrow> 'a emac_scheme \<Rightarrow> (unit outcome \<times> 'a emac_scheme) option" where
  "scan_deliver env netif pFrame s =
     (if NULL = pFrame then Some (Returned (), s)
      else
        let ethhdr = payload s pFrame;
            type' = lwip_htons (ucast (load16 (bytes s) (ethhdr + 12)))
        in if type' = ETHTYPE_IP \<or> type' = ETHTYPE_ARP then
             after (input_of env (netif_input s netif) pFrame netif s)
               (\<lambda>r s. if r \<noteq> ERR_OK then after (pbuf_free (stack_of env) pFrame s) (\<lambda>_ s. Some (Returned (), s))
                      else Some (Returned (), s))
           else after (pbuf_free (stack_of env) pFrame s) (\<lambda>_ s. Some (Returned (), s)))"

definition ethernet_scan :: "'a emac_scheme eth \<Rightarrow> addr \<Rightarrow> 'a emac_scheme \<Rightarrow> (unit outcome \<times> 'a emac_scheme) option" where
  "ethernet_scan env netif s =
     after (semaphore_wait (RecvDone s) 0 s) (\<lambda>_ s. after (low_level_input env netif s) (scan_deliver env netif))"

text \<open>\<open>ethernet_scan\<close> after it has waited for a frame, and after it has waited for the driver.\<close>

definition ethernet_scan_resume :: "'a emac_scheme eth \<Rightarrow> addr \<Rightarrow> addr \<Rightarrow> addr \<Rightarrow> 'a emac_scheme \<Rightarrow> (unit outcome \<times> 'a emac_scheme) option" where
  "ethernet_scan_resume env Semaphore pThread netif s =
     (let (_, s) = semaphore_wait_resume Semaphore 0 pThread s in after (low_level_input env netif s) (scan_deliver env netif))"

definition ethernet_scan_resume_input :: "'a emac_scheme eth \<Rightarrow> addr \<Rightarrow> addr \<Rightarrow> addr \<Rightarrow> 'a emac_scheme \<Rightarrow> (unit outcome \<times> 'a emac_scheme) option" where
  "ethernet_scan_resume_input env Semaphore pThread netif s =
     after (low_level_input_resume env Semaphore pThread s) (scan_deliver env netif)"

section \<open>The exception\<close>

definition ethernet_exception :: "'a emac_scheme eth \<Rightarrow> 'a emac_scheme \<Rightarrow> 'a emac_scheme option" where
  "ethernet_exception env s =
     (let InteruptStatus = read_dword IntStatus s;
          s = (if InteruptStatus AND push_bit 3 1 \<noteq> 0 then snd (semaphore_post (RecvDone s) s)
               else if InteruptStatus AND push_bit 7 1 \<noteq> 0 then snd (semaphore_post (SendDone s) s)
               else s)
      in case (if InteruptStatus AND push_bit 0 1 \<noteq> 0 then DBG_ERR env ''547'' ''overrun InteruptStatus'' s else Some s) of
           None \<Rightarrow> None
         | Some s \<Rightarrow>
             (case (if InteruptStatus AND push_bit 4 1 \<noteq> 0 then DBG_ERR env ''555'' ''underrun interupt'' s else Some s) of
                None \<Rightarrow> None
              | Some s \<Rightarrow> Some (write_dword IntClear InteruptStatus s)))"

section \<open>Set-up\<close>

definition setup_message_access :: string where
  "setup_message_access = [CHR 0xB4, CHR 0xB4, CHR 0xBD, CHR 0xA8, CHR 0xC7, CHR 0xFD, CHR 0xB6, CHR 0xAF, CHR 0xB7, CHR 0xC3, CHR 0xCE, CHR 0xCA,
     CHR 0xD0, CHR 0xC5, CHR 0xBA, CHR 0xC5, CHR 0xC1, CHR 0xBF, CHR 0xCA, CHR 0xB1, CHR 0xB3, CHR 0xF6, CHR 0xB4, CHR 0xED, CHR 0x0D, CHR 0x0A]"

definition setup_message_send :: string where
  "setup_message_send = [CHR 0xB4, CHR 0xB4, CHR 0xBD, CHR 0xA8, CHR 0xB7, CHR 0xA2, CHR 0xCB, CHR 0xCD, CHR 0xCD, CHR 0xEA, CHR 0xB3, CHR 0xC9,
     CHR 0xD0, CHR 0xC5, CHR 0xBA, CHR 0xC5, CHR 0xC1, CHR 0xBF, CHR 0xCA, CHR 0xB1, CHR 0xB3, CHR 0xF6, CHR 0xB4, CHR 0xED, CHR 0x0D, CHR 0x0A]"

definition setup_message_recv :: string where
  "setup_message_recv = [CHR 0xB4, CHR 0xB4, CHR 0xBD, CHR 0xA8, CHR 0xBD, CHR 0xD3, CHR 0xCA, CHR 0xD5, CHR 0xCD, CHR 0xEA, CHR 0xB3, CHR 0xC9,
     CHR 0xD0, CHR 0xC5, CHR 0xBA, CHR 0xC5, CHR 0xC1, CHR 0xBF, CHR 0xCA, CHR 0xB1, CHR 0xB3, CHR 0xF6, CHR 0xB4, CHR 0xED, CHR 0x0D, CHR 0x0A]"

definition setup_message_ready :: string where
  "setup_message_ready = [CHR 0xD2, CHR 0xD4, CHR 0xCC, CHR 0xAB, CHR 0xCD, CHR 0xF8, CHR 0xC5, CHR 0xE4, CHR 0xD6, CHR 0xC3, CHR 0xB3, CHR 0xC9,
     CHR 0xB9, CHR 0xA6, CHR 0x0D, CHR 0x0A]"

abbreviation (input) NETIF_FLAG_BROADCAST :: u8 where "NETIF_FLAG_BROADCAST \<equiv> 0x02"
abbreviation (input) NETIF_FLAG_LINK_UP :: u8 where "NETIF_FLAG_LINK_UP \<equiv> 0x10"
abbreviation (input) NETIF_FLAG_ETHARP :: u8 where "NETIF_FLAG_ETHARP \<equiv> 0x20"
abbreviation (input) ETHARP_HWADDR_LEN :: u8 where "ETHARP_HWADDR_LEN \<equiv> 6"

text \<open>The registers of the controller before the search for the physical layer.\<close>

definition setup_mac :: "'a emac_scheme eth \<Rightarrow> 'a emac_scheme \<Rightarrow> 'a emac_scheme" where
  "setup_mac env s =
     (let s = dword_set_bits PCONP (push_bit 30 1) s;
          s = write_dword PINSEL2 0x50150105 s;
          s = dword_modify PINSEL3 (push_bit 3 1 OR push_bit 1 1) (push_bit 2 1 OR push_bit 0 1) s;
          s = write_dword MAC1 (push_bit 15 1 OR push_bit 14 1 OR push_bit 11 1 OR push_bit 10 1 OR push_bit 9 1 OR push_bit 8 1) s;
          s = write_dword Command (push_bit 5 1 OR push_bit 4 1 OR push_bit 3 1) s;
          s = delay env 100 s;
          s = write_dword MAC1 (push_bit 1 1) s;
          s = write_dword MAC2 (push_bit 4 1 OR push_bit 5 1) s;
          s = write_dword IPGR 0x0C12 s;
          s = write_dword CLRT 0x370F s;
          s = write_dword MAXF ETH_MAX_FLEN s;
          s = write_dword MCFG (push_bit 15 1 OR push_bit 2 0xA) s;
          s = delay env 100 s;
          s = write_dword MCFG (push_bit 2 0xA) s;
          s = write_dword Command (push_bit 6 1 OR push_bit 7 1 OR push_bit 9 1) s;
          s = write_dword SUPP (push_bit 8 1 OR push_bit 11 1) s;
          s = delay env 100 s
      in write_dword SUPP (push_bit 8 1) s)"

text \<open>The search for the physical layer over the addresses \<open>is\<close>; the first result is 32 when none answers.  A read that
  times out leaves \<open>PhyID\<close> as it is.\<close>

fun scan_phy :: "'a emac_scheme eth \<Rightarrow> u32 list \<Rightarrow> u32 \<Rightarrow> 'a emac_scheme \<Rightarrow> (u32 \<times> 'a emac_scheme) option" where
  "scan_phy env [] PhyID s = Some (32, s)"
| "scan_phy env (i # is) PhyID s =
     (case read_phy env i 3 s of
        None \<Rightarrow> None
      | Some (_, v, s) \<Rightarrow>
          let PhyID = (case v of Some x \<Rightarrow> x | None \<Rightarrow> PhyID)
          in (case read_phy env i 2 s of
                None \<Rightarrow> None
              | Some (_, v, s) \<Rightarrow>
                  let PhyID = (case v of Some x \<Rightarrow> x | None \<Rightarrow> PhyID)
                  in if 0x0022 = PhyID then Some (i, s) else scan_phy env is PhyID s))"

partial_function (option) negotiate :: "'a emac_scheme eth \<Rightarrow> u32 \<Rightarrow> u32 \<Rightarrow> 'a emac_scheme \<Rightarrow> (u32 \<times> 'a emac_scheme) option" where
  "negotiate env PhyAddress status s =
     (case read_phy env PhyAddress 0x1F s of
        None \<Rightarrow> None
      | Some (_, v, s) \<Rightarrow>
          let status = (case v of Some x \<Rightarrow> x | None \<Rightarrow> status) AND 0x1C
          in if 0 = status then negotiate env PhyAddress status s else Some (status, s))"

text \<open>The modes of the link; \<open>None\<close> is the return from the default branch.\<close>

definition setup_link :: "u32 \<Rightarrow> 'a emac_scheme \<Rightarrow> 'a emac_scheme option" where
  "setup_link status s =
     (if status = 0x04 then
        let s = write_dword IPGT 0x12 s;
            s = dword_clear_bits MAC2 (push_bit 0 1) s;
            s = dword_clear_bits SUPP (push_bit 8 1) s
        in Some (dword_clear_bits Command (push_bit 10 1) s)
      else if status = 0x08 then
        let s = write_dword IPGT 0x12 s;
            s = dword_clear_bits MAC2 (push_bit 0 1) s;
            s = dword_set_bits SUPP (push_bit 8 1) s
        in Some (dword_clear_bits Command (push_bit 10 1) s)
      else if status = 0x14 then
        let s = write_dword IPGT 0x15 s;
            s = dword_set_bits MAC2 (push_bit 0 1) s;
            s = dword_clear_bits SUPP (push_bit 8 1) s
        in Some (dword_set_bits Command (push_bit 10 1) s)
      else if status = 0x18 then
        let s = write_dword IPGT 0x15 s;
            s = dword_set_bits MAC2 (push_bit 0 1) s;
            s = dword_set_bits SUPP (push_bit 8 1) s
        in Some (dword_set_bits Command (push_bit 10 1) s)
      else None)"

definition setup_start :: "'a emac_scheme eth \<Rightarrow> addr \<Rightarrow> 'a emac_scheme \<Rightarrow> (int outcome \<times> 'a emac_scheme) option" where
  "setup_start env netif s =
     (let h = netif_hwaddr s netif;
          s = write_dword SA0 (push_bit 8 (ucast (h ! 0)) + push_bit 0 (ucast (h ! 1))) s;
          s = write_dword SA1 (push_bit 8 (ucast (h ! 2)) + push_bit 0 (ucast (h ! 3))) s;
          s = write_dword SA2 (push_bit 8 (ucast (h ! 4)) + push_bit 0 (ucast (h ! 5))) s;
          s = init_recv_description s;
          s = init_sent_description s;
          s = write_dword RxFilterCtrl (push_bit 1 1 OR push_bit 5 1) s;
          s = write_dword IntClear 0xFFFF s;
          s = write_dword IntEnable (push_bit 3 1 OR push_bit 7 1) s;
          s = dword_set_bits Command (push_bit 0 1 OR push_bit 1 1) s;
          s = dword_set_bits MAC1 (push_bit 0 1) s;
          (_, s) = irq_register ENET_IRQn 20 (ethernet_exception_fn env) s
      in map_option (\<lambda>s. (Returned ERR_OK, s)) (DBG_INFO env setup_message_ready s))"

text \<open>\<open>ethernet_setup\<close> after \<open>sleep (2)\<close>.\<close>

definition setup_negotiate :: "'a emac_scheme eth \<Rightarrow> addr \<Rightarrow> u32 \<Rightarrow> 'a emac_scheme \<Rightarrow> (int outcome \<times> 'a emac_scheme) option" where
  "setup_negotiate env netif PhyAddress s =
     (case negotiate env PhyAddress (status_junk env) s of
        None \<Rightarrow> None
      | Some (status, s) \<Rightarrow>
          (case setup_link status s of
             None \<Rightarrow> Some (Returned ERR_HARDWARE, s)
           | Some s \<Rightarrow> setup_start env netif s))"

definition setup_netif :: "'a emac_scheme eth \<Rightarrow> addr \<Rightarrow> addr \<Rightarrow> 'a emac_scheme \<Rightarrow> 'a emac_scheme" where
  "setup_netif env netif ethernetif s =
     (let s = s\<lparr>netif_state := (netif_state s)(netif := ethernetif)\<rparr>;
          s = s\<lparr>netif_name := (netif_name s)(netif := ''e0'')\<rparr>;
          s = s\<lparr>netif_output := (netif_output s)(netif := etharp_output_fn env)\<rparr>;
          s = s\<lparr>netif_linkoutput := (netif_linkoutput s)(netif := low_level_output_fn env)\<rparr>;
          s = s\<lparr>ethaddr := (ethaddr s)(ethernetif := netif + hwaddr_offset env)\<rparr>;
          s = s\<lparr>netif_hwaddr_len := (netif_hwaddr_len s)(netif := ETHARP_HWADDR_LEN)\<rparr>;
          s = s\<lparr>netif_hwaddr := (netif_hwaddr s)(netif := [0x00, 0x14, 0x97, 0x0F, 0xAF, 0x4C])\<rparr>;
          s = s\<lparr>netif_mtu := (netif_mtu s)(netif := 1500)\<rparr>
      in s\<lparr>netif_flags := (netif_flags s)(netif := NETIF_FLAG_BROADCAST OR NETIF_FLAG_ETHARP OR NETIF_FLAG_LINK_UP)\<rparr>)"

definition setup_hardware :: "'a emac_scheme eth \<Rightarrow> addr \<Rightarrow> addr \<Rightarrow> 'a emac_scheme \<Rightarrow> (int outcome \<times> 'a emac_scheme) option" where
  "setup_hardware env netif ethernetif s =
     (if ethernetif = NULL then Some (Returned ERR_MEM, s)
      else
        let s = setup_netif env netif ethernetif s;
            s = setup_mac env s
        in case scan_phy env (map of_nat [1..<32]) (PhyID_junk env) s of
             None \<Rightarrow> None
           | Some (i, s) \<Rightarrow>
               if 32 \<le> i then Some (Returned ERR_HARDWARE, s)
               else
                 (case write_phy env i 0 (push_bit 15 1 OR push_bit 12 1 OR push_bit 9 1) s of
                    None \<Rightarrow> None
                  | Some (_, s) \<Rightarrow> after (sleep 2 s) (\<lambda>_ s. setup_negotiate env netif i s)))"

definition setup_fail :: "'a emac_scheme eth \<Rightarrow> string \<Rightarrow> string \<Rightarrow> 'a emac_scheme \<Rightarrow> (int outcome \<times> 'a emac_scheme) option" where
  "setup_fail env line Format s = map_option (\<lambda>s. (Returned ERR_MEM, s)) (DBG_WARN env line Format s)"

definition setup_recv :: "'a emac_scheme eth \<Rightarrow> addr \<Rightarrow> addr \<Rightarrow> 'a emac_scheme \<Rightarrow> (int outcome \<times> 'a emac_scheme) option" where
  "setup_recv env netif Object s =
     (let s = s\<lparr>RecvDone := Object\<rparr>
      in if NULL = RecvDone s then setup_fail env ''647'' setup_message_recv s
         else after (malloc 4 s) (setup_hardware env netif))"

definition setup_send :: "'a emac_scheme eth \<Rightarrow> addr \<Rightarrow> addr \<Rightarrow> 'a emac_scheme \<Rightarrow> (int outcome \<times> 'a emac_scheme) option" where
  "setup_send env netif Object s =
     (let s = s\<lparr>SendDone := Object\<rparr>
      in if NULL = SendDone s then setup_fail env ''641'' setup_message_send s
         else after (semaphore_new 0 s) (setup_recv env netif))"

definition setup_access :: "'a emac_scheme eth \<Rightarrow> addr \<Rightarrow> addr \<Rightarrow> 'a emac_scheme \<Rightarrow> (int outcome \<times> 'a emac_scheme) option" where
  "setup_access env netif Object s =
     (let s = s\<lparr>Access := Object\<rparr>
      in if NULL = Access s then setup_fail env ''635'' setup_message_access s
         else after (semaphore_new 2 s) (setup_send env netif))"

definition ethernet_setup :: "'a emac_scheme eth \<Rightarrow> addr \<Rightarrow> 'a emac_scheme \<Rightarrow> (int outcome \<times> 'a emac_scheme) option" where
  "ethernet_setup env netif s = after (semaphore_new 1 s) (setup_access env netif)"

text \<open>\<open>ethernet_setup\<close> after each of its waits: for the allocator four times, then in \<open>sleep (2)\<close>.\<close>

definition setup_resume_access :: "'a emac_scheme eth \<Rightarrow> addr \<Rightarrow> addr \<Rightarrow> 'a emac_scheme \<Rightarrow> (int outcome \<times> 'a emac_scheme) option" where
  "setup_resume_access env netif pThread s = after (semaphore_new_resume 1 pThread s) (setup_access env netif)"

definition setup_resume_send :: "'a emac_scheme eth \<Rightarrow> addr \<Rightarrow> addr \<Rightarrow> 'a emac_scheme \<Rightarrow> (int outcome \<times> 'a emac_scheme) option" where
  "setup_resume_send env netif pThread s = after (semaphore_new_resume 2 pThread s) (setup_send env netif)"

definition setup_resume_recv :: "'a emac_scheme eth \<Rightarrow> addr \<Rightarrow> addr \<Rightarrow> 'a emac_scheme \<Rightarrow> (int outcome \<times> 'a emac_scheme) option" where
  "setup_resume_recv env netif pThread s = after (semaphore_new_resume 0 pThread s) (setup_recv env netif)"

definition setup_resume_memory :: "'a emac_scheme eth \<Rightarrow> addr \<Rightarrow> addr \<Rightarrow> 'a emac_scheme \<Rightarrow> (int outcome \<times> 'a emac_scheme) option" where
  "setup_resume_memory env netif pThread s = after (malloc_resume 4 pThread s) (setup_hardware env netif)"

definition setup_resume_sleep :: "'a emac_scheme eth \<Rightarrow> addr \<Rightarrow> u32 \<Rightarrow> 'a emac_scheme \<Rightarrow> (int outcome \<times> 'a emac_scheme) option" where
  "setup_resume_sleep env netif PhyAddress s = (let (_, s) = sleep_resume s in setup_negotiate env netif PhyAddress s)"

section \<open>Lemmas\<close>

text \<open>Only registers outside the block of the controller have changed.\<close>

definition mac_register :: "addr \<Rightarrow> bool" where
  "mac_register a \<longleftrightarrow> drop_bit 12 a = 0x50000"

definition io_only :: "'a emac_scheme \<Rightarrow> 'a emac_scheme \<Rightarrow> bool" where
  "io_only s' s \<longleftrightarrow> (\<exists>f l. s' = s\<lparr>io := f, io_log := l\<rparr> \<and> (\<forall>a. mac_register a \<longrightarrow> f a = io s a))"

lemma io_only_trans: "io_only a b \<Longrightarrow> io_only b c \<Longrightarrow> io_only a c"
  by (fastforce simp: io_only_def)

lemma io_only_refl: "io_only s s"
  unfolding io_only_def by (intro exI [of _ "io s"] exI [of _ "io_log s"]) simp

text \<open>A chip whose controller is left alone by its ticks, and whose serial line drains.\<close>

definition mac_steady :: "'a emac_scheme chip \<Rightarrow> bool" where
  "mac_steady chip \<longleftrightarrow> drains chip \<and> (\<forall>s. io_only (tick chip s) s)"

lemma ticks_io_only: "mac_steady chip \<Longrightarrow> io_only ((tick chip ^^ n) s) s"
  by (induction n) (auto simp: mac_steady_def io_only_refl intro: io_only_trans)

lemma write_io_only:
  "\<lbrakk>\<not> mac_register a; \<not> mac_register (a + 1); \<not> mac_register (a + 2); \<not> mac_register (a + 3)\<rbrakk> \<Longrightarrow> io_only (write_dword a d s) s"
  unfolding io_only_def write_dword_def io_store_def
  by (intro exI conjI) (rule refl, auto)

lemma prints_loop_io_only: "mac_steady chip \<Longrightarrow> \<exists>s'. prints_loop chip cs s = Some s' \<and> io_only s' s"
proof (induction cs arbitrary: s)
  case Nil
  then show ?case by (simp add: io_only_refl)
next
  case (Cons c cs)
  have d: "drains chip" using Cons.prems by (simp add: mac_steady_def)
  obtain n where "read_dword 0x4000C014 ((tick chip ^^ n) s) AND 0x20 \<noteq> 0" using d by (auto simp: drains_def)
  from poll_ends [OF this] obtain k where "poll (tick chip) 0x4000C014 0x20 s = Some ((tick chip ^^ k) s)" by blast
  moreover define s1 where "s1 = write_dword 0x4000C000 (of_char c) ((tick chip ^^ k) s)"
  ultimately have "printc chip c s = Some (OK, s1)"
    by (simp add: printc_def uart0_send_def uart_send_def uart0_info_def Let_def)
  moreover have "io_only s1 s"
    unfolding s1_def by (rule io_only_trans [OF write_io_only ticks_io_only [OF Cons.prems]]) (simp_all add: mac_register_def drop_bit_eq_div)
  moreover obtain s2 where "prints_loop chip cs s1 = Some s2" "io_only s2 s1" using Cons by blast
  ultimately show ?case by (auto intro: io_only_trans)
qed

lemma prints_io_only: "mac_steady chip \<Longrightarrow> \<exists>s'. prints chip (Some cs) s = Some (OK, s') \<and> io_only s' s"
  using prints_loop_io_only [of chip cs s] by (auto simp: prints_def)

text \<open>Copying between a chain and a frame.\<close>

lemma output_copy_store:
  assumes "pchain (pb_next s) p ps" and "clear_of s ps d (length (chain_bytes s ps))"
  shows "output_copy d p s = Some (s\<lparr>bytes := store_block d (chain_bytes s ps) (bytes s)\<rparr>)"
  using assms
proof (induction ps arbitrary: d p s)
  case Nil
  then show ?case by (subst output_copy.simps) simp
next
  case (Cons q qs)
  have q: "p = q" "q \<noteq> 0" "pchain (pb_next s) (pb_next s q) qs" using Cons.prems(1) by simp_all
  let ?l = "unat (pb_len s q)"
  let ?n = "length (chain_bytes s qs)"
  have dj: "disjoint_blocks (payload s q) ?l d ?l"
    using Cons.prems(2) disjoint_blocks_mono [of "payload s q" ?l d "?l + ?n" ?l ?l] by simp
  let ?s = "s\<lparr>bytes := store_block d (pb_data s q) (bytes s)\<rparr>"
  have e: "output_copy d p s = output_copy (d + ucast (pb_len s q)) (pb_next s q) ?s"
    using q memcpy_store_block [OF dj] by (subst output_copy.simps) (simp add: pb_data_def)
  have cl: "clear_of s qs d (?l + ?n)" using Cons.prems(2) by simp
  have cb: "chain_bytes ?s qs = chain_bytes s qs"
    using clear_of_mono [OF cl, of ?l] by (intro chain_bytes_store) simp
  have "ucast (pb_len s q) = (of_nat ?l :: addr)" by simp
  moreover have "clear_of ?s qs (d + of_nat ?l) (length (chain_bytes ?s qs))"
    unfolding cb clear_of_store by (rule clear_of_shift [OF cl]) simp
  ultimately have "output_copy (d + ucast (pb_len s q)) (pb_next s q) ?s =
      Some (?s\<lparr>bytes := store_block (d + of_nat ?l) (chain_bytes ?s qs) (bytes ?s)\<rparr>)"
    using Cons.IH [of ?s "pb_next s q" "d + of_nat ?l"] q(3) by simp
  then show ?case unfolding e cb by (simp add: store_block_append)
qed

lemma input_copy_store:
  assumes "pchain (pb_next s) p ps" and "separate s ps" and "clear_of s ps d (length (chain_bytes s ps))"
  shows "\<exists>m. input_copy p d s = Some (s\<lparr>bytes := m\<rparr>) \<and>
     (\<forall>a k. clear_of s ps a k \<longrightarrow> block m a k = block (bytes s) a k) \<and>
     chain_bytes (s\<lparr>bytes := m\<rparr>) ps = block (bytes s) d (length (chain_bytes s ps))"
  using assms
proof (induction ps arbitrary: d p s)
  case Nil
  then show ?case by (intro exI [of _ "bytes s"]) (simp add: input_copy.simps block_def)
next
  case (Cons q qs)
  have q: "p = q" "q \<noteq> 0" "pchain (pb_next s) (pb_next s q) qs" using Cons.prems(1) by simp_all
  let ?l = "unat (pb_len s q)"
  let ?n = "length (chain_bytes s qs)"
  have dj0: "disjoint_blocks (payload s q) ?l d (?l + ?n)" using Cons.prems(3) by simp
  have dj: "disjoint_blocks d ?l (payload s q) ?l"
    using disjoint_blocks_mono [OF dj0, of ?l ?l] by (simp add: disjoint_blocks_sym)
  let ?B = "block (bytes s) d ?l"
  let ?s = "s\<lparr>bytes := store_block (payload s q) ?B (bytes s)\<rparr>"
  have e: "input_copy p d s = input_copy (pb_next s q) (d + of_nat ?l) ?s"
    using q memcpy_store_block [OF dj] by (subst input_copy.simps) simp
  have clq: "clear_of s qs (payload s q) ?l" using Cons.prems(2) by simp
  have cb: "chain_bytes ?s qs = chain_bytes s qs" using clq by (intro chain_bytes_store) simp
  have cl: "clear_of s qs d (?l + ?n)" using Cons.prems(3) by simp
  have "clear_of ?s qs (d + of_nat ?l) (length (chain_bytes ?s qs))"
    unfolding cb clear_of_store by (rule clear_of_shift [OF cl]) simp
  note cs = this
  have pc: "pchain (pb_next ?s) (pb_next s q) qs" "separate ?s qs" using q(3) Cons.prems(2) by simp_all
  from Cons.IH [OF pc cs] obtain m where
    m0: "input_copy (pb_next s q) (d + of_nat ?l) ?s = Some (?s\<lparr>bytes := m\<rparr>)"
    "\<forall>a k. clear_of ?s qs a k \<longrightarrow> block m a k = block (bytes ?s) a k"
    "chain_bytes (?s\<lparr>bytes := m\<rparr>) qs = block (bytes ?s) (d + of_nat ?l) (length (chain_bytes ?s qs))" by blast
  have m: "input_copy (pb_next s q) (d + of_nat ?l) ?s = Some (s\<lparr>bytes := m\<rparr>)"
    "\<And>a k. clear_of ?s qs a k \<Longrightarrow> block m a k = block (bytes ?s) a k"
    "chain_bytes (s\<lparr>bytes := m\<rparr>) qs = block (bytes ?s) (d + of_nat ?l) ?n"
    using m0(2) unfolding m0(1) m0(3) [unfolded cb, symmetric] by simp_all
  have other: "block m a k = block (bytes s) a k" if "clear_of s (q # qs) a k" for a k
  proof -
    have "block m a k = block (bytes ?s) a k" using that by (intro m(2)) (simp add: clear_of_store)
    also have "\<dots> = block (bytes s) a k" using that by (simp add: block_store_other disjoint_blocks_sym)
    finally show ?thesis .
  qed
  have "block m (payload s q) ?l = block (bytes ?s) (payload s q) ?l" using clq by (intro m(2)) (simp add: clear_of_store)
  also have "\<dots> = ?B" using unat16_less [of "pb_len s q"] block_store_same [of ?B "payload s q" "bytes s"] by simp
  finally have hd: "pb_data (s\<lparr>bytes := m\<rparr>) q = ?B" by (simp add: pb_data_def)
  have "disjoint_blocks (d + of_nat ?l) ?n (payload s q) ?l"
    using disjoint_blocks_shift [OF dj0, of 0 ?l ?l ?n] by (simp add: disjoint_blocks_sym)
  then have "block (bytes ?s) (d + of_nat ?l) ?n = block (bytes s) (d + of_nat ?l) ?n" by (simp add: block_store_other)
  then have "chain_bytes (s\<lparr>bytes := m\<rparr>) (q # qs) = block (bytes s) d (?l + ?n)"
    by (simp add: hd m(3) block_append)
  then show ?case using e m(1) other by (intro exI [of _ m]) simp
qed


lemma io_only_read:
  "io_only s' s \<Longrightarrow> mac_register a \<Longrightarrow> mac_register (a + 1) \<Longrightarrow> mac_register (a + 2) \<Longrightarrow> mac_register (a + 3) \<Longrightarrow>
   read_dword a s' = read_dword a s"
  by (auto simp: io_only_def read_dword_def)

lemma mac_registers:
  "mac_register 0x50000114" "mac_register 0x50000115" "mac_register 0x50000116" "mac_register 0x50000117"
  "mac_register 0x50000118" "mac_register 0x50000119" "mac_register 0x5000011A" "mac_register 0x5000011B"
  "mac_register 0x50000110" "mac_register 0x50000111" "mac_register 0x50000112" "mac_register 0x50000113"
  "mac_register 0x50000124" "mac_register 0x50000125" "mac_register 0x50000126" "mac_register 0x50000127"
  "mac_register 0x50000128" "mac_register 0x50000129" "mac_register 0x5000012A" "mac_register 0x5000012B"
  "mac_register 0x5000012C" "mac_register 0x5000012D" "mac_register 0x5000012E" "mac_register 0x5000012F"
  by (simp_all add: mac_register_def drop_bit_eq_div)

lemma io_only_index:
  assumes "io_only s' s"
  shows "read_dword TxProduceIndex s' = read_dword TxProduceIndex s" "read_dword TxConsumeIndex s' = read_dword TxConsumeIndex s"
    "read_dword TxDescriptorNumber s' = read_dword TxDescriptorNumber s" "read_dword RxProduceIndex s' = read_dword RxProduceIndex s"
    "read_dword RxConsumeIndex s' = read_dword RxConsumeIndex s" "read_dword RxDescriptorNumber s' = read_dword RxDescriptorNumber s"
  by (rule io_only_read [OF assms]; simp add: mac_registers)+

lemma store_dword_other: "x \<noteq> a \<Longrightarrow> x \<noteq> a + 1 \<Longrightarrow> x \<noteq> a + 2 \<Longrightarrow> x \<noteq> a + 3 \<Longrightarrow> store_dword a d m x = m x"
  by (simp add: store_dword_def)

lemma tx_addresses:
  "TX_BUF (int i) = of_nat (0x2007D864 + 1536 * i)" "TX_DESC_CTRL (int i) = of_nat (0x2007C044 + 8 * i)"
  by (simp_all add: TX_BUF_def TX_DESC_CTRL_def)

lemma rx_addresses:
  "RX_BUF (int i) = of_nat (0x2007C064 + 1536 * i)" "RX_STAT_INFO (int i) = of_nat (0x2007C020 + 8 * i)"
  by (simp_all add: RX_BUF_def RX_STAT_INFO_def)

lemma tx_apart:
  assumes "i < 3" and "j < 3" and "n \<le> 1536" and "k < 1536"
  shows "i \<noteq> j \<Longrightarrow> l < n \<Longrightarrow> TX_BUF (int j) + of_nat k \<noteq> TX_BUF (int i) + of_nat l"
    and "b < 4 \<Longrightarrow> TX_BUF (int j) + of_nat k \<noteq> TX_DESC_CTRL (int i) + of_nat b"
proof -
  show "TX_BUF (int j) + of_nat k \<noteq> TX_BUF (int i) + of_nat l" if "i \<noteq> j" "l < n"
  proof -
    have "0x2007D864 + 1536 * j + k \<noteq> 0x2007D864 + 1536 * i + l" using that assms by auto
    then show ?thesis using assms that of_nat_inj32 [of "0x2007D864 + 1536 * j + k" "0x2007D864 + 1536 * i + l"]
      unfolding tx_addresses by (simp only: of_nat_add [symmetric]) simp
  qed
  show "TX_BUF (int j) + of_nat k \<noteq> TX_DESC_CTRL (int i) + of_nat b" if "b < 4"
    using assms that of_nat_inj32 [of "0x2007D864 + 1536 * j + k" "0x2007C044 + 8 * i + b"]
    unfolding tx_addresses by (simp only: of_nat_add [symmetric]) simp
qed

lemma wait_free:
  "\<lbrakk>S \<noteq> 0; Counter s S \<noteq> 0\<rbrakk> \<Longrightarrow> semaphore_wait S 0 s = Some (Returned OK, s\<lparr>Counter := (Counter s)(S := Counter s S - 1)\<rparr>)"
  by (simp add: semaphore_wait_def atom_operate_lock_def atom_operate_unlock_def)

lemma post_free:
  "\<lbrakk>S \<noteq> 0; list_empty (WaitHead S) s\<rbrakk> \<Longrightarrow> semaphore_post S s = (OK, s\<lparr>Counter := (Counter s)(S := Counter s S + 1)\<rparr>)"
  by (simp add: semaphore_post_def atom_operate_lock_def atom_operate_unlock_def list_empty_def)

text \<open>What the driver puts into a descriptor and a buffer.\<close>

definition put_frame :: "nat \<Rightarrow> u8 list \<Rightarrow> (addr \<Rightarrow> u8) \<Rightarrow> addr \<Rightarrow> u8" where
  "put_frame i bs m =
     (let a = TX_DESC_CTRL (int i)
      in store_dword a ((load_dword m a AND NOT 0x7FF) OR ((of_nat (length bs) - 1) AND 0x7FF)) (store_block (TX_BUF (int i)) bs m))"

lemma put_frame_reads:
  assumes "i < 3" and "length bs \<le> 1536"
  shows "block (put_frame i bs m) (TX_BUF (int i)) (length bs) = bs"
    and "load_dword (put_frame i bs m) (TX_DESC_CTRL (int i)) =
      (load_dword m (TX_DESC_CTRL (int i)) AND NOT 0x7FF) OR ((of_nat (length bs) - 1) AND 0x7FF)"
    and "j < 3 \<Longrightarrow> j \<noteq> i \<Longrightarrow> block (put_frame i bs m) (TX_BUF (int j)) 1536 = block m (TX_BUF (int j)) 1536"
proof -
  have d: "put_frame i bs m (TX_BUF (int j) + of_nat k) = store_block (TX_BUF (int i)) bs m (TX_BUF (int j) + of_nat k)"
    if "j < 3" "k < 1536" for j k
    using tx_apart(2) [OF assms(1) that(1) assms(2) that(2), of 0] tx_apart(2) [OF assms(1) that(1) assms(2) that(2), of 1]
      tx_apart(2) [OF assms(1) that(1) assms(2) that(2), of 2] tx_apart(2) [OF assms(1) that(1) assms(2) that(2), of 3]
    unfolding put_frame_def Let_def by (intro store_dword_other) simp_all
  have "block (put_frame i bs m) (TX_BUF (int i)) (length bs) = block (store_block (TX_BUF (int i)) bs m) (TX_BUF (int i)) (length bs)"
    using assms by (intro block_cong d) simp_all
  also have "\<dots> = bs" using assms(2) by (intro block_store_same) simp
  finally show "block (put_frame i bs m) (TX_BUF (int i)) (length bs) = bs" .
  show "load_dword (put_frame i bs m) (TX_DESC_CTRL (int i)) =
      (load_dword m (TX_DESC_CTRL (int i)) AND NOT 0x7FF) OR ((of_nat (length bs) - 1) AND 0x7FF)"
    by (simp add: put_frame_def Let_def load_store)
  show "block (put_frame i bs m) (TX_BUF (int j)) 1536 = block m (TX_BUF (int j)) 1536" if "j < 3" "j \<noteq> i"
  proof (rule block_cong)
    fix k :: nat assume "k < 1536"
    then show "put_frame i bs m (TX_BUF (int j) + of_nat k) = m (TX_BUF (int j) + of_nat k)"
      using that tx_apart(1) [OF assms(1) that(1) assms(2) \<open>k < 1536\<close>] by (simp add: d store_block_other)
  qed
qed

lemma frame_descriptor_kept:
  assumes "i < 3" and "length bs \<le> 1536"
  shows "load_dword (store_block (TX_BUF (int i)) bs m) (TX_DESC_CTRL (int i)) = load_dword m (TX_DESC_CTRL (int i))"
proof -
  have "store_block (TX_BUF (int i)) bs m (TX_DESC_CTRL (int i) + of_nat b) = m (TX_DESC_CTRL (int i) + of_nat b)" if "b < 4" for b
    using tx_apart(2) [OF assms(1) assms(1) assms(2) _ that] assms(2) by (intro store_block_other) (metis order_less_le_trans)
  from this [of 0] this [of 1] this [of 2] this [of 3] show ?thesis by (simp add: load_dword_def)
qed

lemma output_frame_puts:
  assumes "mac_steady (chip_of env)" and "i < 3" and "pchain (pb_next s) p ps" and "unat (tot_len s p) = length (chain_bytes s ps)"
    and "length (chain_bytes s ps) \<le> 1536" and "clear_of s ps (TX_BUF (int i)) (length (chain_bytes s ps))"
    and "Access s \<noteq> 0" and "list_empty (WaitHead (Access s)) s"
  shows "\<exists>s'. output_frame env p (int i) next' s = Some (Returned ERR_OK, s') \<and>
    io_only s' (write_dword TxProduceIndex (of_int next') (s\<lparr>bytes := put_frame i (chain_bytes s ps) (bytes s),
      Counter := (Counter s)(Access s := Counter s (Access s) + 1)\<rparr>))"
proof -
  let ?bs = "chain_bytes s ps"
  let ?a = "TX_DESC_CTRL (int i)"
  let ?m = "store_block (TX_BUF (int i)) ?bs (bytes s)"
  let ?s1 = "s\<lparr>bytes := ?m\<rparr>"
  define s2 where "s2 = store_at ?a (load_at ?a ?s1 AND NOT 0x7FF) ?s1"
  define s3 where "s3 = store_at ?a (load_at ?a s2 OR ((ucast (tot_len s p) - 1) AND 0x7FF)) s2"
  have "ucast (tot_len s p) = (of_nat (length ?bs) :: u32)" unfolding assms(4) [symmetric] by simp
  then have "s3 = s\<lparr>bytes := put_frame i ?bs (bytes s)\<rparr>"
    unfolding s3_def s2_def store_at_def load_at_def put_frame_def Let_def
    using frame_descriptor_kept [OF assms(2,5), of "bytes s"] by (simp add: load_store) (simp add: store_dword_def fun_upd_twist)
  moreover obtain s4 where s4: "prints (chip_of env) (Some (''output out'' @ [CHR 0x0D, CHR 0x0A])) (write_dword TxProduceIndex (of_int next') s3) = Some (OK, s4)"
    "io_only s4 (write_dword TxProduceIndex (of_int next') s3)" using prints_io_only [OF assms(1)] by blast
  moreover have e: "tot_len s2 = tot_len s" by (simp add: s2_def store_at_def)
  ultimately obtain f l where fl: "s4 = write_dword TxProduceIndex (of_int next') (s\<lparr>bytes := put_frame i ?bs (bytes s)\<rparr>)\<lparr>io := f, io_log := l\<rparr>"
    "\<forall>a. mac_register a \<longrightarrow> f a = io (write_dword TxProduceIndex (of_int next') (s\<lparr>bytes := put_frame i ?bs (bytes s)\<rparr>)) a"
    by (auto simp: io_only_def)
  have A: "Access s4 = Access s" "list_empty (WaitHead (Access s)) s4" "Counter s4 = Counter s"
    using assms(8) by (simp_all add: fl(1) write_dword_def list_empty_def)
  have e1: "output_frame env p (int i) next' s = Some (Returned ERR_OK, snd (semaphore_post (Access s4) s4))"
    unfolding output_frame_def output_copy_store [OF assms(3,6)] option.case Let_def s2_def [symmetric] e s3_def [symmetric] s4(1) prod.case
    by (simp add: split_beta)
  have "snd (semaphore_post (Access s4) s4) = s4\<lparr>Counter := (Counter s)(Access s := Counter s (Access s) + 1)\<rparr>"
    using post_free [of "Access s4" s4] assms(7) A by simp
  then have "io_only (snd (semaphore_post (Access s4) s4)) (write_dword TxProduceIndex (of_int next')
      (s\<lparr>bytes := put_frame i ?bs (bytes s), Counter := (Counter s)(Access s := Counter s (Access s) + 1)\<rparr>))"
    unfolding io_only_def using fl(2) by (intro exI [of _ f] exI [of _ l]) (simp add: fl(1) write_dword_def)
  then show ?thesis using e1 by blast
qed

text \<open>The areas for data of pool elements: aligned, and apart from each other and from the block at \<open>d\<close>.\<close>

definition element_areas :: "addr list \<Rightarrow> addr \<Rightarrow> nat \<Rightarrow> bool" where
  "element_areas qs d n \<longleftrightarrow>
     (\<forall>q\<in>set qs. LWIP_MEM_ALIGN (q + SIZEOF_STRUCT_PBUF) = q + SIZEOF_STRUCT_PBUF \<and> disjoint_blocks (q + SIZEOF_STRUCT_PBUF) 1500 d n \<and>
        (\<forall>r\<in>set qs. r \<noteq> q \<longrightarrow> disjoint_blocks (q + SIZEOF_STRUCT_PBUF) 1500 (r + SIZEOF_STRUCT_PBUF) 1500))"

lemma areas_separate:
  assumes "element_areas qs d n" and "distinct qs" and "\<forall>q\<in>set qs. payload s q = q + SIZEOF_STRUCT_PBUF \<and> unat (pb_len s q) \<le> 1500"
  shows "separate s qs" and "clear_of s qs d n"
proof -
  have "disjoint_blocks (payload s q) (unat (pb_len s q)) d n" if "q \<in> set qs" for q
    using assms(1,3) that disjoint_blocks_mono [of "payload s q" 1500 d n "unat (pb_len s q)" n] unfolding element_areas_def by auto
  then show "clear_of s qs d n" by (simp add: clear_of_def)
  have sub: "element_areas (r # qs) d n \<Longrightarrow> r \<notin> set qs \<Longrightarrow>
      \<forall>q\<in>set (r # qs). payload s q = q + SIZEOF_STRUCT_PBUF \<and> unat (pb_len s q) \<le> 1500 \<Longrightarrow>
      clear_of s qs (payload s r) (unat (pb_len s r))"
    for r qs
    unfolding clear_of_def
  proof
    fix q assume a: "element_areas (r # qs) d n" "r \<notin> set qs" "q \<in> set qs"
      "\<forall>q\<in>set (r # qs). payload s q = q + SIZEOF_STRUCT_PBUF \<and> unat (pb_len s q) \<le> 1500"
    then have "disjoint_blocks (q + SIZEOF_STRUCT_PBUF) 1500 (r + SIZEOF_STRUCT_PBUF) 1500" by (auto simp: element_areas_def)
    then show "disjoint_blocks (payload s q) (unat (pb_len s q)) (payload s r) (unat (pb_len s r))"
      using a(3,4) disjoint_blocks_mono [of "payload s q" 1500 "payload s r" 1500] by auto
  qed
  show "separate s qs" using assms
  proof (induction qs)
    case (Cons r qs)
    moreover have "element_areas qs d n" using Cons.prems(1) by (simp add: element_areas_def)
    ultimately show ?case using sub [of r qs] by simp
  qed simp
qed

lemma input_size_range: "1 \<le> input_size i s" "input_size i s \<le> 1536"
proof -
  define w where "w = load_at (RX_STAT_INFO i) s AND 0x7FFF"
  have "w \<le> 0x7FFF" unfolding w_def by (rule word_and_le1)
  then have "unat (w + 1) = unat w + 1" by (simp add: unat_word_ariths word_le_nat_alt)
  then have "uint (w + 1) = int (unat w) + 1" by (simp only: uint_nat)
  then show "1 \<le> input_size i s" "input_size i s \<le> 1536" by (auto simp: input_size_def Let_def w_def)
qed

lemma pb_only_frame:
  assumes "pb_only s' s"
  shows "bytes s' = bytes s" "io s' = io s" "io_impl s' = io_impl s" "Counter s' = Counter s" "list_empty h s' = list_empty h s"
    "Access s' = Access s"
  using assms by (auto simp: pb_only_def list_empty_def)

lemma input_frame_takes:
  assumes "mac_steady (chip_of env)" and "i < 4" and "p \<noteq> NULL" and "pchain (pb_next s) p ps" and "separate s ps"
    and "clear_of s ps (RX_BUF (int i)) (length (chain_bytes s ps))" and "Access s \<noteq> 0" and "list_empty (WaitHead (Access s)) s"
    and "read_dword RxDescriptorNumber s = 3" and "full_dword RxConsumeIndex s"
  shows "\<exists>m s'. input_frame env (int i) p s = Some (Returned p, s') \<and>
     chain_bytes (s\<lparr>bytes := m\<rparr>) ps = block (bytes s) (RX_BUF (int i)) (length (chain_bytes s ps)) \<and>
     io_only s' (write_dword RxConsumeIndex (of_nat ((i + 1) mod 4)) (s\<lparr>bytes := m,
       Counter := (Counter s)(Access s := Counter s (Access s) + 1)\<rparr>))"
proof -
  obtain m where m: "input_copy p (RX_BUF (int i)) s = Some (s\<lparr>bytes := m\<rparr>)"
    "chain_bytes (s\<lparr>bytes := m\<rparr>) ps = block (bytes s) (RX_BUF (int i)) (length (chain_bytes s ps))"
    using input_copy_store [OF assms(4-6)] by blast
  have i: "sint (3 :: u32) = 3" "(if (3 :: int) < int i + 1 then 0 else int i + 1) = int ((i + 1) mod 4)"
    using assms(2) by (auto simp: mod_Suc)
  have r: "read_dword RxDescriptorNumber (s\<lparr>bytes := m\<rparr>) = 3" using assms(9) by (simp add: read_dword_def)
  let ?w = "write_dword RxConsumeIndex (of_nat ((i + 1) mod 4)) (s\<lparr>bytes := m\<rparr>)"
  obtain s1 where s1: "prints (chip_of env) (Some (''scan out'' @ [CHR 0x0D, CHR 0x0A])) ?w = Some (OK, s1)" "io_only s1 ?w"
    using prints_io_only [OF assms(1)] by blast
  obtain f l where fl: "s1 = ?w\<lparr>io := f, io_log := l\<rparr>" "\<forall>a. mac_register a \<longrightarrow> f a = io ?w a" using s1(2) by (auto simp: io_only_def)
  have A: "Access s1 = Access s" "list_empty (WaitHead (Access s)) s1" "Counter s1 = Counter s"
    using assms(8) by (simp_all add: fl(1) write_dword_def list_empty_def)
  have "input_frame env (int i) p s = input_release env p ?w"
    unfolding input_frame_def if_P [OF assms(3) [symmetric]] m(1) option.case Let_def r i of_int_of_nat_eq ..
  also have "\<dots> = Some (Returned p, snd (semaphore_post (Access s1) s1))"
    unfolding input_release_def s1(1) option.case prod.case by (simp add: split_beta)
  also have "snd (semaphore_post (Access s1) s1) = s1\<lparr>Counter := (Counter s)(Access s := Counter s (Access s) + 1)\<rparr>"
    using post_free [of "Access s1" s1] assms(7) A by simp
  finally have e: "input_frame env (int i) p s = Some (Returned p, s1\<lparr>Counter := (Counter s)(Access s := Counter s (Access s) + 1)\<rparr>)" .
  have "io_only (s1\<lparr>Counter := (Counter s)(Access s := Counter s (Access s) + 1)\<rparr>) (write_dword RxConsumeIndex (of_nat ((i + 1) mod 4))
      (s\<lparr>bytes := m, Counter := (Counter s)(Access s := Counter s (Access s) + 1)\<rparr>))"
    unfolding io_only_def using fl(2) by (intro exI [of _ f] exI [of _ l]) (simp add: fl(1) write_dword_def)
  then show ?thesis using e m(2) by blast
qed

lemma forever_None: "forever s = None"
proof -
  have "forever s = Some y \<Longrightarrow> False" for y
    by (rule forever.raw_induct [where P = "\<lambda>_ _. False", rotated])
  then show ?thesis by (cases "forever s") auto
qed

lemma DBG_ERR_None: "DBG_ERR env line fmt s = None"
  by (simp add: DBG_ERR_def forever_None split: option.splits)

lemma post_counter: "S \<noteq> 0 \<Longrightarrow> Counter (snd (semaphore_post S s)) = (Counter s)(S := Counter s S + 1)"
  by (simp add: semaphore_post_def Let_def split_beta)

section \<open>Properties\<close>



text \<open>C29: The exception of the controller never returns when it finds an overrun or an underrun, since \<open>DBG_ERR\<close> loops.
  Otherwise it clears exactly the conditions that it saw, and posts one unit for reception or, only if there is no
  reception to signal, one for transmission: of two conditions that occur together, the second is cleared without
  a post.\<close>

theorem ethernet_exception_signals:
  assumes "RecvDone s \<noteq> NULL" and "SendDone s \<noteq> NULL" and "RecvDone s \<noteq> SendDone s"
  shows "let st = read_dword IntStatus s in
    if bit st 0 \<or> bit st 4 then ethernet_exception env s = None
    else \<exists>s'. ethernet_exception env s = Some s' \<and> hd (io_log s') = (IntClear, st) \<and>
      Counter s' (RecvDone s) = Counter s (RecvDone s) + (if bit st 3 then 1 else 0) \<and>
      Counter s' (SendDone s) = Counter s (SendDone s) + (if bit st 7 \<and> \<not> bit st 3 then 1 else 0)"
proof -
  define st where "st = read_dword IntStatus s"
  have b: "st AND push_bit 3 1 \<noteq> 0 \<longleftrightarrow> bit st 3" "st AND push_bit 7 1 \<noteq> 0 \<longleftrightarrow> bit st 7" "st AND push_bit 0 1 \<noteq> 0 \<longleftrightarrow> bit st 0"
    "st AND push_bit 4 1 \<noteq> 0 \<longleftrightarrow> bit st 4"
    by (simp_all add: bit_iff_and_push_bit_not_eq_0)
  show ?thesis
    using assms unfolding ethernet_exception_def Let_def st_def [symmetric] b DBG_ERR_None
    by (auto simp: post_counter write_dword_def split: option.splits)
qed


text \<open>A controller whose first transmit and first receive descriptors are next.\<close>

definition port :: "emac \<Rightarrow> emac" where
  "port s = s\<lparr>Access := 0x100, SendDone := 0x200, RecvDone := 0x300, Counter := (\<lambda>_. 1), nxt := (\<lambda>a. a),
     io := (\<lambda>_. 0)(0x50000124 := 2, 0x5000012C := 2, 0x50000110 := 3, 0x50000114 := 1, 0x50000FE0 := 0x88), io_impl := (\<lambda>_. 255),
     bytes := (\<lambda>_. 0x55)(0x2007C020 := 63, 0x2007C021 := 0, 0x2007C022 := 0, 0x2007C023 := 0),
     pb_next := (\<lambda>_. 0), payload := (\<lambda>_. 0x3000), pb_len := (\<lambda>_. 4), tot_len := (\<lambda>_. 4), memp_tab := (\<lambda>_. 0x500)\<rparr>"

lemma quick_chip_mac_steady: "mac_steady quick_chip"
proof -
  have "io_only (tick quick_chip s) s" for s :: "'a emac_scheme"
    unfolding io_only_def
    by (intro exI [of _ "(io s)(0x4000C014 := 0x20)"] exI [of _ "io_log s"]) (simp add: quick_chip_def mac_register_def drop_bit_eq_div)
  then show ?thesis using quick_chip_drains by (simp add: mac_steady_def)
qed

lemma port_simps:
  "Access (port s) = 0x100" "SendDone (port s) = 0x200" "RecvDone (port s) = 0x300" "Counter (port s) = (\<lambda>_. 1)"
  "list_empty h (port s)" "pb_next (port s) = (\<lambda>_. 0)" "chain_bytes (port s) [0x500] = [0x55, 0x55, 0x55, 0x55]"
  "read_dword TxProduceIndex (port s) = of_nat 0" "read_dword TxDescriptorNumber (port s) = 2" "read_dword TxConsumeIndex (port s) = 2"
  "read_dword RxProduceIndex (port s) = 1" "read_dword RxConsumeIndex (port s) = of_nat 0" "read_dword RxDescriptorNumber (port s) = 3"
  "read_dword IntStatus (port s) = 0x88" "full_dword a (port s)"
  by (simp_all add: port_def list_empty_def read_dword_def dword_of_def full_dword_def dword_impl_def pb_data_def block_def upt_rec)

lemma apart_blocks: "u + n \<le> v \<Longrightarrow> v + k \<le> 2 ^ 32 \<Longrightarrow> disjoint_blocks (of_nat u) n (of_nat v) k"
  unfolding disjoint_blocks_def
proof (intro allI impI)
  fix i j assume "u + n \<le> v" "v + k \<le> 2 ^ 32" "i < n" "j < k"
  then show "(of_nat u :: addr) + of_nat i \<noteq> of_nat v + of_nat j"
    using of_nat_inj32 [of "u + i" "v + j"] by simp
qed



theorem ethernet_exception_signals_witness:
  "\<forall>(env :: emac eth) (s :: emac). \<exists>s'. ethernet_exception env (port s) = Some s' \<and> Counter s' 0x300 = 2 \<and> Counter s' 0x200 = 1"
proof (intro allI)
  fix env :: "emac eth" and s :: emac
  have "bit (0x88 :: u32) 3" "bit (0x88 :: u32) 7" "\<not> bit (0x88 :: u32) 0" "\<not> bit (0x88 :: u32) 4" by code_simp+
  then show "\<exists>s'. ethernet_exception env (port s) = Some s' \<and> Counter s' 0x300 = 2 \<and> Counter s' 0x200 = 1"
    using ethernet_exception_signals [of "port s" env] unfolding port_simps Let_def by auto
qed

end
