(* ===== verification/Timeouts.thy ===== *)
theory Timeouts
  imports PacketLife
begin

text \<open>
  ethernet/core/timers.c: the one-shot timeouts of the network stack.  They wait in a list in which each entry holds
  the time after the entry before it; \<open>next\<close> is the first word of an entry and so the field \<open>pb_next\<close> of the
  pools.  The thread of the stack handles them while it waits for a message.  With lwipopts.h there are TCP,
  reassembly and ARP timers; what their handlers do apart from starting themselves again is a parameter.
\<close>

section \<open>State\<close>

record timeo = pbufs +
  next_timeout :: addr
  tm_time :: "addr \<Rightarrow> u32"
  tm_h :: "addr \<Rightarrow> addr"
  tm_arg :: "addr \<Rightarrow> addr"
  tcpip_tcp_timer_active :: int

text \<open>The addresses of the handlers, the timers of the protocols, whether TCP has connections that need its timer,
  and what a call of a handler does that is registered by another part.\<close>

record 's timers =
  tcpip_tcp_timer_fn :: addr
  ip_reass_timer_fn :: addr
  arp_timer_fn :: addr
  tcp_tmr :: "'s \<Rightarrow> (unit outcome \<times> 's) option"
  ip_reass_tmr :: "'s \<Rightarrow> (unit outcome \<times> 's) option"
  etharp_tmr :: "'s \<Rightarrow> (unit outcome \<times> 's) option"
  tcp_pcbs :: "'s \<Rightarrow> bool"
  other_handler :: "addr \<Rightarrow> addr \<Rightarrow> 's \<Rightarrow> (unit outcome \<times> 's) option"

abbreviation (input) TCP_TMR_INTERVAL :: u32 where "TCP_TMR_INTERVAL \<equiv> 250"
abbreviation (input) IP_TMR_INTERVAL :: u32 where "IP_TMR_INTERVAL \<equiv> 1000"
abbreviation (input) ARP_TMR_INTERVAL :: u32 where "ARP_TMR_INTERVAL \<equiv> 5000"

section \<open>The list\<close>

text \<open>The loop of \<open>sys_timeout\<close> behind the first entry.\<close>

partial_function (option) timeout_insert :: "addr \<Rightarrow> addr \<Rightarrow> 'a timeo_scheme \<Rightarrow> 'a timeo_scheme option" where
  "timeout_insert timeout t s =
     (if t \<noteq> NULL then
        let s = s\<lparr>tm_time := (tm_time s)(timeout := tm_time s timeout - tm_time s t)\<rparr>
        in if pb_next s t = NULL \<or> tm_time s (pb_next s t) > tm_time s timeout then
             let n = pb_next s t;
                 s = (if n \<noteq> NULL then s\<lparr>tm_time := (tm_time s)(n := tm_time s n - tm_time s timeout)\<rparr> else s);
                 s = s\<lparr>pb_next := (pb_next s)(timeout := n)\<rparr>
             in Some (s\<lparr>pb_next := (pb_next s)(t := timeout)\<rparr>)
           else timeout_insert timeout (pb_next s t) s
      else Some s)"

definition sys_timeout :: "u32 \<Rightarrow> addr \<Rightarrow> addr \<Rightarrow> 'a timeo_scheme \<Rightarrow> 'a timeo_scheme option" where
  "sys_timeout msecs handler arg s =
     (let (timeout, s) = memp_malloc MEMP_SYS_TIMEOUT s
      in if timeout = NULL then Some s
         else
           let s = s\<lparr>pb_next := (pb_next s)(timeout := NULL)\<rparr>;
               s = s\<lparr>tm_h := (tm_h s)(timeout := handler)\<rparr>;
               s = s\<lparr>tm_arg := (tm_arg s)(timeout := arg)\<rparr>;
               s = s\<lparr>tm_time := (tm_time s)(timeout := msecs)\<rparr>
           in if next_timeout s = NULL then Some (s\<lparr>next_timeout := timeout\<rparr>)
              else if tm_time s (next_timeout s) > msecs then
                let n = next_timeout s;
                    s = s\<lparr>tm_time := (tm_time s)(n := tm_time s n - msecs)\<rparr>;
                    s = s\<lparr>pb_next := (pb_next s)(timeout := n)\<rparr>
                in Some (s\<lparr>next_timeout := timeout\<rparr>)
              else timeout_insert timeout (next_timeout s) s)"

text \<open>The loop of \<open>sys_untimeout\<close>.\<close>

partial_function (option) timeout_remove :: "addr \<Rightarrow> addr \<Rightarrow> addr \<Rightarrow> addr \<Rightarrow> 'a timeo_scheme \<Rightarrow> 'a timeo_scheme option" where
  "timeout_remove handler arg prev_t t s =
     (if t \<noteq> NULL then
        if tm_h s t = handler \<and> tm_arg s t = arg then
          let s = (if prev_t = NULL then s\<lparr>next_timeout := pb_next s t\<rparr> else s\<lparr>pb_next := (pb_next s)(prev_t := pb_next s t)\<rparr>);
              n = pb_next s t;
              s = (if n \<noteq> NULL then s\<lparr>tm_time := (tm_time s)(n := tm_time s n + tm_time s t)\<rparr> else s)
          in Some (memp_free MEMP_SYS_TIMEOUT t s)
        else timeout_remove handler arg t (pb_next s t) s
      else Some s)"

definition sys_untimeout :: "addr \<Rightarrow> addr \<Rightarrow> 'a timeo_scheme \<Rightarrow> 'a timeo_scheme option" where
  "sys_untimeout handler arg s =
     (if next_timeout s = NULL then Some s else timeout_remove handler arg NULL (next_timeout s) s)"

section \<open>The timers of the protocols\<close>

definition again :: "u32 \<Rightarrow> addr \<Rightarrow> unit \<Rightarrow> 'a timeo_scheme \<Rightarrow> (unit outcome \<times> 'a timeo_scheme) option" where
  "again msecs handler _ s = map_option (Pair (Returned ())) (sys_timeout msecs handler NULL s)"

definition tcpip_tcp_timer :: "'a timeo_scheme timers \<Rightarrow> 'a timeo_scheme \<Rightarrow> (unit outcome \<times> 'a timeo_scheme) option" where
  "tcpip_tcp_timer env s =
     after (tcp_tmr env s)
       (\<lambda>u s. if tcp_pcbs env s then again TCP_TMR_INTERVAL (tcpip_tcp_timer_fn env) u s
              else Some (Returned (), s\<lparr>tcpip_tcp_timer_active := 0\<rparr>))"

definition tcp_timer_needed :: "'a timeo_scheme timers \<Rightarrow> 'a timeo_scheme \<Rightarrow> 'a timeo_scheme option" where
  "tcp_timer_needed env s =
     (if tcpip_tcp_timer_active s = 0 \<and> tcp_pcbs env s then
        let s = s\<lparr>tcpip_tcp_timer_active := 1\<rparr>
        in sys_timeout TCP_TMR_INTERVAL (tcpip_tcp_timer_fn env) NULL s
      else Some s)"

definition ip_reass_timer :: "'a timeo_scheme timers \<Rightarrow> 'a timeo_scheme \<Rightarrow> (unit outcome \<times> 'a timeo_scheme) option" where
  "ip_reass_timer env s = after (ip_reass_tmr env s) (again IP_TMR_INTERVAL (ip_reass_timer_fn env))"

definition arp_timer :: "'a timeo_scheme timers \<Rightarrow> 'a timeo_scheme \<Rightarrow> (unit outcome \<times> 'a timeo_scheme) option" where
  "arp_timer env s = after (etharp_tmr env s) (again ARP_TMR_INTERVAL (arp_timer_fn env))"

definition sys_timeouts_init :: "'a timeo_scheme timers \<Rightarrow> 'a timeo_scheme \<Rightarrow> 'a timeo_scheme option" where
  "sys_timeouts_init env s =
     (case sys_timeout IP_TMR_INTERVAL (ip_reass_timer_fn env) NULL s of
        None \<Rightarrow> None
      | Some s \<Rightarrow> sys_timeout ARP_TMR_INTERVAL (arp_timer_fn env) NULL s)"

text \<open>A call through the pointer \<open>handler\<close>.\<close>

definition call_handler :: "'a timeo_scheme timers \<Rightarrow> addr \<Rightarrow> addr \<Rightarrow> 'a timeo_scheme \<Rightarrow> (unit outcome \<times> 'a timeo_scheme) option" where
  "call_handler env handler arg s =
     (if handler = tcpip_tcp_timer_fn env then tcpip_tcp_timer env s
      else if handler = ip_reass_timer_fn env then ip_reass_timer env s
      else if handler = arp_timer_fn env then arp_timer env s
      else other_handler env handler arg s)"

section \<open>Waiting for a message\<close>

definition timeout_expire :: "'a timeo_scheme timers \<Rightarrow> 'a timeo_scheme \<Rightarrow> (unit outcome \<times> 'a timeo_scheme) option" where
  "timeout_expire env s =
     (let tmptimeout = next_timeout s;
          s = s\<lparr>next_timeout := pb_next s tmptimeout\<rparr>;
          handler = tm_h s tmptimeout;
          arg = tm_arg s tmptimeout;
          s = memp_free MEMP_SYS_TIMEOUT tmptimeout s
      in if handler \<noteq> NULL then call_handler env handler arg s else Some (Returned (), s))"

definition timeout_elapse :: "u32 \<Rightarrow> 'a timeo_scheme \<Rightarrow> 'a timeo_scheme" where
  "timeout_elapse time_needed s =
     (let n = next_timeout s
      in if time_needed < tm_time s n then s\<lparr>tm_time := (tm_time s)(n := tm_time s n - time_needed)\<rparr>
         else s\<lparr>tm_time := (tm_time s)(n := 0)\<rparr>)"

partial_function (option) sys_timeouts_mbox_fetch ::
  "'a timeo_scheme timers \<Rightarrow> addr \<Rightarrow> addr \<Rightarrow> addr \<Rightarrow> 'a timeo_scheme \<Rightarrow> (unit outcome \<times> 'a timeo_scheme) option" where
  "sys_timeouts_mbox_fetch env pMail mbox msg s =
     (if next_timeout s = NULL then
        after (sys_arch_mbox_fetch pMail mbox msg 0 s) (\<lambda>_ s. Some (Returned (), s))
      else
        case (if tm_time s (next_timeout s) > 0 then sys_arch_mbox_fetch pMail mbox msg (tm_time s (next_timeout s)) s
              else Some (Returned SYS_ARCH_TIMEOUT, s)) of
          None \<Rightarrow> None
        | Some (Switched, s) \<Rightarrow> Some (Switched, s)
        | Some (Returned time_needed, s) \<Rightarrow>
            if time_needed = SYS_ARCH_TIMEOUT then
              case timeout_expire env s of
                None \<Rightarrow> None
              | Some (Switched, s) \<Rightarrow> Some (Switched, s)
              | Some (Returned _, s) \<Rightarrow> sys_timeouts_mbox_fetch env pMail mbox msg s
            else Some (Returned (), timeout_elapse time_needed s))"

text \<open>After waiting: with no timeout in the list, with one, and after a handler that waited.\<close>

definition timeouts_resume_idle :: "addr \<Rightarrow> addr \<Rightarrow> u32 \<Rightarrow> addr \<Rightarrow> 'a timeo_scheme \<Rightarrow> unit \<times> 'a timeo_scheme" where
  "timeouts_resume_idle Mailbox msg TimeStart pThread s =
     (let (_, s) = sys_arch_mbox_fetch_resume Mailbox msg 0 TimeStart pThread s in ((), s))"

definition timeouts_resume ::
  "'a timeo_scheme timers \<Rightarrow> addr \<Rightarrow> addr \<Rightarrow> addr \<Rightarrow> addr \<Rightarrow> u32 \<Rightarrow> u32 \<Rightarrow> addr \<Rightarrow> 'a timeo_scheme \<Rightarrow>
    (unit outcome \<times> 'a timeo_scheme) option" where
  "timeouts_resume env pMail mbox msg Mailbox Timeout TimeStart pThread s =
     (let (time_needed, s) = sys_arch_mbox_fetch_resume Mailbox msg Timeout TimeStart pThread s
      in if time_needed = SYS_ARCH_TIMEOUT then after (timeout_expire env s) (\<lambda>_ s. sys_timeouts_mbox_fetch env pMail mbox msg s)
         else Some (Returned (), timeout_elapse time_needed s))"

section \<open>The list as a queue of times\<close>

text \<open>What is waiting: the entries with the time each of them is due, from now.\<close>

definition delta :: "'a timeo_scheme \<Rightarrow> addr list \<Rightarrow> (nat \<times> addr \<times> addr) list" where
  "delta s ts = map (\<lambda>t. (unat (tm_time s t), tm_h s t, tm_arg s t)) ts"

fun due :: "nat \<Rightarrow> (nat \<times> 'b) list \<Rightarrow> (nat \<times> 'b) list" where
  "due b [] = []"
| "due b ((d, y) # r) = (b + d, y) # due (b + d) r"

text \<open>The reference: insertion behind everything that is not due later, and removal of the first match.\<close>

fun insert_due :: "nat \<Rightarrow> 'b \<Rightarrow> (nat \<times> 'b) list \<Rightarrow> (nat \<times> 'b) list" where
  "insert_due m y [] = [(m, y)]"
| "insert_due m y ((e, z) # r) = (if m < e then (m, y) # (e, z) # r else (e, z) # insert_due m y r)"

fun cancel_due :: "'b \<Rightarrow> (nat \<times> 'b) list \<Rightarrow> (nat \<times> 'b) list" where
  "cancel_due y [] = []"
| "cancel_due y ((e, z) # r) = (if z = y then r else (e, z) # cancel_due y r)"

lemma delta_simps [simp]: "delta s [] = []" "delta s (t # ts) = (unat (tm_time s t), tm_h s t, tm_arg s t) # delta s ts"
  by (simp_all add: delta_def)

lemma delta_cong:
  "\<lbrakk>\<And>q. q \<in> set ts \<Longrightarrow> tm_time s' q = tm_time s q; tm_h s' = tm_h s; tm_arg s' = tm_arg s\<rbrakk> \<Longrightarrow> delta s' ts = delta s ts"
  by (simp add: delta_def)

lemma timeout_insert_chain:
  assumes "pchain (pb_next s) t (t # ts)" and "distinct (x # t # ts)" and "x \<noteq> 0" and "tm_time s t \<le> tm_time s x"
  shows "\<exists>tm nx us vs. timeout_insert x t s = Some (s\<lparr>tm_time := tm, pb_next := nx\<rparr>) \<and> ts = us @ vs \<and>
     pchain nx t (t # us @ x # vs) \<and> (\<forall>q. q \<notin> set (x # t # ts) \<longrightarrow> nx q = pb_next s q) \<and> (\<forall>q. q \<notin> set (x # ts) \<longrightarrow> tm q = tm_time s q) \<and>
     due b (delta (s\<lparr>tm_time := tm\<rparr>) (t # us @ x # vs)) =
       insert_due (b + unat (tm_time s x)) (tm_h s x, tm_arg s x) (due b (delta s (t # ts)))"
  using assms
proof (induction ts arbitrary: t s b)
  case Nil
  let ?d = "tm_time s x - tm_time s t"
  have n: "pb_next s t = 0" "t \<noteq> 0" "x \<noteq> t" using Nil.prems by auto
  have u: "unat ?d = unat (tm_time s x) - unat (tm_time s t)" using Nil.prems(4) by (rule unat_sub)
  have "timeout_insert x t s = Some (s\<lparr>tm_time := (tm_time s)(x := ?d), pb_next := (pb_next s)(x := 0, t := x)\<rparr>)"
    using n by (subst timeout_insert.simps) simp
  moreover have "pchain ((pb_next s)(x := 0, t := x)) t (t # [] @ x # [])" using n Nil.prems(3) by simp
  ultimately show ?case using n u Nil.prems(4)
    by - (rule exI [of _ "(tm_time s)(x := ?d)"], rule exI [of _ "(pb_next s)(x := 0, t := x)"], simp add: word_le_nat_alt fun_upd_def)
next
  case (Cons n ns)
  let ?d = "tm_time s x - tm_time s t"
  have nx: "pb_next s t = n" "t \<noteq> 0" "n \<noteq> 0" "x \<noteq> t" "x \<noteq> n" "t \<noteq> n" "pchain (pb_next s) n (n # ns)" using Cons.prems by auto
  have u: "unat ?d = unat (tm_time s x) - unat (tm_time s t)" using Cons.prems(4) by (rule unat_sub)
  have le: "unat (tm_time s t) \<le> unat (tm_time s x)" using Cons.prems(4) by (simp add: word_le_nat_alt)
  show ?case
  proof (cases "tm_time s n > ?d")
    case True
    let ?tm = "(tm_time s)(x := ?d, n := tm_time s n - ?d)"
    let ?nx = "(pb_next s)(x := n, t := x)"
    have e: "timeout_insert x t s = Some (s\<lparr>tm_time := ?tm, pb_next := ?nx\<rparr>)"
      using nx True by (subst timeout_insert.simps) (simp add: Let_def fun_upd_twist)
    have v: "unat (tm_time s n - ?d) = unat (tm_time s n) - unat ?d" using True by (intro unat_sub) simp
    have "pchain (pb_next s) (pb_next s n) ns" using nx(7) by simp
    moreover have "pchain ?nx (pb_next s n) ns = pchain (pb_next s) (pb_next s n) ns"
      using Cons.prems(2) by (intro pchain_cong) auto
    ultimately have c: "pchain ?nx t (t # [] @ x # n # ns)" using nx Cons.prems(3) by simp
    have r: "delta (s\<lparr>tm_time := ?tm\<rparr>) ns = delta s ns" using Cons.prems(2) by (intro delta_cong) auto
    have "unat ?d < unat (tm_time s n)" using True by (simp add: word_less_nat_alt)
    then have d: "due b (delta (s\<lparr>tm_time := ?tm\<rparr>) (t # [] @ x # n # ns)) =
       insert_due (b + unat (tm_time s x)) (tm_h s x, tm_arg s x) (due b (delta s (t # n # ns)))"
      using nx le r by (auto simp: u v add_ac)
    show ?thesis
      by (rule exI [of _ ?tm], rule exI [of _ ?nx], rule exI [of _ "[]"], rule exI [of _ "n # ns"]) (intro conjI e c d; simp)
  next
    case False
    let ?s = "s\<lparr>tm_time := (tm_time s)(x := ?d)\<rparr>"
    have e: "timeout_insert x t s = timeout_insert x n ?s"
      using nx False by (subst timeout_insert.simps) simp
    have p: "pchain (pb_next ?s) n (n # ns)" "distinct (x # n # ns)" "tm_time ?s n \<le> tm_time ?s x"
      using nx(5,7) Cons.prems(2) False by auto
    obtain tm nx' us vs where h: "timeout_insert x n ?s = Some (?s\<lparr>tm_time := tm, pb_next := nx'\<rparr>)" "ns = us @ vs"
      "pchain nx' n (n # us @ x # vs)" "\<forall>q. q \<notin> set (x # n # ns) \<longrightarrow> nx' q = pb_next ?s q" "\<forall>q. q \<notin> set (x # ns) \<longrightarrow> tm q = tm_time ?s q"
      "due (b + unat (tm_time s t)) (delta (?s\<lparr>tm_time := tm\<rparr>) (n # us @ x # vs)) =
        insert_due (b + unat (tm_time s t) + unat (tm_time ?s x)) (tm_h ?s x, tm_arg ?s x) (due (b + unat (tm_time s t)) (delta ?s (n # ns)))"
      using Cons.IH [OF p(1,2) Cons.prems(3) p(3), of "b + unat (tm_time s t)"] by blast
    have t: "tm t = tm_time s t" "nx' t = n" using h(4,5) Cons.prems(2) nx(1,4,6) by auto
    have "pchain nx' t (t # (n # us) @ x # vs)" using h(3) t(2) nx(2) by simp
    moreover have "due b (delta (s\<lparr>tm_time := tm\<rparr>) (t # (n # us) @ x # vs)) =
       insert_due (b + unat (tm_time s x)) (tm_h s x, tm_arg s x) (due b (delta s (t # n # ns)))"
    proof -
      have d: "delta ?s (n # ns) = delta s (n # ns)" "delta (?s\<lparr>tm_time := tm\<rparr>) qs = delta (s\<lparr>tm_time := tm\<rparr>) qs" for qs
        using Cons.prems(2) by (intro delta_cong; auto)+
      have m: "b + unat (tm_time s t) + unat (tm_time ?s x) = b + unat (tm_time s x)" using u le by simp
      have "due b (delta (s\<lparr>tm_time := tm\<rparr>) (t # (n # us) @ x # vs)) =
          (b + unat (tm_time s t), tm_h s t, tm_arg s t) # due (b + unat (tm_time s t)) (delta (s\<lparr>tm_time := tm\<rparr>) (n # us @ x # vs))"
        by (simp add: t(1))
      also have "due (b + unat (tm_time s t)) (delta (s\<lparr>tm_time := tm\<rparr>) (n # us @ x # vs)) =
          insert_due (b + unat (tm_time s x)) (tm_h s x, tm_arg s x) (due (b + unat (tm_time s t)) (delta s (n # ns)))"
        using h(6) unfolding d m by simp
      also have "(b + unat (tm_time s t), tm_h s t, tm_arg s t) # insert_due (b + unat (tm_time s x)) (tm_h s x, tm_arg s x) (due (b + unat (tm_time s t)) (delta s (n # ns))) =
          insert_due (b + unat (tm_time s x)) (tm_h s x, tm_arg s x) (due b (delta s (t # n # ns)))"
        using le by simp
      finally show ?thesis .
    qed
    moreover have "timeout_insert x t s = Some (s\<lparr>tm_time := tm, pb_next := nx'\<rparr>)" unfolding e h(1) by simp
    ultimately show ?thesis using h(2,4,5) nx(4)
      by - (rule exI [of _ tm], rule exI [of _ nx'], rule exI [of _ "n # us"], rule exI [of _ vs], auto)
  qed
qed

text \<open>The list of waiting timeouts and the free entries.\<close>

definition timeouts :: "'a timeo_scheme \<Rightarrow> addr list \<Rightarrow> addr list \<Rightarrow> bool" where
  "timeouts s ts xs \<longleftrightarrow> pchain (pb_next s) (next_timeout s) ts \<and> pool s MEMP_SYS_TIMEOUT xs \<and> distinct (ts @ xs)"

lemma pool_cong:
  "pool s t xs \<Longrightarrow> (\<And>q. q \<in> set xs \<Longrightarrow> pb_next s' q = pb_next s q) \<Longrightarrow> memp_tab s' t = memp_tab s t \<Longrightarrow> pool s' t xs"
  using pchain_cong [of xs "pb_next s" "pb_next s'"] by (simp add: pool_def)

lemma sys_timeout_queue:
  assumes "timeouts s ts (x # xs)"
  shows "\<exists>s' ts'. sys_timeout msecs h a s = Some s' \<and> timeouts s' ts' xs \<and>
     due 0 (delta s' ts') = insert_due (unat msecs) (h, a) (due 0 (delta s ts))"
proof -
  have c: "pchain (pb_next s) (next_timeout s) ts" and po: "pool s MEMP_SYS_TIMEOUT (x # xs)" and d: "distinct (ts @ x # xs)"
    using assms by (simp_all add: timeouts_def)
  note pop = memp_malloc_pop [OF po]
  define s1 where "s1 = s\<lparr>memp_tab := (memp_tab s)(MEMP_SYS_TIMEOUT := pb_next s x), pb_next := (pb_next s)(x := NULL),
    tm_h := (tm_h s)(x := h), tm_arg := (tm_arg s)(x := a), tm_time := (tm_time s)(x := msecs)\<rparr>"
  have p1: "pool s1 MEMP_SYS_TIMEOUT xs"
    using po d by (intro pool_cong [OF pop(2)]) (auto simp: s1_def)
  have c1: "pchain (pb_next s1) (next_timeout s) ts"
    using c d pchain_cong [of ts "pb_next s" "pb_next s1"] by (auto simp: s1_def)
  have d1: "delta s1 ts = delta s ts" using d by (auto simp: delta_def s1_def)
  have f: "tm_time s1 x = msecs" "tm_h s1 x = h" "tm_arg s1 x = a" "next_timeout s1 = next_timeout s" "pb_next s1 x = NULL"
    by (simp_all add: s1_def)
  have e: "sys_timeout msecs h a s = (if next_timeout s1 = NULL then Some (s1\<lparr>next_timeout := x\<rparr>)
      else if tm_time s1 (next_timeout s1) > msecs then
        Some (s1\<lparr>tm_time := (tm_time s1)(next_timeout s1 := tm_time s1 (next_timeout s1) - msecs),
          pb_next := (pb_next s1)(x := next_timeout s1), next_timeout := x\<rparr>)
      else timeout_insert x (next_timeout s1) s1)"
    using pop(1,3) by (simp add: sys_timeout_def s1_def Let_def)
  show ?thesis
  proof (cases ts)
    case Nil
    then have n: "next_timeout s1 = NULL" using c f(4) by simp
    then show ?thesis using e p1 d pop(3) f Nil
      by (intro exI [of _ "s1\<lparr>next_timeout := x\<rparr>"] exI [of _ "[x]"]) (auto simp: timeouts_def pool_def)
  next
    case (Cons t us)
    have t: "next_timeout s1 = t" "t \<noteq> 0" "t \<noteq> x" using c d f(4) Cons by auto
    show ?thesis
    proof (cases "tm_time s1 t > msecs")
      case True
      let ?s = "s1\<lparr>tm_time := (tm_time s1)(t := tm_time s1 t - msecs), pb_next := (pb_next s1)(x := t), next_timeout := x\<rparr>"
      have u: "unat (tm_time s1 t - msecs) = unat (tm_time s1 t) - unat msecs" "unat msecs < unat (tm_time s1 t)"
        using True by (simp_all only: unat_sub [OF less_imp_le] word_less_nat_alt [symmetric])
      have "pchain (pb_next ?s) (next_timeout ?s) (x # ts)"
        using c1 d t pop(3) pchain_cong [of ts "pb_next s1" "pb_next ?s"] Cons f(4) by auto
      moreover have "pool ?s MEMP_SYS_TIMEOUT xs" using d by (intro pool_cong [OF p1]) auto
      moreover have "due 0 (delta ?s (x # ts)) = insert_due (unat msecs) (h, a) (due 0 (delta s ts))"
      proof -
        have "delta ?s us = delta s us" using d Cons by (auto simp: delta_def s1_def)
        then show ?thesis using u t f d1 Cons by simp
      qed
      moreover have "sys_timeout msecs h a s = Some ?s" using e t True by simp
      ultimately show ?thesis using d by (intro exI [of _ ?s] exI [of _ "x # ts"]) (auto simp: timeouts_def)
    next
      case False
      have "pchain (pb_next s1) t (t # us)" using c1 Cons by simp
      moreover have "distinct (x # t # us)" using d Cons by auto
      ultimately obtain tm nx vs ws where h: "timeout_insert x t s1 = Some (s1\<lparr>tm_time := tm, pb_next := nx\<rparr>)" "us = vs @ ws"
        "pchain nx t (t # vs @ x # ws)" "\<forall>q. q \<notin> set (x # t # us) \<longrightarrow> nx q = pb_next s1 q"
        "due 0 (delta (s1\<lparr>tm_time := tm\<rparr>) (t # vs @ x # ws)) = insert_due (0 + unat (tm_time s1 x)) (tm_h s1 x, tm_arg s1 x) (due 0 (delta s1 (t # us)))"
        using timeout_insert_chain [of s1 t us x 0] pop(3) False f(1) by (auto simp: not_less)
      let ?s = "s1\<lparr>tm_time := tm, pb_next := nx\<rparr>"
      have "pool ?s MEMP_SYS_TIMEOUT xs" using d h(4) Cons by (intro pool_cong [OF p1]) auto
      moreover have "delta ?s qs = delta (s1\<lparr>tm_time := tm\<rparr>) qs" for qs by (simp add: delta_def)
      moreover have "sys_timeout msecs h a s = Some ?s" using e t False h(1) by simp
      moreover have "distinct ((t # vs @ x # ws) @ xs)" using d Cons h(2) by auto
      ultimately show ?thesis using h(3,5) t(1) f d1 Cons
        by (intro exI [of _ ?s] exI [of _ "t # vs @ x # ws"]) (simp add: timeouts_def)
    qed
  qed
qed

lemma due_append: "due b (us @ vs) = due b us @ due (b + sum_list (map fst us)) vs"
  by (induction us arbitrary: b) (auto simp: add.assoc)

lemma cancel_due_first: "y \<notin> snd ` set us \<Longrightarrow> cancel_due y (us @ (e, y) # vs) = us @ vs"
  by (induction us) auto

lemma cancel_due_none: "y \<notin> snd ` set us \<Longrightarrow> cancel_due y us = us"
  by (induction us) auto

lemma snd_due: "snd ` set (due b us) = snd ` set us"
proof -
  have "map snd (due b us) = map snd us" by (induction us arbitrary: b) auto
  then show ?thesis by (metis list.set_map)
qed

lemma delta_append: "delta s (us @ vs) = delta s us @ delta s vs"
  by (simp add: delta_def)

definition matches :: "addr \<Rightarrow> addr \<Rightarrow> 'a timeo_scheme \<Rightarrow> addr \<Rightarrow> bool" where
  "matches h a s t \<longleftrightarrow> tm_h s t = h \<and> tm_arg s t = a"

lemma pchain_split: "pchain nx p (us @ vs) \<Longrightarrow> pchain nx (if us = [] then p else nx (last us)) vs"
  by (induction us arbitrary: p) (auto split: if_splits)

lemma pchain_bypass:
  "pchain nx p (us @ w # ws) \<Longrightarrow> us \<noteq> [] \<Longrightarrow> distinct (us @ w # ws) \<Longrightarrow> pchain (nx(last us := nx w)) p (us @ ws)"
proof (induction us arbitrary: p)
  case (Cons u us)
  show ?case
  proof (cases "us = []")
    case True
    have "pchain (nx(u := nx w)) (nx w) ws = pchain nx (nx w) ws" using Cons.prems(3) True by (intro pchain_cong) auto
    moreover have "p = u" "u \<noteq> 0" "pchain nx (nx w) ws" using Cons.prems True by auto
    ultimately show ?thesis using True by (simp add: fun_upd_same del: fun_upd_apply)
  next
    case False
    then have "last us \<noteq> u" using Cons.prems(3) by (metis append_Cons distinct.simps(2) last_in_set Un_iff set_append)
    then show ?thesis using Cons False by auto
  qed
qed simp

text \<open>The state after the entry \<open>w\<close> has been taken out.\<close>

definition without :: "addr list \<Rightarrow> addr \<Rightarrow> addr list \<Rightarrow> 'a timeo_scheme \<Rightarrow> 'a timeo_scheme" where
  "without us w ws s =
     (let s = (if us = [] then s\<lparr>next_timeout := pb_next s w\<rparr> else s\<lparr>pb_next := (pb_next s)(last us := pb_next s w)\<rparr>);
          s = (case ws of [] \<Rightarrow> s | n # _ \<Rightarrow> s\<lparr>tm_time := (tm_time s)(n := tm_time s n + tm_time s w)\<rparr>)
      in memp_free MEMP_SYS_TIMEOUT w s)"

lemma timeout_remove_chain:
  assumes "pchain (pb_next s) t ts" and "prev_t = (if us = [] then NULL else last us)" and "0 \<notin> set us" and "distinct (us @ ts)"
  shows "timeout_remove h a prev_t t s = Some
    (case dropWhile (\<lambda>t. \<not> matches h a s t) ts of [] \<Rightarrow> s
     | w # ws \<Rightarrow> without (us @ takeWhile (\<lambda>t. \<not> matches h a s t) ts) w ws s)"
  using assms
proof (induction ts arbitrary: t us prev_t)
  case Nil
  then show ?case by (subst timeout_remove.simps) simp
next
  case (Cons q qs)
  have q: "t = q" "q \<noteq> 0" "pchain (pb_next s) (pb_next s q) qs" using Cons.prems(1) by simp_all
  show ?case
  proof (cases "matches h a s q")
    case True
    have p: "prev_t = 0 \<longleftrightarrow> us = []" using Cons.prems(2,3) by (cases us rule: rev_cases) auto
    have l: "us \<noteq> [] \<Longrightarrow> q \<noteq> last us" using Cons.prems(4) by (cases us rule: rev_cases) auto
    show ?thesis
      using True q p l Cons.prems(2)
      by (subst timeout_remove.simps) (cases qs; auto simp: matches_def without_def Let_def)
  next
    case False
    have "timeout_remove h a prev_t t s = timeout_remove h a q (pb_next s q) s"
      using False q by (subst timeout_remove.simps) (auto simp: matches_def)
    also have "\<dots> = Some (case dropWhile (\<lambda>t. \<not> matches h a s t) qs of [] \<Rightarrow> s
       | w # ws \<Rightarrow> without ((us @ [q]) @ takeWhile (\<lambda>t. \<not> matches h a s t) qs) w ws s)"
      using Cons.prems q by (intro Cons.IH) auto
    finally show ?thesis using False by (simp cong: list.case_cong)
  qed
qed

lemma without_timeouts:
  assumes "timeouts s (us @ w # ws) xs" and "sum_list (map fst (delta s (us @ w # ws))) < 2 ^ 32"
  shows "timeouts (without us w ws s) (us @ ws) (w # xs)"
    and "due 0 (delta (without us w ws s) (us @ ws)) = due 0 (delta s us) @ tl (due (sum_list (map fst (delta s us))) (delta s (w # ws)))"
proof -
  have c: "pchain (pb_next s) (next_timeout s) (us @ w # ws)" "pool s MEMP_SYS_TIMEOUT xs" "distinct (us @ w # ws @ xs)"
    using assms(1) by (simp_all add: timeouts_def)
  have w: "w \<noteq> 0" "pchain (pb_next s) (pb_next s w) ws" using pchain_split [OF c(1)] by (auto split: if_splits)
  define s1 where "s1 = (if us = [] then s\<lparr>next_timeout := pb_next s w\<rparr> else s\<lparr>pb_next := (pb_next s)(last us := pb_next s w)\<rparr>)"
  define s2 where "s2 = (case ws of [] \<Rightarrow> s1 | n # _ \<Rightarrow> s1\<lparr>tm_time := (tm_time s1)(n := tm_time s1 n + tm_time s1 w)\<rparr>)"
  have s2: "without us w ws s = memp_free MEMP_SYS_TIMEOUT w s2" by (simp only: without_def s1_def s2_def Let_def)
  have k: "pb_next s2 = pb_next s1" "next_timeout s2 = next_timeout s1" "memp_tab s2 = memp_tab s" "tm_h s2 = tm_h s" "tm_arg s2 = tm_arg s"
    by (auto simp: s2_def s1_def split: list.splits)
  have c1: "pchain (pb_next s1) (next_timeout s1) (us @ ws)"
    using c(1) w(2) pchain_bypass [OF c(1)] c(3) by (auto simp: s1_def)
  have "pb_next s2 q = pb_next s q" if "q \<in> set xs" for q
    using that c(3) by (cases us rule: rev_cases) (auto simp: k s1_def)
  then have p2: "pool s2 MEMP_SYS_TIMEOUT xs" by (intro pool_cong [OF c(2)]) (simp_all add: k)
  have wx: "w \<notin> set xs" using c(3) by simp
  note push = memp_free_push [OF p2 wx w(1)]
  have "pchain (pb_next (without us w ws s)) (next_timeout s1) (us @ ws) = pchain (pb_next s1) (next_timeout s1) (us @ ws)"
    unfolding s2 push(1) using c(3) by (intro pchain_cong) (auto simp: k)
  then show "timeouts (without us w ws s) (us @ ws) (w # xs)"
    using c1 push c(3) by (auto simp: timeouts_def s2 k)
  have du: "delta (without us w ws s) us = delta s us"
    unfolding s2 push(1) using c(3) by (auto simp: delta_def k) (auto simp: s2_def s1_def split: list.splits)
  have dw: "due b (delta (without us w ws s) ws) = tl (due b (delta s (w # ws)))" for b
  proof (cases ws)
    case (Cons n ns)
    have "unat (tm_time s n) + unat (tm_time s w) < 2 ^ 32" using assms(2) by (simp add: Cons delta_append)
    then have "unat (tm_time s n + tm_time s w) = unat (tm_time s n) + unat (tm_time s w)" by (simp add: unat_word_ariths)
    moreover have "delta (without us w ws s) ns = delta s ns"
      unfolding s2 push(1) using c(3) Cons by (auto simp: delta_def k) (auto simp: s2_def s1_def)
    moreover have "tm_time (without us w ws s) n = tm_time s n + tm_time s w" "tm_h (without us w ws s) = tm_h s" "tm_arg (without us w ws s) = tm_arg s"
      unfolding s2 push(1) by (simp_all add: k) (simp add: s2_def s1_def Cons)
    ultimately show ?thesis by (simp add: Cons add_ac)
  qed simp
  show "due 0 (delta (without us w ws s) (us @ ws)) = due 0 (delta s us) @ tl (due (sum_list (map fst (delta s us))) (delta s (w # ws)))"
    by (simp add: delta_append due_append du dw)
qed

lemma sys_untimeout_queue:
  assumes "timeouts s ts xs" and "sum_list (map fst (delta s ts)) < 2 ^ 32"
  shows "\<exists>s' ts' ys. sys_untimeout h a s = Some s' \<and> timeouts s' ts' (ys @ xs) \<and> set (ts' @ ys) = set ts \<and>
     due 0 (delta s' ts') = cancel_due (h, a) (due 0 (delta s ts))"
proof -
  have c: "pchain (pb_next s) (next_timeout s) ts" "distinct ts" using assms(1) by (simp_all add: timeouts_def)
  let ?us = "takeWhile (\<lambda>t. \<not> matches h a s t) ts"
  have e: "sys_untimeout h a s = Some (case dropWhile (\<lambda>t. \<not> matches h a s t) ts of [] \<Rightarrow> s | w # ws \<Rightarrow> without ?us w ws s)"
    using timeout_remove_chain [OF c(1), of NULL "[]" h a] c by (auto simp: sys_untimeout_def cong: list.case_cong)
  have nu: "(h, a) \<notin> snd ` set (due b (delta s ?us))" for b
    by (auto simp: snd_due delta_def matches_def dest: set_takeWhileD)
  show ?thesis
  proof (cases "dropWhile (\<lambda>t. \<not> matches h a s t) ts")
    case Nil
    then have us: "?us = ts" by (metis append_Nil2 takeWhile_dropWhile_id)
    have "cancel_due (h, a) (due 0 (delta s ts)) = due 0 (delta s ts)" using nu [of 0, unfolded us] by (rule cancel_due_none)
    then show ?thesis using e Nil assms(1) by (intro exI [of _ s] exI [of _ ts] exI [of _ "[]"]) simp
  next
    case (Cons w ws)
    have ts: "ts = ?us @ w # ws" using takeWhile_dropWhile_id [of "\<lambda>t. \<not> matches h a s t" ts] Cons by simp
    have "matches h a s w" using hd_dropWhile [of "\<lambda>t. \<not> matches h a s t" ts] Cons by (metis list.sel(1) list.discI)
    then have m: "tm_h s w = h" "tm_arg s w = a" by (simp_all add: matches_def)
    have t: "timeouts s (?us @ w # ws) xs" "sum_list (map fst (delta s (?us @ w # ws))) < 2 ^ 32" using assms ts by simp_all
    note wt = without_timeouts [OF t]
    have "due 0 (delta s ts) = due 0 (delta s ?us) @ due (sum_list (map fst (delta s ?us))) (delta s (w # ws))"
      by (subst ts) (simp add: delta_append due_append)
    then have "cancel_due (h, a) (due 0 (delta s ts)) = due 0 (delta (without ?us w ws s) (?us @ ws))"
      using nu [of 0] m unfolding wt(2) by (simp add: cancel_due_first)
    moreover have "set ((?us @ ws) @ [w]) = set ts" using arg_cong [OF ts, of set] by auto
    ultimately show ?thesis using e Cons wt(1)
      by (intro exI [of _ "without ?us w ws s"] exI [of _ "?us @ ws"] exI [of _ "[w]"]) simp
  qed
qed

lemma timeouts_pop:
  assumes "timeouts s (t # ts) xs"
  defines "s1 \<equiv> memp_free MEMP_SYS_TIMEOUT t (s\<lparr>next_timeout := pb_next s t\<rparr>)"
  shows "timeouts s1 ts (t # xs)" and "tm_time s1 = tm_time s" and "tm_h s1 = tm_h s" and "tm_arg s1 = tm_arg s"
proof -
  have c: "next_timeout s = t" "t \<noteq> 0" "pchain (pb_next s) (pb_next s t) ts" "distinct (t # ts @ xs)"
    using assms(1) by (simp_all add: timeouts_def)
  have p: "pool (s\<lparr>next_timeout := pb_next s t\<rparr>) MEMP_SYS_TIMEOUT xs" using assms(1) by (simp add: timeouts_def pool_def)
  have "t \<notin> set xs" using c(4) by simp
  note push = memp_free_push [OF p this c(2)]
  have "pchain (pb_next s1) (pb_next s t) ts = pchain (pb_next s) (pb_next s t) ts"
    unfolding s1_def push(1) using c(4) by (intro pchain_cong) auto
  then show "timeouts s1 ts (t # xs)" using c push(2) unfolding timeouts_def s1_def by (simp add: push(1))
  show "tm_time s1 = tm_time s" "tm_h s1 = tm_h s" "tm_arg s1 = tm_arg s" unfolding s1_def push(1) by simp_all
qed

lemma due_shift: "k \<le> b \<Longrightarrow> due (b - k) r = map (\<lambda>(e, y). (e - k, y)) (due b r)"
proof (induction r arbitrary: b)
  case (Cons p r)
  obtain d y where p: "p = (d, y)" by (cases p)
  have "due (b + d - k) r = map (\<lambda>(e, y). (e - k, y)) (due (b + d) r)" using Cons by simp
  then show ?case using Cons.prems by (simp add: p)
qed simp

section \<open>Properties\<close>

text \<open>C30: The list of timeouts is a queue ordered by time: with a free entry \<open>sys_timeout\<close> puts the new one behind all
  that are due no later and leaves the times of the others, and \<open>sys_untimeout\<close> takes out the first with this handler
  and argument, gives its entry back, and leaves the times of the others, although only differences are stored.
  Without a free entry the timeout is lost.\<close>

theorem timeouts_are_a_queue:
  assumes "timeouts s ts (x # xs)" and "timeouts t us ys" and "sum_list (map fst (delta t us)) < 2 ^ 32"
  shows "(\<exists>s' ts'. sys_timeout msecs h a s = Some s' \<and> timeouts s' ts' xs \<and>
      due 0 (delta s' ts') = insert_due (unat msecs) (h, a) (due 0 (delta s ts))) \<and>
    (\<exists>t' us' zs. sys_untimeout h a t = Some t' \<and> timeouts t' us' (zs @ ys) \<and> set (us' @ zs) = set us \<and>
      due 0 (delta t' us') = cancel_due (h, a) (due 0 (delta t us))) \<and>
    (ys = [] \<longrightarrow> sys_timeout msecs h a t = Some t)"
proof -
  have "sys_timeout msecs h a t = Some t" if "ys = []"
    using memp_malloc_empty [of t MEMP_SYS_TIMEOUT] assms(2) that by (simp add: sys_timeout_def timeouts_def)
  then show ?thesis using sys_timeout_queue [OF assms(1)] sys_untimeout_queue [OF assms(2,3)] by blast
qed

text \<open>While the thread of the stack waits for a message, a timeout that is due is taken out, its entry given back and its handler
  called with its argument before anything else, and then the wait goes on.  A message that arrives after some time moves
  all timeouts forward by this time, or by the time of the first when that is shorter.\<close>

theorem timeouts_while_waiting:
  assumes "timeouts s (t # ts) xs" and "tm_time s t = 0" and "tm_h s t \<noteq> NULL"
    and "timeouts u (w # ws) ys"
  shows "(\<exists>s1. timeouts s1 ts (t # xs) \<and> due 0 (delta s1 ts) = tl (due 0 (delta s (t # ts))) \<and>
      sys_timeouts_mbox_fetch env pMail mbox msg s =
        after (call_handler env (tm_h s t) (tm_arg s t) s1) (\<lambda>_ s. sys_timeouts_mbox_fetch env pMail mbox msg s)) \<and>
    (let k = min (unat time_needed) (unat (tm_time u w))
     in timeouts (timeout_elapse time_needed u) (w # ws) ys \<and>
        due 0 (delta (timeout_elapse time_needed u) (w # ws)) = map (\<lambda>(e, y). (e - k, y)) (due 0 (delta u (w # ws))))"
proof (intro conjI)
  let ?s1 = "memp_free MEMP_SYS_TIMEOUT t (s\<lparr>next_timeout := pb_next s t\<rparr>)"
  note pop = timeouts_pop [OF assms(1)]
  have n: "next_timeout s = t" "t \<noteq> 0" using assms(1) by (simp_all add: timeouts_def)
  have "timeout_expire env s = call_handler env (tm_h s t) (tm_arg s t) ?s1"
    using n assms(3) by (simp add: timeout_expire_def Let_def)
  then have "sys_timeouts_mbox_fetch env pMail mbox msg s =
      after (call_handler env (tm_h s t) (tm_arg s t) ?s1) (\<lambda>_ s. sys_timeouts_mbox_fetch env pMail mbox msg s)"
    using n assms(2) by (subst sys_timeouts_mbox_fetch.simps) (simp add: after_def split: option.splits outcome.splits)
  moreover have "due 0 (delta ?s1 ts) = tl (due 0 (delta s (t # ts)))" using pop(2-4) assms(2) by (simp add: delta_def)
  ultimately show "\<exists>s1. timeouts s1 ts (t # xs) \<and> due 0 (delta s1 ts) = tl (due 0 (delta s (t # ts))) \<and>
      sys_timeouts_mbox_fetch env pMail mbox msg s =
        after (call_handler env (tm_h s t) (tm_arg s t) s1) (\<lambda>_ s. sys_timeouts_mbox_fetch env pMail mbox msg s)"
    using pop(1) by blast
next
  define k where "k = min (unat time_needed) (unat (tm_time u w))"
  have c: "next_timeout u = w" "distinct (w # ws)" using assms(4) by (simp_all add: timeouts_def)
  let ?u = "timeout_elapse time_needed u"
  have f: "pb_next ?u = pb_next u" "next_timeout ?u = next_timeout u" "memp_tab ?u = memp_tab u" "tm_h ?u = tm_h u" "tm_arg ?u = tm_arg u"
    "tm_time ?u = (tm_time u)(w := (if time_needed < tm_time u w then tm_time u w - time_needed else 0))"
    by (simp_all add: timeout_elapse_def c Let_def)
  have "unat (tm_time ?u w) = unat (tm_time u w) - k"
    by (auto simp: f(6) k_def word_less_nat_alt unat_sub [OF less_imp_le] min_def)
  moreover have "delta ?u ws = delta u ws" using c(2) by (intro delta_cong) (auto simp: f)
  moreover have "due (unat (tm_time u w) - k) (delta u ws) = map (\<lambda>(e, y). (e - k, y)) (due (unat (tm_time u w)) (delta u ws))"
    by (rule due_shift) (simp add: k_def)
  ultimately have "due 0 (delta ?u (w # ws)) = map (\<lambda>(e, y). (e - k, y)) (due 0 (delta u (w # ws)))"
    by (simp add: f(4,5))
  moreover have "timeouts ?u (w # ws) ys" using assms(4) f by (simp add: timeouts_def pool_def)
  ultimately show "let k = min (unat time_needed) (unat (tm_time u w))
     in timeouts ?u (w # ws) ys \<and> due 0 (delta ?u (w # ws)) = map (\<lambda>(e, y). (e - k, y)) (due 0 (delta u (w # ws)))"
    unfolding Let_def k_def by (intro conjI)
qed

text \<open>Two timeouts, due in 10 and 40 milliseconds, and one free entry.\<close>

definition two_timeouts :: "timeo \<Rightarrow> timeo" where
  "two_timeouts s = s\<lparr>next_timeout := 0x500, pb_next := (\<lambda>_. 0)(0x500 := 0x600), memp_tab := (\<lambda>_. 0x700),
     tm_time := (\<lambda>_. 0)(0x500 := 10, 0x600 := 30), tm_h := (\<lambda>_. 0)(0x500 := 0x11, 0x600 := 0x22), tm_arg := (\<lambda>_. 0)\<rparr>"

lemma two_timeouts_queue:
  "timeouts (two_timeouts s) [0x500, 0x600] [0x700]"
  "due 0 (delta (two_timeouts s) [0x500, 0x600]) = [(10, 0x11, 0), (40, 0x22, 0)]"
  "sum_list (map fst (delta (two_timeouts s) [0x500, 0x600])) < 2 ^ 32"
  by (simp_all add: timeouts_def two_timeouts_def pool_def)

theorem timeouts_are_a_queue_witness:
  "\<forall>s :: timeo. (\<exists>s' ts'. sys_timeout 25 0x33 0 (two_timeouts s) = Some s' \<and>
      due 0 (delta s' ts') = [(10, 0x11, 0), (25, 0x33, 0), (40, 0x22, 0)]) \<and>
    (\<exists>s' ts'. sys_untimeout 0x33 0 (two_timeouts s) = Some s' \<and> due 0 (delta s' ts') = [(10, 0x11, 0), (40, 0x22, 0)])"
proof (intro allI)
  fix s :: timeo
  note q = two_timeouts_queue [of s]
  show "(\<exists>s' ts'. sys_timeout 25 0x33 0 (two_timeouts s) = Some s' \<and>
      due 0 (delta s' ts') = [(10, 0x11, 0), (25, 0x33, 0), (40, 0x22, 0)]) \<and>
    (\<exists>s' ts'. sys_untimeout 0x33 0 (two_timeouts s) = Some s' \<and> due 0 (delta s' ts') = [(10, 0x11, 0), (40, 0x22, 0)])"
    using timeouts_are_a_queue [OF q(1) q(1) q(3), of 25 "0x33" 0] unfolding q(2) by auto
qed

theorem timeouts_while_waiting_witness:
  "\<forall>(env :: timeo timers) (s :: timeo).
    (\<exists>s1. sys_timeouts_mbox_fetch env 0 0 0 (two_timeouts s\<lparr>tm_time := \<lambda>_. 0\<rparr>) =
        after (call_handler env 0x11 0 s1) (\<lambda>_ s. sys_timeouts_mbox_fetch env 0 0 0 s)) \<and>
    due 0 (delta (timeout_elapse 7 (two_timeouts s)) [0x500, 0x600]) = [(3, 0x11, 0), (33, 0x22, 0)]"
proof (intro allI)
  fix env :: "timeo timers" and s :: timeo
  note q = two_timeouts_queue [of s]
  have z: "timeouts (two_timeouts s\<lparr>tm_time := \<lambda>_. 0\<rparr>) [0x500, 0x600] [0x700]" using q(1) by (simp add: timeouts_def pool_def)
  have w: "tm_time (two_timeouts s) 0x500 = 10" "tm_h (two_timeouts s) 0x500 = 0x11" "tm_arg (two_timeouts s) 0x500 = 0"
    by (simp_all add: two_timeouts_def)
  have t: "tm_time (two_timeouts s\<lparr>tm_time := \<lambda>_. 0\<rparr>) 0x500 = 0" "tm_h (two_timeouts s\<lparr>tm_time := \<lambda>_. 0\<rparr>) 0x500 \<noteq> NULL"
    using w by simp_all
  show "(\<exists>s1. sys_timeouts_mbox_fetch env 0 0 0 (two_timeouts s\<lparr>tm_time := \<lambda>_. 0\<rparr>) =
        after (call_handler env 0x11 0 s1) (\<lambda>_ s. sys_timeouts_mbox_fetch env 0 0 0 s)) \<and>
    due 0 (delta (timeout_elapse 7 (two_timeouts s)) [0x500, 0x600]) = [(3, 0x11, 0), (33, 0x22, 0)]"
    using timeouts_while_waiting [OF z t q(1), of env 0 0 0 7] unfolding q(2) Let_def w by (auto simp: w)
qed

end
