(* ===== verification/IpAddr.thy ===== *)
theory IpAddr
  imports Emac Chksum
begin

text \<open>
  Addresses of the internet: ethernet/core/ipv4/ip\_addr.c with the macros of ipv4/lwip/ip\_addr.h that it uses.  An
  address is a word in network order on a little-endian machine, so its first byte is the lowest.  Text is read and
  written in \<open>chars\<close>; the loops that read it have no bound but the text's end, so they are partial functions.  The
  tests for digits and spaces are the macros of the file, which apply where <ctype.h> has not been included.
\<close>

record netifs = emac +
  ip_addr_at :: "addr \<Rightarrow> u32"
  netif_ip_addr :: "addr \<Rightarrow> u32"
  netif_netmask :: "addr \<Rightarrow> u32"

abbreviation (input) IPADDR_ANY :: u32 where "IPADDR_ANY \<equiv> 0x00000000"
abbreviation (input) IPADDR_BROADCAST :: u32 where "IPADDR_BROADCAST \<equiv> 0xffffffff"
abbreviation (input) IPADDR_NONE :: u32 where "IPADDR_NONE \<equiv> 0xffffffff"

definition ip_addr_netcmp :: "u32 \<Rightarrow> u32 \<Rightarrow> u32 \<Rightarrow> bool" where
  "ip_addr_netcmp addr1 addr2 msk \<longleftrightarrow> addr1 AND msk = addr2 AND msk"

definition ip4_addr_isbroadcast :: "u32 \<Rightarrow> addr \<Rightarrow> 'a netifs_scheme \<Rightarrow> bool" where
  "ip4_addr_isbroadcast a netif s \<longleftrightarrow>
     (if NOT a = IPADDR_ANY \<or> a = IPADDR_ANY then True
      else if netif_flags s netif AND NETIF_FLAG_BROADCAST = 0 then False
      else if a = netif_ip_addr s netif then False
      else ip_addr_netcmp a (netif_ip_addr s netif) (netif_netmask s netif) \<and>
        a AND NOT (netif_netmask s netif) = IPADDR_BROADCAST AND NOT (netif_netmask s netif))"

section \<open>Netmasks\<close>

text \<open>The two loops; \<open>mask\<close> reaches 0 after at most 32 steps.\<close>

function first_zero :: "u32 \<Rightarrow> u32 \<Rightarrow> u32" where
  "first_zero nm msk =
     (if msk \<noteq> 0 then if nm AND msk = 0 then msk else first_zero nm (drop_bit 1 msk) else msk)"
  by pat_completeness auto
termination
  by (relation "measure (unat \<circ> snd)") (auto simp: unat_drop_bit_eq drop_bit_Suc unat_eq_0 unat_div_distrib unat_gt_0 intro!: div_less_dividend)

function no_more_ones :: "u32 \<Rightarrow> u32 \<Rightarrow> bool" where
  "no_more_ones nm msk =
     (if msk \<noteq> 0 then if nm AND msk \<noteq> 0 then False else no_more_ones nm (drop_bit 1 msk) else True)"
  by pat_completeness auto
termination
  by (relation "measure (unat \<circ> snd)") (auto simp: unat_drop_bit_eq drop_bit_Suc unat_eq_0 unat_div_distrib unat_gt_0 intro!: div_less_dividend)

declare first_zero.simps [simp del] no_more_ones.simps [simp del]

definition ip4_addr_netmask_valid :: "u32 \<Rightarrow> bool" where
  "ip4_addr_netmask_valid netmask =
     (let nm_hostorder = lwip_htonl netmask;
          msk = first_zero nm_hostorder (push_bit 31 1)
      in no_more_ones nm_hostorder msk)"

section \<open>Text to address\<close>

definition in_range :: "char \<Rightarrow> u8 \<Rightarrow> u8 \<Rightarrow> bool" where
  "in_range c lo up \<longleftrightarrow> lo \<le> of_char c \<and> of_char c \<le> up"

definition isdigit :: "char \<Rightarrow> bool" where "isdigit c \<longleftrightarrow> in_range c 0x30 0x39"
definition isxdigit :: "char \<Rightarrow> bool" where "isxdigit c \<longleftrightarrow> isdigit c \<or> in_range c 0x61 0x66 \<or> in_range c 0x41 0x46"
definition islower :: "char \<Rightarrow> bool" where "islower c \<longleftrightarrow> in_range c 0x61 0x7a"
definition isspace :: "char \<Rightarrow> bool" where
  "isspace c \<longleftrightarrow> c = CHR '' '' \<or> c = CHR 0x0C \<or> c = CHR 0x0A \<or> c = CHR 0x0D \<or> c = CHR 0x09 \<or> c = CHR 0x0B"

text \<open>The digits of one number.\<close>

partial_function (option) aton_number :: "(addr \<Rightarrow> char) \<Rightarrow> u32 \<Rightarrow> addr \<Rightarrow> u32 \<Rightarrow> (u32 \<times> addr) option" where
  "aton_number mem base cp val =
     (let c = mem cp
      in if isdigit c then aton_number mem base (cp + 1) (val * base + (of_char c - 0x30))
         else if base = 16 \<and> isxdigit c then
           aton_number mem base (cp + 1) (push_bit 4 val OR (of_char c + 10 - (if islower c then 0x61 else 0x41)))
         else Some (val, cp))"

text \<open>One number with its prefix, and the numbers up to the last: the first \<open>None\<close> is a loop that does not end, the
  second a syntax error.\<close>

definition aton_part :: "(addr \<Rightarrow> char) \<Rightarrow> addr \<Rightarrow> (u32 \<times> addr) option" where
  "aton_part mem cp =
     (if mem cp = CHR ''0'' then
        let cp = cp + 1
        in if mem cp = CHR ''x'' \<or> mem cp = CHR ''X'' then aton_number mem 16 (cp + 1) 0 else aton_number mem 8 cp 0
      else aton_number mem 10 cp 0)"

partial_function (option) aton_parts :: "(addr \<Rightarrow> char) \<Rightarrow> addr \<Rightarrow> u32 list \<Rightarrow> (u32 list \<times> u32 \<times> addr) option option" where
  "aton_parts mem cp parts =
     (if \<not> isdigit (mem cp) then Some None
      else case aton_part mem cp of
        None \<Rightarrow> None
      | Some (val, cp) \<Rightarrow>
          if mem cp = CHR ''.'' then if 3 \<le> length parts then Some None else aton_parts mem (cp + 1) (parts @ [val])
          else Some (Some (parts, val, cp)))"

definition aton_address :: "u32 list \<Rightarrow> u32 \<Rightarrow> u32 option" where
  "aton_address parts val =
     (if length parts = 0 then Some val
      else if length parts = 1 then
        if val > 0xffffff then None else Some (val OR push_bit 24 (parts ! 0))
      else if length parts = 2 then
        if val > 0xffff then None else Some (val OR push_bit 24 (parts ! 0) OR push_bit 16 (parts ! 1))
      else
        if val > 0xff then None else Some (val OR push_bit 24 (parts ! 0) OR push_bit 16 (parts ! 1) OR push_bit 8 (parts ! 2)))"

text \<open>What \<open>ipaddr_aton\<close> finds, before it is stored.\<close>

definition aton :: "(addr \<Rightarrow> char) \<Rightarrow> addr \<Rightarrow> u32 option option" where
  "aton mem cp =
     (case aton_parts mem cp [] of
        None \<Rightarrow> None
      | Some None \<Rightarrow> Some None
      | Some (Some (parts, val, cp)) \<Rightarrow>
          if mem cp \<noteq> CHR 0x00 \<and> \<not> isspace (mem cp) then Some None
          else Some (map_option lwip_htonl (aton_address parts val)))"

definition ipaddr_aton :: "addr \<Rightarrow> addr \<Rightarrow> 'a netifs_scheme \<Rightarrow> (int \<times> 'a netifs_scheme) option" where
  "ipaddr_aton cp a s =
     (case aton (chars s) cp of
        None \<Rightarrow> None
      | Some None \<Rightarrow> Some (0, s)
      | Some (Some val) \<Rightarrow> Some (1, if a \<noteq> NULL then s\<lparr>ip_addr_at := (ip_addr_at s)(a := val)\<rparr> else s))"

definition ipaddr_addr :: "addr \<Rightarrow> 'a netifs_scheme \<Rightarrow> u32 option" where
  "ipaddr_addr cp s =
     (case aton (chars s) cp of
        None \<Rightarrow> None
      | Some None \<Rightarrow> Some IPADDR_NONE
      | Some (Some val) \<Rightarrow> Some val)"

section \<open>Address to text\<close>

text \<open>The digits of a byte, lowest first in \<open>inv\<close>; the list has them as the second loop takes them out.\<close>

function ntoa_digits :: "u8 \<Rightarrow> string \<Rightarrow> string" where
  "ntoa_digits ap digs =
     (let rem = ap mod 10;
          ap = ap div 10;
          digs = char_of (unat (0x30 + rem)) # digs
      in if ap \<noteq> 0 then ntoa_digits ap digs else digs)"
  by pat_completeness auto
termination
  by (relation "measure (unat \<circ> fst)") (auto simp: unat_div_distrib unat_eq_0 unat_gt_0 intro!: div_less_dividend)

declare ntoa_digits.simps [simp del]

text \<open>Writing characters with the test of the length; the results are \<open>len\<close>, \<open>rp\<close> and the memory, with \<open>False\<close> for the
  return of NULL.\<close>

definition ntoa_char :: "int \<Rightarrow> char \<Rightarrow> int \<times> addr \<times> (addr \<Rightarrow> char) \<Rightarrow> bool \<times> int \<times> addr \<times> (addr \<Rightarrow> char)" where
  "ntoa_char buflen c = (\<lambda>(len, rp, mem). if buflen \<le> len then (False, len + 1, rp, mem) else (True, len + 1, rp + 1, mem(rp := c)))"

fun ntoa_copy :: "int \<Rightarrow> string \<Rightarrow> int \<times> addr \<times> (addr \<Rightarrow> char) \<Rightarrow> bool \<times> int \<times> addr \<times> (addr \<Rightarrow> char)" where
  "ntoa_copy buflen [] x = (True, x)"
| "ntoa_copy buflen (c # cs) x = (let (ok, x) = ntoa_char buflen c x in if ok then ntoa_copy buflen cs x else (False, x))"

fun ntoa_bytes :: "int \<Rightarrow> u8 list \<Rightarrow> int \<times> addr \<times> (addr \<Rightarrow> char) \<Rightarrow> bool \<times> int \<times> addr \<times> (addr \<Rightarrow> char)" where
  "ntoa_bytes buflen [] x = (True, x)"
| "ntoa_bytes buflen (ap # aps) x =
     (let (ok, x) = ntoa_copy buflen (ntoa_digits ap []) x
      in if \<not> ok then (False, x)
         else
           let (ok, x) = ntoa_char buflen (CHR ''.'') x
           in if \<not> ok then (False, x) else ntoa_bytes buflen aps x)"

definition ip4_addr_bytes :: "u32 \<Rightarrow> u8 list" where
  "ip4_addr_bytes a = [ucast a, ucast (drop_bit 8 a), ucast (drop_bit 16 a), ucast (drop_bit 24 a)]"

definition ipaddr_ntoa_r :: "u32 \<Rightarrow> addr \<Rightarrow> int \<Rightarrow> 'a netifs_scheme \<Rightarrow> addr \<times> 'a netifs_scheme" where
  "ipaddr_ntoa_r s_addr buf buflen s =
     (let (ok, len, rp, mem) = ntoa_bytes buflen (ip4_addr_bytes s_addr) (0, buf, chars s)
      in if \<not> ok then (NULL, s\<lparr>chars := mem\<rparr>)
         else
           let rp = rp - 1
           in (buf, s\<lparr>chars := mem(rp := CHR 0x00)\<rparr>))"

definition ipaddr_ntoa :: "addr \<Rightarrow> u32 \<Rightarrow> 'a netifs_scheme \<Rightarrow> addr \<times> 'a netifs_scheme" where
  "ipaddr_ntoa str a s = ipaddr_ntoa_r a str 16 s"


section \<open>Valid netmasks\<close>

lemma and_bit_zero: "(nm :: u32) AND 2 ^ k = 0 \<longleftrightarrow> \<not> bit nm k"
  by (fact and_exp_eq_0_iff_not_bit)

lemma bit_nonzero: "k < 32 \<Longrightarrow> (2 :: u32) ^ k \<noteq> 0"
  by (simp add: exp_eq_zero_iff)

lemma drop_power: "drop_bit 1 (1 :: u32) = 0" "k < 31 \<Longrightarrow> drop_bit 1 ((2 :: u32) ^ Suc k) = 2 ^ k"
  by (auto simp: bit_simps simp del: power_Suc intro!: bit_word_eqI)

text \<open>One round of each loop.\<close>

lemma no_more_ones_rounds:
  "k < 31 \<Longrightarrow> no_more_ones nm (2 ^ Suc k) \<longleftrightarrow> \<not> bit nm (Suc k) \<and> no_more_ones nm (2 ^ k)"
  "no_more_ones nm 0" "no_more_ones nm 1 \<longleftrightarrow> \<not> bit nm 0"
proof -
  show "no_more_ones nm (2 ^ Suc k) \<longleftrightarrow> \<not> bit nm (Suc k) \<and> no_more_ones nm (2 ^ k)" if "k < 31"
    using bit_nonzero [of "Suc k"] drop_power(2) [OF that] and_bit_zero [of nm "Suc k"] that
    by (subst no_more_ones.simps) (simp del: power_Suc drop_bit_Suc)
  show "no_more_ones nm 0" by (simp add: no_more_ones.simps [of nm 0])
  then show "no_more_ones nm 1 \<longleftrightarrow> \<not> bit nm 0"
    using and_bit_zero [of nm 0] by (subst no_more_ones.simps) (simp add: drop_power)
qed

lemma first_zero_rounds:
  "k < 31 \<Longrightarrow> first_zero nm (2 ^ Suc k) = (if bit nm (Suc k) then first_zero nm (2 ^ k) else 2 ^ Suc k)"
  "first_zero nm 1 = (if bit nm 0 then 0 else 1)"
proof -
  show "first_zero nm (2 ^ Suc k) = (if bit nm (Suc k) then first_zero nm (2 ^ k) else 2 ^ Suc k)" if "k < 31"
    using bit_nonzero [of "Suc k"] drop_power(2) [OF that] and_bit_zero [of nm "Suc k"] that
    by (subst first_zero.simps) (simp del: power_Suc drop_bit_Suc)
  show "first_zero nm 1 = (if bit nm 0 then 0 else 1)"
    using and_bit_zero [of nm 0] by (subst first_zero.simps) (simp add: drop_power first_zero.simps [of nm 0])
qed

lemmas netmask_loops = no_more_ones_rounds first_zero_rounds

lemma no_more_ones_bits: "k < 32 \<Longrightarrow> no_more_ones nm (2 ^ k) \<longleftrightarrow> (\<forall>i\<le>k. \<not> bit nm i)"
  by (induction k) (auto simp: netmask_loops le_Suc_eq simp del: power_Suc)

lemma first_zero_bits:
  "k < 32 \<Longrightarrow> no_more_ones nm (first_zero nm (2 ^ k)) \<longleftrightarrow> (\<exists>m\<le>Suc k. \<forall>i\<le>k. bit nm i \<longleftrightarrow> m \<le> i)"
proof (induction k)
  case 0
  have "\<exists>m\<le>Suc 0. \<forall>i\<le>0. bit nm i \<longleftrightarrow> m \<le> i" by (rule exI [of _ "if bit nm 0 then 0 else 1"]) simp
  then show ?case by (simp add: netmask_loops)
next
  case (Suc k)
  show ?case
  proof (cases "bit nm (Suc k)")
    case True
    then have "(\<exists>m\<le>Suc (Suc k). \<forall>i\<le>Suc k. bit nm i \<longleftrightarrow> m \<le> i) \<longleftrightarrow> (\<exists>m\<le>Suc k. \<forall>i\<le>k. bit nm i \<longleftrightarrow> m \<le> i)"
      by (auto simp: le_Suc_eq)
    then show ?thesis using Suc True by (simp add: netmask_loops del: power_Suc)
  next
    case False
    have "(\<exists>m\<le>Suc (Suc k). \<forall>i\<le>Suc k. bit nm i \<longleftrightarrow> m \<le> i) \<longleftrightarrow> (\<forall>i\<le>Suc k. \<not> bit nm i)"
    proof
      assume "\<forall>i\<le>Suc k. \<not> bit nm i"
      then show "\<exists>m\<le>Suc (Suc k). \<forall>i\<le>Suc k. bit nm i \<longleftrightarrow> m \<le> i" by (intro exI [of _ "Suc (Suc k)"]) auto
    next
      assume "\<exists>m\<le>Suc (Suc k). \<forall>i\<le>Suc k. bit nm i \<longleftrightarrow> m \<le> i"
      then show "\<forall>i\<le>Suc k. \<not> bit nm i" using False by (metis order.trans order_refl)
    qed
    then show ?thesis using Suc.prems False no_more_ones_bits [of "Suc k" nm] by (simp add: first_zero_rounds del: power_Suc)
  qed
qed

text \<open>A valid netmask is, read from the left, ones and then zeroes.\<close>

theorem netmask_is_a_prefix:
  "ip4_addr_netmask_valid netmask \<longleftrightarrow> (\<exists>n\<le>32. \<forall>i<32. bit (lwip_htonl netmask) i \<longleftrightarrow> 32 - n \<le> i)"
proof -
  have "ip4_addr_netmask_valid netmask \<longleftrightarrow> (\<exists>m\<le>32. \<forall>i<32. bit (lwip_htonl netmask) i \<longleftrightarrow> m \<le> i)"
    using first_zero_bits [of 31 "lwip_htonl netmask"]
    by (simp add: ip4_addr_netmask_valid_def Let_def less_Suc_eq_le [of _ 31, simplified] push_bit_of_1)
  also have "\<dots> \<longleftrightarrow> (\<exists>n\<le>32. \<forall>i<32. bit (lwip_htonl netmask) i \<longleftrightarrow> 32 - n \<le> i)"
    by (metis diff_diff_cancel diff_le_self)
  finally show ?thesis .
qed

section \<open>Reading numbers\<close>

text \<open>A piece of text in memory.\<close>

definition text_at :: "(addr \<Rightarrow> char) \<Rightarrow> addr \<Rightarrow> string \<Rightarrow> bool" where
  "text_at mem a cs \<longleftrightarrow> (\<forall>i<length cs. mem (a + of_nat i) = cs ! i)"

lemma text_at_Nil [simp]: "text_at mem a []"
  by (simp add: text_at_def)

lemma text_at_Cons [simp]: "text_at mem a (c # cs) \<longleftrightarrow> mem a = c \<and> text_at mem (a + 1) cs"
  by (auto simp: text_at_def less_Suc_eq_0_disj ac_simps all_conj_distrib)

lemma text_at_append [simp]: "text_at mem a (xs @ ys) \<longleftrightarrow> text_at mem a xs \<and> text_at mem (a + of_nat (length xs)) ys"
  by (induction xs arbitrary: a) (auto simp: ac_simps)

lemma c_string_text: "c_string mem a cs \<longleftrightarrow> text_at mem a (cs @ [CHR 0x00]) \<and> CHR 0x00 \<notin> set cs"
  by (auto simp: c_string_def) (auto simp: text_at_def)

abbreviation (input) number_text :: "nat \<Rightarrow> string" where "number_text n \<equiv> numeral_of (digits 0) 10 n"

lemma decimal_digit: "n < 10 \<Longrightarrow> isdigit (digits 0 ! n) \<and> (of_char (digits 0 ! n) :: u32) - 0x30 = of_nat n \<and> digits 0 ! n \<noteq> CHR 0x00"
proof -
  assume "n < 10"
  then have "n \<in> set [0..<10]" by simp
  then show ?thesis by (auto simp: upt_conv_Cons digits_def isdigit_def in_range_def)
qed

lemma aton_number_digits: "c \<in> set (number_text n) \<Longrightarrow> isdigit c \<and> c \<noteq> CHR 0x00"
proof (induction n rule: less_induct)
  case (less n)
  have "c \<in> set (if n < 10 then [digits 0 ! n] else number_text (n div 10) @ [digits 0 ! (n mod 10)])"
    using less.prems by (subst (asm) numeral_of.simps) simp
  then show ?case using less.IH [of "n div 10"] decimal_digit [of "n mod 10"] decimal_digit [of n] by (auto split: if_splits)
qed

text \<open>Reading a number goes on behind its first digits.\<close>

lemma aton_number_reads:
  "text_at mem cp (number_text n) \<Longrightarrow>
    aton_number mem 10 cp val =
      aton_number mem 10 (cp + of_nat (length (number_text n))) (val * 10 ^ length (number_text n) + of_nat n)"
proof (induction n arbitrary: cp val rule: less_induct)
  case (less n)
  show ?case
  proof (cases "n < 10")
    case True
    then have "number_text n = [digits 0 ! n]" by (simp add: numeral_of.simps)
    moreover have "aton_number mem 10 cp val = aton_number mem 10 (cp + 1) (val * 10 + of_nat n)"
      using less.prems decimal_digit [OF True] \<open>number_text n = _\<close> by (subst aton_number.simps) simp
    ultimately show ?thesis by simp
  next
    case False
    then have e: "number_text n = number_text (n div 10) @ [digits 0 ! (n mod 10)]" by (subst numeral_of.simps) simp
    let ?l = "length (number_text (n div 10))"
    have t: "text_at mem cp (number_text (n div 10))" "mem (cp + of_nat ?l) = digits 0 ! (n mod 10)"
      using less.prems unfolding e by simp_all
    have "aton_number mem 10 cp val = aton_number mem 10 (cp + of_nat ?l) (val * 10 ^ ?l + of_nat (n div 10))"
      using less.IH [OF _ t(1)] False by simp
    also have "\<dots> = aton_number mem 10 (cp + of_nat ?l + 1) ((val * 10 ^ ?l + of_nat (n div 10)) * 10 + of_nat (n mod 10))"
      using decimal_digit [of "n mod 10"] t(2) by (subst aton_number.simps) simp
    also have "(val * 10 ^ ?l + of_nat (n div 10)) * 10 + of_nat (n mod 10) = val * 10 ^ Suc ?l + (of_nat (n div 10 * 10 + n mod 10) :: u32)"
      by (simp only: of_nat_add of_nat_mult) (simp add: algebra_simps)
    finally show ?thesis unfolding e by (simp add: ac_simps)
  qed
qed

lemma aton_part_reads:
  assumes "text_at mem cp (number_text n @ [c])" "\<not> isdigit c" "c \<noteq> CHR ''x''" "c \<noteq> CHR ''X''"
  shows "aton_part mem cp = Some (of_nat n, cp + of_nat (length (number_text n))) \<and> isdigit (mem cp)"
proof -
  have h: "isdigit (mem cp)"
    using assms(1) aton_number_digits [of "hd (number_text n)" n] numeral_nonempty [of "digits 0" 10 n]
    by (cases "number_text n") auto
  have stop: "aton_number mem b (cp + of_nat (length (number_text n))) v = Some (v, cp + of_nat (length (number_text n)))"
    if "b \<noteq> 16" for b v using assms that by (subst aton_number.simps) simp
  show ?thesis
  proof (cases "n = 0")
    case True
    then have "number_text n = ''0''" by (simp add: numeral_of.simps digits_def)
    then show ?thesis using assms stop [of 8 0] h True by (simp add: aton_part_def)
  next
    case False
    then have "mem cp \<noteq> CHR ''0''"
      using assms(1) numeral_hd [of 10 n] numeral_nonempty [of "digits 0" 10 n] by (cases "number_text n") auto
    moreover have "aton_number mem 10 cp 0 = Some (of_nat n, cp + of_nat (length (number_text n)))"
      using aton_number_reads [of mem cp n 0] assms(1) stop [of 10] by simp
    ultimately show ?thesis using h by (simp add: aton_part_def)
  qed
qed

text \<open>Numbers with dots between them.\<close>

fun dotted :: "nat list \<Rightarrow> string" where
  "dotted [] = []"
| "dotted [n] = number_text n"
| "dotted (n # m # ns) = number_text n @ ''.'' @ dotted (m # ns)"

lemma aton_parts_reads:
  assumes "ns \<noteq> []" "text_at mem cp (dotted ns @ [c])" "\<not> isdigit c" "c \<noteq> CHR ''x''" "c \<noteq> CHR ''X''" "c \<noteq> CHR ''.''" "length parts \<le> 3"
  shows "aton_parts mem cp parts =
    Some (if 3 < length parts + length (tl ns) then None
          else Some (parts @ map of_nat (butlast ns), of_nat (last ns), cp + of_nat (length (dotted ns))))"
  using assms
proof (induction ns arbitrary: cp parts rule: dotted.induct)
  case (2 n)
  have "text_at mem cp (number_text n @ [c])" using "2.prems"(2) by simp
  note r = aton_part_reads [OF this "2.prems"(3-5)]
  have "mem (cp + of_nat (length (number_text n))) = c" using "2.prems"(2) by simp
  then show ?case using r "2.prems"(6,7) by (subst aton_parts.simps) simp
next
  case (3 n m ns)
  have "text_at mem cp (number_text n @ [CHR ''.''])" using "3.prems"(2) by simp
  from aton_part_reads [OF this] have r: "aton_part mem cp = Some (of_nat n, cp + of_nat (length (number_text n)))" "isdigit (mem cp)"
    by (simp_all add: isdigit_def in_range_def)
  have "mem (cp + of_nat (length (number_text n))) = CHR ''.''"
    "text_at mem (cp + of_nat (length (number_text n)) + 1) (dotted (m # ns) @ [c])" using "3.prems"(2) by (simp_all add: ac_simps)
  note t = this
  show ?case
  proof (cases "length parts = 3")
    case True
    then show ?thesis using t(1) r by (subst aton_parts.simps) simp
  next
    case False
    then show ?thesis using "3.IH" [OF _ t(2), of "parts @ [of_nat n]"] "3.prems"(3-7) t(1) r
      by (subst aton_parts.simps) (auto simp: ac_simps)
  qed
qed simp


text \<open>What \<open>ipaddr_aton\<close> makes of up to four numbers; more are refused.\<close>

lemma aton_reads:
  assumes "ns \<noteq> []" "text_at mem cp (dotted ns @ [c])" "c = CHR 0x00 \<or> isspace c"
  shows "aton mem cp =
    Some (if length ns \<le> 4 then map_option lwip_htonl (aton_address (map of_nat (butlast ns)) (of_nat (last ns))) else None)"
proof -
  have "\<not> isdigit c" "c \<noteq> CHR ''x''" "c \<noteq> CHR ''X''" "c \<noteq> CHR ''.''"
    using assms(3) by (auto simp: isspace_def isdigit_def in_range_def)
  note r = aton_parts_reads [OF assms(1,2) this, of "[]"]
  have "mem (cp + of_nat (length (dotted ns))) = c" using assms(2) by simp
  moreover have "length ns \<le> 4 \<longleftrightarrow> \<not> 3 < length (tl ns)" using assms(1) by (cases ns) auto
  ultimately show ?thesis using assms(3) r by (auto simp: aton_def)
qed

section \<open>Writing numbers\<close>

fun put_text :: "(addr \<Rightarrow> char) \<Rightarrow> addr \<Rightarrow> string \<Rightarrow> addr \<Rightarrow> char" where
  "put_text mem a [] = mem"
| "put_text mem a (c # cs) = put_text (mem(a := c)) (a + 1) cs"

lemma put_text_other: "(\<And>j. j < length cs \<Longrightarrow> x \<noteq> a + of_nat j) \<Longrightarrow> put_text mem a cs x = mem x"
proof (induction cs arbitrary: a mem)
  case (Cons c cs)
  have "x \<noteq> a" "\<And>j. j < length cs \<Longrightarrow> x \<noteq> a + 1 + of_nat j"
    using Cons.prems [of 0] Cons.prems [of "Suc _"] by (auto simp: ac_simps)
  then have "put_text (mem(a := c)) (a + 1) cs x = (mem(a := c)) x" by (intro Cons.IH) auto
  then show ?case using \<open>x \<noteq> a\<close> by simp
qed simp

lemma put_text_at: "length cs \<le> 2 ^ 32 \<Longrightarrow> text_at (put_text mem a cs) a cs"
proof (induction cs arbitrary: a mem)
  case (Cons c cs)
  have "a \<noteq> a + 1 + of_nat j" if "j < length cs" for j
    using of_nat_inj32 [of 0 "Suc j"] that Cons.prems by (auto simp: ac_simps)
  then have "put_text (mem(a := c)) (a + 1) cs a = c" by (subst put_text_other) auto
  then show ?case using Cons by simp
qed simp

lemma put_text_append: "put_text mem a (xs @ ys) = put_text (put_text mem a xs) (a + of_nat (length xs)) ys"
  by (induction xs arbitrary: mem a) (simp_all add: ac_simps)

text \<open>The digits of a byte are its decimal numeral, three at most.\<close>

lemma digit_char_of: "char_of (unat (0x30 + (ap :: u8) mod 10)) = digits 0 ! (unat ap mod 10)"
proof -
  have "ap mod 10 = of_nat (unat ap mod 10)" by (simp add: word_arith_nat_mod)
  moreover have "unat ap mod 10 \<in> set [0..<10]" by simp
  ultimately show ?thesis by (auto simp: upt_conv_Cons digits_def char_of_eq_iff simp del: set_upt)
qed

lemma ntoa_digits_numeral: "ntoa_digits ap cs = number_text (unat ap) @ cs"
proof (induction ap cs rule: ntoa_digits.induct)
  case (1 ap cs)
  have z: "ap div 10 = 0 \<longleftrightarrow> unat ap < 10"
    using unat_eq_0 [of "ap div 10"] by (simp add: unat_div_distrib div_eq_0_iff)
  show ?case
  proof (cases "unat ap < 10")
    case True
    then show ?thesis using z digit_char_of [of ap] by (simp add: ntoa_digits.simps [of ap] numeral_of.simps)
  next
    case False
    then have "ntoa_digits ap cs = number_text (unat (ap div 10)) @ digits 0 ! (unat ap mod 10) # cs"
      using z "1.IH" [OF refl refl refl] by (subst ntoa_digits.simps) (simp add: Let_def digit_char_of)
    then show ?thesis using False by (subst numeral_of.simps) (simp add: unat_div_distrib)
  qed
qed

text \<open>The copy stops in front of the first character that does not fit.\<close>

lemma ntoa_copy_text:
  "len \<le> buflen \<Longrightarrow> ntoa_copy buflen cs (len, rp, mem) =
    (if len + int (length cs) \<le> buflen then (True, len + int (length cs), rp + of_nat (length cs), put_text mem rp cs)
     else (False, buflen + 1, rp + of_nat (nat (buflen - len)), put_text mem rp (take (nat (buflen - len)) cs)))"
proof (induction cs arbitrary: len rp mem)
  case (Cons c cs)
  show ?case
  proof (cases "buflen \<le> len")
    case True
    then show ?thesis using Cons.prems by (simp add: ntoa_char_def)
  next
    case False
    then have n: "nat (buflen - len) = Suc (nat (buflen - (len + 1)))" by simp
    have "ntoa_copy buflen (c # cs) (len, rp, mem) = ntoa_copy buflen cs (len + 1, rp + 1, mem(rp := c))"
      using False by (simp add: ntoa_char_def)
    moreover have "rp + of_nat (nat (buflen - len)) = rp + 1 + of_nat (nat (buflen - (len + 1)))" unfolding n by simp
    ultimately show ?thesis using False Cons.IH [of "len + 1" "rp + 1" "mem(rp := c)"] unfolding n
      by (simp only: put_text.simps take_Suc_Cons list.size of_nat_Suc) (simp add: add.assoc del: fun_upd_apply ntoa_copy.simps)
  qed
qed simp

lemma ntoa_copy_append:
  "ntoa_copy b (xs @ ys) x = (let (ok, x) = ntoa_copy b xs x in if ok then ntoa_copy b ys x else (False, x))"
  by (induction xs arbitrary: x) (auto simp: Let_def split: prod.splits)

fun with_dots :: "nat list \<Rightarrow> string" where
  "with_dots [] = []"
| "with_dots (n # ns) = number_text n @ ''.'' @ with_dots ns"

lemma ntoa_bytes_copy: "ntoa_bytes b aps x = ntoa_copy b (with_dots (map unat aps)) x"
proof (induction aps arbitrary: x)
  case (Cons a aps)
  then show ?case by (auto simp: ntoa_copy_append ntoa_digits_numeral Let_def split: prod.splits)
qed simp

lemma with_dots_dotted: "ns \<noteq> [] \<Longrightarrow> with_dots ns = dotted ns @ ''.''"
  by (induction ns rule: dotted.induct) simp_all

definition address_text :: "u32 \<Rightarrow> string" where
  "address_text a = dotted (map unat (ip4_addr_bytes a))"

lemma number_length: "n < 10 ^ k \<Longrightarrow> k \<noteq> 0 \<Longrightarrow> length (number_text n) \<le> k"
proof (induction k arbitrary: n)
  case (Suc k)
  show ?case
  proof (cases "n < 10")
    case False
    then have "k \<noteq> 0" using Suc.prems by (intro notI) simp
    moreover have "n div 10 < 10 ^ k" using Suc.prems by (simp add: less_mult_imp_div_less)
    ultimately show ?thesis using Suc.IH [of "n div 10"] False by (subst numeral_of.simps) simp
  qed (simp add: numeral_of.simps)
qed simp

lemma address_text_length: "length (address_text a) < 16"
proof -
  have "length (number_text (unat b)) \<le> 3" for b :: u8
    using unsigned_less [where 'a = nat, of b] by (intro number_length) auto
  from this [of "ucast a"] this [of "ucast (drop_bit 8 a)"] this [of "ucast (drop_bit 16 a)"] this [of "ucast (drop_bit 24 a)"]
  show ?thesis by (simp add: address_text_def ip4_addr_bytes_def)
qed

lemma address_text_chars: "CHR 0x00 \<notin> set (address_text a)"
proof -
  have "CHR 0x00 \<notin> set (dotted ns)" for ns by (induction ns rule: dotted.induct) (auto dest: aton_number_digits)
  then show ?thesis by (simp add: address_text_def)
qed

lemma ntoa_writes:
  "ipaddr_ntoa_r a buf buflen s =
    (if int (length (address_text a)) < buflen
     then (buf, s\<lparr>chars := (put_text (chars s) buf (address_text a @ ''.''))(buf + of_nat (length (address_text a)) := CHR 0x00)\<rparr>)
     else (NULL, s\<lparr>chars := put_text (chars s) buf (take (nat buflen) (address_text a @ ''.''))\<rparr>))"
proof -
  have t: "with_dots (map unat (ip4_addr_bytes a)) = address_text a @ ''.''"
    by (simp add: with_dots_dotted address_text_def ip4_addr_bytes_def del: with_dots.simps)
  show ?thesis
  proof (cases "0 \<le> buflen")
    case True
    then show ?thesis using address_text_length [of a] ntoa_copy_text [of 0 buflen "address_text a @ ''.''" buf "chars s"]
      by (auto simp: ipaddr_ntoa_r_def ntoa_bytes_copy t Let_def)
  next
    case False
    then obtain c cs where "address_text a @ ''.'' = c # cs" by (cases "address_text a") auto
    with False show ?thesis by (simp add: ipaddr_ntoa_r_def ntoa_bytes_copy t ntoa_char_def)
  qed
qed


section \<open>Properties\<close>

lemma ntoa_text:
  assumes "int (length (address_text a)) < buflen"
  shows "c_string (chars (snd (ipaddr_ntoa_r a buf buflen s))) buf (address_text a)"
proof -
  let ?m = "put_text (chars s) buf (address_text a @ ''.'')" and ?n = "length (address_text a)"
  have n: "?n < 2 ^ 32" using address_text_length [of a] by simp
  have "text_at ?m buf (address_text a)" using put_text_at [of "address_text a @ ''.''" "chars s" buf] n by simp
  then have "text_at (?m(buf + of_nat ?n := CHR 0x00)) buf (address_text a)"
    using n of_nat_inj32 [of _ ?n] by (auto simp: text_at_def)
  then show ?thesis using assms address_text_chars [of a] by (simp add: c_string_text ntoa_writes)
qed

lemma ntoa_frame:
  assumes "buflen \<le> int (unat (x - buf))"
  shows "chars (snd (ipaddr_ntoa_r a buf buflen s)) x = chars s x"
proof -
  have far: "x \<noteq> buf + of_nat j" if "int j < buflen" for j
  proof
    assume x: "x = buf + of_nat j"
    have "unat (of_nat j :: u32) \<le> j" by (simp add: unsigned_of_nat)
    then have "unat (x - buf) \<le> j" using x by (simp only: add_diff_cancel_left')
    then show False using assms that by linarith
  qed
  have "put_text (chars s) buf cs x = chars s x" if "int (length cs) \<le> buflen" for cs
    using that by (intro put_text_other far) auto
  moreover have "put_text (chars s) buf (take (nat buflen) cs) x = chars s x" for cs
    by (intro put_text_other far) auto
  ultimately show ?thesis using far [of "length (address_text a)"] unfolding ntoa_writes by simp
qed

text \<open>C32: The text of an address takes at most 16 characters with its end; \<open>ipaddr\_ntoa\_r\<close> returns NULL when the buffer
  is too small for it, and whatever it returns, it changes nothing outside the buffer.\<close>

theorem ntoa_stays_in_buffer:
  "let (r, s') = ipaddr_ntoa_r a buf buflen s; n = int (length (address_text a))
   in n < 16 \<and> r = (if n < buflen then buf else NULL) \<and>
     (n < buflen \<longrightarrow> c_string (chars s') buf (address_text a)) \<and>
     (\<forall>x. buflen \<le> int (unat (x - buf)) \<longrightarrow> chars s' x = chars s x)"
proof -
  have r: "fst (ipaddr_ntoa_r a buf buflen s) = (if int (length (address_text a)) < buflen then buf else NULL)"
    by (simp add: ntoa_writes)
  show ?thesis using r address_text_length [of a] ntoa_text [of a buflen buf s] ntoa_frame [of buflen _ buf a s]
    by (simp add: Let_def split_def)
qed

theorem ntoa_stays_in_buffer_witness:
  "\<forall>s :: netifs. let (r, s') = ipaddr_ntoa_r 0x0100007f 0x100 10 s
    in r = 0x100 \<and> c_string (chars s') 0x100 ''127.0.0.1'' \<and> chars s' 0x10a = chars s 0x10a"
proof
  fix s :: netifs
  have t: "address_text 0x0100007f = ''127.0.0.1''"
    by (simp add: address_text_def ip4_addr_bytes_def numeral_of.simps digits_def)
  show "let (r, s') = ipaddr_ntoa_r 0x0100007f 0x100 10 s
    in r = 0x100 \<and> c_string (chars s') 0x100 ''127.0.0.1'' \<and> chars s' 0x10a = chars s 0x10a"
    using ntoa_stays_in_buffer [of "0x0100007f" "0x100" 10 s] by (simp add: t Let_def split_def)
qed

lemma htonl_bit:
  assumes "i < 32"
  shows "bit (lwip_htonl n) i \<longleftrightarrow>
    (if i < 8 then bit n (i + 24) else if i < 16 then bit n (i + 8) else if i < 24 then bit n (i - 8) else bit n (i - 24))"
proof -
  have m: "(0xff :: u32) = mask 8" "(0xff00 :: u32) = push_bit 8 (mask 8)" "(0xff0000 :: u32) = push_bit 16 (mask 8)"
    "(0xff000000 :: u32) = push_bit 24 (mask 8)"
    by (simp_all add: mask_eq_exp_minus_1 push_bit_eq_mult)
  have b: "bit (0xff :: u32) j \<longleftrightarrow> j < 8" "bit (0xff00 :: u32) j \<longleftrightarrow> 8 \<le> j \<and> j < 16"
    "bit (0xff0000 :: u32) j \<longleftrightarrow> 16 \<le> j \<and> j < 24" "bit (0xff000000 :: u32) j \<longleftrightarrow> 24 \<le> j \<and> j < 32" for j
    unfolding m by (auto simp: bit_simps)
  have w: "bit n j \<Longrightarrow> j < 32" for j using bit_imp_le_length [of n j] by simp
  consider "i < 8" | "8 \<le> i" "i < 16" | "16 \<le> i" "i < 24" | "24 \<le> i" by linarith
  then show ?thesis unfolding lwip_htonl_def bit_or_iff bit_and_iff bit_push_bit_iff bit_drop_bit_eq comp_apply b
    using assms w by cases (auto simp: add.commute)
qed

lemma htonl_bytes:
  "lwip_htonl (ucast (ucast (drop_bit 24 a) :: u8) OR push_bit 24 (ucast (ucast a :: u8)) OR push_bit 16 (ucast (ucast (drop_bit 8 a) :: u8)) OR
     push_bit 8 (ucast (ucast (drop_bit 16 a) :: u8))) = (a :: u32)"
proof (rule bit_word_eqI)
  fix i
  assume "i < LENGTH(32)"
  then have i: "i < 32" by simp
  define j k where jk: "j = i mod 8" "k = i div 8"
  have e: "i = 8 * k + j" and "j < 8" using jk by simp_all
  have "k < 4" using i jk(2) by simp
  then consider "k = 0" | "k = 1" | "k = 2" | "k = 3" by linarith
  then show "bit (lwip_htonl (ucast (ucast (drop_bit 24 a) :: u8) OR push_bit 24 (ucast (ucast a :: u8)) OR push_bit 16 (ucast (ucast (drop_bit 8 a) :: u8)) OR
     push_bit 8 (ucast (ucast (drop_bit 16 a) :: u8)))) i = bit a i"
    unfolding htonl_bit [OF i] using \<open>j < 8\<close> by cases (simp_all add: e bit_simps)
qed

lemma byte_fits: "\<not> 255 < (ucast (b :: u8) :: u32)"
  using unsigned_less [where 'a = nat, of b] by (simp add: word_less_nat_alt unsigned_ucast_eq take_bit_nat_eq_self)

text \<open>C31: What is read from the text of an address is the address.\<close>

theorem address_text_round_trip:
  "let (r, s') = ipaddr_ntoa str a s
   in r = str \<and> ipaddr_addr r s' = Some a \<and>
     ipaddr_aton r p s' = Some (1, if p \<noteq> NULL then s'\<lparr>ip_addr_at := (ip_addr_at s')(p := a)\<rparr> else s')"
proof -
  have n: "int (length (address_text a)) < 16" using address_text_length [of a] by simp
  let ?ns = "map unat (ip4_addr_bytes a)" and ?s = "snd (ipaddr_ntoa str a s)"
  have "text_at (chars ?s) str (dotted ?ns @ [CHR 0x00])"
    using ntoa_text [OF n, of str s] by (simp add: ipaddr_ntoa_def c_string_text address_text_def)
  from aton_reads [OF _ this] have "aton (chars ?s) str =
      Some (map_option lwip_htonl (aton_address (map of_nat (butlast ?ns)) (of_nat (last ?ns))))"
    by (simp add: ip4_addr_bytes_def)
  then have "aton (chars ?s) str = Some (Some a)"
    by (simp add: ip4_addr_bytes_def aton_address_def htonl_bytes byte_fits)
  then show ?thesis using n by (simp add: ipaddr_ntoa_def ntoa_writes ipaddr_addr_def ipaddr_aton_def Let_def split_def)
qed

lemma aton_address_numbers:
  assumes "ns \<noteq> []" "length ns \<le> 4"
  shows "aton_address (map of_nat (butlast ns)) (of_nat (last ns)) =
    (if 256 ^ (5 - length ns) \<le> last ns mod 2 ^ 32 then None
     else Some (foldl (OR) (of_nat (last ns)) (map (\<lambda>i. push_bit (24 - 8 * i) (of_nat (ns ! i))) [0..<length ns - 1])))"
proof -
  have "c < of_nat n \<longleftrightarrow> unat c < n mod 2 ^ 32" for c :: u32 and n
    by (simp add: word_less_nat_alt unsigned_of_nat take_bit_eq_mod)
  then have u: "(0xffffff :: u32) < of_nat n \<longleftrightarrow> 256 ^ 3 \<le> n mod 2 ^ 32" "(0xffff :: u32) < of_nat n \<longleftrightarrow> 256 ^ 2 \<le> n mod 2 ^ 32"
    "(0xff :: u32) < of_nat n \<longleftrightarrow> 256 \<le> n mod 2 ^ 32" "n mod 2 ^ 32 < 256 ^ 4" for n
    by auto
  have "length ns \<noteq> 0" using assms(1) by simp
  then have "length ns = 1 \<or> length ns = 2 \<or> length ns = 3 \<or> length ns = 4" using assms(2) by linarith
  then consider a where "ns = [a]" | a b where "ns = [a, b]" | a b c where "ns = [a, b, c]" | a b c d where "ns = [a, b, c, d]"
    by (auto simp: length_Suc_conv numeral_eq_Suc)
  then show ?thesis
    using u by cases (simp_all add: aton_address_def upt_conv_Cons not_le or.assoc)
qed

text \<open>C33: Text of decimal numbers with dots between them is accepted when there are at most four and the last fits into the
  bytes that are left for it; the numbers in front of it are shifted to their place without a check, so a number above
  255 runs into the byte of its neighbour.\<close>

theorem aton_checks_the_last_number:
  assumes "ns \<noteq> []" "c_string (chars s) cp (dotted ns)"
  shows "ipaddr_aton cp p s =
    Some (if 4 < length ns \<or> 256 ^ (5 - length ns) \<le> last ns mod 2 ^ 32 then (0, s)
          else (1, let a = lwip_htonl (foldl (OR) (of_nat (last ns)) (map (\<lambda>i. push_bit (24 - 8 * i) (of_nat (ns ! i))) [0..<length ns - 1]))
                   in if p \<noteq> NULL then s\<lparr>ip_addr_at := (ip_addr_at s)(p := a)\<rparr> else s))"
proof -
  have "text_at (chars s) cp (dotted ns @ [CHR 0x00])" using assms(2) by (simp add: c_string_text)
  from aton_reads [OF assms(1) this] show ?thesis
    by (cases "length ns \<le> 4") (simp_all add: ipaddr_aton_def aton_address_numbers [OF assms(1)] Let_def)
qed


text \<open>The text ``2.256.2.3'' is read as 3.0.2.3.\<close>

theorem aton_checks_the_last_number_witness:
  "\<forall>s :: netifs. ipaddr_aton 0x100 0x200 (s\<lparr>chars := put_text (chars s) 0x100 (''2.256.2.3'' @ [CHR 0x00])\<rparr>) =
    Some (1, s\<lparr>chars := put_text (chars s) 0x100 (''2.256.2.3'' @ [CHR 0x00]), ip_addr_at := (ip_addr_at s)(0x200 := 0x03020003)\<rparr>)"
proof
  fix s :: netifs
  let ?cs = "''2.256.2.3'' @ [CHR 0x00]"
  let ?s = "s\<lparr>chars := put_text (chars s) 0x100 ?cs\<rparr>"
  have d: "dotted [2, 256, 2, 3] = ''2.256.2.3''" by (simp add: numeral_of.simps digits_def)
  have "c_string (chars ?s) 0x100 (dotted [2, 256, 2, 3])"
    using put_text_at [of ?cs "chars s" "0x100"] by (simp only: c_string_text d) simp
  from aton_checks_the_last_number [OF _ this, of "0x200"]
  show "ipaddr_aton 0x100 0x200 ?s = Some (1, s\<lparr>chars := put_text (chars s) 0x100 ?cs, ip_addr_at := (ip_addr_at s)(0x200 := 0x03020003)\<rparr>)"
    by (simp add: upt_conv_Cons lwip_htonl_def del: put_text.simps)
qed

end
