(* ===== verification/Etharp.thy ===== *)
theory Etharp
  imports IpAddr PacketLife
begin

text \<open>
  The address resolution protocol: netif/etharp.c.  The table is a list of \<open>ARP_TABLE_SIZE\<close> records, the queues of
  packets that wait for an address are linked entries of a memory pool, and the frames lie in \<open>bytes\<close>.  Internet
  addresses and the constant Ethernet addresses are passed by value (\<open>None\<close> for a null pointer); the Ethernet address
  of a sender, which lies in the frame, is passed by its address.  The driver behind \<open>linkoutput\<close> and the layer above
  are parameters.  The statistics, the debugging code, static entries, VLAN, AutoIP, DHCP and PPPoE are compiled out.
\<close>

section \<open>Data\<close>

record etharp_entry =
  e_q :: addr
  e_ipaddr :: u32
  e_ethaddr :: "u8 list"
  e_state :: u8
  e_ctime :: u8

abbreviation (input) ETHARP_STATE_EMPTY :: u8 where "ETHARP_STATE_EMPTY \<equiv> 0"
abbreviation (input) ETHARP_STATE_PENDING :: u8 where "ETHARP_STATE_PENDING \<equiv> 1"
abbreviation (input) ETHARP_STATE_STABLE :: u8 where "ETHARP_STATE_STABLE \<equiv> 2"
abbreviation (input) ARP_TABLE_SIZE :: nat where "ARP_TABLE_SIZE \<equiv> 10"
abbreviation (input) ARP_MAXAGE :: u8 where "ARP_MAXAGE \<equiv> 240"
abbreviation (input) ARP_MAXPENDING :: u8 where "ARP_MAXPENDING \<equiv> 2"
abbreviation (input) HWTYPE_ETHERNET :: u16 where "HWTYPE_ETHERNET \<equiv> 1"
abbreviation (input) ARP_REQUEST :: u16 where "ARP_REQUEST \<equiv> 1"
abbreviation (input) ARP_REPLY :: u16 where "ARP_REPLY \<equiv> 2"
abbreviation (input) ETHARP_FLAG_TRY_HARD :: u8 where "ETHARP_FLAG_TRY_HARD \<equiv> 1"
abbreviation (input) ETHARP_FLAG_FIND_ONLY :: u8 where "ETHARP_FLAG_FIND_ONLY \<equiv> 2"
abbreviation (input) SIZEOF_ETH_HDR :: u32 where "SIZEOF_ETH_HDR \<equiv> 14"
abbreviation (input) SIZEOF_ETHARP_PACKET :: u16 where "SIZEOF_ETHARP_PACKET \<equiv> 42"
abbreviation (input) ERR_BUF :: int where "ERR_BUF \<equiv> - 2"
abbreviation (input) ERR_RTE :: int where "ERR_RTE \<equiv> - 4"

definition ethbroadcast :: "u8 list" where "ethbroadcast = [0xff, 0xff, 0xff, 0xff, 0xff, 0xff]"
definition ethzero :: "u8 list" where "ethzero = [0, 0, 0, 0, 0, 0]"

record arp = netifs +
  netif_gw :: "addr \<Rightarrow> u32"
  q_p :: "addr \<Rightarrow> addr"
  arp_table :: "etharp_entry list"
  etharp_cached_entry :: u8

record 's arp_env =
  arp_stack :: "'s stack"
  link_output :: "addr \<Rightarrow> addr \<Rightarrow> addr \<Rightarrow> 's \<Rightarrow> (int outcome \<times> 's) option"
  ip_input :: "addr \<Rightarrow> addr \<Rightarrow> 's \<Rightarrow> (unit outcome \<times> 's) option"

definition upd_entry :: "nat \<Rightarrow> (etharp_entry \<Rightarrow> etharp_entry) \<Rightarrow> 'a arp_scheme \<Rightarrow> 'a arp_scheme" where
  "upd_entry i f s = s\<lparr>arp_table := (arp_table s)[i := f (arp_table s ! i)]\<rparr>"

section \<open>Frames in memory\<close>

definition load_word :: "addr \<Rightarrow> 'a arp_scheme \<Rightarrow> u16" where
  "load_word a s = ucast (bytes s a) OR push_bit 8 (ucast (bytes s (a + 1)))"

definition load_eth :: "addr \<Rightarrow> 'a arp_scheme \<Rightarrow> u8 list" where
  "load_eth a s = map (\<lambda>j. bytes s (a + of_nat j)) [0..<6]"

definition store_byte :: "addr \<Rightarrow> u8 \<Rightarrow> 'a arp_scheme \<Rightarrow> 'a arp_scheme" where
  "store_byte a b s = s\<lparr>bytes := (bytes s)(a := b)\<rparr>"

definition store_word :: "addr \<Rightarrow> u16 \<Rightarrow> 'a arp_scheme \<Rightarrow> 'a arp_scheme" where
  "store_word a w s = s\<lparr>bytes := (bytes s)(a := ucast w, a + 1 := ucast (drop_bit 8 w))\<rparr>"

definition store_ip :: "addr \<Rightarrow> u32 \<Rightarrow> 'a arp_scheme \<Rightarrow> 'a arp_scheme" where
  "store_ip a d s = s\<lparr>bytes := store_dword a d (bytes s)\<rparr>"

definition ETHADDR_COPY :: "addr \<Rightarrow> u8 list \<Rightarrow> 'a arp_scheme \<Rightarrow> 'a arp_scheme" where
  "ETHADDR_COPY a bs s = s\<lparr>bytes := store_block a bs (bytes s)\<rparr>"

text \<open>The offsets of the fields of \<open>struct eth_hdr\<close> and, behind it, of \<open>struct etharp_hdr\<close>.\<close>

definition eth_dest :: "addr \<Rightarrow> addr" where "eth_dest e = e"
definition eth_src :: "addr \<Rightarrow> addr" where "eth_src e = e + 6"
definition eth_type :: "addr \<Rightarrow> addr" where "eth_type e = e + 12"
definition hdr_hwtype :: "addr \<Rightarrow> addr" where "hdr_hwtype h = h"
definition hdr_proto :: "addr \<Rightarrow> addr" where "hdr_proto h = h + 2"
definition hdr_hwlen :: "addr \<Rightarrow> addr" where "hdr_hwlen h = h + 4"
definition hdr_protolen :: "addr \<Rightarrow> addr" where "hdr_protolen h = h + 5"
definition hdr_opcode :: "addr \<Rightarrow> addr" where "hdr_opcode h = h + 6"
definition hdr_shwaddr :: "addr \<Rightarrow> addr" where "hdr_shwaddr h = h + 8"
definition hdr_sipaddr :: "addr \<Rightarrow> addr" where "hdr_sipaddr h = h + 14"
definition hdr_dhwaddr :: "addr \<Rightarrow> addr" where "hdr_dhwaddr h = h + 18"
definition hdr_dipaddr :: "addr \<Rightarrow> addr" where "hdr_dipaddr h = h + 24"

section \<open>Addresses\<close>

definition ip_addr_ismulticast :: "u32 \<Rightarrow> bool" where
  "ip_addr_ismulticast a \<longleftrightarrow> a AND lwip_htonl 0xf0000000 = lwip_htonl 0xe0000000"

definition ip_addr_islinklocal :: "u32 \<Rightarrow> bool" where
  "ip_addr_islinklocal a \<longleftrightarrow> a AND lwip_htonl 0xffff0000 = lwip_htonl 0xa9fe0000"

section \<open>The table\<close>

partial_function (option) free_etharp_q :: "'a arp_scheme arp_env \<Rightarrow> addr \<Rightarrow> 'a arp_scheme \<Rightarrow> (unit outcome \<times> 'a arp_scheme) option" where
  "free_etharp_q env q s =
     (if q \<noteq> NULL then
        let r = q;
            q = pb_next s q
        in (case pbuf_free (arp_stack env) (q_p s r) s of
              None \<Rightarrow> None
            | Some (Switched, s) \<Rightarrow> Some (Switched, s)
            | Some (Returned _, s) \<Rightarrow>
                let s = memp_free MEMP_ARP_QUEUE r s
                in free_etharp_q env q s)
      else Some (Returned (), s))"

definition free_entry :: "'a arp_scheme arp_env \<Rightarrow> nat \<Rightarrow> 'a arp_scheme \<Rightarrow> (unit outcome \<times> 'a arp_scheme) option" where
  "free_entry env i s =
     after (if e_q (arp_table s ! i) \<noteq> NULL then
              after (free_etharp_q env (e_q (arp_table s ! i)) s)
                (\<lambda>_ s. Some (Returned (), upd_entry i (\<lambda>e. e\<lparr>e_q := NULL\<rparr>) s))
            else Some (Returned (), s))
       (\<lambda>_ s. Some (Returned (), upd_entry i (\<lambda>e. e\<lparr>e_state := ETHARP_STATE_EMPTY\<rparr>) s))"

definition tmr_entry :: "'a arp_scheme arp_env \<Rightarrow> nat \<Rightarrow> 'a arp_scheme \<Rightarrow> (unit outcome \<times> 'a arp_scheme) option" where
  "tmr_entry env i s =
     (let state = e_state (arp_table s ! i)
      in if state \<noteq> ETHARP_STATE_EMPTY then
           let s = upd_entry i (\<lambda>e. e\<lparr>e_ctime := e_ctime e + 1\<rparr>) s;
               e = arp_table s ! i
           in if ARP_MAXAGE \<le> e_ctime e \<or> e_state e = ETHARP_STATE_PENDING \<and> ARP_MAXPENDING \<le> e_ctime e then free_entry env i s
              else Some (Returned (), s)
         else Some (Returned (), s))"

fun tmr_entries :: "'a arp_scheme arp_env \<Rightarrow> nat list \<Rightarrow> 'a arp_scheme \<Rightarrow> (unit outcome \<times> 'a arp_scheme) option" where
  "tmr_entries env [] s = Some (Returned (), s)"
| "tmr_entries env (i # is) s = after (tmr_entry env i s) (\<lambda>_ s. tmr_entries env is s)"

definition etharp_tmr :: "'a arp_scheme arp_env \<Rightarrow> 'a arp_scheme \<Rightarrow> (unit outcome \<times> 'a arp_scheme) option" where
  "etharp_tmr env s = tmr_entries env [0..<ARP_TABLE_SIZE] s"

text \<open>The candidates that \<open>find_entry\<close> remembers while it searches.\<close>

record candidates =
  old_pending :: nat
  old_stable :: nat
  empty_at :: nat
  age_pending :: u8
  age_stable :: u8
  old_queue :: nat
  age_queue :: u8

definition no_candidates :: candidates where
  "no_candidates = \<lparr>old_pending = ARP_TABLE_SIZE, old_stable = ARP_TABLE_SIZE, empty_at = ARP_TABLE_SIZE, age_pending = 0,
     age_stable = 0, old_queue = ARP_TABLE_SIZE, age_queue = 0\<rparr>"

definition remember :: "nat \<Rightarrow> etharp_entry \<Rightarrow> candidates \<Rightarrow> candidates" where
  "remember i e c =
     (if e_state e = ETHARP_STATE_PENDING then
        if e_q e \<noteq> NULL then
          if age_queue c \<le> e_ctime e then c\<lparr>old_queue := i, age_queue := e_ctime e\<rparr> else c
        else
          if age_pending c \<le> e_ctime e then c\<lparr>old_pending := i, age_pending := e_ctime e\<rparr> else c
      else if e_state e = ETHARP_STATE_STABLE then
        if age_stable c \<le> e_ctime e then c\<lparr>old_stable := i, age_stable := e_ctime e\<rparr> else c
      else c)"

text \<open>The sweep: \<open>Inl\<close> is the return at a match.\<close>

fun sweep :: "u32 option \<Rightarrow> nat \<Rightarrow> etharp_entry list \<Rightarrow> candidates \<Rightarrow> nat + candidates" where
  "sweep ipaddr i [] c = Inr c"
| "sweep ipaddr i (e # es) c =
     (if empty_at c = ARP_TABLE_SIZE \<and> e_state e = ETHARP_STATE_EMPTY then sweep ipaddr (i + 1) es (c\<lparr>empty_at := i\<rparr>)
      else if e_state e \<noteq> ETHARP_STATE_EMPTY then
        if ipaddr = Some (e_ipaddr e) then Inl i else sweep ipaddr (i + 1) es (remember i e c)
      else sweep ipaddr (i + 1) es c)"

definition fresh_entry :: "u32 option \<Rightarrow> nat \<Rightarrow> 'a arp_scheme \<Rightarrow> (int outcome \<times> 'a arp_scheme) option" where
  "fresh_entry ipaddr i s =
     (let s = (case ipaddr of None \<Rightarrow> s | Some a \<Rightarrow> upd_entry i (\<lambda>e. e\<lparr>e_ipaddr := a\<rparr>) s);
          s = upd_entry i (\<lambda>e. e\<lparr>e_ctime := 0\<rparr>) s
      in Some (Returned (int i), s))"

definition find_entry :: "'a arp_scheme arp_env \<Rightarrow> u32 option \<Rightarrow> u8 \<Rightarrow> 'a arp_scheme \<Rightarrow> (int outcome \<times> 'a arp_scheme) option" where
  "find_entry env ipaddr flags s =
     (case sweep ipaddr 0 (arp_table s) no_candidates of
        Inl i \<Rightarrow> Some (Returned (int i), s)
      | Inr c \<Rightarrow>
          if flags AND ETHARP_FLAG_FIND_ONLY \<noteq> 0 \<or> empty_at c = ARP_TABLE_SIZE \<and> flags AND ETHARP_FLAG_TRY_HARD = 0 then
            Some (Returned ERR_MEM, s)
          else if empty_at c < ARP_TABLE_SIZE then fresh_entry ipaddr (empty_at c) s
          else if old_stable c < ARP_TABLE_SIZE then after (free_entry env (old_stable c) s) (\<lambda>_. fresh_entry ipaddr (old_stable c))
          else if old_pending c < ARP_TABLE_SIZE then after (free_entry env (old_pending c) s) (\<lambda>_. fresh_entry ipaddr (old_pending c))
          else if old_queue c < ARP_TABLE_SIZE then after (free_entry env (old_queue c) s) (\<lambda>_. fresh_entry ipaddr (old_queue c))
          else Some (Returned ERR_MEM, s))"

section \<open>Sending and updating\<close>

definition etharp_send_ip :: "'a arp_scheme arp_env \<Rightarrow> addr \<Rightarrow> addr \<Rightarrow> u8 list \<Rightarrow> u8 list \<Rightarrow> 'a arp_scheme \<Rightarrow>
    (int outcome \<times> 'a arp_scheme) option" where
  "etharp_send_ip env netif p src dst s =
     (let ethhdr = payload s p;
          s = ETHADDR_COPY (eth_dest ethhdr) dst s;
          s = ETHADDR_COPY (eth_src ethhdr) src s;
          s = store_word (eth_type ethhdr) (lwip_htons ETHTYPE_IP) s
      in link_output env (netif_linkoutput s netif) netif p s)"

text \<open>The loop of \<open>update_arp_entry\<close> that sends what waits.\<close>

partial_function (option) send_queue :: "'a arp_scheme arp_env \<Rightarrow> addr \<Rightarrow> addr \<Rightarrow> nat \<Rightarrow> 'a arp_scheme \<Rightarrow>
    (unit outcome \<times> 'a arp_scheme) option" where
  "send_queue env netif hwaddr i s =
     (if e_q (arp_table s ! i) \<noteq> NULL then
        let q = e_q (arp_table s ! i);
            s = upd_entry i (\<lambda>e. e\<lparr>e_q := pb_next s q\<rparr>) s;
            p = q_p s q;
            s = memp_free MEMP_ARP_QUEUE q s
        in (case etharp_send_ip env netif p (netif_hwaddr s netif) (load_eth hwaddr s) s of
              None \<Rightarrow> None
            | Some (Switched, s) \<Rightarrow> Some (Switched, s)
            | Some (Returned _, s) \<Rightarrow>
                (case pbuf_free (arp_stack env) p s of
                   None \<Rightarrow> None
                 | Some (Switched, s) \<Rightarrow> Some (Switched, s)
                 | Some (Returned _, s) \<Rightarrow> send_queue env netif hwaddr i s))
      else Some (Returned (), s))"

definition update_arp_entry :: "'a arp_scheme arp_env \<Rightarrow> addr \<Rightarrow> u32 \<Rightarrow> addr \<Rightarrow> u8 \<Rightarrow> 'a arp_scheme \<Rightarrow>
    (int outcome \<times> 'a arp_scheme) option" where
  "update_arp_entry env netif ipaddr hwaddr flags s =
     (if ipaddr = IPADDR_ANY \<or> ip4_addr_isbroadcast ipaddr netif s \<or> ip_addr_ismulticast ipaddr then Some (Returned ERR_ARG, s)
      else
        after (find_entry env (Some ipaddr) flags s)
          (\<lambda>i s.
             if i < 0 then Some (Returned i, s)
             else
               let s = upd_entry (nat i) (\<lambda>e. e\<lparr>e_state := ETHARP_STATE_STABLE\<rparr>) s;
                   s = upd_entry (nat i) (\<lambda>e. e\<lparr>e_ethaddr := load_eth hwaddr s\<rparr>) s;
                   s = upd_entry (nat i) (\<lambda>e. e\<lparr>e_ctime := 0\<rparr>) s
               in after (send_queue env netif hwaddr (nat i) s) (\<lambda>_ s. Some (Returned ERR_OK, s))))"

text \<open>The addresses behind the pointers that \<open>etharp_find_addr\<close> hands out come with the index.\<close>

definition etharp_find_addr :: "'a arp_scheme arp_env \<Rightarrow> u32 \<Rightarrow> 'a arp_scheme \<Rightarrow> ((int \<times> (u8 list \<times> u32) option) outcome \<times> 'a arp_scheme) option" where
  "etharp_find_addr env ipaddr s =
     after (find_entry env (Some ipaddr) ETHARP_FLAG_FIND_ONLY s)
       (\<lambda>i s.
          if 0 \<le> i \<and> e_state (arp_table s ! nat i) = ETHARP_STATE_STABLE then
            Some (Returned (i, Some (e_ethaddr (arp_table s ! nat i), e_ipaddr (arp_table s ! nat i))), s)
          else Some (Returned (- 1, None), s))"

definition etharp_raw :: "'a arp_scheme arp_env \<Rightarrow> addr \<Rightarrow> u8 list \<Rightarrow> u8 list \<Rightarrow> u8 list \<Rightarrow> u32 \<Rightarrow> u8 list \<Rightarrow> u32 \<Rightarrow> u16 \<Rightarrow> 'a arp_scheme \<Rightarrow>
    (int outcome \<times> 'a arp_scheme) option" where
  "etharp_raw env netif ethsrc_addr ethdst_addr hwsrc_addr ipsrc_addr hwdst_addr ipdst_addr opcode s =
     after (pbuf_alloc (arp_stack env) PBUF_RAW SIZEOF_ETHARP_PACKET PBUF_RAM s)
       (\<lambda>p s.
          if p = NULL then Some (Returned ERR_MEM, s)
          else
            let ethhdr = payload s p;
                hdr = ethhdr + SIZEOF_ETH_HDR;
                s = store_word (hdr_opcode hdr) (lwip_htons opcode) s;
                s = ETHADDR_COPY (hdr_shwaddr hdr) hwsrc_addr s;
                s = ETHADDR_COPY (hdr_dhwaddr hdr) hwdst_addr s;
                s = ETHADDR_COPY (eth_dest ethhdr) ethdst_addr s;
                s = ETHADDR_COPY (eth_src ethhdr) ethsrc_addr s;
                s = store_ip (hdr_sipaddr hdr) ipsrc_addr s;
                s = store_ip (hdr_dipaddr hdr) ipdst_addr s;
                s = store_word (hdr_hwtype hdr) (lwip_htons HWTYPE_ETHERNET) s;
                s = store_word (hdr_proto hdr) (lwip_htons ETHTYPE_IP) s;
                s = store_byte (hdr_hwlen hdr) ETHARP_HWADDR_LEN s;
                s = store_byte (hdr_protolen hdr) 4 s;
                s = store_word (eth_type ethhdr) (lwip_htons ETHTYPE_ARP) s
            in after (link_output env (netif_linkoutput s netif) netif p s)
                 (\<lambda>result s. after (pbuf_free (arp_stack env) p s) (\<lambda>_ s. Some (Returned result, s))))"

definition etharp_request :: "'a arp_scheme arp_env \<Rightarrow> addr \<Rightarrow> u32 \<Rightarrow> 'a arp_scheme \<Rightarrow> (int outcome \<times> 'a arp_scheme) option" where
  "etharp_request env netif ipaddr s =
     etharp_raw env netif (netif_hwaddr s netif) ethbroadcast (netif_hwaddr s netif) (netif_ip_addr s netif) ethzero ipaddr ARP_REQUEST s"

definition etharp_gratuitous :: "'a arp_scheme arp_env \<Rightarrow> addr \<Rightarrow> 'a arp_scheme \<Rightarrow> (int outcome \<times> 'a arp_scheme) option" where
  "etharp_gratuitous env netif s = etharp_request env netif (netif_ip_addr s netif) s"

section \<open>Queries\<close>

text \<open>The pbuf at which the search for one that cannot stay ends, NULL when all are in ROM.\<close>

partial_function (option) copy_from :: "addr \<Rightarrow> 'a arp_scheme \<Rightarrow> addr option" where
  "copy_from p s = (if p \<noteq> NULL then if pb_type s p \<noteq> PBUF_ROM then Some p else copy_from (pb_next s p) s else Some NULL)"

partial_function (option) queue_last :: "addr \<Rightarrow> 'a arp_scheme \<Rightarrow> addr option" where
  "queue_last r s = (if pb_next s r \<noteq> NULL then queue_last (pb_next s r) s else Some r)"

definition query_copy :: "'a arp_scheme arp_env \<Rightarrow> addr \<Rightarrow> 'a arp_scheme \<Rightarrow> (addr outcome \<times> 'a arp_scheme) option" where
  "query_copy env q s =
     (case copy_from q s of
        None \<Rightarrow> None
      | Some p \<Rightarrow>
          if p \<noteq> NULL then
            after (pbuf_alloc (arp_stack env) PBUF_RAW (tot_len s p) PBUF_RAM s)
              (\<lambda>p s.
                 if p \<noteq> NULL then
                   (case pbuf_copy p q s of
                      None \<Rightarrow> None
                    | Some (r, s) \<Rightarrow>
                        if r \<noteq> ERR_OK then after (pbuf_free (arp_stack env) p s) (\<lambda>_ s. Some (Returned NULL, s))
                        else Some (Returned p, s))
                 else Some (Returned p, s))
          else
            let p = q
            in Some (Returned p, pbuf_reference p s))"

definition query_queue :: "'a arp_scheme arp_env \<Rightarrow> nat \<Rightarrow> addr \<Rightarrow> 'a arp_scheme \<Rightarrow> (int outcome \<times> 'a arp_scheme) option" where
  "query_queue env i p s =
     (let (new_entry, s) = memp_malloc MEMP_ARP_QUEUE s
      in if new_entry \<noteq> NULL then
           let s = s\<lparr>pb_next := (pb_next s)(new_entry := 0)\<rparr>;
               s = s\<lparr>q_p := (q_p s)(new_entry := p)\<rparr>
           in if e_q (arp_table s ! i) \<noteq> NULL then
                (case queue_last (e_q (arp_table s ! i)) s of
                   None \<Rightarrow> None
                 | Some r \<Rightarrow> Some (Returned ERR_OK, s\<lparr>pb_next := (pb_next s)(r := new_entry)\<rparr>))
              else Some (Returned ERR_OK, upd_entry i (\<lambda>e. e\<lparr>e_q := new_entry\<rparr>) s)
         else after (pbuf_free (arp_stack env) p s) (\<lambda>_ s. Some (Returned ERR_MEM, s)))"

definition query_packet :: "'a arp_scheme arp_env \<Rightarrow> addr \<Rightarrow> nat \<Rightarrow> addr \<Rightarrow> int \<Rightarrow> 'a arp_scheme \<Rightarrow> (int outcome \<times> 'a arp_scheme) option" where
  "query_packet env netif i q result s =
     (if e_state (arp_table s ! i) = ETHARP_STATE_STABLE then
        let s = s\<lparr>etharp_cached_entry := of_nat i\<rparr>
        in etharp_send_ip env netif q (netif_hwaddr s netif) (e_ethaddr (arp_table s ! i)) s
      else if e_state (arp_table s ! i) = ETHARP_STATE_PENDING then
        after (query_copy env q s)
          (\<lambda>p s. if p \<noteq> NULL then query_queue env i p s else Some (Returned ERR_MEM, s))
      else Some (Returned result, s))"

definition etharp_query :: "'a arp_scheme arp_env \<Rightarrow> addr \<Rightarrow> u32 \<Rightarrow> addr \<Rightarrow> 'a arp_scheme \<Rightarrow> (int outcome \<times> 'a arp_scheme) option" where
  "etharp_query env netif ipaddr q s =
     (if ip4_addr_isbroadcast ipaddr netif s \<or> ip_addr_ismulticast ipaddr \<or> ipaddr = IPADDR_ANY then Some (Returned ERR_ARG, s)
      else
        after (find_entry env (Some ipaddr) ETHARP_FLAG_TRY_HARD s)
          (\<lambda>i s.
             if i < 0 then Some (Returned i, s)
             else
               let s = (if e_state (arp_table s ! nat i) = ETHARP_STATE_EMPTY
                        then upd_entry (nat i) (\<lambda>e. e\<lparr>e_state := ETHARP_STATE_PENDING\<rparr>) s else s)
               in if e_state (arp_table s ! nat i) = ETHARP_STATE_PENDING \<or> q = NULL then
                    after (etharp_request env netif ipaddr s)
                      (\<lambda>result s. if q = NULL then Some (Returned result, s) else query_packet env netif (nat i) q result s)
                  else query_packet env netif (nat i) q ERR_MEM s))"

definition etharp_output :: "'a arp_scheme arp_env \<Rightarrow> addr \<Rightarrow> addr \<Rightarrow> u32 \<Rightarrow> 'a arp_scheme \<Rightarrow> (int outcome \<times> 'a arp_scheme) option" where
  "etharp_output env netif q ipaddr s =
     (let (r, s) = pbuf_header q 14 s
      in if r \<noteq> 0 then Some (Returned ERR_BUF, s)
         else if ip4_addr_isbroadcast ipaddr netif s then
           let dest = ethbroadcast
           in etharp_send_ip env netif q (netif_hwaddr s netif) dest s
         else if ip_addr_ismulticast ipaddr then
           let mcastaddr = [0x01, 0x00, 0x5e, ip4_addr_bytes ipaddr ! 1 AND 0x7f, ip4_addr_bytes ipaddr ! 2, ip4_addr_bytes ipaddr ! 3]
           in etharp_send_ip env netif q (netif_hwaddr s netif) mcastaddr s
         else if \<not> ip_addr_netcmp ipaddr (netif_ip_addr s netif) (netif_netmask s netif) \<and> \<not> ip_addr_islinklocal ipaddr \<and>
           netif_gw s netif = IPADDR_ANY then Some (Returned ERR_RTE, s)
         else
           let ipaddr = (if \<not> ip_addr_netcmp ipaddr (netif_ip_addr s netif) (netif_netmask s netif) \<and> \<not> ip_addr_islinklocal ipaddr
                         then netif_gw s netif else ipaddr);
               c = arp_table s ! unat (etharp_cached_entry s)
           in if e_state c = ETHARP_STATE_STABLE \<and> ipaddr = e_ipaddr c then
                etharp_send_ip env netif q (netif_hwaddr s netif) (e_ethaddr c) s
              else etharp_query env netif ipaddr q s)"

section \<open>Input\<close>

definition etharp_ip_input :: "'a arp_scheme arp_env \<Rightarrow> addr \<Rightarrow> addr \<Rightarrow> 'a arp_scheme \<Rightarrow> (unit outcome \<times> 'a arp_scheme) option" where
  "etharp_ip_input env netif p s =
     (if netif = NULL then Some (Returned (), s)
      else
        let ethhdr = payload s p;
            iphdr = ethhdr + SIZEOF_ETH_HDR;
            iphdr_src = load_dword (bytes s) (iphdr + 12)
        in if \<not> ip_addr_netcmp iphdr_src (netif_ip_addr s netif) (netif_netmask s netif) then Some (Returned (), s)
           else after (update_arp_entry env netif iphdr_src (eth_src ethhdr) ETHARP_FLAG_FIND_ONLY s) (\<lambda>_ s. Some (Returned (), s)))"

text \<open>The answer to a request for our address, in the frame that asked.\<close>

definition arp_reply :: "addr \<Rightarrow> u8 list \<Rightarrow> addr \<Rightarrow> 'a arp_scheme \<Rightarrow> 'a arp_scheme" where
  "arp_reply netif hwaddr ethhdr s =
     (let hdr = ethhdr + SIZEOF_ETH_HDR;
          s = store_word (hdr_opcode hdr) (lwip_htons ARP_REPLY) s;
          s = store_ip (hdr_dipaddr hdr) (load_dword (bytes s) (hdr_sipaddr hdr)) s;
          s = store_ip (hdr_sipaddr hdr) (netif_ip_addr s netif) s;
          s = ETHADDR_COPY (hdr_dhwaddr hdr) (load_eth (hdr_shwaddr hdr) s) s;
          s = ETHADDR_COPY (eth_dest ethhdr) (load_eth (hdr_shwaddr hdr) s) s;
          s = ETHADDR_COPY (hdr_shwaddr hdr) hwaddr s
      in ETHADDR_COPY (eth_src ethhdr) hwaddr s)"

definition etharp_arp_input :: "'a arp_scheme arp_env \<Rightarrow> addr \<Rightarrow> u8 list \<Rightarrow> addr \<Rightarrow> 'a arp_scheme \<Rightarrow> (unit outcome \<times> 'a arp_scheme) option" where
  "etharp_arp_input env netif hwaddr p s =
     (if netif = NULL then Some (Returned (), s)
      else if pb_len s p < SIZEOF_ETHARP_PACKET then after (pbuf_free (arp_stack env) p s) (\<lambda>_ s. Some (Returned (), s))
      else
        let ethhdr = payload s p;
            hdr = ethhdr + SIZEOF_ETH_HDR
        in if load_word (hdr_hwtype hdr) s \<noteq> lwip_htons HWTYPE_ETHERNET \<or> bytes s (hdr_hwlen hdr) \<noteq> ETHARP_HWADDR_LEN \<or>
             bytes s (hdr_protolen hdr) \<noteq> 4 \<or> load_word (hdr_proto hdr) s \<noteq> lwip_htons ETHTYPE_IP then
             after (pbuf_free (arp_stack env) p s) (\<lambda>_ s. Some (Returned (), s))
           else
             let sipaddr = load_dword (bytes s) (hdr_sipaddr hdr);
                 dipaddr = load_dword (bytes s) (hdr_dipaddr hdr);
                 for_us = netif_ip_addr s netif \<noteq> IPADDR_ANY \<and> dipaddr = netif_ip_addr s netif
             in after (update_arp_entry env netif sipaddr (hdr_shwaddr hdr) (if for_us then ETHARP_FLAG_TRY_HARD else ETHARP_FLAG_FIND_ONLY) s)
                  (\<lambda>_ s.
                     after (if load_word (hdr_opcode hdr) s = lwip_htons ARP_REQUEST \<and> for_us then
                              let s = arp_reply netif hwaddr ethhdr s
                              in after (link_output env (netif_linkoutput s netif) netif p s) (\<lambda>_ s. Some (Returned (), s))
                            else Some (Returned (), s))
                       (\<lambda>_ s. after (pbuf_free (arp_stack env) p s) (\<lambda>_ s. Some (Returned (), s)))))"

definition ethernet_input :: "'a arp_scheme arp_env \<Rightarrow> addr \<Rightarrow> addr \<Rightarrow> 'a arp_scheme \<Rightarrow> (int outcome \<times> 'a arp_scheme) option" where
  "ethernet_input env p netif s =
     (let free_and_return = (\<lambda>s. after (pbuf_free (arp_stack env) p s) (\<lambda>_ s. Some (Returned ERR_OK, s)))
      in if ucast (pb_len s p) \<le> SIZEOF_ETH_HDR then free_and_return s
         else
           let ethhdr = payload s p;
               ty = load_word (eth_type ethhdr) s
           in if ty = lwip_htons ETHTYPE_IP then
                if netif_flags s netif AND NETIF_FLAG_ETHARP = 0 then free_and_return s
                else
                  after (etharp_ip_input env netif p s)
                    (\<lambda>_ s.
                       let (r, s) = pbuf_header p (- 14) s
                       in if r \<noteq> 0 then free_and_return s
                          else after (ip_input env p netif s) (\<lambda>_ s. Some (Returned ERR_OK, s)))
              else if ty = lwip_htons ETHTYPE_ARP then
                if netif_flags s netif AND NETIF_FLAG_ETHARP = 0 then free_and_return s
                else after (etharp_arp_input env netif (netif_hwaddr s netif) p s) (\<lambda>_ s. Some (Returned ERR_OK, s))
              else free_and_return s)"

end
