(* ===== verification/ArpTable.thy ===== *)
theory ArpTable
  imports Etharp
begin

text \<open>
  The table of netif/etharp.c: what every operation does to it, its form as an invariant, the age at which entries go, the choice of
  the entry that is given up for a new address, and the way from an answer to the first packet.  The lemmas of the first
  section say that the layers below touch none of the fields behind those of the pbufs, so that each operation is
  described by what it does to the rest.
\<close>

section \<open>What the layers below leave alone\<close>

text \<open>The kernel, the allocator and the pbufs do not touch the fields behind those of the pbufs.\<close>

named_theorems pb_more_simps

lemma pb_more_basic [pb_more_simps]:
  "pbufs.more (write_dword a d s) = pbufs.more s"
  "pbufs.more (list_add x y s) = pbufs.more s"
  "pbufs.more (list_del x s) = pbufs.more s"
  "pbufs.more (atom_operate_unlock k s) = pbufs.more s"
  "pbufs.more (snd (atom_operate_lock s)) = pbufs.more s"
  by (simp_all add: write_dword_def list_add_def list_add_between_def list_del_def list_del_between_def set_next_def set_prev_def
      atom_operate_unlock_def atom_operate_lock_def Let_def)

lemma pb_more_threads [pb_more_simps]:
  "pbufs.more (OS_thread_switch s) = pbufs.more s"
  "pbufs.more (vivify_thread t q s) = pbufs.more s"
  "pbufs.more (activate_thread t q s) = pbufs.more s"
  "pbufs.more (scheduler s) = pbufs.more s"
  by (simp_all add: OS_thread_switch_def vivify_thread_def activate_thread_def scheduler_def Let_def pb_more_simps)

lemma pb_more_semaphore:
  "pbufs.more (snd (semaphore_post x s)) = pbufs.more s"
  "semaphore_wait x 0 s = Some (r, s') \<Longrightarrow> pbufs.more s' = pbufs.more s"
  by (auto simp: semaphore_post_def semaphore_wait_def Let_def split_def pb_more_simps split: if_splits)

lemma pb_more_allocator:
  "free p s = Some (r, s') \<Longrightarrow> pbufs.more s' = pbufs.more s"
  "malloc n s = Some (q, s') \<Longrightarrow> pbufs.more s' = pbufs.more s"
  by (auto simp: free_def malloc_def free_rest_def malloc_rest_def Let_def split_def pb_more_semaphore
      split: if_splits option.splits prod.splits outcome.splits dest!: pb_more_semaphore(2))


lemma pb_more_pools:
  "pbufs.more (memp_free t m s) = pbufs.more s"
  "pbufs.more (snd (memp_malloc t s)) = pbufs.more s"
  "pbufs.more (pbuf_reference p s) = pbufs.more s"
  "pbufs.more (snd (pbuf_header p n s)) = pbufs.more s"
  by (simp_all add: memp_free_def memp_malloc_def pbuf_reference_def pbuf_header_def sys_arch_protect_def sys_arch_unprotect_def
      atom_operate_lock_def atom_operate_unlock_def Let_def split_def)

lemma pb_more_ram:
  "pbuf_alloc env PBUF_RAW n PBUF_RAM s = Some (r, s') \<Longrightarrow> pbufs.more s' = pbufs.more s"
  by (auto simp: pbuf_alloc_def after_def pbuf_ram_init_def pbuf_init_flags_def pbuf_offset_def Let_def
      split: option.splits prod.splits outcome.splits if_splits
      dest!: pb_more_allocator(2))

definition quiet_stack :: "'a pbufs_scheme stack \<Rightarrow> bool" where
  "quiet_stack env \<longleftrightarrow> (\<forall>f p s r s'. custom_free env f p s = Some (r, s') \<longrightarrow> pbufs.more s' = pbufs.more s)"

lemma pb_more_release:
  "quiet_stack env \<Longrightarrow> pbuf_release env p s = Some (r, s') \<Longrightarrow> pbufs.more s' = pbufs.more s"
  by (auto simp: pbuf_release_def quiet_stack_def pb_more_pools split: if_splits dest: pb_more_allocator(1))

lemma pb_more_free:
  assumes "quiet_stack env" "pbuf_free env p s = Some (r, s')"
  shows "pbufs.more s' = pbufs.more s"
proof -
  have step: "quiet_stack env \<longrightarrow> pbufs.more (snd y) = pbufs.more s"
    if IH: "\<And>env p n s y. loop env p n s = Some y \<Longrightarrow> quiet_stack env \<longrightarrow> pbufs.more (snd y) = pbufs.more s"
      and y: "(if p \<noteq> NULL then
        let (old_level, s) = sys_arch_protect s;
            s = s\<lparr>pb_ref := (pb_ref s)(p := pb_ref s p - 1)\<rparr>;
            ref = pb_ref s p;
            s = sys_arch_unprotect old_level s
        in if ref = 0 then
             let q = pb_next s p
             in (case pbuf_release env p s of
                   None \<Rightarrow> None
                 | Some (Switched, s) \<Rightarrow> Some (Switched, s)
                 | Some (Returned _, s) \<Rightarrow> loop env q (n + 1) s)
           else Some (Returned n, s)
      else Some (Returned n, s)) = Some y" for loop env p n and s :: "'a pbufs_scheme" and y
  proof -
    define s2 where "s2 = s\<lparr>pb_ref := (pb_ref s)(p := pb_ref s p - 1)\<rparr>"
    have m: "pbufs.more s2 = pbufs.more s" by (simp add: s2_def)
    show ?thesis
    proof (cases "p \<noteq> NULL \<and> pb_ref s p = 1")
      case True
      then have "(case pbuf_release env p s2 of None \<Rightarrow> None | Some (Switched, t) \<Rightarrow> Some (Switched, t)
            | Some (Returned _, t) \<Rightarrow> loop env (pb_next s p) (n + 1) t) = Some y"
        using y by (simp add: s2_def Let_def sys_arch_protect_def sys_arch_unprotect_def atom_operate_lock_def atom_operate_unlock_def)
      then show ?thesis using m IH by (auto split: option.splits prod.splits outcome.splits dest!: pb_more_release)
    next
      case False
      then show ?thesis
        using y by (auto simp: sys_arch_protect_def sys_arch_unprotect_def atom_operate_lock_def atom_operate_unlock_def split: if_splits)
    qed
  qed
  have "quiet_stack env \<longrightarrow> pbufs.more (snd y) = pbufs.more s" if "pbuf_free_loop env p n s = Some y" for n y
    by (rule pbuf_free_loop.raw_induct [where P = "\<lambda>env p n s y. quiet_stack env \<longrightarrow> pbufs.more (snd y) = pbufs.more s", OF step that])
  from this [of 0] assms show ?thesis by (auto simp: pbuf_free_def split: if_splits)
qed

lemma pb_more_copy_loop: "copy_loop a b i j s = Some y \<Longrightarrow> pbufs.more (snd y) = pbufs.more s"
  by (rule copy_loop.raw_induct [where P = "\<lambda>a b i j s y. pbufs.more (snd y) = pbufs.more s", rotated], assumption)
    (auto simp: Let_def copy_bytes_def split: if_splits prod.splits)

lemma pb_more_copy: "pbuf_copy a b s = Some (r, s') \<Longrightarrow> pbufs.more s' = pbufs.more s"
  by (auto simp: pbuf_copy_def split: if_splits dest: pb_more_copy_loop)

section \<open>What the operations do to the table\<close>

text \<open>The fields of the stack, and what the drivers must leave alone.\<close>

lemma arp_of_more:
  "pbufs.more s' = pbufs.more s \<Longrightarrow> arp_table s' = arp_table s \<and> netif_hwaddr s' = netif_hwaddr s \<and> netif_linkoutput s' = netif_linkoutput s \<and>
     netif_flags s' = netif_flags s \<and> netif_ip_addr s' = netif_ip_addr s \<and> netif_netmask s' = netif_netmask s \<and> netif_gw s' = netif_gw s \<and>
     etharp_cached_entry s' = etharp_cached_entry s \<and> q_p s' = q_p s"
  by (cases s; cases s') simp

lemma upd_entry_more: "pbufs.more s' = pbufs.more s \<Longrightarrow> pbufs.more (upd_entry i f s') = pbufs.more (upd_entry i f s)"
  by (cases s; cases s') (simp add: upd_entry_def)

definition quiet :: "'a arp_scheme arp_env \<Rightarrow> bool" where
  "quiet env \<longleftrightarrow> quiet_stack (arp_stack env) \<and>
     (\<forall>f netif p s r s'. link_output env f netif p s = Some (r, s') \<longrightarrow> pbufs.more s' = pbufs.more s)"

lemma free_etharp_q_more:
  assumes "quiet env" "free_etharp_q env q s = Some (r, s')"
  shows "pbufs.more s' = pbufs.more s"
proof -
  have "quiet env \<longrightarrow> pbufs.more (snd y) = pbufs.more s" if "free_etharp_q env q s = Some y" for y
    by (rule free_etharp_q.raw_induct [where P = "\<lambda>env q s y. quiet env \<longrightarrow> pbufs.more (snd y) = pbufs.more s", rotated, OF that])
      (auto simp: Let_def quiet_def pb_more_pools split: if_splits option.splits prod.splits outcome.splits dest!: pb_more_free)
  from this [of "(r, s')"] assms show ?thesis by simp
qed

text \<open>Changes of an entry compose, and an entry whose queue is empty is one whose queue has been emptied.\<close>

lemma upd_entry_upd: "upd_entry i f (upd_entry i g s) = upd_entry i (\<lambda>e. f (g e)) s"
  by (cases "i < length (arp_table s)") (simp_all add: upd_entry_def list_update_beyond)

lemma upd_entry_none: "f (arp_table s ! i) = arp_table s ! i \<Longrightarrow> upd_entry i f s = s"
  by (simp add: upd_entry_def)

lemma upd_entry_table: "arp_table (upd_entry i f s) = (arp_table s)[i := f (arp_table s ! i)]"
  by (simp add: upd_entry_def)

lemma upd_entry_pb: "pb_next (upd_entry i f s) = pb_next s" "payload (upd_entry i f s) = payload s" "q_p (upd_entry i f s) = q_p s"
  "netif_hwaddr (upd_entry i f s) = netif_hwaddr s" "bytes (upd_entry i f s) = bytes s"
  by (simp_all add: upd_entry_def)

lemma send_ip_more:
  assumes "quiet env" "etharp_send_ip env netif p src dst s = Some (r, s')"
  shows "pbufs.more s' = pbufs.more s"
proof -
  define s1 where "s1 = store_word (eth_type (payload s p)) (lwip_htons ETHTYPE_IP) (ETHADDR_COPY (eth_src (payload s p)) src
    (ETHADDR_COPY (eth_dest (payload s p)) dst s))"
  have "link_output env (netif_linkoutput s1 netif) netif p s1 = Some (r, s')"
    using assms(2) by (simp add: etharp_send_ip_def s1_def Let_def)
  then have "pbufs.more s' = pbufs.more s1" using assms(1) unfolding quiet_def by blast
  then show ?thesis by (simp add: s1_def store_word_def ETHADDR_COPY_def)
qed

lemma send_queue_more:
  assumes "quiet env" "send_queue env netif hw i s = Some (Returned r, s')"
  shows "pbufs.more s' = pbufs.more (upd_entry i (\<lambda>e. e\<lparr>e_q := NULL\<rparr>) s)"
proof -
  have step: "quiet env \<longrightarrow> (\<forall>r. fst y = Returned r \<longrightarrow> pbufs.more (snd y) = pbufs.more (upd_entry i (\<lambda>e. e\<lparr>e_q := NULL\<rparr>) s))"
    if IH: "\<And>env netif hw i s y. loop env netif hw i s = Some y \<Longrightarrow>
        quiet env \<longrightarrow> (\<forall>r. fst y = Returned r \<longrightarrow> pbufs.more (snd y) = pbufs.more (upd_entry i (\<lambda>e. e\<lparr>e_q := NULL\<rparr>) s))"
      and y: "(if e_q (arp_table s ! i) \<noteq> NULL then
        let q = e_q (arp_table s ! i);
            s = upd_entry i (\<lambda>e. e\<lparr>e_q := pb_next s q\<rparr>) s;
            p = q_p s q;
            s = memp_free MEMP_ARP_QUEUE q s
        in (case etharp_send_ip env netif p (netif_hwaddr s netif) (load_eth hw s) s of
              None \<Rightarrow> None
            | Some (Switched, s) \<Rightarrow> Some (Switched, s)
            | Some (Returned _, s) \<Rightarrow>
                (case pbuf_free (arp_stack env) p s of
                   None \<Rightarrow> None
                 | Some (Switched, s) \<Rightarrow> Some (Switched, s)
                 | Some (Returned _, s) \<Rightarrow> loop env netif hw i s))
      else Some (Returned (), s)) = Some y"
    for loop and env :: "'a arp_scheme arp_env" and netif hw i s y
  proof (intro impI allI)
    fix r
    assume q: "quiet env" and r: "fst y = Returned r"
    then have qs: "quiet_stack (arp_stack env)" by (simp add: quiet_def)
    show "pbufs.more (snd y) = pbufs.more (upd_entry i (\<lambda>e. e\<lparr>e_q := NULL\<rparr>) s)"
    proof (cases "e_q (arp_table s ! i) = NULL")
      case True
      then show ?thesis using y by (auto simp: upd_entry_none)
    next
      case False
      define s1 where "s1 = memp_free MEMP_ARP_QUEUE (e_q (arp_table s ! i)) (upd_entry i (\<lambda>e. e\<lparr>e_q := pb_next s (e_q (arp_table s ! i))\<rparr>) s)"
      define p where "p = q_p s (e_q (arp_table s ! i))"
      have m: "pbufs.more s1 = pbufs.more (upd_entry i (\<lambda>e. e\<lparr>e_q := pb_next s (e_q (arp_table s ! i))\<rparr>) s)"
        by (simp add: s1_def pb_more_pools)
      obtain ra s2 rb s3 where c: "etharp_send_ip env netif p (netif_hwaddr s1 netif) (load_eth hw s1) s1 = Some (Returned ra, s2)"
        "pbuf_free (arp_stack env) p s2 = Some (Returned rb, s3)" "loop env netif hw i s3 = Some y"
        using y r False by (auto simp: Let_def s1_def p_def upd_entry_pb split: option.splits prod.splits outcome.splits)
      have "pbufs.more s3 = pbufs.more s1" using send_ip_more [OF q c(1)] pb_more_free [OF qs c(2)] by simp
      then have "pbufs.more (upd_entry i (\<lambda>e. e\<lparr>e_q := NULL\<rparr>) s3) = pbufs.more (upd_entry i (\<lambda>e. e\<lparr>e_q := NULL\<rparr>) s)"
        using m by (simp add: upd_entry_more [of s3] upd_entry_more [OF m] upd_entry_upd)
      then show ?thesis using IH [OF c(3)] q r by simp
    qed
  qed
  have "quiet env \<longrightarrow> (\<forall>r. fst y = Returned r \<longrightarrow> pbufs.more (snd y) = pbufs.more (upd_entry i (\<lambda>e. e\<lparr>e_q := NULL\<rparr>) s))"
    if "send_queue env netif hw i s = Some y" for y
    by (rule send_queue.raw_induct [where P = "\<lambda>env netif hw i s y. quiet env \<longrightarrow>
      (\<forall>r. fst y = Returned r \<longrightarrow> pbufs.more (snd y) = pbufs.more (upd_entry i (\<lambda>e. e\<lparr>e_q := NULL\<rparr>) s))", OF step that])
  then show ?thesis using assms by fastforce
qed

lemma free_entry_more:
  assumes "quiet env" "free_entry env i s = Some (Returned r, s')"
  shows "pbufs.more s' = pbufs.more (upd_entry i (\<lambda>e. e\<lparr>e_q := NULL, e_state := ETHARP_STATE_EMPTY\<rparr>) s)"
proof (cases "e_q (arp_table s ! i) = NULL")
  case True
  then have "s' = upd_entry i (\<lambda>e. e\<lparr>e_state := ETHARP_STATE_EMPTY\<rparr>) (upd_entry i (\<lambda>e. e\<lparr>e_q := NULL\<rparr>) s)"
    using assms(2) by (simp add: free_entry_def after_def upd_entry_none)
  then show ?thesis by (simp add: upd_entry_upd)
next
  case False
  then obtain s1 where "free_etharp_q env (e_q (arp_table s ! i)) s = Some (Returned (), s1)"
    "s' = upd_entry i (\<lambda>e. e\<lparr>e_state := ETHARP_STATE_EMPTY\<rparr>) (upd_entry i (\<lambda>e. e\<lparr>e_q := NULL\<rparr>) s1)"
    using assms(2) by (auto simp: free_entry_def after_def split: option.splits prod.splits outcome.splits)
  then show ?thesis using upd_entry_more [OF free_etharp_q_more [OF assms(1)]] by (simp add: upd_entry_upd)
qed

section \<open>Ageing\<close>

definition aged :: "etharp_entry \<Rightarrow> etharp_entry" where
  "aged e =
     (if e_state e = ETHARP_STATE_EMPTY then e
      else if ARP_MAXAGE \<le> e_ctime e + 1 \<or> e_state e = ETHARP_STATE_PENDING \<and> ARP_MAXPENDING \<le> e_ctime e + 1
      then e\<lparr>e_ctime := e_ctime e + 1, e_q := NULL, e_state := ETHARP_STATE_EMPTY\<rparr>
      else e\<lparr>e_ctime := e_ctime e + 1\<rparr>)"

lemma tmr_entry_more:
  assumes "quiet env" "tmr_entry env i s = Some (Returned r, s')" "i < length (arp_table s)"
  shows "pbufs.more s' = pbufs.more (upd_entry i aged s)"
proof -
  let ?e = "arp_table s ! i" and ?s = "upd_entry i (\<lambda>e. e\<lparr>e_ctime := e_ctime e + 1\<rparr>) s"
  have e: "arp_table ?s ! i = ?e\<lparr>e_ctime := e_ctime ?e + 1\<rparr>" using assms(3) by (simp add: upd_entry_table)
  have u: "pbufs.more (upd_entry i f s) = pbufs.more (upd_entry i g s)" if "f ?e = g ?e" for f g
    using that by (simp add: upd_entry_def)
  show ?thesis
  proof (cases "e_state ?e = ETHARP_STATE_EMPTY")
    case True
    then show ?thesis using assms(2) by (simp add: tmr_entry_def aged_def upd_entry_none)
  next
    case False
    show ?thesis
    proof (cases "ARP_MAXAGE \<le> e_ctime ?e + 1 \<or> e_state ?e = ETHARP_STATE_PENDING \<and> ARP_MAXPENDING \<le> e_ctime ?e + 1")
      case True
      then have "free_entry env i ?s = Some (Returned r, s')" using assms(2) False e by (simp add: tmr_entry_def Let_def)
      from free_entry_more [OF assms(1) this] show ?thesis
        using True False by (auto simp: upd_entry_upd aged_def intro!: u)
    next
      case n: False
      then have "s' = ?s" using assms(2) False e by (auto simp: tmr_entry_def Let_def)
      then show ?thesis using n False by (auto simp: aged_def intro!: u)
    qed
  qed
qed

lemma tmr_entries_table:
  assumes "quiet env" "tmr_entries env is s = Some (Returned r, s')" "distinct is" "\<forall>i\<in>set is. i < length (arp_table s)"
  shows "arp_table s' = map (\<lambda>i. if i \<in> set is then aged (arp_table s ! i) else arp_table s ! i) [0..<length (arp_table s)]"
  using assms(2-)
proof (induction "is" arbitrary: s)
  case Nil
  then show ?case by (simp add: map_nth)
next
  case (Cons i "is")
  then obtain r1 s1 where c: "tmr_entry env i s = Some (Returned r1, s1)" "tmr_entries env is s1 = Some (Returned r, s')"
    by (auto simp: after_def split: option.splits prod.splits outcome.splits)
  have "i < length (arp_table s)" using Cons.prems by simp
  from arp_of_more [OF tmr_entry_more [OF assms(1) c(1) this]] have t: "arp_table s1 = (arp_table s)[i := aged (arp_table s ! i)]"
    by (simp add: upd_entry_table)
  have "arp_table s' = map (\<lambda>i. if i \<in> set is then aged (arp_table s1 ! i) else arp_table s1 ! i) [0..<length (arp_table s1)]"
    using Cons.prems t by (intro Cons.IH c(2)) auto
  then show ?case using Cons.prems(2,3) t by (auto simp: nth_list_update)
qed

lemma etharp_tmr_table:
  assumes "quiet env" "etharp_tmr env s = Some (Returned r, s')" "length (arp_table s) = ARP_TABLE_SIZE"
  shows "arp_table s' = map aged (arp_table s)"
proof -
  have "arp_table s' = map (\<lambda>i. if i \<in> set [0..<ARP_TABLE_SIZE] then aged (arp_table s ! i) else arp_table s ! i) [0..<length (arp_table s)]"
    using assms by (intro tmr_entries_table) (auto simp: etharp_tmr_def)
  then show ?thesis using assms(3) by (intro nth_equalityI) (simp_all del: upt_Suc)
qed

section \<open>Finding an entry\<close>

lemma sweep_Inl:
  "sweep a k es c = Inl i \<Longrightarrow> k \<le> i \<and> i < k + length es \<and> e_state (es ! (i - k)) \<noteq> ETHARP_STATE_EMPTY \<and> a = Some (e_ipaddr (es ! (i - k)))"
proof (induction es arbitrary: k c)
  case (Cons e es)
  have "Suc k \<le> i \<Longrightarrow> (e # es) ! (i - k) = es ! (i - Suc k)" by (simp add: nth_Cons' Suc_diff_le)
  then show ?case using Cons by (fastforce split: if_splits)
qed simp

lemma sweep_Inr: "sweep a k es c = Inr c' \<Longrightarrow> e \<in> set es \<Longrightarrow> e_state e \<noteq> ETHARP_STATE_EMPTY \<Longrightarrow> a \<noteq> Some (e_ipaddr e)"
  by (induction es arbitrary: k c) (auto split: if_splits)

text \<open>A candidate is the last among the oldest entries of its kind.\<close>

definition oldest :: "(etharp_entry \<Rightarrow> bool) \<Rightarrow> etharp_entry list \<Rightarrow> nat \<Rightarrow> u8 \<Rightarrow> bool" where
  "oldest P es i age \<longleftrightarrow>
     (if \<exists>e\<in>set es. P e then i < length es \<and> P (es ! i) \<and> age = e_ctime (es ! i) \<and> (\<forall>e\<in>set es. P e \<longrightarrow> e_ctime e \<le> age)
      else i = ARP_TABLE_SIZE \<and> age = 0)"

definition is_stable :: "etharp_entry \<Rightarrow> bool" where "is_stable e \<longleftrightarrow> e_state e = ETHARP_STATE_STABLE"
definition is_queued :: "etharp_entry \<Rightarrow> bool" where "is_queued e \<longleftrightarrow> e_state e = ETHARP_STATE_PENDING \<and> e_q e \<noteq> NULL"
definition is_unqueued :: "etharp_entry \<Rightarrow> bool" where "is_unqueued e \<longleftrightarrow> e_state e = ETHARP_STATE_PENDING \<and> e_q e = NULL"

lemma oldest_snoc:
  assumes "oldest P es i age"
  shows "if P e \<and> age \<le> e_ctime e then oldest P (es @ [e]) (length es) (e_ctime e) else oldest P (es @ [e]) i age"
  using assms by (auto simp: oldest_def nth_append split: if_splits)

definition candidates_of :: "etharp_entry list \<Rightarrow> candidates \<Rightarrow> bool" where
  "candidates_of es c \<longleftrightarrow> oldest is_stable es (old_stable c) (age_stable c) \<and> oldest is_queued es (old_queue c) (age_queue c) \<and>
     oldest is_unqueued es (old_pending c) (age_pending c) \<and>
     (if \<exists>e\<in>set es. e_state e = ETHARP_STATE_EMPTY then empty_at c < length es \<and> e_state (es ! empty_at c) = ETHARP_STATE_EMPTY
      else empty_at c = ARP_TABLE_SIZE)"

lemma remember_candidates:
  assumes "candidates_of es c" "e_state e \<noteq> ETHARP_STATE_EMPTY"
  shows "candidates_of (es @ [e]) (remember (length es) e c)"
  using assms oldest_snoc [of is_stable es "old_stable c" "age_stable c" e] oldest_snoc [of is_queued es "old_queue c" "age_queue c" e]
    oldest_snoc [of is_unqueued es "old_pending c" "age_pending c" e]
  by (auto simp: candidates_of_def remember_def is_stable_def is_queued_def is_unqueued_def nth_append split: if_splits)

lemma empty_candidates:
  assumes "candidates_of es c" "e_state e = ETHARP_STATE_EMPTY" "length es < ARP_TABLE_SIZE"
  shows "candidates_of (es @ [e]) (if empty_at c = ARP_TABLE_SIZE then c\<lparr>empty_at := length es\<rparr> else c)"
  using assms oldest_snoc [of is_stable es "old_stable c" "age_stable c" e] oldest_snoc [of is_queued es "old_queue c" "age_queue c" e]
    oldest_snoc [of is_unqueued es "old_pending c" "age_pending c" e]
  by (auto simp: candidates_of_def is_stable_def is_queued_def is_unqueued_def nth_append split: if_splits)

lemma sweep_candidates:
  "sweep a (length pre) es c = Inr c' \<Longrightarrow> candidates_of pre c \<Longrightarrow> length (pre @ es) \<le> ARP_TABLE_SIZE \<Longrightarrow> candidates_of (pre @ es) c'"
proof (induction es arbitrary: pre c)
  case (Cons e es)
  show ?case
  proof (cases "e_state e = ETHARP_STATE_EMPTY")
    case True
    then have "sweep a (length (pre @ [e])) es (if empty_at c = ARP_TABLE_SIZE then c\<lparr>empty_at := length pre\<rparr> else c) = Inr c'"
      using Cons.prems(1) by (auto split: if_splits)
    from Cons.IH [OF this empty_candidates [OF Cons.prems(2) True]] Cons.prems(3) show ?thesis by simp
  next
    case False
    then have "sweep a (length (pre @ [e])) es (remember (length pre) e c) = Inr c'"
      using Cons.prems(1) by (auto split: if_splits)
    from Cons.IH [OF this remember_candidates [OF Cons.prems(2) False]] Cons.prems(3) show ?thesis by simp
  qed
qed simp

text \<open>The order in which entries are given up.\<close>

definition worth :: "etharp_entry \<Rightarrow> nat" where
  "worth e = (if e_state e = ETHARP_STATE_EMPTY then 0 else if is_stable e then 1 else if is_unqueued e then 2 else 3)"

definition least_worth :: "etharp_entry list \<Rightarrow> nat \<Rightarrow> bool" where
  "least_worth t i \<longleftrightarrow> i < length t \<and>
     (\<forall>e\<in>set t. worth (t ! i) < worth e \<or> worth (t ! i) = worth e \<and> (worth e = 0 \<or> e_ctime e \<le> e_ctime (t ! i)))"

definition entry_ok :: "etharp_entry \<Rightarrow> bool" where
  "entry_ok e \<longleftrightarrow> e_state e = ETHARP_STATE_EMPTY \<and> e_q e = NULL \<or>
     e_state e = ETHARP_STATE_PENDING \<and> e_ctime e < ARP_MAXPENDING \<or>
     e_state e = ETHARP_STATE_STABLE \<and> e_q e = NULL \<and> e_ctime e < ARP_MAXAGE"

definition table_ok :: "etharp_entry list \<Rightarrow> bool" where
  "table_ok t \<longleftrightarrow> length t = ARP_TABLE_SIZE \<and> (\<forall>e\<in>set t. entry_ok e) \<and>
     (\<forall>i<length t. \<forall>j<length t. i \<noteq> j \<longrightarrow> e_state (t ! i) \<noteq> ETHARP_STATE_EMPTY \<longrightarrow> e_state (t ! j) \<noteq> ETHARP_STATE_EMPTY \<longrightarrow>
       e_ipaddr (t ! i) \<noteq> e_ipaddr (t ! j))"

lemma table_ok_update:
  assumes "table_ok t" "entry_ok e"
    and "e_state e \<noteq> ETHARP_STATE_EMPTY \<Longrightarrow> \<forall>j<length t. j \<noteq> i \<longrightarrow> e_state (t ! j) \<noteq> ETHARP_STATE_EMPTY \<longrightarrow> e_ipaddr (t ! j) \<noteq> e_ipaddr e"
  shows "table_ok (t[i := e])"
proof (cases "i < length t")
  case True
  have "\<forall>x\<in>set (t[i := e]). entry_ok x" using assms(1,2) set_update_subset_insert [of t i e] by (auto simp: table_ok_def)
  then show ?thesis using assms(1,3) True unfolding table_ok_def by (auto simp: nth_list_update)
qed (use assms(1) in \<open>simp add: list_update_beyond\<close>)

text \<open>The entry that a search leaves for a new address.\<close>

definition cleared :: "u32 \<Rightarrow> etharp_entry \<Rightarrow> etharp_entry" where
  "cleared a e = e\<lparr>e_q := NULL, e_state := ETHARP_STATE_EMPTY, e_ipaddr := a, e_ctime := 0\<rparr>"

definition known :: "etharp_entry list \<Rightarrow> u32 \<Rightarrow> nat \<Rightarrow> bool" where
  "known t a i \<longleftrightarrow> i < length t \<and> e_state (t ! i) \<noteq> ETHARP_STATE_EMPTY \<and> e_ipaddr (t ! i) = a"

lemma fresh_entry_more:
  assumes "fresh_entry (Some a) i s1 = Some (Returned r, s')" "pbufs.more s1 = pbufs.more (upd_entry i (\<lambda>e. e\<lparr>e_q := NULL, e_state := ETHARP_STATE_EMPTY\<rparr>) s)"
  shows "r = int i" and "pbufs.more s' = pbufs.more (upd_entry i (cleared a) s)"
proof -
  have "s' = upd_entry i (\<lambda>e. e\<lparr>e_ipaddr := a, e_ctime := 0\<rparr>) s1" and r: "r = int i"
    using assms(1) by (simp_all add: fresh_entry_def Let_def upd_entry_upd)
  then show "pbufs.more s' = pbufs.more (upd_entry i (cleared a) s)"
    using upd_entry_more [OF assms(2)] by (simp add: upd_entry_upd cleared_def [abs_def])
  show "r = int i" by (rule r)
qed

lemma find_entry_result:
  assumes "quiet env" "table_ok (arp_table s)" "find_entry env (Some a) flags s = Some (Returned r, s')"
  obtains (found) i where "known (arp_table s) a i" "r = int i" "s' = s"
    | (failed) "\<forall>i. \<not> known (arp_table s) a i" "r = ERR_MEM" "s' = s" "flags AND ETHARP_FLAG_FIND_ONLY \<noteq> 0 \<or> flags AND ETHARP_FLAG_TRY_HARD = 0"
    | (new) i where "\<forall>i. \<not> known (arp_table s) a i" "r = int i" "least_worth (arp_table s) i" "flags AND ETHARP_FLAG_FIND_ONLY = 0"
        "pbufs.more s' = pbufs.more (upd_entry i (cleared a) s)"
proof (cases "sweep (Some a) 0 (arp_table s) no_candidates")
  case (Inl i)
  then have "known (arp_table s) a i" "r = int i" "s' = s"
    using sweep_Inl [OF Inl] assms(3) by (simp_all add: known_def find_entry_def)
  then show thesis by (rule found)
next
  case (Inr c)
  have n: "\<forall>i. \<not> known (arp_table s) a i" using sweep_Inr [OF Inr] nth_mem by (metis known_def)
  have l: "length (arp_table s) = ARP_TABLE_SIZE" and ok: "\<forall>e\<in>set (arp_table s). entry_ok e"
    using assms(2) by (simp_all add: table_ok_def)
  have c: "candidates_of (arp_table s) c"
    using sweep_candidates [of "Some a" "[]" "arp_table s" no_candidates c] Inr l
    by (simp add: candidates_of_def no_candidates_def oldest_def)
  show thesis
  proof (cases "flags AND ETHARP_FLAG_FIND_ONLY \<noteq> 0 \<or> empty_at c = ARP_TABLE_SIZE \<and> flags AND ETHARP_FLAG_TRY_HARD = 0")
    case True
    then show thesis using Inr assms(3) by (intro failed n) (auto simp: find_entry_def)
  next
    case go: False
    have z: "flags AND ETHARP_FLAG_FIND_ONLY = 0" using go by simp
    have pick: thesis if least: "least_worth (arp_table s) i"
      and f: "find_entry env (Some a) flags s = after (free_entry env i s) (\<lambda>_. fresh_entry (Some a) i)" for i
    proof -
      obtain r1 s1 where "free_entry env i s = Some (Returned r1, s1)" "fresh_entry (Some a) i s1 = Some (Returned r, s')"
        using assms(3) unfolding f by (auto simp: after_def split: option.splits prod.splits outcome.splits)
      from fresh_entry_more [OF this(2) free_entry_more [OF assms(1) this(1)]] show thesis
        by (intro new [of i] n least z)
    qed
    have find: "find_entry env (Some a) flags s =
        (if empty_at c < ARP_TABLE_SIZE then fresh_entry (Some a) (empty_at c) s
         else if old_stable c < ARP_TABLE_SIZE then after (free_entry env (old_stable c) s) (\<lambda>_. fresh_entry (Some a) (old_stable c))
         else if old_pending c < ARP_TABLE_SIZE then after (free_entry env (old_pending c) s) (\<lambda>_. fresh_entry (Some a) (old_pending c))
         else if old_queue c < ARP_TABLE_SIZE then after (free_entry env (old_queue c) s) (\<lambda>_. fresh_entry (Some a) (old_queue c))
         else Some (Returned ERR_MEM, s))"
      using Inr go by (auto simp: find_entry_def)
    have none: "oldest P (arp_table s) i age \<Longrightarrow> i < ARP_TABLE_SIZE \<longleftrightarrow> (\<exists>e\<in>set (arp_table s). P e)" for P i age
      using l by (auto simp: oldest_def split: if_splits)
    have full: "empty_at c < ARP_TABLE_SIZE \<longleftrightarrow> (\<exists>e\<in>set (arp_table s). worth e = 0)"
      using c l by (auto simp: candidates_of_def worth_def split: if_splits)
    have k: "oldest is_stable (arp_table s) (old_stable c) (age_stable c)" "oldest is_unqueued (arp_table s) (old_pending c) (age_pending c)"
      "oldest is_queued (arp_table s) (old_queue c) (age_queue c)"
      using c by (simp_all add: candidates_of_def)
    have v: "is_stable e \<longleftrightarrow> worth e = 1" "is_unqueued e \<longleftrightarrow> worth e = 2" "is_queued e \<longleftrightarrow> worth e = 3" "worth e \<le> 3"
      if "e \<in> set (arp_table s)" for e
      using ok that by (auto simp: worth_def entry_ok_def is_queued_def is_unqueued_def is_stable_def)
    have best: "least_worth (arp_table s) i"
      if "oldest P (arp_table s) i age" "i < ARP_TABLE_SIZE" "\<forall>e\<in>set (arp_table s). P e \<longleftrightarrow> worth e = m" "\<forall>e\<in>set (arp_table s). m \<le> worth e" for P i age m
    proof -
      have "i < length (arp_table s)" "P (arp_table s ! i)" "\<forall>e\<in>set (arp_table s). P e \<longrightarrow> e_ctime e \<le> e_ctime (arp_table s ! i)"
        using that(1,2) l by (auto simp: oldest_def split: if_splits)
      moreover from this have "worth (arp_table s ! i) = m" using that(3) by simp
      ultimately show ?thesis using that(3,4) unfolding least_worth_def by (metis le_neq_implies_less)
    qed
    show thesis
    proof (cases "empty_at c < ARP_TABLE_SIZE")
      case True
      then have e: "e_state (arp_table s ! empty_at c) = ETHARP_STATE_EMPTY"
        using c l by (auto simp: candidates_of_def split: if_splits)
      have "entry_ok (arp_table s ! empty_at c)" using ok True l by simp
      then have "e_q (arp_table s ! empty_at c) = NULL" using e by (auto simp: entry_ok_def)
      then have "upd_entry (empty_at c) (\<lambda>e. e\<lparr>e_q := NULL, e_state := ETHARP_STATE_EMPTY\<rparr>) s = s"
        using e by (intro upd_entry_none) simp
      then have "r = int (empty_at c)" "pbufs.more s' = pbufs.more (upd_entry (empty_at c) (cleared a) s)"
        using fresh_entry_more [of a "empty_at c" s r s' s] assms(3) find True by simp_all
      moreover have "least_worth (arp_table s) (empty_at c)" using e True l by (auto simp: least_worth_def worth_def)
      ultimately show thesis using n z by (intro new)
    next
      case ne: False
      then have n0: "\<forall>e\<in>set (arp_table s). worth e \<noteq> 0" using full by auto
      show thesis
      proof (cases "old_stable c < ARP_TABLE_SIZE")
        case True
        then have "least_worth (arp_table s) (old_stable c)" using n0 v(1) by (intro best [OF k(1), of 1]) (auto simp: Suc_le_eq)
        then show thesis using find ne True by (intro pick) simp_all
      next
        case ns: False
        then have n1: "\<forall>e\<in>set (arp_table s). 2 \<le> worth e"
          using none [OF k(1)] n0 v(1) by (metis One_nat_def Suc_1 Suc_leI le_neq_implies_less not_gr_zero)
        show thesis
        proof (cases "old_pending c < ARP_TABLE_SIZE")
          case True
          then have "least_worth (arp_table s) (old_pending c)" using n1 v(2) by (intro best [OF k(2), of 2]) auto
          then show thesis using find ne ns True by (intro pick) simp_all
        next
          case False
          then have n2: "\<forall>e\<in>set (arp_table s). worth e = 3"
            using none [OF k(2)] n1 v(2,4) by (metis eval_nat_numeral(3) le_SucE le_antisym)
          moreover have "arp_table s ! 0 \<in> set (arp_table s)" using l by simp
          ultimately have q: "old_queue c < ARP_TABLE_SIZE" using none [OF k(3)] v(3) by blast
          then have "least_worth (arp_table s) (old_queue c)" using n2 v(3) by (intro best [OF k(3), of 3]) auto
          then show thesis using find ne ns False q by (intro pick) simp_all
        qed
      qed
    qed
  qed
qed

section \<open>The table keeps its form\<close>

lemma store_more [pb_more_simps]:
  "pbufs.more (store_word a w s) = pbufs.more s" "pbufs.more (store_byte a b s) = pbufs.more s"
  "pbufs.more (store_ip a d s) = pbufs.more s" "pbufs.more (ETHADDR_COPY a bs s) = pbufs.more s"
  by (simp_all add: store_word_def store_byte_def store_ip_def ETHADDR_COPY_def)

lemma raw_more:
  assumes "quiet env" "etharp_raw env netif e1 e2 h1 i1 h2 i2 opcode s = Some (r, s')"
  shows "pbufs.more s' = pbufs.more s"
proof -
  have l: "link_output env f netif p s1 = Some (x, s2) \<Longrightarrow> pbufs.more s2 = pbufs.more s1" for f p s1 x s2
    using assms(1) unfolding quiet_def by blast
  have q: "quiet_stack (arp_stack env)" using assms(1) by (simp add: quiet_def)
  show ?thesis
    using assms(2)
    by (auto simp: etharp_raw_def after_def Let_def pb_more_simps split: option.splits prod.splits outcome.splits if_splits
        dest!: pb_more_ram l pb_more_free [OF q])
qed

lemma query_copy_more:
  assumes "quiet env" "query_copy env q s = Some (r, s')"
  shows "pbufs.more s' = pbufs.more s"
proof -
  have q: "quiet_stack (arp_stack env)" using assms(1) by (simp add: quiet_def)
  show ?thesis
    using assms(2)
    by (auto simp: query_copy_def after_def Let_def pb_more_pools split: option.splits prod.splits outcome.splits if_splits
        dest!: pb_more_ram pb_more_copy pb_more_free [OF q])
qed

lemma query_queue_table:
  assumes "quiet env" "query_queue env i p s = Some (r, s')"
  shows "arp_table s' = arp_table s \<or> (\<exists>x. arp_table s' = (arp_table s)[i := (arp_table s ! i)\<lparr>e_q := x\<rparr>])"
proof -
  have q: "quiet_stack (arp_stack env)" using assms(1) by (simp add: quiet_def)
  obtain x s1 where m: "memp_malloc MEMP_ARP_QUEUE s = (x, s1)" by fastforce
  then have t: "arp_table s1 = arp_table s" using arp_of_more [of s1 s] pb_more_pools(2) [of MEMP_ARP_QUEUE s] by simp
  show ?thesis
    using assms(2) t by (auto simp: query_queue_def m after_def Let_def upd_entry_table split: option.splits prod.splits outcome.splits if_splits
        dest!: pb_more_free [OF q] arp_of_more)
qed

lemma query_packet_table:
  assumes "quiet env" "query_packet env netif i q result s = Some (r, s')" "table_ok (arp_table s)" "i < ARP_TABLE_SIZE"
  shows "table_ok (arp_table s')"
proof -
  consider (stable) "e_state (arp_table s ! i) = ETHARP_STATE_STABLE" | (pending) "e_state (arp_table s ! i) = ETHARP_STATE_PENDING"
    | (other) "e_state (arp_table s ! i) \<noteq> ETHARP_STATE_STABLE" "e_state (arp_table s ! i) \<noteq> ETHARP_STATE_PENDING" by blast
  then show ?thesis
  proof cases
    case stable
    then have "etharp_send_ip env netif q (netif_hwaddr s netif) (e_ethaddr (arp_table s ! i)) (s\<lparr>etharp_cached_entry := of_nat i\<rparr>) = Some (r, s')"
      using assms(2) by (simp add: query_packet_def)
    from arp_of_more [OF send_ip_more [OF assms(1) this]] assms(3) show ?thesis by simp
  next
    case pending
    then obtain p s1 where c: "query_copy env q s = Some (p, s1)"
      and s': "s' = s1 \<or> (\<exists>pa. query_queue env i pa s1 = Some (r, s'))"
      using assms(2) by (auto simp: query_packet_def after_def split: option.splits prod.splits outcome.splits if_splits)
    have t: "arp_table s1 = arp_table s" using arp_of_more [OF query_copy_more [OF assms(1) c]] by simp
    have "entry_ok (arp_table s ! i)" using assms(3,4) by (simp add: table_ok_def)
    then have "entry_ok ((arp_table s ! i)\<lparr>e_q := x\<rparr>)" for x using pending by (auto simp: entry_ok_def)
    then have "table_ok ((arp_table s)[i := (arp_table s ! i)\<lparr>e_q := x\<rparr>])" for x
      using assms(3,4) pending by (intro table_ok_update) (auto simp: table_ok_def)
    note ok = this
    from s' show ?thesis
    proof (elim disjE exE)
      fix pa
      assume "query_queue env i pa s1 = Some (r, s')"
      from query_queue_table [OF assms(1) this] show ?thesis using ok assms(3) unfolding t by auto
    qed (simp add: t assms(3))
  next
    case other
    then show ?thesis using assms(2,3) by (simp add: query_packet_def)
  qed
qed

text \<open>The two operations that fill an entry, after their search.\<close>

lemma find_entry_fill:
  assumes "quiet env" "table_ok (arp_table s)" "find_entry env (Some a) flags s = Some (Returned r, s1)" "0 \<le> r"
  shows "nat r < ARP_TABLE_SIZE" and "table_ok (arp_table s1)" and "e_ipaddr (arp_table s1 ! nat r) = a"
    and "\<forall>j<ARP_TABLE_SIZE. j \<noteq> nat r \<longrightarrow> e_state (arp_table s1 ! j) \<noteq> ETHARP_STATE_EMPTY \<longrightarrow> e_ipaddr (arp_table s1 ! j) \<noteq> a"
    and "e_state (arp_table s1 ! nat r) = ETHARP_STATE_EMPTY \<Longrightarrow> e_ctime (arp_table s1 ! nat r) = 0"
proof -
  have l: "length (arp_table s) = ARP_TABLE_SIZE" using assms(2) by (simp add: table_ok_def)
  have "nat r < ARP_TABLE_SIZE \<and> table_ok (arp_table s1) \<and> e_ipaddr (arp_table s1 ! nat r) = a \<and>
    (\<forall>j<ARP_TABLE_SIZE. j \<noteq> nat r \<longrightarrow> e_state (arp_table s1 ! j) \<noteq> ETHARP_STATE_EMPTY \<longrightarrow> e_ipaddr (arp_table s1 ! j) \<noteq> a) \<and>
    (e_state (arp_table s1 ! nat r) = ETHARP_STATE_EMPTY \<longrightarrow> e_ctime (arp_table s1 ! nat r) = 0)"
    using assms(1-3)
  proof (cases rule: find_entry_result)
    case (found i)
    then show ?thesis using assms(2) by (auto simp: known_def table_ok_def)
  next
    case failed
    then show ?thesis using assms(4) by simp
  next
    case (new i)
    then have i: "i < ARP_TABLE_SIZE" and t: "arp_table s1 = (arp_table s)[i := cleared a (arp_table s ! i)]"
      using l arp_of_more [OF new(5)] by (simp_all add: least_worth_def upd_entry_table)
    have "table_ok (arp_table s1)" unfolding t using assms(2) by (intro table_ok_update) (simp_all add: cleared_def entry_ok_def)
    moreover have "\<forall>j<ARP_TABLE_SIZE. e_state (arp_table s ! j) \<noteq> ETHARP_STATE_EMPTY \<longrightarrow> e_ipaddr (arp_table s ! j) \<noteq> a"
      using new(1) l by (auto simp: known_def)
    ultimately show ?thesis using new(2) i l by (simp add: t cleared_def)
  qed
  then show "nat r < ARP_TABLE_SIZE" "table_ok (arp_table s1)" "e_ipaddr (arp_table s1 ! nat r) = a"
    "\<forall>j<ARP_TABLE_SIZE. j \<noteq> nat r \<longrightarrow> e_state (arp_table s1 ! j) \<noteq> ETHARP_STATE_EMPTY \<longrightarrow> e_ipaddr (arp_table s1 ! j) \<noteq> a"
    "e_state (arp_table s1 ! nat r) = ETHARP_STATE_EMPTY \<Longrightarrow> e_ctime (arp_table s1 ! nat r) = 0" by simp_all
qed

text \<open>What a successful update leaves: a stable entry without packets that holds the new address.\<close>

lemma update_entry_table:
  assumes "quiet env" "table_ok (arp_table s)" "update_arp_entry env netif a hw flags s = Some (Returned r, s')"
  shows "table_ok (arp_table s') \<and> (r = ERR_OK \<longrightarrow> (\<exists>i<ARP_TABLE_SIZE. \<exists>s1. find_entry env (Some a) flags s = Some (Returned (int i), s1) \<and>
    e_state (arp_table s' ! i) = ETHARP_STATE_STABLE \<and> e_ipaddr (arp_table s' ! i) = a \<and> e_ethaddr (arp_table s' ! i) = load_eth hw s1))"
proof (cases "a = IPADDR_ANY \<or> ip4_addr_isbroadcast a netif s \<or> ip_addr_ismulticast a")
  case True
  then show ?thesis using assms(2,3) by (auto simp: update_arp_entry_def)
next
  case False
  then obtain k s1 where f: "find_entry env (Some a) flags s = Some (Returned k, s1)"
    and rest: "(if k < 0 then Some (Returned k, s1) else
      after (send_queue env netif hw (nat k) (upd_entry (nat k) (\<lambda>e. e\<lparr>e_state := ETHARP_STATE_STABLE, e_ethaddr := load_eth hw s1, e_ctime := 0\<rparr>) s1))
        (\<lambda>_ s. Some (Returned ERR_OK, s))) = Some (Returned r, s')"
    using assms(3)
    by (auto simp: update_arp_entry_def after_def Let_def upd_entry_upd load_eth_def upd_entry_pb split: option.splits prod.splits outcome.splits if_splits)
  show ?thesis
  proof (cases "k < 0")
    case True
    then have "s' = s1" "r = k" using rest by simp_all
    moreover have "s1 = s" using assms(1,2) f True by (cases rule: find_entry_result) auto
    ultimately show ?thesis using assms(2) True by simp
  next
    case k: False
    then have "0 \<le> k" by simp
    note fill = find_entry_fill [OF assms(1,2) f this]
    let ?f = "\<lambda>e. e\<lparr>e_state := ETHARP_STATE_STABLE, e_ethaddr := load_eth hw s1, e_ctime := 0, e_q := NULL\<rparr>"
    obtain u where q: "send_queue env netif hw (nat k) (upd_entry (nat k) (\<lambda>e. e\<lparr>e_state := ETHARP_STATE_STABLE, e_ethaddr := load_eth hw s1, e_ctime := 0\<rparr>) s1)
        = Some (Returned u, s')" and r: "r = ERR_OK"
      using rest k by (auto simp: after_def split: option.splits prod.splits outcome.splits)
    from arp_of_more [OF send_queue_more [OF assms(1) q]]
    have t: "arp_table s' = (arp_table s1)[nat k := ?f (arp_table s1 ! nat k)]" by (simp add: upd_entry_upd upd_entry_table)
    have l: "length (arp_table s1) = ARP_TABLE_SIZE" using fill(2) by (simp add: table_ok_def)
    have "table_ok (arp_table s')" unfolding t using fill l by (intro table_ok_update) (auto simp: entry_ok_def)
    moreover have "e_state (arp_table s' ! nat k) = ETHARP_STATE_STABLE" "e_ipaddr (arp_table s' ! nat k) = a" "e_ethaddr (arp_table s' ! nat k) = load_eth hw s1"
      using fill(1,3) l by (simp_all add: t)
    ultimately show ?thesis using f fill(1) k by (metis int_nat_eq not_less)
  qed
qed

lemma query_table:
  assumes "quiet env" "table_ok (arp_table s)" "etharp_query env netif a q s = Some (Returned r, s')"
  shows "table_ok (arp_table s')"
proof (cases "ip4_addr_isbroadcast a netif s \<or> ip_addr_ismulticast a \<or> a = IPADDR_ANY")
  case True
  then show ?thesis using assms(2,3) by (auto simp: etharp_query_def)
next
  case False
  let ?pending = "\<lambda>k s. if e_state (arp_table s ! k) = ETHARP_STATE_EMPTY then upd_entry k (\<lambda>e. e\<lparr>e_state := ETHARP_STATE_PENDING\<rparr>) s else s"
  obtain k s1 where f: "find_entry env (Some a) ETHARP_FLAG_TRY_HARD s = Some (Returned k, s1)"
    and rest: "(if k < 0 then Some (Returned k, s1) else
      let s = ?pending (nat k) s1
      in if e_state (arp_table s ! nat k) = ETHARP_STATE_PENDING \<or> q = NULL then
                    after (etharp_request env netif a s)
                      (\<lambda>result s. if q = NULL then Some (Returned result, s) else query_packet env netif (nat k) q result s)
                  else query_packet env netif (nat k) q ERR_MEM s) = Some (Returned r, s')"
    using assms(3) False by (auto simp: etharp_query_def after_def split: option.splits prod.splits outcome.splits)
  show ?thesis
  proof (cases "k < 0")
    case True
    then have "s' = s1" using rest by simp
    moreover have "s1 = s" using assms(1,2) f True by (cases rule: find_entry_result) auto
    ultimately show ?thesis using assms(2) by simp
  next
    case k: False
    then have "0 \<le> k" by simp
    note fill = find_entry_fill [OF assms(1,2) f this]
    define s2 where "s2 = ?pending (nat k) s1"
    have l: "length (arp_table s1) = ARP_TABLE_SIZE" using fill(2) by (simp add: table_ok_def)
    have t2: "table_ok (arp_table s2)"
      using fill l by (auto simp: s2_def upd_entry_table entry_ok_def intro!: table_ok_update)
    obtain s3 rs where "table_ok (arp_table s3)" "s' = s3 \<or> query_packet env netif (nat k) q rs s3 = Some (Returned r, s')"
    proof (cases "e_state (arp_table s2 ! nat k) = ETHARP_STATE_PENDING \<or> q = NULL")
      case True
      then obtain rs s3 where "etharp_request env netif a s2 = Some (Returned rs, s3)"
        "s' = s3 \<or> query_packet env netif (nat k) q rs s3 = Some (Returned r, s')"
        using rest k by (auto simp: s2_def [symmetric] Let_def after_def split: option.splits prod.splits outcome.splits if_splits)
      moreover from this(1) have "arp_table s3 = arp_table s2" using arp_of_more [OF raw_more [OF assms(1)]] by (simp add: etharp_request_def)
      ultimately show thesis using t2 that [of s3 rs] by auto
    next
      case False
      then show thesis using that [OF t2, of ERR_MEM] rest k by (simp add: s2_def [symmetric] Let_def)
    qed
    then show ?thesis using query_packet_table [OF assms(1)] fill(1) by auto
  qed
qed

lemma output_table:
  assumes "quiet env" "table_ok (arp_table s)" "etharp_output env netif q a s = Some (Returned r, s')"
  shows "table_ok (arp_table s')"
proof -
  obtain h s1 where h: "pbuf_header q 14 s = (h, s1)" by fastforce
  have "arp_table s1 = arp_table s" using arp_of_more [of s1 s] pb_more_pools(4) [of q 14 s] h by simp
  then have t: "table_ok (arp_table s1)" using assms(2) by simp
  have "s' = s1 \<or> (\<exists>src dst. etharp_send_ip env netif q src dst s1 = Some (Returned r, s')) \<or> (\<exists>b. etharp_query env netif b q s1 = Some (Returned r, s'))"
    using assms(3) by (auto simp: etharp_output_def h Let_def split: if_splits)
  then show ?thesis
  proof (elim disjE exE)
    fix src dst
    assume "etharp_send_ip env netif q src dst s1 = Some (Returned r, s')"
    from arp_of_more [OF send_ip_more [OF assms(1) this]] t show ?thesis by simp
  qed (use t query_table [OF assms(1) t] in auto)
qed

lemma ip_input_table:
  assumes "quiet env" "table_ok (arp_table s)" "etharp_ip_input env netif p s = Some (Returned r, s')"
  shows "table_ok (arp_table s')"
  using assms(2,3) update_entry_table [OF assms(1,2)]
  by (auto simp: etharp_ip_input_def after_def Let_def split: option.splits prod.splits outcome.splits if_splits)

lemma arp_input_table:
  assumes "quiet env" "table_ok (arp_table s)" "etharp_arp_input env netif hw p s = Some (Returned r, s')"
  shows "table_ok (arp_table s')"
proof -
  have q: "quiet_stack (arp_stack env)" using assms(1) by (simp add: quiet_def)
  have l: "link_output env f n x s1 = Some (y, s2) \<Longrightarrow> pbufs.more s2 = pbufs.more s1" for f n x s1 y s2
    using assms(1) unfolding quiet_def by blast
  have m: "pbufs.more (arp_reply netif hw e s1) = pbufs.more s1" for e s1
    by (simp add: arp_reply_def Let_def pb_more_simps)
  have f: "pbuf_free (arp_stack env) p s1 = Some (x, s2) \<Longrightarrow> arp_table s2 = arp_table s1" for s1 x s2
    using arp_of_more pb_more_free [OF q] by blast
  let ?h = "payload s p + SIZEOF_ETH_HDR"
  consider (early) "arp_table s' = arp_table s"
    | (update) a flags u s1 s2 x where "update_arp_entry env netif a (hdr_shwaddr ?h) flags s = Some (Returned u, s1)"
      "pbufs.more s2 = pbufs.more s1" "pbuf_free (arp_stack env) p s2 = Some (x, s')"
  proof (cases "netif = NULL \<or> pb_len s p < SIZEOF_ETHARP_PACKET \<or> load_word (hdr_hwtype ?h) s \<noteq> lwip_htons HWTYPE_ETHERNET \<or>
      bytes s (hdr_hwlen ?h) \<noteq> ETHARP_HWADDR_LEN \<or> bytes s (hdr_protolen ?h) \<noteq> 4 \<or> load_word (hdr_proto ?h) s \<noteq> lwip_htons ETHTYPE_IP")
    case True
    then have "s' = s \<or> (\<exists>x. pbuf_free (arp_stack env) p s = Some (x, s'))"
      using assms(3) by (auto simp: etharp_arp_input_def after_def Let_def split: option.splits prod.splits outcome.splits if_splits)
    then show thesis using early f by blast
  next
    case False
    define us where "us \<longleftrightarrow> netif_ip_addr s netif \<noteq> IPADDR_ANY \<and> load_dword (bytes s) (hdr_dipaddr ?h) = netif_ip_addr s netif"
    have "etharp_arp_input env netif hw p s =
      after (update_arp_entry env netif (load_dword (bytes s) (hdr_sipaddr ?h)) (hdr_shwaddr ?h) (if us then ETHARP_FLAG_TRY_HARD else ETHARP_FLAG_FIND_ONLY) s)
                  (\<lambda>_ t.
                     after (if load_word (hdr_opcode ?h) t = lwip_htons ARP_REQUEST \<and> us then
                              let t = arp_reply netif hw (payload s p) t
                              in after (link_output env (netif_linkoutput t netif) netif p t) (\<lambda>_ t. Some (Returned (), t))
                            else Some (Returned (), t))
                       (\<lambda>_ t. after (pbuf_free (arp_stack env) p t) (\<lambda>_ t. Some (Returned (), t))))"
      using False by (simp add: etharp_arp_input_def Let_def us_def)
    with assms(3) obtain u s1 s2 x where c: "update_arp_entry env netif (load_dword (bytes s) (hdr_sipaddr ?h)) (hdr_shwaddr ?h)
        (if us then ETHARP_FLAG_TRY_HARD else ETHARP_FLAG_FIND_ONLY) s = Some (Returned u, s1)"
      "s2 = s1 \<or> (\<exists>y. link_output env (netif_linkoutput (arp_reply netif hw (payload s p) s1) netif) netif p (arp_reply netif hw (payload s p) s1) = Some (Returned y, s2))"
      "pbuf_free (arp_stack env) p s2 = Some (x, s')"
      by (auto simp: after_def Let_def split: option.splits prod.splits outcome.splits if_splits)
    have "pbufs.more s2 = pbufs.more s1" using c(2) l m by metis
    with c(1,3) show thesis by (intro update)
  qed
  then show ?thesis
  proof cases
    case early
    then show ?thesis using assms(2) by simp
  next
    case update
    then show ?thesis using update_entry_table [OF assms(1,2) update(1)] f [OF update(3)] arp_of_more [OF update(2)] by simp
  qed
qed

lemma ethernet_input_table:
  assumes "quiet env" "\<forall>p netif s r s'. ip_input env p netif s = Some (r, s') \<longrightarrow> table_ok (arp_table s) \<longrightarrow> table_ok (arp_table s')"
    and "table_ok (arp_table s)" "ethernet_input env p netif s = Some (Returned r, s')"
  shows "table_ok (arp_table s')"
proof -
  have q: "quiet_stack (arp_stack env)" using assms(1) by (simp add: quiet_def)
  have f: "pbuf_free (arp_stack env) p s1 = Some (x, s2) \<Longrightarrow> arp_table s2 = arp_table s1" for s1 x s2
    using arp_of_more pb_more_free [OF q] by blast
  have h: "pbuf_header p n s1 = (x, s2) \<Longrightarrow> arp_table s2 = arp_table s1" for n s1 x s2
    using arp_of_more [of s2 s1] pb_more_pools(4) [of p n s1] by simp
  show ?thesis
    using assms(3,4)
    by (auto simp: ethernet_input_def after_def Let_def split: option.splits prod.splits outcome.splits if_splits
        dest!: f h assms(2) [rule_format] dest: ip_input_table [OF assms(1)] arp_input_table [OF assms(1)])
qed

section \<open>Resolution\<close>

lemma find_known:
  assumes "table_ok (arp_table s)" "known (arp_table s) a i"
  shows "find_entry env (Some a) flags s = Some (Returned (int i), s)"
proof (cases "sweep (Some a) 0 (arp_table s) no_candidates")
  case (Inl j)
  then have "known (arp_table s) a j" using sweep_Inl [OF Inl] by (simp add: known_def)
  then have "j = i" using assms unfolding table_ok_def known_def by metis
  then show ?thesis using Inl by (simp add: find_entry_def)
next
  case (Inr c)
  then show ?thesis using sweep_Inr [OF Inr, of "arp_table s ! i"] assms(2) by (simp add: known_def)
qed

lemma load_eth_block: "length bs = 6 \<Longrightarrow> load_eth e (ETHADDR_COPY e bs s) = bs"
  by (auto simp: load_eth_def ETHADDR_COPY_def store_block_at intro!: nth_equalityI)

text \<open>The frame that \<open>etharp_send_ip\<close> hands to the driver.\<close>

lemma send_ip_frame:
  assumes "length src = 6" "length dst = 6"
  obtains s' where "etharp_send_ip env netif p src dst s = link_output env (netif_linkoutput s netif) netif p s'"
    and "load_eth (payload s p) s' = dst" and "load_eth (payload s p + 6) s' = src" and "load_word (payload s p + 12) s' = lwip_htons ETHTYPE_IP"
    and "pbufs.more s' = pbufs.more s"
proof -
  let ?e = "payload s p"
  define s1 where "s1 = ETHADDR_COPY ?e dst s"
  define s2 where "s2 = ETHADDR_COPY (?e + 6) src s1"
  define s3 where "s3 = store_word (?e + 12) (lwip_htons ETHTYPE_IP) s2"
  have o: "?e + 6 + of_nat j = ?e + of_nat (6 + j)" for j
    by (simp add: ac_simps)
  have b3: "bytes s3 (?e + of_nat j) = bytes s2 (?e + of_nat j)" if "j < 12" for j
  proof -
    have "(of_nat j :: addr) \<noteq> 12" "(of_nat j :: addr) \<noteq> 13" using of_nat_inj32 [of j 12] of_nat_inj32 [of j 13] that by auto
    moreover have "?e + 12 + 1 = ?e + 13" by simp
    ultimately show ?thesis by (simp add: s3_def store_word_def del: add.assoc)
  qed
  have b2: "bytes s2 (?e + of_nat j) = bytes s1 (?e + of_nat j)" if "j < 6" for j
  proof -
    have "?e + of_nat j \<noteq> ?e + 6 + of_nat k" if "k < 6" for k
      using of_nat_inj32 [of j "6 + k"] that \<open>j < 6\<close> unfolding o by simp
    then show ?thesis using assms(1) by (simp add: s2_def ETHADDR_COPY_def store_block_other)
  qed
  have "load_eth ?e s3 = load_eth ?e s1" using b3 b2 by (simp add: load_eth_def)
  then have d: "load_eth ?e s3 = dst" using load_eth_block [OF assms(2)] by (simp add: s1_def)
  have "bytes s3 (?e + 6 + of_nat j) = bytes s2 (?e + 6 + of_nat j)" if "j < 6" for j
    using b3 [of "6 + j"] that unfolding o by simp
  then have "load_eth (?e + 6) s3 = load_eth (?e + 6) s2" unfolding load_eth_def by (intro map_cong refl) simp
  then have r: "load_eth (?e + 6) s3 = src" using load_eth_block [OF assms(1)] by (simp add: s2_def)
  have t: "load_word (?e + 12) s3 = lwip_htons ETHTYPE_IP"
    by (simp add: s3_def store_word_def load_word_def lwip_htons_def)
  have "netif_linkoutput s3 = netif_linkoutput s" "pbufs.more s3 = pbufs.more s"
    by (simp_all add: s3_def s2_def s1_def store_word_def ETHADDR_COPY_def)
  moreover from this have "etharp_send_ip env netif p src dst s = link_output env (netif_linkoutput s netif) netif p s3"
    by (simp add: etharp_send_ip_def s3_def s2_def s1_def eth_dest_def eth_src_def eth_type_def Let_def)
  ultimately show thesis using d r t that by simp
qed

lemma update_known:
  assumes "quiet env" "table_ok (arp_table s)" "known (arp_table s) a i" "update_arp_entry env netif a hw flags s = Some (Returned ERR_OK, s')"
  shows "pbufs.more s' = pbufs.more (upd_entry i (\<lambda>e. e\<lparr>e_state := ETHARP_STATE_STABLE, e_ethaddr := load_eth hw s, e_ctime := 0, e_q := NULL\<rparr>) s)"
    and "a \<noteq> IPADDR_ANY \<and> \<not> ip4_addr_isbroadcast a netif s \<and> \<not> ip_addr_ismulticast a"
proof -
  show n: "a \<noteq> IPADDR_ANY \<and> \<not> ip4_addr_isbroadcast a netif s \<and> \<not> ip_addr_ismulticast a"
    using assms(4) by (auto simp: update_arp_entry_def split: if_splits)
  obtain u where "send_queue env netif hw i (upd_entry i (\<lambda>e. e\<lparr>e_state := ETHARP_STATE_STABLE, e_ethaddr := load_eth hw s, e_ctime := 0\<rparr>) s) = Some (Returned u, s')"
    using assms(4) n find_known [OF assms(2,3), of env flags]
    by (auto simp: update_arp_entry_def after_def Let_def upd_entry_upd load_eth_def upd_entry_pb split: option.splits prod.splits outcome.splits)
  from send_queue_more [OF assms(1) this]
  show "pbufs.more s' = pbufs.more (upd_entry i (\<lambda>e. e\<lparr>e_state := ETHARP_STATE_STABLE, e_ethaddr := load_eth hw s, e_ctime := 0, e_q := NULL\<rparr>) s)"
    by (simp add: upd_entry_upd)
qed

lemma query_known:
  assumes "table_ok (arp_table s)" "known (arp_table s) a i" "e_state (arp_table s ! i) = ETHARP_STATE_STABLE" "q \<noteq> NULL"
    and "a \<noteq> IPADDR_ANY \<and> \<not> ip4_addr_isbroadcast a netif s \<and> \<not> ip_addr_ismulticast a"
  shows "etharp_query env netif a q s = etharp_send_ip env netif q (netif_hwaddr s netif) (e_ethaddr (arp_table s ! i)) (s\<lparr>etharp_cached_entry := of_nat i\<rparr>)"
  using assms find_known [OF assms(1,2), of env ETHARP_FLAG_TRY_HARD] by (simp add: etharp_query_def after_def query_packet_def)

section \<open>Properties\<close>

text \<open>C34: The table keeps its form through the timer, packets out and packets in: ten entries that are empty without a
  queue, pending for less than \<open>ARP_MAXPENDING\<close> ticks, or stable without a queue for less than \<open>ARP_MAXAGE\<close>, and no two
  entries for one address.\<close>

theorem arp_table_types:
  assumes "quiet env" "\<forall>p netif s r s'. ip_input env p netif s = Some (r, s') \<longrightarrow> table_ok (arp_table s) \<longrightarrow> table_ok (arp_table s')"
    and "table_ok (arp_table s)"
  shows "(\<forall>r s'. etharp_tmr env s = Some (Returned r, s') \<longrightarrow> table_ok (arp_table s')) \<and>
    (\<forall>q a r s'. etharp_output env netif q a s = Some (Returned r, s') \<longrightarrow> table_ok (arp_table s')) \<and>
    (\<forall>p r s'. ethernet_input env p netif s = Some (Returned r, s') \<longrightarrow> table_ok (arp_table s'))"
proof -
  have "table_ok (map aged t)" if "table_ok t" for t
  proof -
    have "entry_ok (aged e)" if "entry_ok e" for e
      using that by (auto simp: entry_ok_def aged_def not_le)
    moreover have "e_state (aged e) \<noteq> ETHARP_STATE_EMPTY \<Longrightarrow> e_state e \<noteq> ETHARP_STATE_EMPTY" "e_ipaddr (aged e) = e_ipaddr e" for e
      by (auto simp: aged_def)
    ultimately show ?thesis using that by (auto simp: table_ok_def)
  qed
  moreover have "length (arp_table s) = ARP_TABLE_SIZE" using assms(3) by (simp add: table_ok_def)
  ultimately have "etharp_tmr env s = Some (Returned r, s') \<longrightarrow> table_ok (arp_table s')" for r s'
    using etharp_tmr_table [OF assms(1), of s r s'] assms(3) by auto
  then show ?thesis using output_table [OF assms(1,3)] ethernet_input_table [OF assms] by blast
qed

fun ticks :: "'a arp_scheme arp_env \<Rightarrow> nat \<Rightarrow> 'a arp_scheme \<Rightarrow> (unit outcome \<times> 'a arp_scheme) option" where
  "ticks env 0 s = Some (Returned (), s)"
| "ticks env (Suc n) s = after (etharp_tmr env s) (\<lambda>_. ticks env n)"

lemma aged_stable:
  "e_state e = ETHARP_STATE_STABLE \<Longrightarrow> unat (e_ctime e) + n < 240 \<Longrightarrow> (aged ^^ n) e = e\<lparr>e_ctime := e_ctime e + of_nat n\<rparr>"
proof (induction n arbitrary: e)
  case (Suc n)
  then have "unat (e_ctime e + 1) = unat (e_ctime e) + 1" by (simp add: unat_word_ariths)
  then have "\<not> 240 \<le> e_ctime e + 1" "unat (e_ctime (aged e)) + n < 240" "aged e = e\<lparr>e_ctime := e_ctime e + 1\<rparr>"
    using Suc.prems by (auto simp: word_le_nat_alt aged_def)
  then show ?case using Suc.IH [of "aged e"] Suc.prems(1) by (simp add: funpow_swap1 ac_simps)
qed simp

lemma aged_add: "(aged ^^ (m + n)) e = (aged ^^ m) ((aged ^^ n) e)"
  by (simp add: funpow_add)

lemma aged_empty: "e_state e = ETHARP_STATE_EMPTY \<Longrightarrow> (aged ^^ n) e = e"
  by (induction n) (simp_all add: aged_def)

lemma aged_state: "e_state ((aged ^^ n) e) = e_state e \<or> e_state ((aged ^^ n) e) = ETHARP_STATE_EMPTY"
  by (induction n) (auto simp: aged_def)

lemma aged_stays_empty: "e_state ((aged ^^ m) e) = ETHARP_STATE_EMPTY \<Longrightarrow> m \<le> n \<Longrightarrow> e_state ((aged ^^ n) e) = ETHARP_STATE_EMPTY"
  using aged_add [of "n - m" m e] aged_empty [of "(aged ^^ m) e" "n - m"] by simp

lemma aged_expires:
  assumes "entry_ok e"
  shows "2 \<le> n \<Longrightarrow> e_state ((aged ^^ n) e) \<noteq> ETHARP_STATE_PENDING" and "240 \<le> n \<Longrightarrow> e_state ((aged ^^ n) e) = ETHARP_STATE_EMPTY"
proof -
  have two: "e_state ((aged ^^ 2) e) = ETHARP_STATE_EMPTY" if "e_state e = ETHARP_STATE_PENDING"
  proof -
    have "unat (e_ctime e) < 2" using assms that by (auto simp: entry_ok_def word_less_nat_alt)
    then have "e_ctime e = 0 \<or> e_ctime e = 1" unfolding word_unat_eq_iff by auto
    then show ?thesis using that by (auto simp: aged_def eval_nat_numeral)
  qed
  show "e_state ((aged ^^ n) e) \<noteq> ETHARP_STATE_PENDING" if "2 \<le> n"
    using aged_state [of n e] aged_stays_empty [OF two that] by auto
  show "e_state ((aged ^^ n) e) = ETHARP_STATE_EMPTY" if "240 \<le> n"
  proof -
    consider "e_state e = ETHARP_STATE_EMPTY" | "e_state e = ETHARP_STATE_PENDING" | "e_state e = ETHARP_STATE_STABLE" "unat (e_ctime e) < 240"
      using assms by (auto simp: entry_ok_def word_less_nat_alt)
    then show ?thesis
    proof cases
      case 3
      define k where "k = 239 - unat (e_ctime e)"
      have a: "(aged ^^ k) e = e\<lparr>e_ctime := e_ctime e + of_nat k\<rparr>" using aged_stable [OF 3(1), of k] 3(2) by (simp add: k_def)
      have "e_ctime e + of_nat k = of_nat (unat (e_ctime e) + k)" by simp
      also have "\<dots> = 239" using 3(2) by (simp add: k_def)
      finally have "e_state ((aged ^^ (1 + k)) e) = ETHARP_STATE_EMPTY" using a 3(1) by (simp only: aged_add) (simp add: aged_def)
      from aged_stays_empty [OF this, of n] show ?thesis using that by (simp add: k_def)
    qed (use that aged_empty [of e n] aged_stays_empty [OF two, of n] in auto)
  qed
qed

lemma ticks_table:
  "quiet env \<Longrightarrow> length (arp_table s) = ARP_TABLE_SIZE \<Longrightarrow> ticks env n s = Some (Returned r, s') \<Longrightarrow> arp_table s' = map (aged ^^ n) (arp_table s)"
proof (induction n arbitrary: s)
  case (Suc n)
  then obtain u s1 where "etharp_tmr env s = Some (Returned u, s1)" "ticks env n s1 = Some (Returned r, s')"
    by (auto simp: after_def split: option.splits prod.splits outcome.splits)
  moreover from this(1) have "arp_table s1 = map aged (arp_table s)" using etharp_tmr_table Suc.prems by blast
  ultimately show ?case using Suc.IH [of s1] Suc.prems by (simp add: funpow_swap1 comp_def)
qed simp

text \<open>C36: Without a refresh a pending entry is gone after two ticks and any entry after 240, but a stable entry that was
  just refreshed stays through 239 with its address.\<close>

theorem entries_expire:
  assumes "quiet env" "table_ok (arp_table s)" "ticks env n s = Some (Returned r, s')" "i < ARP_TABLE_SIZE"
  shows "(2 \<le> n \<longrightarrow> e_state (arp_table s' ! i) \<noteq> ETHARP_STATE_PENDING) \<and>
    (240 \<le> n \<longrightarrow> e_state (arp_table s' ! i) = ETHARP_STATE_EMPTY) \<and>
    (n < 240 \<longrightarrow> e_state (arp_table s ! i) = ETHARP_STATE_STABLE \<longrightarrow> e_ctime (arp_table s ! i) = 0 \<longrightarrow>
      arp_table s' ! i = (arp_table s ! i)\<lparr>e_ctime := of_nat n\<rparr>)"
proof -
  have l: "length (arp_table s) = ARP_TABLE_SIZE" and ok: "entry_ok (arp_table s ! i)" using assms(2,4) by (simp_all add: table_ok_def)
  have "arp_table s' ! i = (aged ^^ n) (arp_table s ! i)" using ticks_table [OF assms(1) l assms(3)] assms(4) l by simp
  then show ?thesis using aged_expires [OF ok] aged_stable [of "arp_table s ! i" n] by simp
qed

text \<open>A search that may recycle takes the entry of the address if there is one; otherwise it takes an empty entry before
  a stable one, a stable one before a pending one and one without packets before one with packets, and the oldest of its
  kind.\<close>

theorem find_entry_choice:
  assumes "quiet env" "table_ok (arp_table s)" "find_entry env (Some a) ETHARP_FLAG_TRY_HARD s = Some (Returned r, s')"
  shows "\<exists>i<ARP_TABLE_SIZE. r = int i \<and>
    (known (arp_table s) a i \<and> s' = s \<or>
     (\<forall>j. \<not> known (arp_table s) a j) \<and> least_worth (arp_table s) i \<and>
       arp_table s' = (arp_table s)[i := (arp_table s ! i)\<lparr>e_q := NULL, e_state := ETHARP_STATE_EMPTY, e_ipaddr := a, e_ctime := 0\<rparr>])"
proof -
  have l: "length (arp_table s) = ARP_TABLE_SIZE" using assms(2) by (simp add: table_ok_def)
  show ?thesis using assms
  proof (cases rule: find_entry_result)
    case (found i)
    then show ?thesis using l by (auto simp: known_def)
  next
    case failed
    then show ?thesis by simp
  next
    case (new i)
    then show ?thesis using l arp_of_more [OF new(5)] by (auto simp: least_worth_def upd_entry_table cleared_def intro!: exI [of _ i])
  qed
qed

text \<open>C35: When the address of a known entry arrives, the entry becomes stable with that address and an empty queue, and a
  packet for it then leaves at once in a frame with the address as its destination, ours as its source and the type of
  the internet protocol.\<close>

theorem arp_resolves:
  assumes "quiet env" "table_ok (arp_table s)" "known (arp_table s) a i" "q \<noteq> NULL" "length (netif_hwaddr s netif) = 6"
    and "update_arp_entry env netif a hw flags s = Some (Returned ERR_OK, s1)"
  shows "arp_table s1 = (arp_table s)[i := (arp_table s ! i)\<lparr>e_state := ETHARP_STATE_STABLE, e_ethaddr := load_eth hw s, e_ctime := 0, e_q := NULL\<rparr>] \<and>
    (\<exists>s2. etharp_query env netif a q s1 = link_output env (netif_linkoutput s netif) netif q s2 \<and>
      load_eth (payload s1 q) s2 = load_eth hw s \<and> load_eth (payload s1 q + 6) s2 = netif_hwaddr s netif \<and>
      load_word (payload s1 q + 12) s2 = lwip_htons ETHTYPE_IP)"
proof -
  note u = update_known [OF assms(1-3,6)]
  note m = arp_of_more [OF u(1)]
  have t: "arp_table s1 = (arp_table s)[i := (arp_table s ! i)\<lparr>e_state := ETHARP_STATE_STABLE, e_ethaddr := load_eth hw s, e_ctime := 0, e_q := NULL\<rparr>]"
    using m by (simp add: upd_entry_table)
  have i: "i < length (arp_table s)" using assms(3) by (simp add: known_def)
  have k: "known (arp_table s1) a i" "e_state (arp_table s1 ! i) = ETHARP_STATE_STABLE" "e_ethaddr (arp_table s1 ! i) = load_eth hw s"
    using assms(3) i by (simp_all add: t known_def)
  have ok: "table_ok (arp_table s1)" using update_entry_table [OF assms(1,2,6)] by simp
  have n: "netif_hwaddr s1 = netif_hwaddr s" "netif_linkoutput s1 = netif_linkoutput s" "netif_flags s1 = netif_flags s" "netif_ip_addr s1 = netif_ip_addr s"
    "netif_netmask s1 = netif_netmask s"
    using m by (simp_all add: upd_entry_def)
  have b: "ip4_addr_isbroadcast a netif s1 = ip4_addr_isbroadcast a netif s" using n by (simp add: ip4_addr_isbroadcast_def)
  have "etharp_query env netif a q s1 = etharp_send_ip env netif q (netif_hwaddr s netif) (load_eth hw s) (s1\<lparr>etharp_cached_entry := of_nat i\<rparr>)"
    using query_known [OF ok k(1,2) assms(4), of netif env] u(2) k(3) n(1) b by simp
  moreover have "length (load_eth hw s) = 6" by (simp add: load_eth_def)
  moreover have "payload (s1\<lparr>etharp_cached_entry := of_nat i\<rparr>) = payload s1" "netif_linkoutput (s1\<lparr>etharp_cached_entry := of_nat i\<rparr>) = netif_linkoutput s"
    using n by simp_all
  ultimately show ?thesis
    using send_ip_frame [OF assms(5), of "load_eth hw s" env netif q "s1\<lparr>etharp_cached_entry := of_nat i\<rparr>"] t by metis
qed

section \<open>Witnesses\<close>

text \<open>A driver that takes every frame, and a table with a pending and a stable entry.\<close>

definition arp_desk :: "arp arp_env" where
  "arp_desk = \<lparr>arp_stack = \<lparr>ooseq_fn = 0, tcpip_mbox = 0, custom_free = \<lambda>_ _ s. Some (Returned (), s)\<rparr>,
     link_output = \<lambda>_ _ _ s. Some (Returned ERR_OK, s), ip_input = \<lambda>_ _ s. Some (Returned (), s)\<rparr>"

definition pending_entry :: etharp_entry where
  "pending_entry = \<lparr>e_q = NULL, e_ipaddr = 0x0100000a, e_ethaddr = ethzero, e_state = ETHARP_STATE_PENDING, e_ctime = 1\<rparr>"
definition stable_entry :: etharp_entry where
  "stable_entry = \<lparr>e_q = NULL, e_ipaddr = 0x0200000a, e_ethaddr = [2, 0, 0, 0, 0, 1], e_state = ETHARP_STATE_STABLE, e_ctime = 0\<rparr>"
definition empty_entry :: etharp_entry where
  "empty_entry = \<lparr>e_q = NULL, e_ipaddr = 0, e_ethaddr = ethzero, e_state = ETHARP_STATE_EMPTY, e_ctime = 0\<rparr>"

lemmas sample_entries = pending_entry_def stable_entry_def empty_entry_def

definition two_entries :: "arp \<Rightarrow> arp" where
  "two_entries s = s\<lparr>arp_table := [pending_entry, stable_entry, empty_entry, empty_entry, empty_entry, empty_entry, empty_entry, empty_entry,
     empty_entry, empty_entry], netif_hwaddr := (\<lambda>_. [2, 0, 0, 0, 0, 9]), netif_flags := (\<lambda>_. 0)\<rparr>"

lemma quiet_desk: "quiet arp_desk"
  by (auto simp: quiet_def quiet_stack_def arp_desk_def)

lemma two_entries_ok: "table_ok (arp_table (two_entries s))"
proof -
  have "e_state (arp_table (two_entries s) ! i) \<noteq> ETHARP_STATE_EMPTY \<Longrightarrow> i < 10 \<Longrightarrow> i = 0 \<or> i = 1" for i
    by (auto simp: two_entries_def empty_entry_def nth_Cons' split: if_splits)
  moreover have "\<forall>e\<in>set (arp_table (two_entries s)). entry_ok e" by (simp add: two_entries_def sample_entries entry_ok_def)
  moreover have "e_ipaddr (arp_table (two_entries s) ! 0) \<noteq> e_ipaddr (arp_table (two_entries s) ! 1)"
    by (simp add: two_entries_def sample_entries)
  moreover have "length (arp_table (two_entries s)) = 10" by (simp add: two_entries_def)
  ultimately show ?thesis unfolding table_ok_def by metis
qed

lemma aged_unqueued: "e_q e = NULL \<Longrightarrow> e_q (aged e) = NULL"
  by (simp add: aged_def)

lemma tmr_entry_unqueued:
  assumes "e_q (arp_table s ! i) = NULL" "i < length (arp_table s)"
  shows "tmr_entry env i s = Some (Returned (), upd_entry i aged s)"
proof -
  let ?e = "arp_table s ! i" and ?s = "upd_entry i (\<lambda>e. e\<lparr>e_ctime := e_ctime e + 1\<rparr>) s"
  have e: "arp_table ?s ! i = ?e\<lparr>e_ctime := e_ctime ?e + 1\<rparr>" using assms(2) by (simp add: upd_entry_table)
  have u: "upd_entry i f s = upd_entry i g s" if "f ?e = g ?e" for f g using that by (simp add: upd_entry_def)
  have f: "free_entry env i ?s = Some (Returned (), upd_entry i (\<lambda>e. e\<lparr>e_ctime := e_ctime e + 1, e_state := ETHARP_STATE_EMPTY\<rparr>) s)"
    using assms(1) e by (simp add: free_entry_def after_def upd_entry_upd)
  show ?thesis
  proof (cases "e_state ?e = ETHARP_STATE_EMPTY")
    case True
    then show ?thesis by (simp add: tmr_entry_def aged_def upd_entry_none)
  next
    case False
    show ?thesis
    proof (cases "ARP_MAXAGE \<le> e_ctime ?e + 1 \<or> e_state ?e = ETHARP_STATE_PENDING \<and> ARP_MAXPENDING \<le> e_ctime ?e + 1")
      case True
      then have "tmr_entry env i s = free_entry env i ?s" using False e by (simp add: tmr_entry_def Let_def)
      then show ?thesis using True False assms(1) f by (auto simp: aged_def intro!: u)
    next
      case n: False
      then have "tmr_entry env i s = Some (Returned (), ?s)" using False e by (auto simp: tmr_entry_def Let_def)
      then show ?thesis using n False by (auto simp: aged_def intro!: u)
    qed
  qed
qed

lemma unqueued_tmr:
  assumes "length (arp_table s) = ARP_TABLE_SIZE" "\<forall>e\<in>set (arp_table s). e_q e = NULL"
  shows "\<exists>s'. etharp_tmr env s = Some (Returned (), s')"
proof -
  have "\<exists>s'. tmr_entries env is s = Some (Returned (), s')" if "\<forall>i\<in>set is. i < length (arp_table s)" "\<forall>e\<in>set (arp_table s). e_q e = NULL" for "is" s
    using that
  proof (induction "is" arbitrary: s)
    case (Cons i "is")
    then have e: "tmr_entry env i s = Some (Returned (), upd_entry i aged s)" by (intro tmr_entry_unqueued) simp_all
    have "\<forall>e\<in>set (arp_table (upd_entry i aged s)). e_q e = NULL"
      using Cons.prems set_update_subset_insert [of "arp_table s" i "aged (arp_table s ! i)"] aged_unqueued [of "arp_table s ! i"]
      by (auto simp: upd_entry_table)
    then show ?case using Cons.IH [of "upd_entry i aged s"] Cons.prems e by (simp add: after_def upd_entry_table)
  qed simp
  then show ?thesis using assms by (simp add: etharp_tmr_def)
qed

theorem arp_table_types_witness:
  "\<forall>s. (\<exists>s'. etharp_tmr arp_desk (two_entries s) = Some (Returned (), s') \<and> table_ok (arp_table s')) \<and>
    (\<exists>s'. etharp_output arp_desk 0x100 NULL 0xffffffff (two_entries s) = Some (Returned ERR_OK, s') \<and> table_ok (arp_table s'))"
proof
  fix s
  have "\<forall>p netif s r s'. ip_input arp_desk p netif s = Some (r, s') \<longrightarrow> table_ok (arp_table s) \<longrightarrow> table_ok (arp_table s')"
    by (simp add: arp_desk_def)
  note t = arp_table_types [OF quiet_desk this two_entries_ok [of s], of "0x100"]
  have "\<exists>s'. etharp_tmr arp_desk (two_entries s) = Some (Returned (), s')"
    by (rule unqueued_tmr) (simp_all add: two_entries_def sample_entries)
  moreover have "\<exists>s'. etharp_output arp_desk 0x100 NULL 0xffffffff (two_entries s) = Some (Returned ERR_OK, s')"
    by (simp add: etharp_output_def pbuf_header_def ip4_addr_isbroadcast_def etharp_send_ip_def arp_desk_def Let_def)
  ultimately show "(\<exists>s'. etharp_tmr arp_desk (two_entries s) = Some (Returned (), s') \<and> table_ok (arp_table s')) \<and>
    (\<exists>s'. etharp_output arp_desk 0x100 NULL 0xffffffff (two_entries s) = Some (Returned ERR_OK, s') \<and> table_ok (arp_table s'))"
    using t by blast
qed

theorem entries_expire_witness:
  "\<forall>s. \<exists>s'. ticks arp_desk 2 (two_entries s) = Some (Returned (), s') \<and> e_state (arp_table s' ! 0) \<noteq> ETHARP_STATE_PENDING \<and>
    arp_table s' ! 1 = stable_entry\<lparr>e_ctime := 2\<rparr>"
proof
  fix s
  obtain s1 where 1: "etharp_tmr arp_desk (two_entries s) = Some (Returned (), s1)"
    using unqueued_tmr [of "two_entries s"] by (auto simp: two_entries_def sample_entries)
  from etharp_tmr_table [OF quiet_desk 1] have a: "arp_table s1 = map aged (arp_table (two_entries s))" by (simp add: two_entries_def)
  obtain s2 where 2: "etharp_tmr arp_desk s1 = Some (Returned (), s2)"
    using unqueued_tmr [of s1] aged_unqueued by (auto simp: a two_entries_def sample_entries)
  have "ticks arp_desk 2 (two_entries s) = Some (Returned (), s2)" using 1 2 by (simp add: eval_nat_numeral after_def)
  moreover from this have "e_state (arp_table s2 ! 0) \<noteq> ETHARP_STATE_PENDING"
    "arp_table s2 ! 1 = (arp_table (two_entries s) ! 1)\<lparr>e_ctime := of_nat 2\<rparr>"
    using entries_expire [OF quiet_desk two_entries_ok, of 2 s "()" s2 0] entries_expire [OF quiet_desk two_entries_ok, of 2 s "()" s2 1]
    by (simp_all add: two_entries_def stable_entry_def)
  ultimately show "\<exists>s'. ticks arp_desk 2 (two_entries s) = Some (Returned (), s') \<and> e_state (arp_table s' ! 0) \<noteq> ETHARP_STATE_PENDING \<and>
    arp_table s' ! 1 = stable_entry\<lparr>e_ctime := 2\<rparr>"
    by (auto simp: two_entries_def)
qed

theorem find_entry_choice_witness:
  "\<forall>s. \<exists>i s'. find_entry arp_desk (Some 0x0300000a) ETHARP_FLAG_TRY_HARD (two_entries s) = Some (Returned (int i), s') \<and>
    worth (arp_table (two_entries s) ! i) = 0 \<and> e_ipaddr (arp_table s' ! i) = 0x0300000a"
proof
  fix s
  have "sweep (Some 0x0300000a) 0 (arp_table (two_entries s)) no_candidates =
      Inr \<lparr>old_pending = 0, old_stable = 1, empty_at = 2, age_pending = 1, age_stable = 0, old_queue = 10, age_queue = 0\<rparr>"
    by (simp add: two_entries_def sample_entries no_candidates_def remember_def)
  then obtain s' where f: "find_entry arp_desk (Some 0x0300000a) ETHARP_FLAG_TRY_HARD (two_entries s) = Some (Returned 2, s')"
    by (simp add: find_entry_def fresh_entry_def Let_def)
  from find_entry_choice [OF quiet_desk two_entries_ok f] have
    "known (arp_table (two_entries s)) 0x0300000a 2 \<or> least_worth (arp_table (two_entries s)) 2 \<and>
       arp_table s' = (arp_table (two_entries s))[2 := (arp_table (two_entries s) ! 2)\<lparr>e_q := NULL, e_state := ETHARP_STATE_EMPTY, e_ipaddr := 0x0300000a, e_ctime := 0\<rparr>]"
    by auto
  moreover have "\<not> known (arp_table (two_entries s)) 0x0300000a 2" by (simp add: known_def two_entries_def sample_entries)
  moreover have "worth (arp_table (two_entries s) ! 2) = 0" by (simp add: worth_def two_entries_def sample_entries)
  ultimately show "\<exists>i s'. find_entry arp_desk (Some 0x0300000a) ETHARP_FLAG_TRY_HARD (two_entries s) = Some (Returned (int i), s') \<and>
    worth (arp_table (two_entries s) ! i) = 0 \<and> e_ipaddr (arp_table s' ! i) = 0x0300000a"
    using f by (intro exI [of _ "2 :: nat"]) (auto simp: two_entries_def)
qed

theorem arp_resolves_witness:
  "\<forall>s. \<exists>s1 s2. update_arp_entry arp_desk 0x100 0x0100000a 0x2000 ETHARP_FLAG_FIND_ONLY (two_entries s) = Some (Returned ERR_OK, s1) \<and>
    e_state (arp_table s1 ! 0) = ETHARP_STATE_STABLE \<and> etharp_query arp_desk 0x100 0x0100000a 0x3000 s1 = Some (Returned ERR_OK, s2) \<and>
    load_eth (payload s1 0x3000) s2 = load_eth 0x2000 (two_entries s)"
proof
  fix s
  have k: "known (arp_table (two_entries s)) 0x0100000a 0" by (simp add: known_def two_entries_def sample_entries)
  have "\<exists>s1. update_arp_entry arp_desk 0x100 0x0100000a 0x2000 ETHARP_FLAG_FIND_ONLY (two_entries s) = Some (Returned ERR_OK, s1)"
    using find_known [OF two_entries_ok k, of arp_desk ETHARP_FLAG_FIND_ONLY]
    by (simp add: update_arp_entry_def ip4_addr_isbroadcast_def ip_addr_ismulticast_def lwip_htonl_def after_def Let_def send_queue.simps
        two_entries_def sample_entries upd_entry_def)
  then obtain s1 where u: "update_arp_entry arp_desk 0x100 0x0100000a 0x2000 ETHARP_FLAG_FIND_ONLY (two_entries s) = Some (Returned ERR_OK, s1)" by blast
  have "length (netif_hwaddr (two_entries s) 0x100) = 6" by (simp add: two_entries_def)
  note r = arp_resolves [OF quiet_desk two_entries_ok k _ this u, of "0x3000"]
  then have "e_state (arp_table s1 ! 0) = ETHARP_STATE_STABLE" by (simp add: two_entries_def)
  then show "\<exists>s1 s2. update_arp_entry arp_desk 0x100 0x0100000a 0x2000 ETHARP_FLAG_FIND_ONLY (two_entries s) = Some (Returned ERR_OK, s1) \<and>
    e_state (arp_table s1 ! 0) = ETHARP_STATE_STABLE \<and> etharp_query arp_desk 0x100 0x0100000a 0x3000 s1 = Some (Returned ERR_OK, s2) \<and>
    load_eth (payload s1 0x3000) s2 = load_eth 0x2000 (two_entries s)"
    using u r by (auto simp: arp_desk_def)
qed

end
