(* ===== verification/Fsm.thy ===== *)
theory Fsm
  imports Timeouts
begin

text \<open>
  The negotiation machine that the PPP control protocols share: netif/ppp/fsm.c.  A record is one \<open>struct fsm\<close> with what it
  uses of its surroundings: the packet buffer and the largest packet of its unit, the frames handed to \<open>pppWrite\<close>, its
  timer, and in \<open>f_world\<close> the data of the protocol.  The protocol's routines are a record of functions, \<open>None\<close> for a
  null pointer.  \<open>TIMEOUT\<close> removes the timer before it starts it, so there is never more than one (theory Timeouts).
  PPP is switched off in the lwipopts.h of the repository; the file is modelled as it is compiled with \<open>PPP_SUPPORT\<close>.
\<close>

section \<open>Data\<close>

record 'w fsm =
  f_protocol :: u16
  f_state :: int
  f_flags :: u32
  f_id :: u8
  f_reqid :: u8
  f_seen_ack :: u8
  f_timeouttime :: int
  f_maxconfreqtransmits :: int
  f_retransmits :: int
  f_maxtermtransmits :: int
  f_nakloops :: int
  f_maxnakloops :: int
  f_term_reason :: "u8 list"
  f_term_reason_len :: int
  f_outpacket :: "u8 list"
  f_peer_mru :: int
  f_sent :: "u8 list list"
  f_timer :: "int option"
  f_world :: 'w

record 'w fsm_callbacks =
  resetci :: "('w fsm \<Rightarrow> 'w fsm) option"
  cilen :: "('w fsm \<Rightarrow> int \<times> 'w fsm) option"
  addci :: "(int \<Rightarrow> 'w fsm \<Rightarrow> int \<times> 'w fsm) option"
  ackci :: "(u8 list \<Rightarrow> int \<Rightarrow> 'w fsm \<Rightarrow> int \<times> 'w fsm) option"
  nakci :: "(u8 list \<Rightarrow> int \<Rightarrow> 'w fsm \<Rightarrow> int \<times> 'w fsm) option"
  rejci :: "(u8 list \<Rightarrow> int \<Rightarrow> 'w fsm \<Rightarrow> int \<times> 'w fsm) option"
  reqci :: "(u8 list \<Rightarrow> int \<Rightarrow> bool \<Rightarrow> 'w fsm \<Rightarrow> (int \<times> u8 list \<times> int) \<times> 'w fsm) option"
  up :: "('w fsm \<Rightarrow> 'w fsm) option"
  down :: "('w fsm \<Rightarrow> 'w fsm) option"
  starting :: "('w fsm \<Rightarrow> 'w fsm) option"
  finished :: "('w fsm \<Rightarrow> 'w fsm) option"
  cb_retransmit :: "('w fsm \<Rightarrow> 'w fsm) option"
  extcode :: "(u8 \<Rightarrow> u8 \<Rightarrow> u8 list \<Rightarrow> int \<Rightarrow> 'w fsm \<Rightarrow> int \<times> 'w fsm) option"

abbreviation (input) LS_INITIAL :: int where "LS_INITIAL \<equiv> 0"
abbreviation (input) LS_STARTING :: int where "LS_STARTING \<equiv> 1"
abbreviation (input) LS_CLOSED :: int where "LS_CLOSED \<equiv> 2"
abbreviation (input) LS_STOPPED :: int where "LS_STOPPED \<equiv> 3"
abbreviation (input) LS_CLOSING :: int where "LS_CLOSING \<equiv> 4"
abbreviation (input) LS_STOPPING :: int where "LS_STOPPING \<equiv> 5"
abbreviation (input) LS_REQSENT :: int where "LS_REQSENT \<equiv> 6"
abbreviation (input) LS_ACKRCVD :: int where "LS_ACKRCVD \<equiv> 7"
abbreviation (input) LS_ACKSENT :: int where "LS_ACKSENT \<equiv> 8"
abbreviation (input) LS_OPENED :: int where "LS_OPENED \<equiv> 9"

abbreviation (input) CONFREQ :: u8 where "CONFREQ \<equiv> 1"
abbreviation (input) CONFACK :: u8 where "CONFACK \<equiv> 2"
abbreviation (input) CONFNAK :: u8 where "CONFNAK \<equiv> 3"
abbreviation (input) CONFREJ :: u8 where "CONFREJ \<equiv> 4"
abbreviation (input) TERMREQ :: u8 where "TERMREQ \<equiv> 5"
abbreviation (input) TERMACK :: u8 where "TERMACK \<equiv> 6"
abbreviation (input) CODEREJ :: u8 where "CODEREJ \<equiv> 7"

abbreviation (input) OPT_PASSIVE :: u32 where "OPT_PASSIVE \<equiv> 1"
abbreviation (input) OPT_RESTART :: u32 where "OPT_RESTART \<equiv> 2"
abbreviation (input) OPT_SILENT :: u32 where "OPT_SILENT \<equiv> 4"

abbreviation (input) HEADERLEN :: int where "HEADERLEN \<equiv> 4"
abbreviation (input) PPP_HDRLEN :: int where "PPP_HDRLEN \<equiv> 4"
abbreviation (input) PPP_ALLSTATIONS :: u8 where "PPP_ALLSTATIONS \<equiv> 0xff"
abbreviation (input) PPP_UI :: u8 where "PPP_UI \<equiv> 0x03"
abbreviation (input) FSM_DEFTIMEOUT :: int where "FSM_DEFTIMEOUT \<equiv> 6"
abbreviation (input) FSM_DEFMAXTERMREQS :: int where "FSM_DEFMAXTERMREQS \<equiv> 2"
abbreviation (input) FSM_DEFMAXCONFREQS :: int where "FSM_DEFMAXCONFREQS \<equiv> 10"
abbreviation (input) FSM_DEFMAXNAKLOOPS :: int where "FSM_DEFMAXNAKLOOPS \<equiv> 5"

text \<open>A call through a pointer that may be null.\<close>

definition callback :: "('w fsm \<Rightarrow> 'w fsm) option \<Rightarrow> 'w fsm \<Rightarrow> 'w fsm" where
  "callback c f = (case c of None \<Rightarrow> f | Some g \<Rightarrow> g f)"

definition TIMEOUT :: "'w fsm \<Rightarrow> 'w fsm" where
  "TIMEOUT f = f\<lparr>f_timer := Some (f_timeouttime f * 1000)\<rparr>"

definition UNTIMEOUT :: "'w fsm \<Rightarrow> 'w fsm" where
  "UNTIMEOUT f = f\<lparr>f_timer := None\<rparr>"

section \<open>Sending\<close>

text \<open>\<open>None\<close> for data that stand in the packet buffer already.\<close>

definition fsm_sdata :: "u8 \<Rightarrow> u8 \<Rightarrow> u8 list option \<Rightarrow> int \<Rightarrow> 'w fsm \<Rightarrow> 'w fsm" where
  "fsm_sdata code n data datalen f =
     (let datalen = (if datalen > f_peer_mru f - HEADERLEN then f_peer_mru f - HEADERLEN else datalen);
          buf = f_outpacket f;
          buf = (case data of
                   None \<Rightarrow> buf
                 | Some d \<Rightarrow> if datalen \<noteq> 0 then take 8 buf @ take (nat datalen) d @ drop (8 + nat datalen) buf else buf);
          outlen = datalen + HEADERLEN;
          buf = [PPP_ALLSTATIONS, PPP_UI, ucast (drop_bit 8 (f_protocol f)), ucast (f_protocol f), code, n,
                 of_int (drop_bit 8 outlen), of_int (outlen AND 0xff)] @ drop 8 buf;
          f = f\<lparr>f_outpacket := buf\<rparr>
      in f\<lparr>f_sent := f_sent f @ [take (nat (outlen + PPP_HDRLEN)) buf]\<rparr>)"

definition fsm_sconfreq :: "'w fsm_callbacks \<Rightarrow> bool \<Rightarrow> 'w fsm \<Rightarrow> 'w fsm" where
  "fsm_sconfreq cb retransmit f =
     (let f = (if f_state f \<noteq> LS_REQSENT \<and> f_state f \<noteq> LS_ACKRCVD \<and> f_state f \<noteq> LS_ACKSENT then
                 let f = callback (resetci cb) f in f\<lparr>f_nakloops := 0\<rparr>
               else f);
          f = (if \<not> retransmit then
                 let f = f\<lparr>f_retransmits := f_maxconfreqtransmits f\<rparr>;
                     f = f\<lparr>f_id := f_id f + 1\<rparr>
                 in f\<lparr>f_reqid := f_id f\<rparr>
               else f);
          f = f\<lparr>f_seen_ack := 0\<rparr>;
          (n, f) = (case (cilen cb, addci cb) of
                      (Some c, Some a) \<Rightarrow>
                        let (n, f) = c f;
                            n = (if n > f_peer_mru f - HEADERLEN then f_peer_mru f - HEADERLEN else n)
                        in a n f
                    | _ \<Rightarrow> (0, f));
          f = fsm_sdata CONFREQ (f_reqid f) None n f;
          f = f\<lparr>f_retransmits := f_retransmits f - 1\<rparr>
      in TIMEOUT f)"

text \<open>The Terminate-Request of \<open>fsm_close\<close>, \<open>fsm_timeout\<close> and \<open>fsm_protreject\<close>.\<close>

definition fsm_sterm :: "'w fsm \<Rightarrow> 'w fsm" where
  "fsm_sterm f =
     (let f = f\<lparr>f_id := f_id f + 1\<rparr>;
          f = f\<lparr>f_reqid := f_id f\<rparr>;
          f = fsm_sdata TERMREQ (f_reqid f) (Some (f_term_reason f)) (f_term_reason_len f) f;
          f = TIMEOUT f
      in f\<lparr>f_retransmits := f_retransmits f - 1\<rparr>)"

section \<open>Events\<close>

definition fsm_init :: "'w fsm \<Rightarrow> 'w fsm" where
  "fsm_init f = f\<lparr>f_state := LS_INITIAL, f_flags := 0, f_id := 0, f_timeouttime := FSM_DEFTIMEOUT,
     f_maxconfreqtransmits := FSM_DEFMAXCONFREQS, f_maxtermtransmits := FSM_DEFMAXTERMREQS, f_maxnakloops := FSM_DEFMAXNAKLOOPS,
     f_term_reason_len := 0\<rparr>"

definition fsm_lowerup :: "'w fsm_callbacks \<Rightarrow> 'w fsm \<Rightarrow> 'w fsm" where
  "fsm_lowerup cb f =
     (if f_state f = LS_INITIAL then f\<lparr>f_state := LS_CLOSED\<rparr>
      else if f_state f = LS_STARTING then
        if f_flags f AND OPT_SILENT \<noteq> 0 then f\<lparr>f_state := LS_STOPPED\<rparr>
        else
          let f = fsm_sconfreq cb False f
          in f\<lparr>f_state := LS_REQSENT\<rparr>
      else f)"

definition fsm_lowerdown :: "'w fsm_callbacks \<Rightarrow> 'w fsm \<Rightarrow> 'w fsm" where
  "fsm_lowerdown cb f =
     (if f_state f = LS_CLOSED then f\<lparr>f_state := LS_INITIAL\<rparr>
      else if f_state f = LS_STOPPED then callback (starting cb) (f\<lparr>f_state := LS_STARTING\<rparr>)
      else if f_state f = LS_CLOSING then UNTIMEOUT (f\<lparr>f_state := LS_INITIAL\<rparr>)
      else if f_state f = LS_STOPPING \<or> f_state f = LS_REQSENT \<or> f_state f = LS_ACKRCVD \<or> f_state f = LS_ACKSENT then
        UNTIMEOUT (f\<lparr>f_state := LS_STARTING\<rparr>)
      else if f_state f = LS_OPENED then
        let f = callback (down cb) f
        in f\<lparr>f_state := LS_STARTING\<rparr>
      else f)"

definition fsm_open :: "'w fsm_callbacks \<Rightarrow> 'w fsm \<Rightarrow> 'w fsm" where
  "fsm_open cb f =
     (let restart = (\<lambda>f. if f_flags f AND OPT_RESTART \<noteq> 0 then fsm_lowerup cb (fsm_lowerdown cb f) else f)
      in if f_state f = LS_INITIAL then callback (starting cb) (f\<lparr>f_state := LS_STARTING\<rparr>)
         else if f_state f = LS_CLOSED then
           if f_flags f AND OPT_SILENT \<noteq> 0 then f\<lparr>f_state := LS_STOPPED\<rparr>
           else
             let f = fsm_sconfreq cb False f
             in f\<lparr>f_state := LS_REQSENT\<rparr>
         else if f_state f = LS_CLOSING then restart (f\<lparr>f_state := LS_STOPPING\<rparr>)
         else if f_state f = LS_STOPPED \<or> f_state f = LS_OPENED then restart f
         else f)"

text \<open>The reason is \<open>None\<close> for a null pointer.\<close>

definition fsm_close :: "'w fsm_callbacks \<Rightarrow> u8 list option \<Rightarrow> 'w fsm \<Rightarrow> 'w fsm" where
  "fsm_close cb reason f =
     (let f = f\<lparr>f_term_reason := (case reason of None \<Rightarrow> [] | Some r \<Rightarrow> r)\<rparr>;
          f = f\<lparr>f_term_reason_len := (case reason of None \<Rightarrow> 0 | Some r \<Rightarrow> int (length r))\<rparr>
      in if f_state f = LS_STARTING then f\<lparr>f_state := LS_INITIAL\<rparr>
         else if f_state f = LS_STOPPED then f\<lparr>f_state := LS_CLOSED\<rparr>
         else if f_state f = LS_STOPPING then f\<lparr>f_state := LS_CLOSING\<rparr>
         else if f_state f = LS_REQSENT \<or> f_state f = LS_ACKRCVD \<or> f_state f = LS_ACKSENT \<or> f_state f = LS_OPENED then
           let f = (if f_state f \<noteq> LS_OPENED then UNTIMEOUT f else callback (down cb) f);
               f = f\<lparr>f_retransmits := f_maxtermtransmits f\<rparr>;
               f = fsm_sterm f
           in f\<lparr>f_state := LS_CLOSING\<rparr>
         else f)"

definition fsm_timeout :: "'w fsm_callbacks \<Rightarrow> 'w fsm \<Rightarrow> 'w fsm" where
  "fsm_timeout cb f =
     (if f_state f = LS_CLOSING \<or> f_state f = LS_STOPPING then
        if f_retransmits f \<le> 0 then
          let f = f\<lparr>f_state := (if f_state f = LS_CLOSING then LS_CLOSED else LS_STOPPED)\<rparr>
          in callback (finished cb) f
        else fsm_sterm f
      else if f_state f = LS_REQSENT \<or> f_state f = LS_ACKRCVD \<or> f_state f = LS_ACKSENT then
        if f_retransmits f \<le> 0 then
          let f = f\<lparr>f_state := LS_STOPPED\<rparr>
          in if f_flags f AND OPT_PASSIVE = 0 then callback (finished cb) f else f
        else
          let f = callback (cb_retransmit cb) f;
              f = fsm_sconfreq cb True f
          in if f_state f = LS_ACKRCVD then f\<lparr>f_state := LS_REQSENT\<rparr> else f
      else f)"

definition fsm_rconfreq :: "'w fsm_callbacks \<Rightarrow> u8 \<Rightarrow> u8 list \<Rightarrow> int \<Rightarrow> 'w fsm \<Rightarrow> 'w fsm" where
  "fsm_rconfreq cb n inp len f =
     (if f_state f = LS_CLOSED then fsm_sdata TERMACK n (Some []) 0 f
      else if f_state f = LS_CLOSING \<or> f_state f = LS_STOPPING then f
      else
        let f = (if f_state f = LS_OPENED then
                   let f = callback (down cb) f
                   in fsm_sconfreq cb False f
                 else if f_state f = LS_STOPPED then
                   let f = fsm_sconfreq cb False f
                   in f\<lparr>f_state := LS_REQSENT\<rparr>
                 else f);
            ((code, inp, len), f) = (case reqci cb of
               Some r \<Rightarrow>
                 let reject_if_disagree = (f_nakloops f \<ge> f_maxnakloops f)
                 in r inp len reject_if_disagree f
             | None \<Rightarrow> if len \<noteq> 0 then ((4, inp, len), f) else ((2, inp, len), f));
            f = fsm_sdata (of_int code) n (Some inp) len f
        in if code = 2 then
             let f = (if f_state f = LS_ACKRCVD then
                        let f = UNTIMEOUT f;
                            f = f\<lparr>f_state := LS_OPENED\<rparr>
                        in callback (up cb) f
                      else f\<lparr>f_state := LS_ACKSENT\<rparr>)
             in f\<lparr>f_nakloops := 0\<rparr>
           else
             let f = (if f_state f \<noteq> LS_ACKRCVD then f\<lparr>f_state := LS_REQSENT\<rparr> else f)
             in if code = 3 then f\<lparr>f_nakloops := f_nakloops f + 1\<rparr> else f)"

definition fsm_rconfack :: "'w fsm_callbacks \<Rightarrow> u8 \<Rightarrow> u8 list \<Rightarrow> int \<Rightarrow> 'w fsm \<Rightarrow> 'w fsm" where
  "fsm_rconfack cb n inp len f =
     (if n \<noteq> f_reqid f \<or> f_seen_ack f \<noteq> 0 then f
      else
        let (good, f) = (case ackci cb of Some a \<Rightarrow> a inp len f | None \<Rightarrow> (if len = 0 then 1 else 0, f))
        in if good = 0 then f
           else
             let f = f\<lparr>f_seen_ack := 1\<rparr>
             in if f_state f = LS_CLOSED \<or> f_state f = LS_STOPPED then fsm_sdata TERMACK n (Some []) 0 f
                else if f_state f = LS_REQSENT then
                  let f = f\<lparr>f_state := LS_ACKRCVD\<rparr>
                  in f\<lparr>f_retransmits := f_maxconfreqtransmits f\<rparr>
                else if f_state f = LS_ACKRCVD then
                  let f = UNTIMEOUT f;
                      f = fsm_sconfreq cb False f
                  in f\<lparr>f_state := LS_REQSENT\<rparr>
                else if f_state f = LS_ACKSENT then
                  let f = UNTIMEOUT f;
                      f = f\<lparr>f_state := LS_OPENED\<rparr>;
                      f = f\<lparr>f_retransmits := f_maxconfreqtransmits f\<rparr>
                  in callback (up cb) f
                else if f_state f = LS_OPENED then
                  let f = callback (down cb) f;
                      f = fsm_sconfreq cb False f
                  in f\<lparr>f_state := LS_REQSENT\<rparr>
                else f)"

definition fsm_rconfnakrej :: "'w fsm_callbacks \<Rightarrow> u8 \<Rightarrow> u8 \<Rightarrow> u8 list \<Rightarrow> int \<Rightarrow> 'w fsm \<Rightarrow> 'w fsm" where
  "fsm_rconfnakrej cb code n inp len f =
     (if n \<noteq> f_reqid f \<or> f_seen_ack f \<noteq> 0 then f
      else
        let (ret, f) = (case (if code = CONFNAK then nakci cb else rejci cb) of None \<Rightarrow> (0, f) | Some proc \<Rightarrow> proc inp len f)
        in if ret = 0 then f
           else
             let f = f\<lparr>f_seen_ack := 1\<rparr>
             in if f_state f = LS_CLOSED \<or> f_state f = LS_STOPPED then fsm_sdata TERMACK n (Some []) 0 f
                else if f_state f = LS_REQSENT \<or> f_state f = LS_ACKSENT then
                  let f = UNTIMEOUT f
                  in if ret < 0 then f\<lparr>f_state := LS_STOPPED\<rparr> else fsm_sconfreq cb False f
                else if f_state f = LS_ACKRCVD then
                  let f = UNTIMEOUT f;
                      f = fsm_sconfreq cb False f
                  in f\<lparr>f_state := LS_REQSENT\<rparr>
                else if f_state f = LS_OPENED then
                  let f = callback (down cb) f;
                      f = fsm_sconfreq cb False f
                  in f\<lparr>f_state := LS_REQSENT\<rparr>
                else f)"

definition fsm_rtermreq :: "'w fsm_callbacks \<Rightarrow> u8 \<Rightarrow> 'w fsm \<Rightarrow> 'w fsm" where
  "fsm_rtermreq cb n f =
     (let f = (if f_state f = LS_ACKRCVD \<or> f_state f = LS_ACKSENT then f\<lparr>f_state := LS_REQSENT\<rparr>
               else if f_state f = LS_OPENED then
                 let f = callback (down cb) f;
                     f = f\<lparr>f_retransmits := 0\<rparr>;
                     f = f\<lparr>f_state := LS_STOPPING\<rparr>
                 in TIMEOUT f
               else f)
      in fsm_sdata TERMACK n (Some []) 0 f)"

definition fsm_rtermack :: "'w fsm_callbacks \<Rightarrow> 'w fsm \<Rightarrow> 'w fsm" where
  "fsm_rtermack cb f =
     (if f_state f = LS_CLOSING then
        let f = UNTIMEOUT f;
            f = f\<lparr>f_state := LS_CLOSED\<rparr>
        in callback (finished cb) f
      else if f_state f = LS_STOPPING then
        let f = UNTIMEOUT f;
            f = f\<lparr>f_state := LS_STOPPED\<rparr>
        in callback (finished cb) f
      else if f_state f = LS_ACKRCVD then f\<lparr>f_state := LS_REQSENT\<rparr>
      else if f_state f = LS_OPENED then
        let f = callback (down cb) f
        in fsm_sconfreq cb False f
      else f)"

definition fsm_rcoderej :: "int \<Rightarrow> 'w fsm \<Rightarrow> 'w fsm" where
  "fsm_rcoderej len f =
     (if len < HEADERLEN then f
      else if f_state f = LS_ACKRCVD then f\<lparr>f_state := LS_REQSENT\<rparr>
      else f)"

definition fsm_protreject :: "'w fsm_callbacks \<Rightarrow> 'w fsm \<Rightarrow> 'w fsm" where
  "fsm_protreject cb f =
     (if f_state f = LS_CLOSING \<or> f_state f = LS_CLOSED then
        let f = (if f_state f = LS_CLOSING then UNTIMEOUT f else f);
            f = f\<lparr>f_state := LS_CLOSED\<rparr>
        in callback (finished cb) f
      else if f_state f = LS_STOPPING \<or> f_state f = LS_REQSENT \<or> f_state f = LS_ACKRCVD \<or> f_state f = LS_ACKSENT \<or> f_state f = LS_STOPPED then
        let f = (if f_state f \<noteq> LS_STOPPED then UNTIMEOUT f else f);
            f = f\<lparr>f_state := LS_STOPPED\<rparr>
        in callback (finished cb) f
      else if f_state f = LS_OPENED then
        let f = callback (down cb) f;
            f = f\<lparr>f_retransmits := f_maxtermtransmits f\<rparr>;
            f = fsm_sterm f
        in f\<lparr>f_state := LS_STOPPING\<rparr>
      else f)"

definition fsm_input :: "'w fsm_callbacks \<Rightarrow> u8 list \<Rightarrow> 'w fsm \<Rightarrow> 'w fsm" where
  "fsm_input cb inpacket f =
     (let l = int (length inpacket)
      in if l < HEADERLEN then f
         else
           let code = inpacket ! 0;
               n = inpacket ! 1;
               len = 256 * uint (inpacket ! 2) + uint (inpacket ! 3);
               inp = drop 4 inpacket
           in if len < HEADERLEN then f
              else if len > l then f
              else
                let len = len - HEADERLEN
                in if f_state f = LS_INITIAL \<or> f_state f = LS_STARTING then f
                   else if code = CONFREQ then fsm_rconfreq cb n inp len f
                   else if code = CONFACK then fsm_rconfack cb n inp len f
                   else if code = CONFNAK \<or> code = CONFREJ then fsm_rconfnakrej cb code n inp len f
                   else if code = TERMREQ then fsm_rtermreq cb n f
                   else if code = TERMACK then fsm_rtermack cb f
                   else if code = CODEREJ then fsm_rcoderej len f
                   else
                     let (known, f) = (case extcode cb of None \<Rightarrow> (0, f) | Some e \<Rightarrow> e code n inp len f)
                     in if known = 0 then
                          let f = f\<lparr>f_id := f_id f + 1\<rparr>
                          in fsm_sdata CODEREJ (f_id f) (Some inpacket) (len + HEADERLEN) f
                        else f)"

section \<open>The machine as a step relation\<close>

text \<open>The timer leaves the list of timeouts before its handler runs.\<close>

datatype fsm_event = LowerUp | LowerDown | OpenReq | CloseReq "u8 list option" | TimerExpired | PacketIn "u8 list" | ProtReject

fun fsm_handle :: "'w fsm_callbacks \<Rightarrow> fsm_event \<Rightarrow> 'w fsm \<Rightarrow> 'w fsm" where
  "fsm_handle cb LowerUp f = fsm_lowerup cb f"
| "fsm_handle cb LowerDown f = fsm_lowerdown cb f"
| "fsm_handle cb OpenReq f = fsm_open cb f"
| "fsm_handle cb (CloseReq r) f = fsm_close cb r f"
| "fsm_handle cb TimerExpired f = fsm_timeout cb (f\<lparr>f_timer := None\<rparr>)"
| "fsm_handle cb (PacketIn p) f = fsm_input cb p f"
| "fsm_handle cb ProtReject f = fsm_protreject cb f"

inductive fsm_step :: "'w fsm_callbacks \<Rightarrow> fsm_event \<Rightarrow> 'w fsm \<Rightarrow> 'w fsm \<Rightarrow> bool" for cb where
  event: "e \<noteq> TimerExpired \<Longrightarrow> fsm_step cb e f (fsm_handle cb e f)"
| timer: "f_timer f = Some t \<Longrightarrow> fsm_step cb TimerExpired f (fsm_handle cb TimerExpired f)"

inductive_simps fsm_step_iff: "fsm_step cb e f f'"

text \<open>A Terminate-Ack that arrives in the state Opened, without having been asked for.\<close>

fun stray_ack :: "fsm_event \<Rightarrow> 'w fsm \<Rightarrow> bool" where
  "stray_ack (PacketIn p) f = (f_state f = LS_OPENED \<and> 4 \<le> length p \<and> p ! 0 = TERMACK)"
| "stray_ack _ f = False"

text \<open>What can be reached from a fresh machine; the flag tells whether a stray Terminate-Ack was received on the way.\<close>

inductive fsm_reach :: "'w fsm_callbacks \<Rightarrow> 'w fsm \<Rightarrow> bool \<Rightarrow> 'w fsm \<Rightarrow> bool" for cb f0 where
  start: "fsm_reach cb f0 False (fsm_init f0)"
| step: "fsm_reach cb f0 b f \<Longrightarrow> fsm_step cb e f f' \<Longrightarrow> fsm_reach cb f0 (b \<or> stray_ack e f) f'"

text \<open>
  What is asked of the routines of the protocol: they do not drive the machine themselves.  The count \<open>lv\<close> of its data grows
  by \<open>d\<close> when the layer is told that it is up and shrinks by \<open>d\<close> when it is told that it is down.
\<close>

definition ctl :: "'w fsm \<Rightarrow> int \<times> u32 \<times> u8 \<times> u8 \<times> u8 \<times> int \<times> int \<times> int \<times> int \<times> int option \<times> u8 list list" where
  "ctl f = (f_state f, f_flags f, f_id f, f_reqid f, f_seen_ack f, f_timeouttime f, f_maxconfreqtransmits f, f_retransmits f,
     f_maxtermtransmits f, f_timer f, f_sent f)"

definition leaves :: "('w \<Rightarrow> int) \<Rightarrow> int \<Rightarrow> 'w fsm \<Rightarrow> 'w fsm \<Rightarrow> bool" where
  "leaves lv d f f' \<longleftrightarrow> ctl f' = ctl f \<and> lv (f_world f') = lv (f_world f) + d"

definition polite :: "('w \<Rightarrow> int) \<Rightarrow> int \<Rightarrow> 'w fsm_callbacks \<Rightarrow> bool" where
  "polite lv d cb \<longleftrightarrow>
     (\<forall>g \<in> {resetci cb, starting cb, finished cb, cb_retransmit cb}. \<forall>f. leaves lv 0 f (callback g f)) \<and>
     (\<forall>f. leaves lv d f (callback (up cb) f)) \<and>
     (\<forall>f. leaves lv (- d) f (callback (down cb) f)) \<and>
     (\<forall>c f. cilen cb = Some c \<longrightarrow> leaves lv 0 f (snd (c f))) \<and>
     (\<forall>c n f. addci cb = Some c \<longrightarrow> leaves lv 0 f (snd (c n f))) \<and>
     (\<forall>c inp len f. ackci cb = Some c \<longrightarrow> leaves lv 0 f (snd (c inp len f))) \<and>
     (\<forall>c inp len f. nakci cb = Some c \<longrightarrow> leaves lv 0 f (snd (c inp len f))) \<and>
     (\<forall>c inp len f. rejci cb = Some c \<longrightarrow> leaves lv 0 f (snd (c inp len f))) \<and>
     (\<forall>c inp len b f. reqci cb = Some c \<longrightarrow> leaves lv 0 f (snd (c inp len b f))) \<and>
     (\<forall>c code n inp len f. extcode cb = Some c \<longrightarrow> leaves lv 0 f (snd (c code n inp len f)))"

section \<open>What the pieces change\<close>

lemma leaves_simps:
  assumes "leaves lv d f f'"
  shows "f_state f' = f_state f" "f_flags f' = f_flags f" "f_id f' = f_id f" "f_reqid f' = f_reqid f" "f_seen_ack f' = f_seen_ack f"
    "f_timeouttime f' = f_timeouttime f" "f_maxconfreqtransmits f' = f_maxconfreqtransmits f" "f_retransmits f' = f_retransmits f"
    "f_maxtermtransmits f' = f_maxtermtransmits f" "f_timer f' = f_timer f" "f_sent f' = f_sent f"
    "lv (f_world f') = lv (f_world f) + d"
  using assms by (auto simp: leaves_def ctl_def)

lemma fsm_sdata_keeps [simp]:
  "f_state (fsm_sdata c n d l f) = f_state f" "f_flags (fsm_sdata c n d l f) = f_flags f" "f_id (fsm_sdata c n d l f) = f_id f"
  "f_reqid (fsm_sdata c n d l f) = f_reqid f" "f_seen_ack (fsm_sdata c n d l f) = f_seen_ack f"
  "f_timeouttime (fsm_sdata c n d l f) = f_timeouttime f"
  "f_maxconfreqtransmits (fsm_sdata c n d l f) = f_maxconfreqtransmits f"
  "f_retransmits (fsm_sdata c n d l f) = f_retransmits f" "f_maxtermtransmits (fsm_sdata c n d l f) = f_maxtermtransmits f"
  "f_timer (fsm_sdata c n d l f) = f_timer f" "f_world (fsm_sdata c n d l f) = f_world f"
  "length (f_sent (fsm_sdata c n d l f)) = Suc (length (f_sent f))"
  by (simp_all add: fsm_sdata_def Let_def)

lemma TIMEOUT_keeps [simp]:
  "f_state (TIMEOUT f) = f_state f" "f_flags (TIMEOUT f) = f_flags f" "f_retransmits (TIMEOUT f) = f_retransmits f"
  "f_timer (TIMEOUT f) = Some (f_timeouttime f * 1000)" "f_world (TIMEOUT f) = f_world f" "f_sent (TIMEOUT f) = f_sent f"
  "f_maxconfreqtransmits (TIMEOUT f) = f_maxconfreqtransmits f" "f_reqid (TIMEOUT f) = f_reqid f" "f_seen_ack (TIMEOUT f) = f_seen_ack f"
  by (simp_all add: TIMEOUT_def)

lemma UNTIMEOUT_keeps [simp]:
  "f_state (UNTIMEOUT f) = f_state f" "f_flags (UNTIMEOUT f) = f_flags f" "f_retransmits (UNTIMEOUT f) = f_retransmits f"
  "f_timer (UNTIMEOUT f) = None" "f_world (UNTIMEOUT f) = f_world f" "f_sent (UNTIMEOUT f) = f_sent f"
  by (simp_all add: UNTIMEOUT_def)

lemma fsm_sterm_keeps [simp]:
  "f_state (fsm_sterm f) = f_state f" "f_flags (fsm_sterm f) = f_flags f" "f_retransmits (fsm_sterm f) = f_retransmits f - 1"
  "f_timer (fsm_sterm f) \<noteq> None" "f_world (fsm_sterm f) = f_world f" "length (f_sent (fsm_sterm f)) = Suc (length (f_sent f))"
  by (simp_all add: fsm_sterm_def Let_def)

text \<open>The results of a call through each of the pointers, for routines that are polite.\<close>

lemma polite_leaves:
  assumes "polite lv d cb"
  shows "leaves lv 0 f (callback (resetci cb) f)" "leaves lv 0 f (callback (starting cb) f)"
    "leaves lv 0 f (callback (finished cb) f)" "leaves lv 0 f (callback (cb_retransmit cb) f)"
    "leaves lv d f (callback (up cb) f)" "leaves lv (- d) f (callback (down cb) f)"
    "cilen cb = Some c1 \<Longrightarrow> leaves lv 0 f (snd (c1 f))" "addci cb = Some c2 \<Longrightarrow> leaves lv 0 f (snd (c2 n f))"
    "ackci cb = Some c3 \<Longrightarrow> leaves lv 0 f (snd (c3 inp len f))" "nakci cb = Some c3 \<Longrightarrow> leaves lv 0 f (snd (c3 inp len f))"
    "rejci cb = Some c3 \<Longrightarrow> leaves lv 0 f (snd (c3 inp len f))" "reqci cb = Some c4 \<Longrightarrow> leaves lv 0 f (snd (c4 inp len b f))"
    "extcode cb = Some c5 \<Longrightarrow> leaves lv 0 f (snd (c5 code n' inp len f))"
  using assms unfolding polite_def by auto

lemmas polite_simps = polite_leaves [THEN leaves_simps(1)] polite_leaves [THEN leaves_simps(2)]
  polite_leaves [THEN leaves_simps(8)] polite_leaves [THEN leaves_simps(10)] polite_leaves [THEN leaves_simps(11)]
  polite_leaves [THEN leaves_simps(12)] polite_leaves [THEN leaves_simps(7)] polite_leaves [THEN leaves_simps(9)]

lemma fsm_sconfreq_keeps:
  assumes p: "polite lv d cb"
  shows "f_state (fsm_sconfreq cb r f) = f_state f" "f_flags (fsm_sconfreq cb r f) = f_flags f"
    "f_timer (fsm_sconfreq cb r f) \<noteq> None" "lv (f_world (fsm_sconfreq cb r f)) = lv (f_world f)"
    "f_retransmits (fsm_sconfreq cb r f) = (if r then f_retransmits f else f_maxconfreqtransmits f) - 1"
    "length (f_sent (fsm_sconfreq cb r f)) = Suc (length (f_sent f))"
  by (simp_all add: fsm_sconfreq_def Let_def polite_simps [OF p] case_prod_unfold split: option.split)


section \<open>The timer and the layer above\<close>

definition timing :: "int \<Rightarrow> bool" where
  "timing s \<longleftrightarrow> s \<in> {LS_CLOSING, LS_STOPPING, LS_REQSENT, LS_ACKRCVD, LS_ACKSENT}"

definition fsm_ok :: "('w \<Rightarrow> int) \<Rightarrow> int \<Rightarrow> int \<Rightarrow> bool \<Rightarrow> 'w fsm \<Rightarrow> bool" where
  "fsm_ok lv d k b f \<longleftrightarrow>
     LS_INITIAL \<le> f_state f \<and> f_state f \<le> LS_OPENED \<and>
     (timing (f_state f) \<longrightarrow> f_timer f \<noteq> None) \<and>
     (\<not> b \<longrightarrow> (f_timer f \<noteq> None \<longrightarrow> timing (f_state f)) \<and>
              lv (f_world f) = (if f_state f = LS_OPENED then k + d else k))"

lemma state_cases:
  assumes "fsm_ok lv d k b f"
  obtains "f_state f = LS_INITIAL" | "f_state f = LS_STARTING" | "f_state f = LS_CLOSED" | "f_state f = LS_STOPPED"
    | "f_state f = LS_CLOSING" | "f_state f = LS_STOPPING" | "f_state f = LS_REQSENT" | "f_state f = LS_ACKRCVD"
    | "f_state f = LS_ACKSENT" | "f_state f = LS_OPENED"
proof -
  have "0 \<le> f_state f" "f_state f \<le> 9"
    using assms by (simp_all add: fsm_ok_def)
  then have "f_state f = 0 \<or> f_state f = 1 \<or> f_state f = 2 \<or> f_state f = 3 \<or> f_state f = 4 \<or> f_state f = 5 \<or>
      f_state f = 6 \<or> f_state f = 7 \<or> f_state f = 8 \<or> f_state f = 9"
    by presburger
  then show thesis
    using that by blast
qed

lemmas ok_simps = fsm_ok_def timing_def Let_def

lemma lowerup_ok:
  assumes p: "polite lv d cb" and o: "fsm_ok lv d k b f"
  shows "fsm_ok lv d k b (fsm_lowerup cb f)"
  using o by (cases rule: state_cases [OF o])
    (simp_all add: fsm_lowerup_def ok_simps polite_simps [OF p] fsm_sconfreq_keeps [OF p] del: not_None_eq)

lemma lowerdown_ok:
  assumes p: "polite lv d cb" and o: "fsm_ok lv d k b f"
  shows "fsm_ok lv d k b (fsm_lowerdown cb f)"
  using o by (cases rule: state_cases [OF o])
    (simp_all add: fsm_lowerdown_def ok_simps polite_simps [OF p] fsm_sconfreq_keeps [OF p] del: not_None_eq)

lemma open_ok:
  assumes p: "polite lv d cb" and o: "fsm_ok lv d k b f"
  shows "fsm_ok lv d k b (fsm_open cb f)"
proof -
  have r: "fsm_ok lv d k b g \<Longrightarrow> fsm_ok lv d k b (fsm_lowerup cb (fsm_lowerdown cb g))" for g
    by (intro lowerup_ok [OF p] lowerdown_ok [OF p])
  have c: "f_state f = LS_CLOSING \<Longrightarrow> fsm_ok lv d k b (f\<lparr>f_state := LS_STOPPING\<rparr>)"
    using o by (simp add: ok_simps)
  show ?thesis
  proof (cases "f_state f = LS_INITIAL \<or> f_state f = LS_CLOSED")
    case True
    then show ?thesis
      using o by (elim disjE) (simp_all add: fsm_open_def ok_simps polite_simps [OF p] fsm_sconfreq_keeps [OF p] del: not_None_eq)
  next
    case False
    then show ?thesis
      using o r [OF o] r [OF c] c by (simp add: fsm_open_def Let_def)
  qed
qed

lemma close_ok:
  assumes p: "polite lv d cb" and o: "fsm_ok lv d k b f"
  shows "fsm_ok lv d k b (fsm_close cb r f)"
  using o by (cases rule: state_cases [OF o])
    (simp_all add: fsm_close_def ok_simps polite_simps [OF p] fsm_sconfreq_keeps [OF p] del: not_None_eq)

lemma timeout_ok:
  assumes p: "polite lv d cb" and o: "fsm_ok lv d k b f"
  shows "fsm_ok lv d k b (fsm_timeout cb (f\<lparr>f_timer := None\<rparr>))"
proof (cases "f_state f = LS_CLOSING \<or> f_state f = LS_STOPPING")
  case True
  then show ?thesis
    using o by (auto simp: fsm_timeout_def ok_simps polite_simps [OF p] simp del: not_None_eq)
next
  case False
  then show ?thesis
    using o by (cases rule: state_cases [OF o])
      (auto simp: fsm_timeout_def ok_simps polite_simps [OF p] fsm_sconfreq_keeps [OF p] simp del: not_None_eq)
qed

lemma protreject_ok:
  assumes p: "polite lv d cb" and o: "fsm_ok lv d k b f"
  shows "fsm_ok lv d k b (fsm_protreject cb f)"
  using o by (cases rule: state_cases [OF o])
    (simp_all add: fsm_protreject_def ok_simps polite_simps [OF p] fsm_sconfreq_keeps [OF p] del: not_None_eq)


text \<open>What comes from the peer.\<close>

lemma rconfreq_ok:
  assumes p: "polite lv d cb" and o: "fsm_ok lv d k b f" and s: "f_state f \<noteq> LS_INITIAL" "f_state f \<noteq> LS_STARTING"
  shows "fsm_ok lv d k b (fsm_rconfreq cb n inp len f)"
  using o s by (cases rule: state_cases [OF o])
    (simp_all add: fsm_rconfreq_def ok_simps polite_simps [OF p] fsm_sconfreq_keeps [OF p] case_prod_unfold
      del: not_None_eq split: option.split)

lemma leaves_ok: "leaves lv 0 f g \<Longrightarrow> fsm_ok lv d k b f \<Longrightarrow> fsm_ok lv d k b g"
  by (simp add: leaves_simps fsm_ok_def)

lemma rconfack_ok:
  assumes p: "polite lv d cb" and o: "fsm_ok lv d k b f"
  shows "fsm_ok lv d k b (fsm_rconfack cb n inp len f)"
proof -
  obtain good g where r: "(case ackci cb of Some a \<Rightarrow> a inp len f | None \<Rightarrow> (if len = 0 then 1 else 0, f)) = (good, g)"
    by (rule prod.exhaust)
  have "leaves lv 0 f g"
    using r polite_leaves(9) [OF p, of _ f inp len] by (auto simp: leaves_def split: option.split_asm)
  from leaves_ok [OF this o] have g: "fsm_ok lv d k b g" .
  show ?thesis
    using g o unfolding fsm_rconfack_def r Let_def
    by (cases rule: state_cases [OF g])
      (simp_all add: ok_simps polite_simps [OF p] fsm_sconfreq_keeps [OF p] del: not_None_eq)
qed

lemma rconfnakrej_ok:
  assumes p: "polite lv d cb" and o: "fsm_ok lv d k b f"
  shows "fsm_ok lv d k b (fsm_rconfnakrej cb c n inp len f)"
proof -
  obtain ret g where r: "(case (if c = CONFNAK then nakci cb else rejci cb) of None \<Rightarrow> (0, f) | Some proc \<Rightarrow> proc inp len f) = (ret, g)"
    by (rule prod.exhaust)
  have "leaves lv 0 f g"
    using r polite_leaves(10) [OF p, of _ f inp len] polite_leaves(11) [OF p, of _ f inp len] by (auto simp: leaves_def split: option.split_asm if_split_asm)
  from leaves_ok [OF this o] have g: "fsm_ok lv d k b g" .
  show ?thesis
    using g o unfolding fsm_rconfnakrej_def r Let_def
    by (cases rule: state_cases [OF g])
      (simp_all add: ok_simps polite_simps [OF p] fsm_sconfreq_keeps [OF p] del: not_None_eq)
qed

lemma rtermreq_ok:
  assumes p: "polite lv d cb" and o: "fsm_ok lv d k b f"
  shows "fsm_ok lv d k b (fsm_rtermreq cb n f)"
  using o by (cases rule: state_cases [OF o])
    (simp_all add: fsm_rtermreq_def ok_simps polite_simps [OF p] del: not_None_eq)

lemma rtermack_ok:
  assumes p: "polite lv d cb" and o: "fsm_ok lv d k b f"
  shows "fsm_ok lv d k (b \<or> f_state f = LS_OPENED) (fsm_rtermack cb f)"
  using o by (cases rule: state_cases [OF o])
    (simp_all add: fsm_rtermack_def ok_simps polite_simps [OF p] fsm_sconfreq_keeps [OF p] del: not_None_eq)

lemma fsm_ok_weaken: "fsm_ok lv d k b f \<Longrightarrow> fsm_ok lv d k (b \<or> c) f"
  by (auto simp: fsm_ok_def)

lemma input_ok:
  assumes p: "polite lv d cb" and o: "fsm_ok lv d k b f"
  shows "fsm_ok lv d k (b \<or> stray_ack (PacketIn q) f) (fsm_input cb q f)"
proof -
  have t: "q ! 0 = TERMACK \<Longrightarrow> 4 \<le> length q \<Longrightarrow> fsm_ok lv d k (b \<or> stray_ack (PacketIn q) f) (fsm_rtermack cb f)"
    using rtermack_ok [OF p o] by simp
  have c: "fsm_ok lv d k b (fsm_rcoderej l f)" for l
    using o by (cases rule: state_cases [OF o]) (simp_all add: fsm_rcoderej_def ok_simps del: not_None_eq)
  have e: "fsm_ok lv d k b (fsm_sdata x y z w (g\<lparr>f_id := i\<rparr>)) \<and> fsm_ok lv d k b g" if "leaves lv 0 f g" for x y z w g i
    using o leaves_simps [OF that] by (simp add: fsm_ok_def)
  have e0: "leaves lv 0 f f"
    by (simp add: leaves_def)
  show ?thesis
    using t fsm_ok_weaken [OF o] fsm_ok_weaken [OF rconfreq_ok [OF p o]] fsm_ok_weaken [OF rconfack_ok [OF p o]]
      fsm_ok_weaken [OF rconfnakrej_ok [OF p o]] fsm_ok_weaken [OF rtermreq_ok [OF p o]] fsm_ok_weaken [OF c]
      fsm_ok_weaken [OF e [THEN conjunct1]] fsm_ok_weaken [OF e [THEN conjunct2]] e0 polite_leaves(13) [OF p]
    unfolding fsm_input_def Let_def
    by (simp add: case_prod_unfold del: stray_ack.simps split: option.split)
qed

lemma step_ok:
  assumes p: "polite lv d cb" and o: "fsm_ok lv d k b f" and s: "fsm_step cb e f f'"
  shows "fsm_ok lv d k (b \<or> stray_ack e f) f'"
  using s input_ok [OF p o]
  by (cases e) (auto simp: fsm_step_iff intro: lowerup_ok [OF p o] lowerdown_ok [OF p o] open_ok [OF p o] close_ok [OF p o]
      timeout_ok [OF p o] protreject_ok [OF p o] simp del: stray_ack.simps(1))

lemma reach_ok:
  assumes p: "polite lv d cb" and t: "f_timer f0 = None" and r: "fsm_reach cb f0 b f"
  shows "fsm_ok lv d (lv (f_world f0)) b f"
  using r
proof (induction rule: fsm_reach.induct)
  case start
  show ?case
    using t by (simp add: fsm_ok_def fsm_init_def timing_def)
next
  case (step b f e f')
  then show ?case
    by (intro step_ok [OF p])
qed


section \<open>The automaton of RFC 1661\<close>

text \<open>
  The transition table of RFC 1661, section 4.1, without its actions; an entry that the RFC leaves out keeps the state.  The
  columns are the ten states in the order of their numbers.
\<close>

datatype rfc_event = RUp | RDown | ROpen | RClose | TOplus | TOminus | RCRplus | RCRminus | RCA | RCN | RTR | RTA | RUC
  | RXJplus | RXJminus

fun rfc_row :: "rfc_event \<Rightarrow> int list" where
  "rfc_row RUp      = [2, 6, 2, 3, 4, 5, 6, 7, 8, 9]"
| "rfc_row RDown    = [0, 1, 0, 1, 0, 1, 1, 1, 1, 1]"
| "rfc_row ROpen    = [1, 1, 6, 3, 5, 5, 6, 7, 8, 9]"
| "rfc_row RClose   = [0, 0, 2, 2, 4, 4, 4, 4, 4, 4]"
| "rfc_row TOplus   = [0, 1, 2, 3, 4, 5, 6, 6, 8, 9]"
| "rfc_row TOminus  = [0, 1, 2, 3, 2, 3, 3, 3, 3, 9]"
| "rfc_row RCRplus  = [0, 1, 2, 8, 4, 5, 8, 9, 8, 8]"
| "rfc_row RCRminus = [0, 1, 2, 6, 4, 5, 6, 7, 6, 6]"
| "rfc_row RCA      = [0, 1, 2, 3, 4, 5, 7, 6, 9, 6]"
| "rfc_row RCN      = [0, 1, 2, 3, 4, 5, 6, 6, 8, 6]"
| "rfc_row RTR      = [0, 1, 2, 3, 4, 5, 6, 6, 6, 5]"
| "rfc_row RTA      = [0, 1, 2, 3, 2, 3, 6, 6, 8, 6]"
| "rfc_row RUC      = [0, 1, 2, 3, 4, 5, 6, 7, 8, 9]"
| "rfc_row RXJplus  = [0, 1, 2, 3, 4, 5, 6, 6, 8, 9]"
| "rfc_row RXJminus = [0, 1, 2, 3, 2, 3, 3, 3, 3, 5]"

definition rfc_next :: "rfc_event option \<Rightarrow> int \<Rightarrow> int" where
  "rfc_next r s = (case r of None \<Rightarrow> s | Some e \<Rightarrow> rfc_row e ! nat s)"

text \<open>Whether the options of a Configure-Request are accepted, and which event of the RFC a packet is; \<open>None\<close> when it is tossed.\<close>

definition agrees :: "'w fsm_callbacks \<Rightarrow> u8 list \<Rightarrow> int \<Rightarrow> 'w fsm \<Rightarrow> bool" where
  "agrees cb inp len f =
     (let g = (if f_state f = LS_OPENED then fsm_sconfreq cb False (callback (down cb) f)
               else if f_state f = LS_STOPPED then (fsm_sconfreq cb False f)\<lparr>f_state := LS_REQSENT\<rparr>
               else f)
      in case reqci cb of None \<Rightarrow> len = 0 | Some c \<Rightarrow> fst (fst (c inp len (f_nakloops g \<ge> f_maxnakloops g) g)) = 2)"

definition rfc_packet :: "'w fsm_callbacks \<Rightarrow> u8 list \<Rightarrow> 'w fsm \<Rightarrow> rfc_event option" where
  "rfc_packet cb p f =
     (if length p < 4 \<or> f_state f = LS_INITIAL \<or> f_state f = LS_STARTING then None
      else
        let len = 256 * uint (p ! 2) + uint (p ! 3) - 4; inp = drop 4 p; expected = (p ! 1 = f_reqid f \<and> f_seen_ack f = 0)
        in if len < 0 \<or> len + 4 > int (length p) then None
           else if p ! 0 = CONFREQ then Some (if agrees cb inp len f then RCRplus else RCRminus)
           else if p ! 0 = CONFACK then
             if expected \<and> (case ackci cb of None \<Rightarrow> len = 0 | Some a \<Rightarrow> fst (a inp len f) \<noteq> 0) then Some RCA else None
           else if p ! 0 = CONFNAK \<or> p ! 0 = CONFREJ then
             if expected \<and> (case (if p ! 0 = CONFNAK then nakci cb else rejci cb) of None \<Rightarrow> False | Some a \<Rightarrow> fst (a inp len f) \<noteq> 0)
             then Some RCN else None
           else if p ! 0 = TERMREQ then Some RTR
           else if p ! 0 = TERMACK then Some RTA
           else if p ! 0 = CODEREJ then if len < 4 then None else Some RXJplus
           else Some RUC)"

fun rfc_event_of :: "'w fsm_callbacks \<Rightarrow> fsm_event \<Rightarrow> 'w fsm \<Rightarrow> rfc_event option" where
  "rfc_event_of cb LowerUp f = Some RUp"
| "rfc_event_of cb LowerDown f = Some RDown"
| "rfc_event_of cb OpenReq f = Some ROpen"
| "rfc_event_of cb (CloseReq r) f = Some RClose"
| "rfc_event_of cb TimerExpired f = Some (if f_retransmits f > 0 then TOplus else TOminus)"
| "rfc_event_of cb (PacketIn p) f = rfc_packet cb p f"
| "rfc_event_of cb ProtReject f = Some RXJminus"

text \<open>The routines that look at a Nak or a Reject never ask to stop by a negative answer, as that of CCP does.\<close>

definition never_stops :: "'w fsm_callbacks \<Rightarrow> bool" where
  "never_stops cb \<longleftrightarrow> (\<forall>c \<in> {nakci cb, rejci cb}. \<forall>g inp len f. c = Some g \<longrightarrow> 0 \<le> fst (g inp len f))"

lemma numbered:
  assumes "LS_INITIAL \<le> s" "s \<le> LS_OPENED"
  obtains "s = 0" | "s = 1" | "s = 2" | "s = 3" | "s = 4" | "s = 5" | "s = 6" | "s = 7" | "s = 8" | "s = 9"
proof -
  have "s = 0 \<or> s = 1 \<or> s = 2 \<or> s = 3 \<or> s = 4 \<or> s = 5 \<or> s = 6 \<or> s = 7 \<or> s = 8 \<or> s = 9"
    using assms by presburger
  then show thesis
    using that by blast
qed

lemmas next_simps = rfc_next_def Let_def

lemma rconfreq_next:
  assumes p: "polite lv d cb" and s: "LS_INITIAL \<le> f_state f" "f_state f \<le> LS_OPENED"
    and n: "f_state f \<noteq> LS_INITIAL" "f_state f \<noteq> LS_STARTING"
  shows "f_state (fsm_rconfreq cb n inp len f) = rfc_next (Some (if agrees cb inp len f then RCRplus else RCRminus)) (f_state f)"
proof (cases "reqci cb")
  case None
  then show ?thesis
    using n by (cases rule: numbered [OF s])
      (simp_all add: fsm_rconfreq_def agrees_def next_simps polite_simps [OF p] fsm_sconfreq_keeps [OF p])
next
  case (Some c)
  then show ?thesis
    using n by (cases rule: numbered [OF s])
      (simp_all add: fsm_rconfreq_def agrees_def next_simps polite_simps [OF p] fsm_sconfreq_keeps [OF p] case_prod_unfold)
qed

lemma rconfack_next:
  assumes p: "polite lv d cb" and s: "LS_INITIAL \<le> f_state f" "f_state f \<le> LS_OPENED"
    and n: "f_state f \<noteq> LS_INITIAL" "f_state f \<noteq> LS_STARTING"
  shows "f_state (fsm_rconfack cb n inp len f) =
    rfc_next (if n = f_reqid f \<and> f_seen_ack f = 0 \<and> (case ackci cb of None \<Rightarrow> len = 0 | Some a \<Rightarrow> fst (a inp len f) \<noteq> 0)
              then Some RCA else None) (f_state f)"
proof -
  obtain good g where r: "(case ackci cb of Some a \<Rightarrow> a inp len f | None \<Rightarrow> (if len = 0 then 1 else 0, f)) = (good, g)"
    by (rule prod.exhaust)
  have st: "f_state g = f_state f"
    using r polite_simps(9) [OF p, of _ inp len f] by (auto split: option.split_asm)
  have ok: "(case ackci cb of None \<Rightarrow> len = 0 | Some a \<Rightarrow> fst (a inp len f) \<noteq> 0) \<longleftrightarrow> good \<noteq> 0"
    using r by (auto split: option.splits if_splits)
  show ?thesis
    using n st unfolding fsm_rconfack_def r ok Let_def
    by (cases rule: numbered [OF s])
      (simp_all add: next_simps polite_simps [OF p] fsm_sconfreq_keeps [OF p])
qed

lemma rconfnakrej_next:
  assumes p: "polite lv d cb" and s: "LS_INITIAL \<le> f_state f" "f_state f \<le> LS_OPENED"
    and n: "f_state f \<noteq> LS_INITIAL" "f_state f \<noteq> LS_STARTING" and k: "never_stops cb"
  shows "f_state (fsm_rconfnakrej cb c n inp len f) =
    rfc_next (if n = f_reqid f \<and> f_seen_ack f = 0 \<and>
                 (case (if c = CONFNAK then nakci cb else rejci cb) of None \<Rightarrow> False | Some a \<Rightarrow> fst (a inp len f) \<noteq> 0)
              then Some RCN else None) (f_state f)"
proof -
  obtain ret g where r: "(case (if c = CONFNAK then nakci cb else rejci cb) of None \<Rightarrow> (0, f) | Some proc \<Rightarrow> proc inp len f) = (ret, g)"
    by (rule prod.exhaust)
  have st: "f_state g = f_state f"
    using r polite_simps(10) [OF p, of _ inp len f] polite_simps(11) [OF p, of _ inp len f]
    by (auto split: option.split_asm if_split_asm)
  have ok: "(case (if c = CONFNAK then nakci cb else rejci cb) of None \<Rightarrow> False | Some a \<Rightarrow> fst (a inp len f) \<noteq> 0) \<longleftrightarrow> ret \<noteq> 0"
    using r by (auto split: option.splits if_splits)
  have "0 \<le> fst (case (if c = CONFNAK then nakci cb else rejci cb) of None \<Rightarrow> (0, f) | Some proc \<Rightarrow> proc inp len f)"
    using k by (auto simp: never_stops_def split: option.splits)
  then have "\<not> ret < 0"
    unfolding r by simp
  then show ?thesis
    using n st unfolding fsm_rconfnakrej_def r ok Let_def
    by (cases rule: numbered [OF s])
      (simp_all add: next_simps polite_simps [OF p] fsm_sconfreq_keeps [OF p])
qed

lemma input_next:
  assumes p: "polite lv d cb" and s: "LS_INITIAL \<le> f_state f" "f_state f \<le> LS_OPENED"
    and k: "never_stops cb" and t: "\<not> stray_ack (PacketIn q) f"
  shows "f_state (fsm_input cb q f) = rfc_next (rfc_packet cb q f) (f_state f)"
proof (cases "int (length q) < HEADERLEN \<or> 256 * uint (q ! 2) + uint (q ! 3) < HEADERLEN
      \<or> 256 * uint (q ! 2) + uint (q ! 3) > int (length q) \<or> f_state f = LS_INITIAL \<or> f_state f = LS_STARTING")
  case True
  then have "fsm_input cb q f = f" and "rfc_packet cb q f = None"
    by (elim disjE; simp add: fsm_input_def rfc_packet_def Let_def)+
  then show ?thesis
    by (simp add: rfc_next_def)
next
  case False
  let ?len = "256 * uint (q ! 2) + uint (q ! 3) - HEADERLEN"
  from False have n: "f_state f \<noteq> LS_INITIAL" "f_state f \<noteq> LS_STARTING" and l: "\<not> length q < 4" "\<not> ?len < 0"
      "\<not> ?len + 4 > int (length q)" and l': "\<not> int (length q) < HEADERLEN" "\<not> ?len + 4 < HEADERLEN"
    by auto
  have tr: "f_state (fsm_rtermreq cb i f) = rfc_next (Some RTR) (f_state f)" for i
    by (cases rule: numbered [OF s]) (simp_all add: fsm_rtermreq_def next_simps polite_simps [OF p])
  have ta: "f_state (fsm_rtermack cb f) = rfc_next (Some RTA) (f_state f)" if "f_state f \<noteq> LS_OPENED"
    using that by (cases rule: numbered [OF s]) (simp_all add: fsm_rtermack_def next_simps polite_simps [OF p])
  have cr: "f_state (fsm_rcoderej i f) = rfc_next (if i < 4 then None else Some RXJplus) (f_state f)" for i
    by (cases rule: numbered [OF s]) (simp_all add: fsm_rcoderej_def next_simps)
  have uc: "rfc_next (Some RUC) (f_state f) = f_state f"
    by (cases rule: numbered [OF s]) (simp_all add: next_simps)
  have ex: "f_state (snd (case extcode cb of None \<Rightarrow> (0, f) | Some e \<Rightarrow> e c i inp len f)) = f_state f" for c i inp len
    using polite_simps(13) [OF p, of _ c i inp len f] by (auto split: option.split)
  have i: "int (length q) < HEADERLEN \<longleftrightarrow> False" "256 * uint (q ! 2) + uint (q ! 3) < HEADERLEN \<longleftrightarrow> False"
    "256 * uint (q ! 2) + uint (q ! 3) > int (length q) \<longleftrightarrow> False" "f_state f = LS_INITIAL \<or> f_state f = LS_STARTING \<longleftrightarrow> False"
    "length q < 4 \<or> f_state f = LS_INITIAL \<or> f_state f = LS_STARTING \<longleftrightarrow> False"
    "?len < 0 \<or> ?len + 4 > int (length q) \<longleftrightarrow> False"
    using False by auto
  have to: "f_state f \<noteq> LS_OPENED" if "q ! 0 = TERMACK"
    using t that False by simp
  consider "q ! 0 = CONFREQ" | "q ! 0 = CONFACK" | "q ! 0 = CONFNAK" | "q ! 0 = CONFREJ" | "q ! 0 = TERMREQ" | "q ! 0 = TERMACK"
    | "q ! 0 = CODEREJ"
    | "\<not> (q ! 0 = CONFREQ \<or> q ! 0 = CONFACK \<or> q ! 0 = CONFNAK \<or> q ! 0 = CONFREJ \<or> q ! 0 = TERMREQ \<or> q ! 0 = TERMACK \<or> q ! 0 = CODEREJ)"
    by blast
  then show ?thesis
    unfolding fsm_input_def rfc_packet_def Let_def i if_False
    by cases (simp_all add: rconfreq_next [OF p s n] rconfack_next [OF p s n] rconfnakrej_next [OF p s n k] tr ta [OF to] cr
        uc case_prod_unfold ex l(1))
qed

lemma lowerup_next:
  assumes p: "polite lv d cb" and s: "LS_INITIAL \<le> f_state f" "f_state f \<le> LS_OPENED" and o: "f_flags f AND OPT_SILENT = 0"
  shows "f_state (fsm_lowerup cb f) = rfc_next (Some RUp) (f_state f)"
  using o by (cases rule: numbered [OF s]) (simp_all add: fsm_lowerup_def next_simps fsm_sconfreq_keeps [OF p])

lemma lowerdown_next:
  assumes p: "polite lv d cb" and s: "LS_INITIAL \<le> f_state f" "f_state f \<le> LS_OPENED"
  shows "f_state (fsm_lowerdown cb f) = rfc_next (Some RDown) (f_state f)"
  by (cases rule: numbered [OF s]) (simp_all add: fsm_lowerdown_def next_simps polite_simps [OF p])

lemma open_next:
  assumes p: "polite lv d cb" and s: "LS_INITIAL \<le> f_state f" "f_state f \<le> LS_OPENED" and o: "f_flags f AND OPT_SILENT = 0"
    "f_flags f AND OPT_RESTART = 0"
  shows "f_state (fsm_open cb f) = rfc_next (Some ROpen) (f_state f)"
  using o by (cases rule: numbered [OF s])
    (simp_all add: fsm_open_def next_simps polite_simps [OF p] fsm_sconfreq_keeps [OF p])

lemma close_next:
  assumes p: "polite lv d cb" and s: "LS_INITIAL \<le> f_state f" "f_state f \<le> LS_OPENED"
  shows "f_state (fsm_close cb r f) = rfc_next (Some RClose) (f_state f)"
  by (cases rule: numbered [OF s]) (simp_all add: fsm_close_def next_simps polite_simps [OF p])

lemma timeout_next:
  assumes p: "polite lv d cb" and s: "LS_INITIAL \<le> f_state f" "f_state f \<le> LS_OPENED"
  shows "f_state (fsm_timeout cb (f\<lparr>f_timer := None\<rparr>)) = rfc_next (Some (if f_retransmits f > 0 then TOplus else TOminus)) (f_state f)"
  by (cases rule: numbered [OF s])
    (simp_all add: fsm_timeout_def next_simps polite_simps [OF p] fsm_sconfreq_keeps [OF p])

lemma protreject_next:
  assumes p: "polite lv d cb" and s: "LS_INITIAL \<le> f_state f" "f_state f \<le> LS_OPENED"
  shows "f_state (fsm_protreject cb f) = rfc_next (Some RXJminus) (f_state f)"
  by (cases rule: numbered [OF s]) (simp_all add: fsm_protreject_def next_simps polite_simps [OF p])

section \<open>Silence\<close>

text \<open>What becomes of a machine whose peer has fallen silent: only its timer expires.\<close>

definition expire :: "'w fsm_callbacks \<Rightarrow> 'w fsm \<Rightarrow> 'w fsm" where
  "expire cb f = fsm_handle cb TimerExpired f"

definition negotiating :: "int \<Rightarrow> bool" where
  "negotiating s \<longleftrightarrow> s \<in> {LS_REQSENT, LS_ACKRCVD, LS_ACKSENT}"

lemma expire_retries:
  assumes p: "polite lv d cb" and s: "timing (f_state f)" and r: "0 < f_retransmits f"
  shows "timing (f_state (expire cb f)) \<and> (negotiating (f_state (expire cb f)) \<longleftrightarrow> negotiating (f_state f)) \<and>
    (f_state (expire cb f) = LS_CLOSING \<longleftrightarrow> f_state f = LS_CLOSING) \<and>
    f_timer (expire cb f) \<noteq> None \<and> f_retransmits (expire cb f) = f_retransmits f - 1 \<and>
    length (f_sent (expire cb f)) = Suc (length (f_sent f))"
  using s r unfolding timing_def insert_iff
  by (elim disjE)
    (simp_all add: expire_def fsm_timeout_def negotiating_def timing_def Let_def polite_simps [OF p] fsm_sconfreq_keeps [OF p]
      del: not_None_eq)

lemma expire_ends:
  assumes p: "polite lv d cb" and s: "timing (f_state f)" and r: "f_retransmits f \<le> 0"
  shows "f_state (expire cb f) = (if f_state f = LS_CLOSING then LS_CLOSED else LS_STOPPED) \<and> f_timer (expire cb f) = None \<and>
    f_sent (expire cb f) = f_sent f"
  using s r unfolding timing_def insert_iff
  by (elim disjE) (simp_all add: expire_def fsm_timeout_def Let_def polite_simps [OF p])

lemma expire_last:
  assumes p: "polite lv d cb"
  shows "timing (f_state f) \<Longrightarrow> f_retransmits f = int n \<Longrightarrow>
    f_state ((expire cb ^^ Suc n) f) = (if f_state f = LS_CLOSING then LS_CLOSED else LS_STOPPED) \<and>
    f_timer ((expire cb ^^ Suc n) f) = None \<and> length (f_sent ((expire cb ^^ Suc n) f)) = length (f_sent f) + n"
proof (induction n arbitrary: f)
  case 0
  then show ?case
    using expire_ends [OF p 0(1)] by simp
next
  case (Suc n)
  have "f_state (expire cb f) = LS_CLOSING \<longleftrightarrow> f_state f = LS_CLOSING"
    using expire_retries [OF p Suc.prems(1)] Suc.prems unfolding timing_def negotiating_def by auto
  moreover have "timing (f_state (expire cb f))" "f_retransmits (expire cb f) = int n"
      "length (f_sent (expire cb f)) = Suc (length (f_sent f))"
    using expire_retries [OF p Suc.prems(1)] Suc.prems(2) by simp_all
  moreover have "(expire cb ^^ Suc (Suc n)) f = (expire cb ^^ Suc n) (expire cb f)"
    by (simp only: funpow_Suc_right o_apply)
  ultimately show ?case
    using Suc.IH [of "expire cb f"] by simp
qed

lemma expire_first:
  assumes p: "polite lv d cb"
  shows "timing (f_state f) \<Longrightarrow> 0 < k \<Longrightarrow> int k \<le> f_retransmits f \<Longrightarrow>
    timing (f_state ((expire cb ^^ k) f)) \<and> f_timer ((expire cb ^^ k) f) \<noteq> None \<and>
    f_retransmits ((expire cb ^^ k) f) = f_retransmits f - int k"
proof (induction k)
  case (Suc k)
  show ?case
  proof (cases k)
    case 0
    then show ?thesis
      using expire_retries [OF p Suc.prems(1)] Suc.prems(3) by simp
  next
    case (Suc m)
    then show ?thesis
      using Suc.IH Suc.prems expire_retries [OF p, of "(expire cb ^^ k) f"] by simp
  qed
qed simp

section \<open>Theorems\<close>





section \<open>An example\<close>

text \<open>A protocol without options whose layer counts, and its way to Opened: the peer acknowledges the request and sends its own.\<close>

definition sample_protocol :: "int fsm_callbacks" where
  "sample_protocol = \<lparr>resetci = None, cilen = None, addci = None, ackci = None, nakci = None, rejci = None, reqci = None,
     up = Some (\<lambda>f. f\<lparr>f_world := f_world f + 1\<rparr>), down = Some (\<lambda>f. f\<lparr>f_world := f_world f - 1\<rparr>),
     starting = None, finished = None, cb_retransmit = None, extcode = None\<rparr>"

definition sample_fsm :: "int fsm" where
  "sample_fsm = \<lparr>f_protocol = 0xc021, f_state = 0, f_flags = 0, f_id = 0, f_reqid = 0, f_seen_ack = 0, f_timeouttime = 0,
     f_maxconfreqtransmits = 0, f_retransmits = 0, f_maxtermtransmits = 0, f_nakloops = 0, f_maxnakloops = 0, f_term_reason = [],
     f_term_reason_len = 0, f_outpacket = [], f_peer_mru = 1500, f_sent = [], f_timer = None, f_world = 0\<rparr>"

definition sample_sent :: "int fsm" where
  "sample_sent = fsm_handle sample_protocol LowerUp (fsm_handle sample_protocol OpenReq (fsm_init sample_fsm))"

definition sample_opened :: "int fsm" where
  "sample_opened = fsm_handle sample_protocol (PacketIn [CONFREQ, 7, 0, 4])
     (fsm_handle sample_protocol (PacketIn [CONFACK, 1, 0, 4]) sample_sent)"

lemmas handle_defs = fsm_lowerup_def fsm_open_def fsm_init_def fsm_sconfreq_def fsm_sdata_def TIMEOUT_def UNTIMEOUT_def
  fsm_input_def fsm_rconfreq_def fsm_rconfack_def callback_def

lemma sample_polite: "polite (\<lambda>_. 0) 0 sample_protocol" "polite (\<lambda>x. x) 1 sample_protocol"
  by (simp_all add: polite_def leaves_def ctl_def callback_def sample_protocol_def)

lemma sample_sent_is:
  "f_state sample_sent = LS_REQSENT \<and> f_flags sample_sent = 0 \<and> f_reqid sample_sent = 1 \<and> f_seen_ack sample_sent = 0 \<and>
   f_retransmits sample_sent = 9 \<and> f_timer sample_sent = Some 6000 \<and> f_sent sample_sent = [[0xff, 3, 0xc0, 0x21, 1, 1, 0, 4]]"
  by code_simp

lemma sample_opened_is: "f_state sample_opened = LS_OPENED \<and> f_flags sample_opened = 0 \<and> f_world sample_opened = 1"
  by code_simp

lemma reach_event:
  "fsm_reach cb f0 False f \<Longrightarrow> e \<noteq> TimerExpired \<Longrightarrow> \<not> stray_ack e f \<Longrightarrow> fsm_reach cb f0 False (fsm_handle cb e f)"
  using fsm_reach.step [of cb f0 False f e] fsm_step.event [of e cb f] by simp

lemma sample_reached:
  "fsm_reach sample_protocol sample_fsm False sample_sent" "fsm_reach sample_protocol sample_fsm False sample_opened"
proof -
  show 1: "fsm_reach sample_protocol sample_fsm False sample_sent"
    unfolding sample_sent_def by (intro reach_event fsm_reach.start) simp_all
  show "fsm_reach sample_protocol sample_fsm False sample_opened"
    unfolding sample_opened_def by (intro reach_event 1) (simp_all add: sample_sent_is)
qed





end
