(* ===== verification/Spec2Isabelle.thy ===== *)
theory Spec2Isabelle
  imports Malloc Objects Threads Printk Uart Console Board MathLib Can SysArch Pbuf Packets PacketLife Chksum Emac Timeouts IpAddr Etharp ArpTable Fsm
begin

text \<open>
  ChinaOS is a preemptive kernel for Cortex-M3 boards (NXP LPC1766 and LPC1768) with an allocator, a
  serial console, drivers and a port of the lwIP network stack.  This development translates its own
  C code, and the few system calls of architecture/arm/cortex-m3/syscall.s, into definitions and proves
  what the parts promise.  All paths are below src/ChinaOS/, except src/project/hello/.

  \<^bold>\<open>Parts and how they interact.\<close>  Threads wait in rings of \<open>struct list_head\<close> (library/link/list.h): eight
  ready queues, one per priority, whose non-empty ones are the set bits of a bitmap, and the waiting
  lists of semaphores and mailboxes.  \<open>shift\<close> finds the highest set bit of the bitmap with the routines of
  library/bit/bit.c and takes the head of that queue; the PendSV exception switches stacks.  A thread
  that waits also hangs in the timer ring of ticker.c, which a hardware match timer drives; its exception
  puts expired threads back on their ready queue.  Semaphores, mailboxes and pipes are built on these
  rings; their objects come from the allocator (library/malloc/malloc.c), which is itself protected by a
  semaphore.  Threads are created with allocator memory and reaped by the idle thread.  The serial
  driver feeds \<open>printk\<close> and the console, whose interpreter calls commands of all the other parts.  The
  network stack reaches the kernel through sys\_arch.c.

  \<^bold>\<open>Theories.\<close>
  \<^item> \<open>Prelude\<close>: machine types (include/types.h), status codes (include/macro.h), generic facts.
  \<^item> \<open>Bits\<close>: library/bit/bit.c, bit.h and library/misc: equality of the bit tricks with plain counts.
  \<^item> \<open>ListLib\<close>: library/link/list.h over two field maps; locale \<open>node_list\<close> is its contract (a ring holds a
    given sequence of nodes), interpreted on the code; the queues of all parts rest on it.
  \<^item> \<open>Ioport\<close>, \<open>Nvic\<close>: library/ioport.h (registers, implemented bits, log of writes) and nvic/interrupt.c.
  \<^item> \<open>KState\<close>: kernel/kernel.h, include/ticker.h: the record \<open>os\<close>, the invariant \<open>ready_inv\<close> (bitmap and ready
    queues agree), and \<open>vivify_thread\<close> that every waking call shares.
  \<^item> \<open>Ticker\<close>: lpc1766/ticker/ticker.c; the invariant \<open>timer_ring\<close> (sorted by expiry).
  \<^item> \<open>Sched\<close>: kernel/kernel.c: register of live threads, \<open>shift\<close>, \<open>scheduler\<close>, \<open>sleep\<close>, \<open>exit\<close>, \<open>pendsv_exception\<close>.
  \<^item> \<open>Semaphore\<close>, \<open>Mailbox\<close>, \<open>Pipe\<close>: kernel/semaphore, mailbox, pipe.  \<open>Channels\<close> holds the contracts \<open>fifo\<close> and
    \<open>stream\<close> that mailbox and pipe provide, with the laws of runs of calls proved once.
  \<^item> \<open>Malloc\<close>: library/malloc/malloc.c over words of memory: boundary tags, small rings, digital trees.
  \<^item> \<open>Objects\<close>: the calls that allocate and release semaphores, mailboxes and pipes.
  \<^item> \<open>Threads\<close>: \<open>labour\<close>, \<open>kill\<close>, \<open>startup\<close>, the idle loop (kernel.c) and \<open>stack_init\<close> (cpu.c).
  \<^item> \<open>Printk\<close>, \<open>Uart\<close>, \<open>Console\<close>: library/printk.c, lpc1766/uart, library/sysio, library/console.
  \<^item> \<open>Board\<close>: lpc1766/can\_repeater, timer, system\_init.c and the threads of project/hello.
  \<^item> \<open>MathLib\<close>: library/math/math.c.  \<open>Can\<close>: lpc1766/can.
  \<^item> \<open>SysArch\<close>: lpc1768/ethernet/sys\_arch.c, the kernel calls of the network stack.
  \<^bold>\<open>State.\<close>  The C heap is split by field: a field of a structure is a map from the address of the structure (a
  32-bit word, as \<open>Node\<close>, \<open>Timer\<close> and the other offsets lay it out).  One extensible chain of records holds all
  state, from the list cells up to the allocator, the console and the controllers, so that each
  theory's operations apply to the state of the theories above it.  Words on stacks and of handles lie in
  \<open>stack_mem\<close>, the allocator's words in \<open>hmem\<close>, bytes of buffers in \<open>bytes\<close>, text in \<open>chars\<close>; these do not overlap
  with the structures.  Integers keep their width, so they wrap as in C.

  \<^bold>\<open>Blocking.\<close>  A call that gives up the processor at \<open>OS_thread_switch\<close> is cut there: its first part ends with
  \<open>Switched\<close>, and a definition with the suffix \<open>_resume\<close> is the rest, applied to whatever state the thread finds
  when it runs again; \<open>after\<close> composes such calls.  Code between \<open>atom_operate_lock\<close> and \<open>atom_operate_unlock\<close> runs
  undisturbed, so interleavings are the orders of these parts.

  \<^bold>\<open>Bounds and fuel.\<close>  No fuel is used.  A loop whose end depends on memory (rings, trees, polling of a status bit)
  is a \<open>partial_function (option)\<close>, \<open>None\<close> meaning that it does not return, and the properties state
  that it returns (\<open>= Some \<dots>\<close>) under the well-formedness of what it walks over; other loops end by
  structural recursion or a measure.

  \<^bold>\<open>Parameters.\<close>  What the code calls but the repository does not define in C is an argument: call-backs and
  commands behind function pointers, the reactions of chips (\<open>tick\<close>, \<open>drains\<close>), what other threads do between
  two polls, the C library's \<open>atoi\<close>, and the tables and addresses the linker lays out (those of
  project/hello/hello.map where a number is needed).

  \<^bold>\<open>What the properties show.\<close>  Functional behaviour of every kernel call on each branch (scheduler, timers,
  semaphores, mailboxes, thread life); invariants (sorted timer ring, unit balance of a semaphore, allocator
  rings and boundary tags); refinement of queues and streams; equality of optimised routines with reference
  definitions; round trips (register of threads, printed digits, CAN frames, context switch); termination of
  the loops on well-formed data; and the flaws listed as findings, with the theorem that exhibits each where
  there is one.

  \<^bold>\<open>Not modelled.\<close>  The vendored packages: lwIP (ethernet/api, core, netif except what is listed above), the FAT
  file system (file/ff.c and its tables) are third-party code that this system's own code only calls.  The boot
  files, start-up and register definitions (lpc17xx.h) have no logic.  The directories of
  the lpc1768 boards repeat those of lpc1766.  architecture/arm/cortex-m3/ticker/ticker.c
  and lpc1768/ethernet/ethernet.c use structures and variables that the kernel no longer declares;
  uart1 to uart3 use undefined macros; rtc.c and \<open>ParseParam\<close> use undeclared names: none of these can be compiled, so
  they have no behaviour to model.  The \<open>hlist\<close> part of list.h is compiled out.
\<close>

end
